(* ===== verification/QM_Prelude.thy ===== *)
theory QM_Prelude
  imports Main "HOL-Library.Word" "HOL-Library.Sublist"
begin

text \<open>
  Shared vocabulary of the development. A C++ \<^verbatim>\<open>std::string\<close> is a \<^typ>\<open>string\<close>, a list of
  8-bit characters, and its bytes are read with \<^verbatim>\<open>of_char\<close>. The theory models what the
  sources use of the C and C++ standard library (\<^verbatim>\<open>std::string::find\<close>, \<^verbatim>\<open>rfind\<close>,
  \<^verbatim>\<open>substr\<close>, \<^verbatim>\<open>std::tolower\<close>, \<^verbatim>\<open>std::isspace\<close>, \<^verbatim>\<open>std::atoi\<close>,
  \<^verbatim>\<open>std::to_string\<close>) and collects the generic lemmas the components share.
  The \<^verbatim>\<open><cctype>\<close> functions are those of the "C" locale, which is the locale of a program
  that never calls \<^verbatim>\<open>setlocale\<close>.
\<close>

unbundle bit_operations_syntax

named_theorems qm_char "facts on single characters and character classes"
named_theorems qm_str "facts on the string library functions"

section \<open>Characters\<close>

abbreviation byte :: "char \<Rightarrow> nat" where
  "byte c \<equiv> of_char c"

text \<open>The value of a \<^verbatim>\<open>char\<close> where the code compares plain \<^verbatim>\<open>char\<close>s: on the
  platforms the extensions are built for, \<^verbatim>\<open>char\<close> is signed.\<close>

definition schar :: "char \<Rightarrow> int" where
  "schar c = (if byte c < 128 then int (byte c) else int (byte c) - 256)"

definition toupper :: "char \<Rightarrow> char" where
  "toupper c = (if 97 \<le> byte c \<and> byte c \<le> 122 then char_of (byte c - 32) else c)"

definition tolower :: "char \<Rightarrow> char" where
  "tolower c = (if 65 \<le> byte c \<and> byte c \<le> 90 then char_of (byte c + 32) else c)"

definition isspace :: "char \<Rightarrow> bool" where
  "isspace c = (byte c = 32 \<or> (9 \<le> byte c \<and> byte c \<le> 13))"

definition isdigit :: "char \<Rightarrow> bool" where
  "isdigit c = (48 \<le> byte c \<and> byte c \<le> 57)"

definition isupper :: "char \<Rightarrow> bool" where
  "isupper c = (65 \<le> byte c \<and> byte c \<le> 90)"

definition islower :: "char \<Rightarrow> bool" where
  "islower c = (97 \<le> byte c \<and> byte c \<le> 122)"

definition isalnum :: "char \<Rightarrow> bool" where
  "isalnum c = (isdigit c \<or> isupper c \<or> islower c)"

abbreviation (input) CR :: char where "CR \<equiv> CHR 0x0D"
abbreviation (input) LF :: char where "LF \<equiv> CHR 0x0A"
abbreviation (input) TAB :: char where "TAB \<equiv> CHR 0x09"
abbreviation (input) crlf :: string where "crlf \<equiv> [CR, LF]"

lemma byte_less [simp]: "byte c < 256"
  using of_char_mod_256 [of c, where 'a = nat] by (metis mod_less_divisor zero_less_numeral)

lemma char_eqI: "byte c = byte d \<Longrightarrow> c = d"
  by simp

lemma signed8_inject:
  fixes m n :: nat
  assumes "m < 256" "n < 256"
    and "(if m < 128 then int m else int m - 256) = (if n < 128 then int n else int n - 256)"
  shows "m = n"
  using assms by (auto split: if_splits)

lemma schar_inject [simp]: "schar c = schar d \<longleftrightarrow> c = d"
  using signed8_inject [OF byte_less byte_less, of c d] by (auto simp: schar_def)

lemma byte_tolower: "byte (tolower c) = (if 65 \<le> byte c \<and> byte c \<le> 90 then byte c + 32 else byte c)"
  by (simp add: tolower_def)

lemma tolower_idem [simp, qm_char]: "tolower (tolower c) = tolower c"
  by (rule char_eqI) (auto simp: byte_tolower)

lemma isupper_tolower [simp, qm_char]: "\<not> isupper (tolower c)"
  by (auto simp: isupper_def byte_tolower)

lemma tolower_other [qm_char]: "\<not> isupper c \<Longrightarrow> tolower c = c"
  by (auto simp: tolower_def isupper_def)

section \<open>Strings\<close>

definition Lower :: "string \<Rightarrow> string" where
  "Lower s = map tolower s"

definition Upper :: "string \<Rightarrow> string" where
  "Upper s = map toupper s"

lemma Lower_idem [simp, qm_str]: "Lower (Lower s) = Lower s"
  by (simp add: Lower_def)

lemma Lower_Nil [simp]: "Lower [] = []"
  by (simp add: Lower_def)

lemma Lower_eq_Nil [simp]: "Lower s = [] \<longleftrightarrow> s = []"
  by (simp add: Lower_def)

lemma Lower_append [simp]: "Lower (s @ t) = Lower s @ Lower t"
  by (simp add: Lower_def)

lemma length_Lower [simp]: "length (Lower s) = length s"
  by (simp add: Lower_def)

text \<open>\<open>find_from c s i\<close> is \<^verbatim>\<open>s.find(c, i)\<close>, with \<^verbatim>\<open>npos\<close> as \<^const>\<open>None\<close>;
  \<open>find_last c s\<close> is \<^verbatim>\<open>s.rfind(c)\<close>.\<close>

fun find_idx :: "char \<Rightarrow> string \<Rightarrow> nat option" where
  "find_idx c [] = None"
| "find_idx c (x # xs) = (if x = c then Some 0 else map_option Suc (find_idx c xs))"

definition find_from :: "char \<Rightarrow> string \<Rightarrow> nat \<Rightarrow> nat option" where
  "find_from c s i = map_option (\<lambda>k. k + i) (find_idx c (drop i s))"

definition find_last :: "char \<Rightarrow> string \<Rightarrow> nat option" where
  "find_last c s = map_option (\<lambda>k. length s - Suc k) (find_idx c (rev s))"

definition substr :: "string \<Rightarrow> nat \<Rightarrow> nat \<Rightarrow> string" where
  "substr s pos n = take n (drop pos s)"

lemma find_idx_None [qm_str]: "find_idx c s = None \<longleftrightarrow> c \<notin> set s"
  by (induction s) auto

lemma find_idx_Some [qm_str]:
  "find_idx c s = Some k \<longleftrightarrow> k < length s \<and> s ! k = c \<and> c \<notin> set (take k s)"
proof (induction s arbitrary: k)
  case (Cons x xs)
  then show ?case by (cases k) auto
qed simp

lemma find_idx_split: "c \<notin> set xs \<Longrightarrow> find_idx c (xs @ c # ys) = Some (length xs)"
  by (simp add: find_idx_Some nth_append)

text \<open>The loops of the sources that cut a string at each separator visit exactly these pieces.\<close>

fun split_on :: "char \<Rightarrow> string \<Rightarrow> string list" where
  "split_on d [] = [[]]"
| "split_on d (c # cs) =
     (if c = d then [] # split_on d cs
      else (case split_on d cs of [] \<Rightarrow> [[c]] | p # ps \<Rightarrow> (c # p) # ps))"

lemma split_on_not_Nil [simp]: "split_on d s \<noteq> []"
  by (induction s) (auto split: list.splits)

lemma split_on_free: "p \<in> set (split_on d s) \<Longrightarrow> d \<notin> set p"
  by (induction s arbitrary: p) (auto split: list.splits if_splits)

lemma split_on_append:
  "d \<notin> set x \<Longrightarrow> split_on d (x @ s) = (x @ hd (split_on d s)) # tl (split_on d s)"
  by (induction x) (auto split: list.splits)

fun join_on :: "char \<Rightarrow> string list \<Rightarrow> string" where
  "join_on d [] = []"
| "join_on d [x] = x"
| "join_on d (x # y # ys) = x @ d # join_on d (y # ys)"

lemma join_split [simp, qm_str]: "join_on d (split_on d s) = s"
proof (induction s)
  case (Cons c s)
  show ?case
  proof (cases "split_on d s")
    case (Cons p ps)
    with Cons.IH show ?thesis by (cases ps) auto
  qed simp
qed simp

lemma split_join [qm_str]:
  "ls \<noteq> [] \<Longrightarrow> list_all (\<lambda>l. d \<notin> set l) ls \<Longrightarrow> split_on d (join_on d ls) = ls"
proof (induction d ls rule: join_on.induct)
  case (2 d x)
  then show ?case using split_on_append [of d x "[]"] by simp
next
  case (3 d x y ys)
  then show ?case using split_on_append [of d x "d # join_on d (y # ys)"] by simp
qed simp

lemma join_on_Cons: "join_on d (x # xs) = (if xs = [] then x else x @ d # join_on d xs)"
  by (cases xs) auto

text \<open>A \<^verbatim>\<open>std::isspace\<close>-free trim of blanks and tabs at both ends.\<close>

definition is_blank :: "char \<Rightarrow> bool" where
  "is_blank c = (c = CHR '' '' \<or> c = TAB)"

definition trim_blank :: "string \<Rightarrow> string" where
  "trim_blank s = rev (dropWhile is_blank (rev (dropWhile is_blank s)))"

text \<open>The trim of blanks, tabs and line ends that several sources define:
  \<^verbatim>\<open>find_first_not_of\<close> and \<^verbatim>\<open>find_last_not_of\<close> of these four characters.\<close>

definition is_ws :: "char \<Rightarrow> bool" where
  "is_ws c = (c = CHR '' '' \<or> c = TAB \<or> c = CR \<or> c = LF)"

definition Trim :: "string \<Rightarrow> string" where
  "Trim s = rev (dropWhile is_ws (rev (dropWhile is_ws s)))"

section \<open>Numbers in text\<close>

text \<open>\<^verbatim>\<open>std::to_string\<close> on integers.\<close>

fun digits_of :: "nat \<Rightarrow> string" where
  "digits_of n = (if n < 10 then [char_of (48 + n)] else digits_of (n div 10) @ [char_of (48 + n mod 10)])"

declare digits_of.simps [simp del]

definition to_string :: "int \<Rightarrow> string" where
  "to_string i = (if i < 0 then CHR ''-'' # digits_of (nat (- i)) else digits_of (nat i))"

text \<open>\<^verbatim>\<open>std::strtoll(s, &end, 10)\<close>: white space, a sign, digits, saturating at the limits
  of 64 bits. The second component is the text at \<^verbatim>\<open>end\<close>, the whole of \<open>s\<close> when there is
  no number. A C string ends at its first NUL.\<close>

definition digits_val :: "string \<Rightarrow> nat" where
  "digits_val ds = foldl (\<lambda>n d. 10 * n + (byte d - 48)) 0 ds"

definition clamp64 :: "int \<Rightarrow> int" where
  "clamp64 i = max (- (2 ^ 63)) (min (2 ^ 63 - 1) i)"

definition c_str :: "string \<Rightarrow> string" where
  "c_str s = takeWhile (\<lambda>c. c \<noteq> CHR 0x00) s"

definition strtoll :: "string \<Rightarrow> int \<times> string" where
  "strtoll s =
     (let s0 = c_str s;
          s1 = dropWhile isspace s0;
          neg = (s1 \<noteq> [] \<and> hd s1 = CHR ''-'');
          s2 = (if s1 \<noteq> [] \<and> (hd s1 = CHR ''-'' \<or> hd s1 = CHR ''+'') then tl s1 else s1);
          ds = takeWhile isdigit s2
      in if ds = [] then (0, s0)
         else (clamp64 (if neg then - int (digits_val ds) else int (digits_val ds)), dropWhile isdigit s2))"

text \<open>\<^verbatim>\<open>std::atoi\<close>: the value of \<^verbatim>\<open>strtol\<close> cut to 32 bits.\<close>

definition wrap32 :: "int \<Rightarrow> int" where
  "wrap32 i = (i + 2 ^ 31) mod 2 ^ 32 - 2 ^ 31"

definition atoi :: "string \<Rightarrow> int" where
  "atoi s = wrap32 (fst (strtoll s))"

text \<open>Printed numbers read back.\<close>

lemma digits_of_isdigit: "d \<in> set (digits_of n) \<Longrightarrow> isdigit d"
proof (induction n arbitrary: d rule: digits_of.induct)
  case (1 n)
  then show ?case
    by (subst (asm) (2) digits_of.simps) (auto simp: isdigit_def split: if_splits)
qed

lemma digits_of_not_Nil [simp]: "digits_of n \<noteq> []"
  by (subst digits_of.simps) simp

lemma digits_val_snoc: "digits_val (ds @ [d]) = 10 * digits_val ds + (byte d - 48)"
  by (simp add: digits_val_def)

lemma digits_val_zeros: "digits_val (replicate k CHR ''0'' @ ds) = digits_val ds"
  by (induction k) (auto simp: digits_val_def)

lemma digits_val_digits_of [simp]: "digits_val (digits_of n) = n"
proof (induction n rule: digits_of.induct)
  case (1 n)
  show ?case
  proof (cases "n < 10")
    case True
    then show ?thesis by (subst digits_of.simps) (simp add: digits_val_def)
  next
    case False
    with 1 have "digits_val (digits_of (n div 10)) = n div 10" by blast
    moreover have "byte (char_of (48 + n mod 10) :: char) - 48 = n mod 10"
      by (simp add: mod_less_eq_dividend)
    ultimately show ?thesis using False
      by (subst digits_of.simps) (simp add: digits_val_snoc del: of_char_of)
  qed
qed

lemma length_digits_of: "n < 10 ^ k \<Longrightarrow> 0 < k \<Longrightarrow> length (digits_of n) \<le> k"
proof (induction k arbitrary: n)
  case (Suc k)
  show ?case
  proof (cases "n < 10")
    case True
    then show ?thesis by (subst digits_of.simps) simp
  next
    case False
    then have "0 < k" using Suc.prems by (cases k) auto
    moreover have "n div 10 < 10 ^ k" using Suc.prems by (simp add: div_less_iff_less_mult mult.commute)
    ultimately show ?thesis using Suc.IH [of "n div 10"] False by (subst digits_of.simps) simp
  qed
qed simp

lemma strtoll_to_string:
  assumes "- (2 ^ 63) \<le> i" "i < 2 ^ 63" and "\<not> (s \<noteq> [] \<and> isdigit (hd s))" "CHR 0x00 \<notin> set s"
  shows "strtoll (to_string i @ s) = (i, s)"
proof -
  have no_nul: "isdigit c \<Longrightarrow> c \<noteq> CHR 0x00" for c by (auto simp: isdigit_def)
  have whole: "c_str (to_string i @ s) = to_string i @ s"
    using assms(4) no_nul digits_of_isdigit
    unfolding c_str_def to_string_def
    by (auto simp: takeWhile_eq_all_conv)
  have span: "takeWhile isdigit (digits_of n @ s) = digits_of n" "dropWhile isdigit (digits_of n @ s) = s" for n
    using assms(3) digits_of_isdigit [of _ n]
    by (cases s; simp add: takeWhile_append2 dropWhile_append2)+
  obtain d ds where hd: "digits_of (nat i) = d # ds" "isdigit d" if "0 \<le> i"
    by (metis digits_of_isdigit digits_of_not_Nil list.set_intros(1) neq_Nil_conv)
  have skip: "dropWhile isspace (to_string i @ s) = to_string i @ s"
    using hd by (auto simp: to_string_def isspace_def isdigit_def)
  have sign: "hd (to_string i @ s) = CHR ''-'' \<longleftrightarrow> i < 0" "hd (to_string i @ s) \<noteq> CHR ''+''"
    using hd by (auto simp: to_string_def isdigit_def)
  show ?thesis
  proof (cases "i < 0")
    case True
    then show ?thesis using assms(1,2)
      by (simp add: strtoll_def Let_def whole skip) (simp add: to_string_def span clamp64_def isspace_def)
  next
    case False
    then show ?thesis using assms(1,2) sign
      by (simp add: strtoll_def Let_def whole skip) (simp add: to_string_def span clamp64_def)
  qed
qed
section \<open>Lists\<close>

lemma list_induct3 [case_names Nil One Two Step]:
  assumes "P []" and "\<And>a. P [a]" and "\<And>a b. P [a, b]"
    and "\<And>a b c xs. P xs \<Longrightarrow> P (a # b # c # xs)"
  shows "P xs"
proof (induction xs rule: length_induct)
  case (1 xs)
  show ?case
  proof (cases xs)
    case Nil then show ?thesis using assms(1) by simp
  next
    case (Cons a as)
    show ?thesis
    proof (cases as)
      case Nil then show ?thesis using Cons assms(2) by simp
    next
      case (Cons b bs)
      with \<open>xs = a # as\<close> 1 assms(3,4) show ?thesis by (cases bs) auto
    qed
  qed
qed


section \<open>The contract of a text codec\<close>

text \<open>What the clients of a transfer encoding rely on: decoding succeeds on every encoded text and
  gives the bytes back, and the encoded text stays within an alphabet.\<close>

locale text_codec =
  fixes encode :: "string \<Rightarrow> string"
    and decode :: "string \<Rightarrow> bool \<times> string"
    and alphabet :: "char \<Rightarrow> bool"
  assumes decode_encode: "decode (encode s) = (True, s)"
    and encode_alphabet: "c \<in> set (encode s) \<Longrightarrow> alphabet c"
begin

lemma encode_inject: "encode s = encode t \<longleftrightarrow> s = t"
  by (metis decode_encode snd_conv)

lemma encode_avoids: "\<not> alphabet c \<Longrightarrow> c \<notin> set (encode s)"
  using encode_alphabet by blast

lemma encode_span:
  assumes "\<not> alphabet c"
  shows "takeWhile (\<lambda>d. d \<noteq> c) (encode s @ c # rest) = encode s"
    and "dropWhile (\<lambda>d. d \<noteq> c) (encode s @ c # rest) = c # rest"
  using encode_avoids [OF assms, of s] by (auto simp: takeWhile_append dropWhile_append)

lemma find_idx_after_encode:
  assumes "\<not> alphabet c"
  shows "find_idx c (encode s @ c # rest) = Some (length (encode s))"
  using encode_avoids [OF assms] by (rule find_idx_split)

end

end
