(* ===== verification/QM_Base64.thy ===== *)
theory QM_Base64
  imports QM_Prelude
begin

text \<open>
  The transfer codecs of \<^verbatim>\<open>src/core/src/util.cpp\<close>: \<^verbatim>\<open>Base64Encode\<close>,
  \<^verbatim>\<open>Base64Decode\<close> and the unpadded URL-safe pair built on them. The C++ accumulates bits in
  an \<^verbatim>\<open>int\<close> that is shifted left on every byte and never masked, so it overflows on any
  input of more than a few bytes; the accumulator is a \<^typ>\<open>32 word\<close> whose shifts wrap around,
  and right shifts are arithmetic (\<^const>\<open>signed_drop_bit\<close>). The lemmas show that the bits the
  loops read are never the overflowed ones, that the encoder computes RFC 4648, and that
  decoding inverts encoding.
\<close>

section \<open>The code\<close>

definition kEnc :: string where
  "kEnc = ''ABCDEFGHIJKLMNOPQRSTUVWXYZabcdefghijklmnopqrstuvwxyz0123456789+/''"

text \<open>The inner \<^verbatim>\<open>while (bits >= 0)\<close> of the encoder.\<close>

function enc_flush :: "32 word \<Rightarrow> int \<Rightarrow> string \<Rightarrow> int \<times> string" where
  "enc_flush val bits out =
     (if 0 \<le> bits
      then enc_flush val (bits - 6) (out @ [kEnc ! unat (signed_drop_bit (nat bits) val AND 0x3F)])
      else (bits, out))"
  by pat_completeness auto
termination
  by (relation "measure (\<lambda>(val, bits, out). nat (bits + 1))") auto

declare enc_flush.simps [simp del]

fun enc_loop :: "string \<Rightarrow> 32 word \<Rightarrow> int \<Rightarrow> string \<Rightarrow> 32 word \<times> int \<times> string" where
  "enc_loop [] val bits out = (val, bits, out)"
| "enc_loop (c # cs) val bits out =
     (let val' = push_bit 8 val + of_char c;
          (bits', out') = enc_flush val' (bits + 8) out
      in enc_loop cs val' bits' out')"

text \<open>\<^verbatim>\<open>while (out.size() % 4) out += '='\<close>.\<close>

function pad4 :: "string \<Rightarrow> string" where
  "pad4 out = (if length out mod 4 \<noteq> 0 then pad4 (out @ ''='') else out)"
  by pat_completeness auto
termination
  by (relation "measure (\<lambda>out. (4 - length out mod 4) mod 4)")
     (auto simp: mod_Suc split: if_splits)

declare pad4.simps [simp del]

definition Base64Encode :: "string \<Rightarrow> string" where
  "Base64Encode s =
     (let (val, bits, out) = enc_loop s 0 (- 6) [];
          out' = (if - 6 < bits
                  then out @ [kEnc ! unat (signed_drop_bit (nat (bits + 8)) (push_bit 8 val) AND 0x3F)]
                  else out)
      in pad4 out')"

text \<open>The 256-entry decoding table, filled with \<^verbatim>\<open>-1\<close> and then with the 64 digits.\<close>

definition b64_table :: "int list" where
  "b64_table = fold (\<lambda>i t. t[byte (kEnc ! i) := int i]) [0..<64] (replicate 256 (- 1))"

text \<open>The decoder returns its flag and what it had written to \<^verbatim>\<open>out\<close> by then.\<close>

fun dec_loop :: "string \<Rightarrow> 32 word \<Rightarrow> int \<Rightarrow> string \<Rightarrow> bool \<times> string" where
  "dec_loop [] val bits out = (True, out)"
| "dec_loop (c # cs) val bits out =
     (if c = CHR ''='' \<or> isspace c then dec_loop cs val bits out
      else let d = b64_table ! byte c in
        if d = - 1 then (False, out)
        else let val' = push_bit 6 val + of_int d; bits' = bits + 6 in
          if 0 \<le> bits'
          then dec_loop cs val' (bits' - 8)
                 (out @ [char_of (unat (signed_drop_bit (nat bits') val' AND 0xFF))])
          else dec_loop cs val' bits' out)"

definition Base64Decode :: "string \<Rightarrow> bool \<times> string" where
  "Base64Decode s = dec_loop s 0 (- 8) []"

definition Base64UrlEncode :: "string \<Rightarrow> string" where
  "Base64UrlEncode s =
     map (\<lambda>c. if c = CHR ''+'' then CHR ''-'' else if c = CHR ''/'' then CHR ''_'' else c)
       (filter (\<lambda>c. \<not> (c = CHR ''='' \<or> c = CR \<or> c = LF)) (Base64Encode s))"

definition Base64UrlDecode :: "string \<Rightarrow> bool \<times> string" where
  "Base64UrlDecode s =
     Base64Decode (pad4
       (map (\<lambda>c. if c = CHR ''-'' then CHR ''+'' else if c = CHR ''_'' then CHR ''/'' else c)
         (filter (\<lambda>c. \<not> (c = CR \<or> c = LF)) s)))"

section \<open>RFC 4648 as the reference\<close>

text \<open>Three octets form a 24-bit group, written as four digits of the alphabet; a final group of
  one or two octets is zero-extended and padded with equals signs.\<close>

definition digit64 :: "nat \<Rightarrow> char" where
  "digit64 n = kEnc ! (n mod 64)"

fun rfc4648 :: "string \<Rightarrow> string" where
  "rfc4648 [] = []"
| "rfc4648 [a] =
     (let x = byte a * 2 ^ 16 in [digit64 (x div 2 ^ 18), digit64 (x div 2 ^ 12)] @ ''=='')"
| "rfc4648 [a, b] =
     (let x = byte a * 2 ^ 16 + byte b * 2 ^ 8
      in [digit64 (x div 2 ^ 18), digit64 (x div 2 ^ 12), digit64 (x div 2 ^ 6)] @ ''='')"
| "rfc4648 (a # b # c # cs) =
     (let x = byte a * 2 ^ 16 + byte b * 2 ^ 8 + byte c
      in [digit64 (x div 2 ^ 18), digit64 (x div 2 ^ 12), digit64 (x div 2 ^ 6), digit64 x]
         @ rfc4648 cs)"

section \<open>Bits of the accumulator\<close>

lemma low_bits_read:
  fixes w :: "32 word"
  assumes "unat w mod 2 ^ m = x" "k + n \<le> m" "m \<le> 32"
  shows "unat (signed_drop_bit k w AND mask n) = x div 2 ^ k mod 2 ^ n"
proof -
  have "signed_drop_bit k w AND mask n = drop_bit k w AND mask n"
    using assms(2,3) by (auto intro!: bit_word_eqI simp: bit_simps split: if_splits)
  then have "unat (signed_drop_bit k w AND mask n) = take_bit n (drop_bit k (unat w))"
    by (simp add: unat_drop_bit_eq unsigned_take_bit_eq flip: take_bit_eq_mask)
  also have "\<dots> = take_bit n (drop_bit k (take_bit m (unat w)))"
    using assms(2) by (auto intro!: bit_eqI simp: bit_simps)
  finally show ?thesis
    using assms(1) by (simp add: take_bit_eq_mod drop_bit_eq_div)
qed

lemma unat_push_add:
  fixes w :: "32 word"
  assumes "unat w mod 2 ^ m = x" "m + j \<le> 32" "d < 2 ^ j"
  shows "unat (push_bit j w + of_nat d) mod 2 ^ (m + j) = x * 2 ^ j + d"
proof -
  have dvd: "(2::nat) ^ (m + j) dvd 2 ^ 32"
    using assms(2) by (rule le_imp_power_dvd)
  have x: "x < 2 ^ m"
    using assms(1) by auto
  have "unat (push_bit j w) = unat w * 2 ^ j mod 2 ^ 32"
    by (simp only: unsigned_push_bit_eq) (simp add: push_bit_eq_mult take_bit_eq_mod)
  then have "unat (push_bit j w + of_nat d) mod 2 ^ (m + j)
      = ((unat w * 2 ^ j) mod 2 ^ 32 + d mod 2 ^ 32) mod 2 ^ 32 mod 2 ^ (m + j)"
    by (simp add: unat_word_ariths unsigned_of_nat take_bit_eq_mod)
  also have "\<dots> = (unat w * 2 ^ j + d) mod 2 ^ (m + j)"
    by (simp only: mod_add_eq mod_mod_cancel [OF dvd])
  also have "unat w * 2 ^ j + d = (unat w div 2 ^ m) * 2 ^ (m + j) + (x * 2 ^ j + d)"
  proof -
    have "unat w = unat w div 2 ^ m * 2 ^ m + x"
      using assms(1) div_mult_mod_eq [of "unat w" "2 ^ m"] by simp
    then have "unat w * 2 ^ j = (unat w div 2 ^ m * 2 ^ m + x) * 2 ^ j"
      by (rule arg_cong)
    then show ?thesis
      by (simp add: algebra_simps power_add)
  qed
  also have "(unat w div 2 ^ m * 2 ^ (m + j) + (x * 2 ^ j + d)) mod 2 ^ (m + j) = x * 2 ^ j + d"
  proof -
    have "x * 2 ^ j + d < (x + 1) * 2 ^ j"
      using assms(3) by simp
    also have "\<dots> \<le> 2 ^ m * 2 ^ j"
      using x by (intro mult_right_mono) auto
    finally show ?thesis
      by (simp add: power_add)
  qed
  finally show ?thesis .
qed


lemma of_char_word: "(of_char c :: 32 word) = of_nat (byte c)"
  by (simp add: of_nat_of_char)

lemma read_6:
  fixes w :: "32 word"
  assumes "unat w mod 2 ^ m = x" "k + 6 \<le> m" "m \<le> 32"
  shows "kEnc ! unat (signed_drop_bit k w AND 0x3F) = digit64 (x div 2 ^ k)"
proof -
  have "(0x3F :: 32 word) = mask 6"
    by (simp add: mask_eq_exp_minus_1)
  then show ?thesis
    using low_bits_read [OF assms] by (simp add: digit64_def)
qed

lemma read_8:
  fixes w :: "32 word"
  assumes "unat w mod 2 ^ m = x" "k + 8 \<le> m" "m \<le> 32"
  shows "char_of (unat (signed_drop_bit k w AND 0xFF)) = char_of (x div 2 ^ k)"
proof -
  have "(0xFF :: 32 word) = mask 8"
    by (simp add: mask_eq_exp_minus_1)
  then show ?thesis
    using low_bits_read [OF assms] by (simp add: )
qed

section \<open>The encoder computes RFC 4648\<close>

lemma enc_flush_end [simp]: "bits < 0 \<Longrightarrow> enc_flush v bits out = (bits, out)"
  by (subst enc_flush.simps) simp

lemma enc_flush_one:
  "0 \<le> bits \<Longrightarrow> enc_flush v bits out =
     enc_flush v (bits - 6) (out @ [kEnc ! unat (signed_drop_bit (nat bits) v AND 0x3F)])"
  by (subst enc_flush.simps) simp

lemma push_8:
  fixes w :: "32 word"
  assumes "unat w mod 2 ^ m = x" "m + 8 \<le> 32"
  shows "unat (push_bit 8 w + of_char c) mod 2 ^ (m + 8) = x * 256 + byte c"
  using unat_push_add [OF assms, of "byte c"] by (simp add: of_nat_of_char)

lemma enc_first:
  "\<exists>v'. enc_loop (a # cs) v (- 6) out = enc_loop cs v' (- 4) (out @ [digit64 (byte a div 4)])
     \<and> unat v' mod 2 ^ 8 = byte a"
proof -
  have "unat (push_bit 8 v + of_char a) mod 2 ^ 8 = byte a"
    using push_8 [of v 0 0 a] by simp
  with read_6 [OF this, of 2] show ?thesis
    by (auto simp: enc_flush_one)
qed

lemma enc_second:
  assumes "unat v mod 2 ^ 8 = x"
  shows "\<exists>v'. enc_loop (b # cs) v (- 4) out
       = enc_loop cs v' (- 2) (out @ [digit64 ((x * 256 + byte b) div 16)])
     \<and> unat v' mod 2 ^ 16 = x * 256 + byte b"
proof -
  have "unat (push_bit 8 v + of_char b) mod 2 ^ 16 = x * 256 + byte b"
    using push_8 [OF assms, of b] by simp
  with read_6 [OF this, of 4] show ?thesis
    by (auto simp: enc_flush_one)
qed

lemma enc_third:
  assumes "unat v mod 2 ^ 16 = x"
  shows "\<exists>v'. enc_loop (c # cs) v (- 2) out
       = enc_loop cs v' (- 6) (out @ [digit64 ((x * 256 + byte c) div 64), digit64 (x * 256 + byte c)])"
proof -
  have "unat (push_bit 8 v + of_char c) mod 2 ^ 24 = x * 256 + byte c"
    using push_8 [OF assms, of c] by simp
  with read_6 [OF this, of 6] read_6 [OF this, of 0] show ?thesis
    by (auto simp: enc_flush_one)
qed

lemma group_digits:
  fixes a b c :: nat
  assumes "a < 256" "b < 256" "c < 256"
  shows "(a * 65536 + b * 256 + c) div 262144 = a div 4"
    and "(a * 65536 + b * 256 + c) div 4096 = (a * 256 + b) div 16"
proof -
  have "(a * 65536 + b * 256 + c) div 65536 = a"
    using assms by simp
  then show "(a * 65536 + b * 256 + c) div 262144 = a div 4"
    using div_mult2_eq [of "a * 65536 + b * 256 + c" 65536 4] by simp
  have "(a * 65536 + b * 256 + c) div 256 = a * 256 + b"
    using assms by simp
  then show "(a * 65536 + b * 256 + c) div 4096 = (a * 256 + b) div 16"
    using div_mult2_eq [of "a * 65536 + b * 256 + c" 256 16] by simp
qed

lemma rfc4648_group:
  "rfc4648 [a, b, c] = [digit64 (byte a div 4), digit64 ((byte a * 256 + byte b) div 16),
     digit64 (((byte a * 256 + byte b) * 256 + byte c) div 64),
     digit64 ((byte a * 256 + byte b) * 256 + byte c)]"
  using group_digits [OF byte_less byte_less byte_less, of a b c]
  by (simp add: Let_def algebra_simps)

lemma enc_group:
  "\<exists>v'. enc_loop (a # b # c # cs) v (- 6) out =
     enc_loop cs v' (- 6) (out @ rfc4648 [a, b, c])"
proof -
  let ?o1 = "out @ [digit64 (byte a div 4)]"
  let ?o2 = "?o1 @ [digit64 ((byte a * 256 + byte b) div 16)]"
  obtain v1 where 1: "enc_loop (a # b # c # cs) v (- 6) out = enc_loop (b # c # cs) v1 (- 4) ?o1"
    and m1: "unat v1 mod 2 ^ 8 = byte a"
    using enc_first by blast
  obtain v2 where 2: "enc_loop (b # c # cs) v1 (- 4) ?o1 = enc_loop (c # cs) v2 (- 2) ?o2"
    and m2: "unat v2 mod 2 ^ 16 = byte a * 256 + byte b"
    using enc_second [OF m1] by blast
  obtain v3 where 3: "enc_loop (c # cs) v2 (- 2) ?o2 = enc_loop cs v3 (- 6) (?o2 @
      [digit64 (((byte a * 256 + byte b) * 256 + byte c) div 64),
       digit64 ((byte a * 256 + byte b) * 256 + byte c)])"
    using enc_third [OF m2] by blast
  have "out @ rfc4648 [a, b, c] = ?o2 @
      [digit64 (((byte a * 256 + byte b) * 256 + byte c) div 64),
       digit64 ((byte a * 256 + byte b) * 256 + byte c)]"
    by (simp only: rfc4648_group append.assoc append_Cons append_Nil)
  with 1 2 3 show ?thesis by metis
qed

lemma rfc4648_Cons3: "rfc4648 (a # b # c # cs) = rfc4648 [a, b, c] @ rfc4648 cs"
  by (simp add: Let_def)

lemma length_rfc4648: "length (rfc4648 s) = 4 * ((length s + 2) div 3)"
proof (induction s rule: rfc4648.induct)
  case (4 a b c cs)
  have "(length (a # b # c # cs) + 2) div 3 = (length cs + 2 + 3) div 3"
    by (simp add: algebra_simps)
  also have "\<dots> = (length cs + 2) div 3 + 1"
    by (rule div_add_self2) simp
  finally show ?case
    using 4 by (simp add: Let_def)
qed (simp_all add: Let_def)

lemma pad4_done [simp]: "length out mod 4 = 0 \<Longrightarrow> pad4 out = out"
  by (subst pad4.simps) simp

lemma pad4_2: "length out mod 4 = 2 \<Longrightarrow> pad4 out = out @ ''==''"
  by (subst pad4.simps, simp, subst pad4.simps) (simp add: mod_Suc)

lemma pad4_3: "length out mod 4 = 3 \<Longrightarrow> pad4 out = out @ ''=''"
  by (subst pad4.simps) (simp add: mod_Suc)

text \<open>What \<open>Base64Encode\<close> does after its loop.\<close>

definition enc_finish :: "32 word \<times> int \<times> string \<Rightarrow> string" where
  "enc_finish r = (case r of (val, bits, out) \<Rightarrow>
     pad4 (if - 6 < bits
           then out @ [kEnc ! unat (signed_drop_bit (nat (bits + 8)) (push_bit 8 val) AND 0x3F)]
           else out))"

lemma push_8_zero:
  fixes w :: "32 word"
  assumes "unat w mod 2 ^ m = x" "m + 8 \<le> 32"
  shows "unat (push_bit 8 w) mod 2 ^ (m + 8) = x * 256"
  using unat_push_add [OF assms, of 0] by simp

lemma enc_finish_loop:
  "length out mod 4 = 0 \<Longrightarrow> enc_finish (enc_loop s v (- 6) out) = out @ rfc4648 s"
proof (induction s arbitrary: v out rule: list_induct3)
  case Nil
  then show ?case by (simp add: enc_finish_def)
next
  case (One a)
  obtain v1 where 1: "enc_loop [a] v (- 6) out = (v1, - 4, out @ [digit64 (byte a div 4)])"
    and m1: "unat v1 mod 2 ^ 8 = byte a"
    using enc_first [of a "[]" v out] by auto
  have "unat (push_bit 8 v1) mod 2 ^ 16 = byte a * 256"
    using push_8_zero [OF m1] by simp
  from read_6 [OF this, of 4] 1 One group_digits [OF byte_less, of 0 0 a] show ?case
    by (simp add: enc_finish_def pad4_2 mod_Suc Let_def)
next
  case (Two a b)
  let ?o1 = "out @ [digit64 (byte a div 4)]"
  obtain v1 where 1: "enc_loop [a, b] v (- 6) out = enc_loop [b] v1 (- 4) ?o1"
    and m1: "unat v1 mod 2 ^ 8 = byte a"
    using enc_first by blast
  obtain v2 where 2: "enc_loop [b] v1 (- 4) ?o1 = (v2, - 2, ?o1 @ [digit64 ((byte a * 256 + byte b) div 16)])"
    and m2: "unat v2 mod 2 ^ 16 = byte a * 256 + byte b"
    using enc_second [OF m1, of b "[]" ?o1] by auto
  have "unat (push_bit 8 v2) mod 2 ^ 24 = (byte a * 256 + byte b) * 256"
    using push_8_zero [OF m2] by simp
  from read_6 [OF this, of 6] 1 2 Two group_digits [OF byte_less byte_less, of 0 a b] show ?case
    by (simp del: enc_loop.simps add: enc_finish_def pad4_3 mod_Suc Let_def algebra_simps)
next
  case (Step a b c cs)
  obtain v' where "enc_loop (a # b # c # cs) v (- 6) out = enc_loop cs v' (- 6) (out @ rfc4648 [a, b, c])"
    using enc_group by blast
  moreover have "length (out @ rfc4648 [a, b, c]) mod 4 = 0"
    using Step.prems by (simp add: length_rfc4648 del: rfc4648.simps)
  ultimately show ?case
    by (metis Step.IH append.assoc rfc4648_Cons3)
qed

lemma Base64Encode_finish: "Base64Encode s = enc_finish (enc_loop s 0 (- 6) [])"
  by (simp add: Base64Encode_def enc_finish_def Let_def split: prod.splits)

lemma Base64Encode_rfc: "Base64Encode s = rfc4648 s"
  by (simp add: Base64Encode_finish enc_finish_loop)

section \<open>The decoder inverts the encoder\<close>

lemma fold_update_nth:
  assumes "inj_on f {..<n}" "\<And>i. i < n \<Longrightarrow> f i < length t" "j < n"
  shows "fold (\<lambda>i t. t[f i := g i]) [0..<n] t ! f j = g j"
  using assms
proof (induction n)
  case (Suc n)
  have len: "length (fold (\<lambda>i t. t[f i := g i]) [0..<n] t) = length t"
    by (induction n) simp_all
  show ?case
  proof (cases "j = n")
    case True
    with Suc.prems(2) [of n] len show ?thesis by simp
  next
    case False
    with Suc.prems have "f n \<noteq> f j" "j < n"
      by (auto simp: inj_on_def)
    with Suc show ?thesis by (simp add: inj_on_def)
  qed
qed simp

lemma length_kEnc: "length kEnc = 64"
  by (simp add: kEnc_def)

lemma distinct_kEnc: "distinct kEnc"
  by (simp add: kEnc_def)

lemma kEnc_chars:
  "list_all (\<lambda>c. c \<noteq> CHR ''='' \<and> \<not> isspace c \<and> c \<noteq> CHR ''-'' \<and> c \<noteq> CHR ''_'' \<and> c \<noteq> CHR ''?'') kEnc"
  by (simp add: kEnc_def isspace_def)

lemma digit64_in_kEnc: "digit64 n \<in> set kEnc"
  by (simp add: digit64_def length_kEnc)

lemma b64_table_kEnc: "i < 64 \<Longrightarrow> b64_table ! byte (kEnc ! i) = int i"
  unfolding b64_table_def
  by (rule fold_update_nth)
     (use distinct_kEnc in \<open>auto simp: inj_on_def length_kEnc nth_eq_iff_index_eq\<close>)

lemma digit64_facts:
  "b64_table ! byte (digit64 n) = int (n mod 64)"
  "digit64 n \<noteq> CHR ''=''" "\<not> isspace (digit64 n)"
  "digit64 n \<noteq> CHR ''-''" "digit64 n \<noteq> CHR ''_''" "digit64 n \<noteq> CHR ''?''"
  using b64_table_kEnc [of "n mod 64"] kEnc_chars digit64_in_kEnc [of n]
  by (auto simp: list_all_iff digit64_def)

lemma dec_skip [simp]:
  "c = CHR ''='' \<or> isspace c \<Longrightarrow> dec_loop (c # cs) v bits out = dec_loop cs v bits out"
  by simp

lemma push_6:
  fixes w :: "32 word"
  assumes "unat w mod 2 ^ m = x" "m + 6 \<le> 32"
  shows "unat (push_bit 6 w + of_int (int (n mod 64))) mod 2 ^ (m + 6) = x * 64 + n mod 64"
  using unat_push_add [OF assms, of "n mod 64"] by simp

lemma dec_quiet:
  assumes "unat v mod 2 ^ m = x" "m + 6 \<le> 32" "bits + 6 < 0"
  shows "\<exists>v'. dec_loop (digit64 n # cs) v bits out = dec_loop cs v' (bits + 6) out
     \<and> unat v' mod 2 ^ (m + 6) = x * 64 + n mod 64"
  using push_6 [OF assms(1,2)] assms(3) by (auto simp: digit64_facts Let_def)

lemma dec_emit:
  assumes "unat v mod 2 ^ m = x" "m + 6 \<le> 32" "bits = int k - 6" "k + 8 \<le> m + 6"
  shows "\<exists>v'. dec_loop (digit64 n # cs) v bits out
       = dec_loop cs v' (bits - 2) (out @ [char_of ((x * 64 + n mod 64) div 2 ^ k)])
     \<and> unat v' mod 2 ^ (m + 6) = x * 64 + n mod 64"
proof -
  note low = push_6 [OF assms(1,2), of n]
  from read_8 [OF low, of k] assms(2-4) low show ?thesis
    by (auto simp: digit64_facts Let_def simp del: char_of_quasi_inj)
qed

declare dec_loop.simps(2) [simp del]

lemma sextet_step: "X div (64 * k) * 64 + X div k mod 64 = (X::nat) div k"
proof -
  have "X div (64 * k) = X div k div 64"
    by (metis div_mult2_eq mult.commute)
  then show ?thesis by simp
qed

lemma dec_two:
  assumes "X < 2 ^ 24"
  shows "\<exists>v'. dec_loop (digit64 (X div 2 ^ 18) # digit64 (X div 2 ^ 12) # cs) v (- 8) out
       = dec_loop cs v' (- 4) (out @ [char_of (X div 2 ^ 16)])
     \<and> unat v' mod 2 ^ 12 = X div 2 ^ 12"
proof -
  have "X div 2 ^ 18 mod 64 = X div 2 ^ 18"
    using assms by simp
  then obtain v1 where 1: "dec_loop (digit64 (X div 2 ^ 18) # digit64 (X div 2 ^ 12) # cs) v (- 8) out
      = dec_loop (digit64 (X div 2 ^ 12) # cs) v1 (- 2) out"
    and m1: "unat v1 mod 2 ^ 6 = X div 2 ^ 18"
    using dec_quiet [of v 0 0 "- 8" "X div 2 ^ 18"] by auto
  have "X div 2 ^ 18 * 64 + X div 2 ^ 12 mod 64 = X div 2 ^ 12"
    using sextet_step [of X "2 ^ 12"] by simp
  moreover have "X div 2 ^ 12 div 2 ^ 4 = X div 2 ^ 16"
    by (simp flip: div_mult2_eq)
  ultimately show ?thesis
    using 1 dec_emit [OF m1, of "- 2" 4 "X div 2 ^ 12" cs out] by simp
qed

lemma dec_third:
  assumes "unat v mod 2 ^ 12 = X div 2 ^ 12"
  shows "\<exists>v'. dec_loop (digit64 (X div 2 ^ 6) # cs) v (- 4) out
       = dec_loop cs v' (- 6) (out @ [char_of (X div 2 ^ 8)])
     \<and> unat v' mod 2 ^ 18 = X div 2 ^ 6"
proof -
  have "X div 2 ^ 12 * 64 + X div 2 ^ 6 mod 64 = X div 2 ^ 6"
    using sextet_step [of X "2 ^ 6"] by simp
  moreover have "X div 2 ^ 6 div 2 ^ 2 = X div 2 ^ 8"
    by (simp flip: div_mult2_eq)
  ultimately show ?thesis
    using dec_emit [OF assms, of "- 4" 2 "X div 2 ^ 6" cs out] by simp
qed

lemma dec_fourth:
  assumes "unat v mod 2 ^ 18 = X div 2 ^ 6"
  shows "\<exists>v'. dec_loop (digit64 X # cs) v (- 6) out = dec_loop cs v' (- 8) (out @ [char_of X])"
proof -
  have "X div 2 ^ 6 * 64 + X mod 64 = X"
    using sextet_step [of X 1] by simp
  then show ?thesis
    using dec_emit [OF assms, of "- 6" 0 X cs out] by auto
qed

lemma octets_of_group:
  fixes a b c :: nat
  assumes "a < 256" "b < 256" "c < 256"
  defines "X \<equiv> a * 2 ^ 16 + b * 2 ^ 8 + c"
  shows "X < 2 ^ 24" "X div 2 ^ 16 = a" "X div 2 ^ 8 mod 256 = b" "X mod 256 = c"
proof -
  have "X div 256 = a * 256 + b"
    using assms by simp
  then show "X div 2 ^ 8 mod 256 = b"
    using assms by simp
  have "X = (a * 256 + b) * 256 + c"
    by (simp add: X_def algebra_simps)
  then show "X mod 256 = c"
    using assms(3) by (metis mod_less mod_mult_self3)
  show "X < 2 ^ 24" "X div 2 ^ 16 = a"
    using assms by simp_all
qed

lemma dec_group:
  "\<exists>v'. dec_loop (rfc4648 [a, b, c] @ cs) v (- 8) out = dec_loop cs v' (- 8) (out @ [a, b, c])"
proof -
  define X where "X = byte a * 2 ^ 16 + byte b * 2 ^ 8 + byte c"
  note oct = octets_of_group [OF byte_less byte_less byte_less, of a b c, folded X_def]
  have chars: "char_of (X div 2 ^ 16) = a" "char_of (X div 2 ^ 8) = b" "char_of X = c"
    using oct by (auto intro!: char_eqI)
  have group: "rfc4648 [a, b, c] @ cs = digit64 (X div 2 ^ 18) # digit64 (X div 2 ^ 12) #
      digit64 (X div 2 ^ 6) # digit64 X # cs"
    by (simp add: X_def Let_def)
  obtain v1 where 1: "dec_loop (rfc4648 [a, b, c] @ cs) v (- 8) out
      = dec_loop (digit64 (X div 2 ^ 6) # digit64 X # cs) v1 (- 4) (out @ [a])"
    and m1: "unat v1 mod 2 ^ 12 = X div 2 ^ 12"
    using dec_two [OF oct(1)] unfolding group chars by blast
  obtain v2 where 2: "dec_loop (digit64 (X div 2 ^ 6) # digit64 X # cs) v1 (- 4) (out @ [a])
      = dec_loop (digit64 X # cs) v2 (- 6) ((out @ [a]) @ [b])"
    and m2: "unat v2 mod 2 ^ 18 = X div 2 ^ 6"
    using dec_third [OF m1] unfolding chars by blast
  obtain v3 where 3: "dec_loop (digit64 X # cs) v2 (- 6) ((out @ [a]) @ [b])
      = dec_loop cs v3 (- 8) (((out @ [a]) @ [b]) @ [c])"
    using dec_fourth [OF m2] unfolding chars by blast
  from 1 2 3 have "dec_loop (rfc4648 [a, b, c] @ cs) v (- 8) out = dec_loop cs v3 (- 8) (out @ [a, b, c])"
    by (simp only: append.assoc append_Cons append_Nil)
  then show ?thesis ..
qed

lemma dec_loop_rfc4648: "dec_loop (rfc4648 s) v (- 8) out = (True, out @ s)"
proof (induction s arbitrary: v out rule: list_induct3)
  case Nil
  show ?case by simp
next
  case (One a)
  define X where "X = byte a * 2 ^ 16 + 0 * 2 ^ 8 + 0"
  have oct: "X < 2 ^ 24" "X div 2 ^ 16 = byte a"
    using octets_of_group [OF byte_less [of a], of 0 0] by (simp_all add: X_def)
  have "char_of (X div 2 ^ 16) = a"
    using oct by (auto intro!: char_eqI)
  with dec_two [OF oct(1), of "''==''" v out] show ?case
    by (auto simp: X_def Let_def)
next
  case (Two a b)
  define X where "X = byte a * 2 ^ 16 + byte b * 2 ^ 8 + 0"
  have oct: "X < 2 ^ 24" "X div 2 ^ 16 = byte a" "X div 2 ^ 8 mod 256 = byte b"
    using octets_of_group [OF byte_less [of a] byte_less [of b], of 0] by (simp_all add: X_def)
  have chars: "char_of (X div 2 ^ 16) = a" "char_of (X div 2 ^ 8) = b"
    using oct by (auto intro!: char_eqI)
  have group: "rfc4648 [a, b] = digit64 (X div 2 ^ 18) # digit64 (X div 2 ^ 12) #
      digit64 (X div 2 ^ 6) # ''=''"
    by (simp add: X_def Let_def)
  obtain v1 where 1: "dec_loop (rfc4648 [a, b]) v (- 8) out
      = dec_loop (digit64 (X div 2 ^ 6) # ''='') v1 (- 4) (out @ [a])"
    and m1: "unat v1 mod 2 ^ 12 = X div 2 ^ 12"
    using dec_two [OF oct(1)] unfolding group chars by blast
  obtain v2 where 2: "dec_loop (digit64 (X div 2 ^ 6) # ''='') v1 (- 4) (out @ [a])
      = dec_loop ''='' v2 (- 6) ((out @ [a]) @ [b])"
    using dec_third [OF m1] unfolding chars by blast
  show ?case
    unfolding 1 2 by simp
next
  case (Step a b c cs)
  obtain v' where "dec_loop (rfc4648 [a, b, c] @ rfc4648 cs) v (- 8) out
      = dec_loop (rfc4648 cs) v' (- 8) (out @ [a, b, c])"
    using dec_group by blast
  then show ?case
    by (subst rfc4648_Cons3) (simp only: Step.IH append.assoc append_Cons append_Nil)
qed

lemma dec_loop_filter:
  "dec_loop (filter (\<lambda>c. \<not> (c = CHR ''='' \<or> isspace c)) s) v bits out = dec_loop s v bits out"
  by (induction s arbitrary: v bits out) (auto simp: Let_def dec_loop.simps(2))

lemma dec_loop_filter_cong:
  assumes "filter (\<lambda>c. \<not> (c = CHR ''='' \<or> isspace c)) s = filter (\<lambda>c. \<not> (c = CHR ''='' \<or> isspace c)) t"
  shows "dec_loop s v bits out = dec_loop t v bits out"
  by (metis assms dec_loop_filter)

lemma rfc4648_chars: "c \<in> set (rfc4648 s) \<Longrightarrow> c = CHR ''='' \<or> (\<exists>n. c = digit64 n)"
  by (induction s rule: rfc4648.induct) (auto simp: Let_def)

text \<open>The characters base64 text is made of.\<close>

definition b64_char :: "char \<Rightarrow> bool" where
  "b64_char c = (c = CHR ''='' \<or> c \<in> set kEnc)"

lemma rfc4648_b64_char: "c \<in> set (rfc4648 s) \<Longrightarrow> b64_char c"
  using rfc4648_chars digit64_in_kEnc by (fastforce simp: b64_char_def)

lemma b64_char_not_qmark: "\<not> b64_char (CHR ''?'')"
  using kEnc_chars by (auto simp: b64_char_def list_all_iff)

interpretation b64: text_codec Base64Encode Base64Decode b64_char
  by unfold_locales
     (simp_all add: Base64Decode_def Base64Encode_rfc dec_loop_rfc4648 rfc4648_b64_char)

lemma Base64Decode_folded:
  assumes "filter (\<lambda>c. \<not> isspace c) t = filter (\<lambda>c. \<not> isspace c) (Base64Encode s)"
  shows "Base64Decode t = (True, s)"
proof -
  have split: "filter (\<lambda>c. \<not> (c = CHR ''='' \<or> isspace c)) u
      = filter (\<lambda>c. c \<noteq> CHR ''='') (filter (\<lambda>c. \<not> isspace c) u)" for u
    by (auto simp: filter_filter intro: filter_cong)
  have "Base64Decode t = Base64Decode (Base64Encode s)"
    unfolding Base64Decode_def by (rule dec_loop_filter_cong) (simp only: split assms)
  then show ?thesis by (simp add: b64.decode_encode)
qed

text \<open>C13. Decoding is the inverse of encoding, however the encoded text was folded: whatever
  white space is inserted into \<open>Base64Encode s\<close>, \<open>Base64Decode\<close> accepts the result and
  returns exactly \<open>s\<close>, although the accumulator of both loops overflows.\<close>

theorem Base64_roundtrip:
  assumes "filter (\<lambda>c. \<not> isspace c) t = filter (\<lambda>c. \<not> isspace c) (Base64Encode s)"
  shows "Base64Decode t = (True, s)"
  using assms by (rule Base64Decode_folded)

theorem Base64_roundtrip_witness:
  "Base64Decode (''aGVs'' @ crlf @ ''bG8='') = (True, ''hello'')"
proof (rule Base64_roundtrip)
  show "filter (\<lambda>c. \<not> isspace c) (''aGVs'' @ crlf @ ''bG8='')
      = filter (\<lambda>c. \<not> isspace c) (Base64Encode ''hello'')"
    by code_simp
qed

text \<open>The encoder computes the base64 encoding of RFC 4648 on every input, and its output has
  exactly four characters for every three input bytes, rounded up.\<close>

theorem Base64Encode_rfc4648:
  "Base64Encode s = rfc4648 s \<and> length (Base64Encode s) = 4 * ((length s + 2) div 3)"
  by (simp add: Base64Encode_rfc length_rfc4648)

section \<open>The URL-safe variant\<close>

text \<open>The characters RFC 4648 allows in a URL-safe, unpadded encoding.\<close>

definition b64url_char :: "char \<Rightarrow> bool" where
  "b64url_char c = (isalnum c \<or> c = CHR ''-'' \<or> c = CHR ''_'')"


lemma kEnc_url: "list_all (\<lambda>c. b64url_char c \<or> c = CHR ''+'' \<or> c = CHR ''/'') kEnc"
  by (simp add: kEnc_def b64url_char_def isalnum_def isdigit_def isupper_def islower_def)

lemma digit64_url: "b64url_char (digit64 n) \<or> digit64 n = CHR ''+'' \<or> digit64 n = CHR ''/''"
  using kEnc_url digit64_in_kEnc by (auto simp: list_all_iff)

abbreviation url_out :: "char \<Rightarrow> char" where
  "url_out c \<equiv> (if c = CHR ''+'' then CHR ''-'' else if c = CHR ''/'' then CHR ''_'' else c)"

abbreviation url_in :: "char \<Rightarrow> char" where
  "url_in c \<equiv> (if c = CHR ''-'' then CHR ''+'' else if c = CHR ''_'' then CHR ''/'' else c)"

lemma url_digits:
  assumes "c \<in> set (rfc4648 s)" "\<not> (c = CHR ''='' \<or> c = CR \<or> c = LF)"
  shows "url_in (url_out c) = c" "b64url_char (url_out c)"
  using rfc4648_chars [OF assms(1)] assms(2) digit64_url digit64_facts(4,5)
  by (auto simp: b64url_char_def)

lemma Base64UrlEncode_chars: "c \<in> set (Base64UrlEncode s) \<Longrightarrow> b64url_char c"
  unfolding Base64UrlEncode_def Base64Encode_rfc using url_digits(2) by fastforce

lemma b64url_char_plain: "b64url_char c \<Longrightarrow> c \<noteq> CHR ''='' \<and> c \<noteq> CR \<and> c \<noteq> LF"
  by (auto simp: b64url_char_def isalnum_def isdigit_def isupper_def islower_def)

lemma pad4_filter: "filter (\<lambda>c. \<not> (c = CHR ''='' \<or> isspace c)) (pad4 s)
    = filter (\<lambda>c. \<not> (c = CHR ''='' \<or> isspace c)) s"
proof (induction s rule: pad4.induct)
  case (1 s)
  then show ?case by (subst pad4.simps) auto
qed

lemma url_decode_text:
  "map url_in (filter (\<lambda>c. \<not> (c = CR \<or> c = LF)) (Base64UrlEncode s))
     = filter (\<lambda>c. \<not> (c = CHR ''='' \<or> c = CR \<or> c = LF)) (Base64Encode s)"
proof -
  have keep: "filter (\<lambda>c. \<not> (c = CR \<or> c = LF)) (Base64UrlEncode s) = Base64UrlEncode s"
    using Base64UrlEncode_chars b64url_char_plain by (auto simp: filter_id_conv)
  have undo: "url_in (url_out c) = c"
    if "c \<in> set (filter (\<lambda>c. \<not> (c = CHR ''='' \<or> c = CR \<or> c = LF)) (rfc4648 s))" for c
    using that by (intro url_digits(1) [of c s]) simp_all
  show ?thesis
    unfolding keep unfolding Base64UrlEncode_def Base64Encode_rfc map_map comp_def
    by (rule map_idI) (rule undo)
qed

lemma Base64UrlDecode_encode: "Base64UrlDecode (Base64UrlEncode s) = (True, s)"
proof -
  have "filter (\<lambda>c. \<not> (c = CHR ''='' \<or> isspace c))
          (filter (\<lambda>c. \<not> (c = CHR ''='' \<or> c = CR \<or> c = LF)) t)
      = filter (\<lambda>c. \<not> (c = CHR ''='' \<or> isspace c)) t" for t
    unfolding filter_filter by (rule filter_cong) (auto simp: isspace_def)
  then have "Base64UrlDecode (Base64UrlEncode s) = Base64Decode (Base64Encode s)"
    unfolding Base64UrlDecode_def url_decode_text Base64Decode_def
    by (intro dec_loop_filter_cong) (simp only: pad4_filter)
  then show ?thesis by (simp add: b64.decode_encode)
qed

interpretation b64url: text_codec Base64UrlEncode Base64UrlDecode b64url_char
  by unfold_locales (auto simp: Base64UrlDecode_encode Base64UrlEncode_chars)

text \<open>The URL-safe encoding of any bytes decodes back to those bytes, is made of letters,
  digits, hyphen and underscore only (so it needs no escaping in a URL and carries no padding),
  and distinct inputs have distinct encodings.\<close>

theorem Base64Url_roundtrip:
  "Base64UrlDecode (Base64UrlEncode s) = (True, s) \<and> list_all b64url_char (Base64UrlEncode s)
   \<and> (Base64UrlEncode s = Base64UrlEncode t \<longleftrightarrow> s = t)"
  by (simp add: b64url.decode_encode b64url.encode_inject list_all_iff b64url.encode_alphabet)

end
