(* ===== verification/QM_MimeCodec.thy ===== *)
theory QM_MimeCodec
  imports QM_Base64
begin

text \<open>
  \<^verbatim>\<open>src/core/src/mime_codec.cpp\<close>: quoted-printable, the dispatch on a
  \<^verbatim>\<open>Content-Transfer-Encoding\<close>, and RFC 2047 encoded words for headers. Each loop over an
  index is a recursion on the rest of the string from that index on. The lemmas give the round
  trips of both codecs on arbitrary bytes, the line lengths of what the encoders write, and that
  an encoded header value can neither end its header line nor carry an 8-bit byte.
\<close>

section \<open>The code\<close>

definition HexVal :: "char \<Rightarrow> int" where
  "HexVal c =
     (if 48 \<le> byte c \<and> byte c \<le> 57 then int (byte c) - 48
      else if 65 \<le> byte c \<and> byte c \<le> 70 then int (byte c) - 65 + 10
      else if 97 \<le> byte c \<and> byte c \<le> 102 then int (byte c) - 97 + 10
      else - 1)"

definition Latin1ToUtf8 :: "string \<Rightarrow> string" where
  "Latin1ToUtf8 s = concat (map (\<lambda>c.
     if byte c < 0x80 then [c]
     else [char_of (0xC0 OR drop_bit 6 (byte c)), char_of (0x80 OR (byte c AND 0x3F))]) s)"

fun DecodeQpImpl :: "string \<Rightarrow> bool \<Rightarrow> string" where
  "DecodeQpImpl [] underscore_is_space = []"
| "DecodeQpImpl (c # cs) underscore_is_space =
     (if c = CHR ''='' then
        (case cs of
           [] \<Rightarrow> c # DecodeQpImpl cs underscore_is_space
         | [d] \<Rightarrow> if d = LF then DecodeQpImpl [] underscore_is_space
                  else c # DecodeQpImpl cs underscore_is_space
         | d # e # r \<Rightarrow>
             if d = LF then DecodeQpImpl (e # r) underscore_is_space
             else if d = CR \<and> e = LF then DecodeQpImpl r underscore_is_space
             else if 0 \<le> HexVal d \<and> 0 \<le> HexVal e
             then char_of (nat (push_bit 4 (HexVal d) OR HexVal e)) # DecodeQpImpl r underscore_is_space
             else c # DecodeQpImpl cs underscore_is_space)
      else if underscore_is_space \<and> c = CHR ''_'' then CHR '' '' # DecodeQpImpl cs underscore_is_space
      else c # DecodeQpImpl cs underscore_is_space)"

definition DecodeQuotedPrintable :: "string \<Rightarrow> string" where
  "DecodeQuotedPrintable s = DecodeQpImpl s False"

definition kHex :: string where
  "kHex = ''0123456789ABCDEF''"

text \<open>The lambda \<^verbatim>\<open>emit\<close>: what it appends for a token, and the new \<^verbatim>\<open>line_len\<close>.\<close>

definition qp_emit :: "nat \<Rightarrow> string \<Rightarrow> string \<times> nat" where
  "qp_emit line_len tok =
     (if line_len + length tok > 75 then (''='' @ crlf @ tok, length tok)
      else (tok, line_len + length tok))"

fun qp_loop :: "nat \<Rightarrow> string \<Rightarrow> string" where
  "qp_loop line_len [] = []"
| "qp_loop line_len (c # cs) =
     (if c = LF then crlf @ qp_loop 0 cs
      else if c = CR then qp_loop line_len cs
      else let printable = 33 \<le> byte c \<and> byte c \<le> 126 \<and> c \<noteq> CHR ''='' \<or> c = CHR '' '' \<or> c = TAB;
               tok = (if printable then [c]
                      else [CHR ''='', kHex ! drop_bit 4 (byte c), kHex ! (byte c AND 0x0F)]);
               (text, line_len') = qp_emit line_len tok
           in text @ qp_loop line_len' cs)"

definition EncodeQuotedPrintable :: "string \<Rightarrow> string" where
  "EncodeQuotedPrintable s = qp_loop 0 s"

definition DecodeContentTransferEncoding :: "string \<Rightarrow> string \<Rightarrow> string" where
  "DecodeContentTransferEncoding encoding body =
     (let enc = trim_blank (Lower encoding) in
      if enc = ''base64'' then snd (Base64Decode body)
      else if enc = ''quoted-printable'' then DecodeQuotedPrintable body
      else body)"

definition DecodeOneEncodedWord :: "string \<Rightarrow> char \<Rightarrow> string \<Rightarrow> string" where
  "DecodeOneEncodedWord charset enc text =
     (let e = toupper enc in
      if e \<noteq> CHR ''B'' \<and> e \<noteq> CHR ''Q'' then text
      else let raw = (if e = CHR ''B''
                      then (case Base64Decode text of (ok, out) \<Rightarrow> if ok then out else [])
                      else DecodeQpImpl text True);
               cs = Lower charset
           in if cs = ''utf-8'' \<or> cs = ''utf8'' \<or> cs = ''us-ascii'' \<or> cs = ''ascii'' \<or> cs = [] then raw
              else if cs = ''iso-8859-1'' \<or> cs = ''latin1'' \<or> cs = ''iso8859-1'' then Latin1ToUtf8 raw
              else raw)"

text \<open>\<^verbatim>\<open>in.find("?=", text_start)\<close>: the text before the first \<^verbatim>\<open>?=\<close> and what follows it.\<close>

fun cut_close :: "string \<Rightarrow> (string \<times> string) option" where
  "cut_close (c # d # r) =
     (if c = CHR ''?'' \<and> d = CHR ''='' then Some ([], r)
      else map_option (apfst (Cons c)) (cut_close (d # r)))"
| "cut_close _ = None"

text \<open>\<^verbatim>\<open>=?charset?E?text?=\<close> at the front of the input: charset, letter, text and the rest.\<close>

definition parse_word :: "string \<Rightarrow> (string \<times> char \<times> string \<times> string) option" where
  "parse_word s =
     (case s of
        c # d # r \<Rightarrow>
          if c = CHR ''='' \<and> d = CHR ''?'' then
            (case dropWhile (\<lambda>x. x \<noteq> CHR ''?'') r of
               q1 # enc # q2 # t \<Rightarrow>
                 if q2 = CHR ''?'' then
                   (case cut_close t of
                      Some (text, rest) \<Rightarrow> Some (takeWhile (\<lambda>x. x \<noteq> CHR ''?'') r, enc, text, rest)
                    | None \<Rightarrow> None)
                 else None
             | _ \<Rightarrow> None)
          else None
      | _ \<Rightarrow> None)"

definition is_lwsp :: "char \<Rightarrow> bool" where
  "is_lwsp c = (c = CHR '' '' \<or> c = TAB \<or> c = CR \<or> c = LF)"

lemma cut_close_length: "cut_close t = Some (u, rest) \<Longrightarrow> length rest < length t"
proof (induction t arbitrary: u rule: cut_close.induct)
  case (1 c d r)
  then show ?case
    by (cases "c = CHR ''?'' \<and> d = CHR ''=''") auto
qed auto

lemma parse_word_length:
  assumes "parse_word s = Some (cs, e, t, rest)"
  shows "length rest < length s"
proof -
  obtain c d r q1 enc q2 u where s: "s = c # d # r"
    and r: "dropWhile (\<lambda>x. x \<noteq> CHR ''?'') r = q1 # enc # q2 # u"
    and u: "cut_close u = Some (t, rest)"
    using assms by (auto simp: parse_word_def split: list.splits if_splits option.splits)
  have "length (q1 # enc # q2 # u) \<le> length r"
    unfolding r [symmetric] by (rule length_dropWhile_le)
  with cut_close_length [OF u] s show ?thesis by simp
qed

text \<open>The loop of \<^verbatim>\<open>DecodeEncodedWords\<close>. \<open>pend\<close> is the white space held back since
  \<^verbatim>\<open>pending_ws_start\<close>.\<close>

function dew_loop :: "string \<Rightarrow> bool \<Rightarrow> string option \<Rightarrow> string \<Rightarrow> string" where
  "dew_loop [] last_was_word pend out = (case pend of Some w \<Rightarrow> out @ w | None \<Rightarrow> out)"
| "dew_loop (c # cs) last_was_word pend out =
     (case parse_word (c # cs) of
        Some (charset, enc, text, rest) \<Rightarrow>
          let out' = (if last_was_word \<and> pend \<noteq> None then out
                      else case pend of Some w \<Rightarrow> out @ w | None \<Rightarrow> out)
          in dew_loop rest True None (out' @ DecodeOneEncodedWord charset enc text)
      | None \<Rightarrow>
          if is_lwsp c
          then dew_loop cs last_was_word (Some ((case pend of Some w \<Rightarrow> w | None \<Rightarrow> []) @ [c])) out
          else dew_loop cs False None ((case pend of Some w \<Rightarrow> out @ w | None \<Rightarrow> out) @ [c]))"
  by pat_completeness auto
termination
  by (relation "measure (\<lambda>(s, l, p, out). length s)") (auto dest: parse_word_length)

definition DecodeEncodedWords :: "string \<Rightarrow> string" where
  "DecodeEncodedWords s = dew_loop s False None []"

fun contains_pair :: "char \<Rightarrow> char \<Rightarrow> string \<Rightarrow> bool" where
  "contains_pair a b (c # d # r) = (c = a \<and> d = b \<or> contains_pair a b (d # r))"
| "contains_pair a b _ = False"

text \<open>The inner loop that backs off the continuation bytes of a UTF-8 sequence.\<close>

fun back_off :: "string \<Rightarrow> nat \<Rightarrow> nat" where
  "back_off s 0 = 0"
| "back_off s (Suc n) =
     (if Suc n < length s \<and> byte (s ! Suc n) AND 0xC0 = 0x80 then back_off s n else Suc n)"

definition chunk_len :: "string \<Rightarrow> nat" where
  "chunk_len s =
     (let n = back_off s (min 45 (length s))
      in if n = 0 then min 45 (length s) else n)"

definition word_prefix :: string where
  "word_prefix = ''=?UTF-8?B?''"

lemma back_off_le: "back_off s n \<le> n"
  by (induction s n rule: back_off.induct) auto

lemma chunk_len_pos: "s \<noteq> [] \<Longrightarrow> 0 < chunk_len s"
  by (simp add: chunk_len_def Let_def)

function eew_loop :: "string \<Rightarrow> string \<Rightarrow> string" where
  "eew_loop s out =
     (if s = [] then out
      else eew_loop (drop (chunk_len s) s)
             ((if out \<noteq> [] then out @ crlf @ '' '' else out)
                @ word_prefix @ Base64Encode (take (chunk_len s) s) @ ''?=''))"
  by pat_completeness auto
termination
  by (relation "measure (\<lambda>(s, out). length s)") (auto simp: chunk_len_pos)

declare eew_loop.simps [simp del]

definition needs_encoding :: "string \<Rightarrow> bool" where
  "needs_encoding s =
     (contains_pair (CHR ''='') (CHR ''?'') s \<or> (\<exists>c \<in> set s. 0x80 \<le> byte c \<or> c = CR \<or> c = LF))"

definition EncodeEncodedWord :: "string \<Rightarrow> string" where
  "EncodeEncodedWord s = (if \<not> needs_encoding s then s else eew_loop s [])"

section \<open>Quoted-printable\<close>

text \<open>The canonical form of a text: every line feed is a CRLF, every other carriage return is gone.\<close>

definition canonical_text :: "string \<Rightarrow> string" where
  "canonical_text s = concat (map (\<lambda>c. if c = LF then crlf else if c = CR then [] else [c]) s)"

text \<open>Every line of a CRLF-separated text, the current one with \<open>col\<close> characters before it,
  has at most \<open>k\<close> characters.\<close>

fun lines_within :: "nat \<Rightarrow> nat \<Rightarrow> string \<Rightarrow> bool" where
  "lines_within k col [] = (col \<le> k)"
| "lines_within k col (c # cs) =
     (if c = CR \<and> (case cs of d # _ \<Rightarrow> d = LF | [] \<Rightarrow> False)
      then col \<le> k \<and> lines_within k 0 (tl cs)
      else lines_within k (Suc col) cs)"

text \<open>Printable 7-bit characters, blank, tab and the line ending.\<close>

definition transport_char :: "char \<Rightarrow> bool" where
  "transport_char c = (32 \<le> byte c \<and> byte c \<le> 126 \<or> c = TAB \<or> c = CR \<or> c = LF)"

lemma nat_and_15: "(n::nat) AND 15 = n mod 16"
  using take_bit_eq_mask [of 4 n] by (simp add: take_bit_eq_mod mask_eq_exp_minus_1)

lemma push_or_nibble:
  assumes "0 \<le> (h::int)" "0 \<le> l" "l < 16"
  shows "push_bit 4 h OR l = 16 * h + l"
proof -
  have "take_bit 4 l = l"
    using assms(2,3) by (simp add: take_bit_int_eq_self_iff)
  then have "\<not> bit l n" if "4 \<le> n" for n
    using that by (metis bit_take_bit_iff not_less)
  then have "\<not> bit (push_bit 4 h) n \<or> \<not> bit l n" for n
    by (auto simp: bit_push_bit_iff)
  then have "push_bit 4 h + l = push_bit 4 h OR l"
    by (rule disjunctive_add)
  then show ?thesis
    by (simp add: push_bit_eq_mult)
qed

lemma kHex_HexVal: "n < 16 \<Longrightarrow> HexVal (kHex ! n) = int n"
proof -
  have "\<forall>n \<in> set [0..<16]. HexVal (kHex ! n) = int n"
    by (simp add: kHex_def HexVal_def upt_rec)
  then show "n < 16 \<Longrightarrow> HexVal (kHex ! n) = int n" by simp
qed

lemma kHex_printable: "n < 16 \<Longrightarrow> transport_char (kHex ! n) \<and> kHex ! n \<noteq> CR \<and> kHex ! n \<noteq> LF"
proof -
  have "\<forall>n \<in> set [0..<16]. transport_char (kHex ! n) \<and> kHex ! n \<noteq> CR \<and> kHex ! n \<noteq> LF"
    by (simp add: kHex_def transport_char_def upt_rec)
  then show "n < 16 \<Longrightarrow> transport_char (kHex ! n) \<and> kHex ! n \<noteq> CR \<and> kHex ! n \<noteq> LF" by simp
qed

lemma nibble_facts:
  "drop_bit 4 (byte c) < 16" "byte c AND 15 < 16"
  "16 * int (drop_bit 4 (byte c)) + int (byte c AND 15) = int (byte c)"
  using byte_less [of c] by (auto simp: nat_and_15 drop_bit_eq_div zdiv_int zmod_int simp del: byte_less)

lemma decode_escape:
  "DecodeQpImpl (CHR ''='' # kHex ! drop_bit 4 (byte c) # kHex ! (byte c AND 15) # r) u
     = c # DecodeQpImpl r u"
  using kHex_HexVal [OF nibble_facts(1) [of c]] kHex_HexVal [OF nibble_facts(2) [of c]]
    kHex_printable [OF nibble_facts(1) [of c]] nibble_facts(3) [of c] nibble_facts(2) [of c]
  by (simp add: push_or_nibble)

lemma decode_soft_break: "DecodeQpImpl (''='' @ crlf @ r) u = DecodeQpImpl r u"
  by simp

lemma decode_plain: "c \<noteq> CHR ''='' \<Longrightarrow> DecodeQpImpl (c # r) False = c # DecodeQpImpl r False"
  by simp

lemma decode_emit:
  assumes "\<And>r. DecodeQpImpl (tok @ r) False = c # DecodeQpImpl r False"
  shows "DecodeQpImpl (fst (qp_emit n tok) @ r) False = c # DecodeQpImpl r False"
  using assms decode_soft_break [of "tok @ r" False] by (simp add: qp_emit_def)

lemma qp_loop_decodes: "DecodeQpImpl (qp_loop n s) False = canonical_text s"
proof (induction n s rule: qp_loop.induct)
  case (2 n c cs)
  consider "c = LF" | "c = CR" | "c \<noteq> LF" "c \<noteq> CR" by blast
  then show ?case
  proof cases
    case 3
    let ?tok = "if 33 \<le> byte c \<and> byte c \<le> 126 \<and> c \<noteq> CHR ''='' \<or> c = CHR '' '' \<or> c = TAB then [c]
      else [CHR ''='', kHex ! drop_bit 4 (byte c), kHex ! (byte c AND 0x0F)]"
    have tok: "DecodeQpImpl (?tok @ r) False = c # DecodeQpImpl r False" for r
      by (auto simp del: DecodeQpImpl.simps simp add: decode_escape decode_plain)
    obtain u n' where e: "qp_emit n ?tok = (u, n')" by fastforce
    have "DecodeQpImpl (u @ qp_loop n' cs) False = c # DecodeQpImpl (qp_loop n' cs) False"
      using decode_emit [of ?tok c n "qp_loop n' cs", OF tok] by (simp only: e fst_conv)
    then show ?thesis
      using 3 2(3) [OF _ _ refl refl refl] e by (simp add: canonical_text_def del: DecodeQpImpl.simps)
  qed (use 2 in \<open>auto simp: canonical_text_def\<close>)
qed (simp add: canonical_text_def)

lemma lines_within_plain:
  "CR \<notin> set u \<Longrightarrow> lines_within k col (u @ r) = lines_within k (col + length u) r"
  by (induction u arbitrary: col) auto

lemma lines_within_break: "lines_within k col (CR # LF # r) = (col \<le> k \<and> lines_within k 0 r)"
  by simp

abbreviation qp_token :: "char \<Rightarrow> string" where
  "qp_token c \<equiv> (if 33 \<le> byte c \<and> byte c \<le> 126 \<and> c \<noteq> CHR ''='' \<or> c = CHR '' '' \<or> c = TAB then [c]
      else [CHR ''='', kHex ! drop_bit 4 (byte c), kHex ! (byte c AND 0x0F)])"

lemma qp_token_facts:
  assumes "c \<noteq> LF" "c \<noteq> CR"
  shows "CR \<notin> set (qp_token c)" "length (qp_token c) \<le> 3" "list_all transport_char (qp_token c)"
proof -
  have hex: "transport_char (kHex ! drop_bit 4 (byte c))" "transport_char (kHex ! (byte c AND 15))"
    "kHex ! drop_bit 4 (byte c) \<noteq> CR" "kHex ! (byte c AND 15) \<noteq> CR"
    using kHex_printable [OF nibble_facts(1) [of c]] kHex_printable [OF nibble_facts(2) [of c]]
    by simp_all
  have plain: "transport_char c" if "33 \<le> byte c \<and> byte c \<le> 126 \<and> c \<noteq> CHR ''='' \<or> c = CHR '' '' \<or> c = TAB"
    using that by (auto simp: transport_char_def)
  show "CR \<notin> set (qp_token c)"
    using assms(2) hex(3,4) by simp
  show "length (qp_token c) \<le> 3"
    by simp
  show "list_all transport_char (qp_token c)"
    using plain hex(1,2) by (simp add: transport_char_def [of "CHR ''=''"])
qed

lemma lines_within_emit:
  assumes "CR \<notin> set tok" "length tok \<le> 3" "col \<le> 75"
    and "\<And>n. n \<le> 75 \<Longrightarrow> lines_within 76 n (r n)"
  shows "lines_within 76 col (fst (qp_emit col tok) @ r (snd (qp_emit col tok)))"
  using assms lines_within_plain [OF assms(1), of 76 0] lines_within_plain [OF assms(1), of 76 col]
  by (auto simp: qp_emit_def lines_within_break)

lemma snd_qp_emit_le: "length tok \<le> 3 \<Longrightarrow> snd (qp_emit col tok) \<le> 75"
  by (simp add: qp_emit_def)

lemma qp_loop_token:
  assumes "c \<noteq> LF" "c \<noteq> CR"
  shows "qp_loop n (c # cs) =
    fst (qp_emit n (qp_token c)) @ qp_loop (snd (qp_emit n (qp_token c))) cs"
  using assms by (simp only: qp_loop.simps Let_def if_False split_beta)

declare qp_loop.simps(2) [simp del]

lemma qp_loop_breaks [simp]:
  "qp_loop n (LF # cs) = CR # LF # qp_loop 0 cs" "qp_loop n (CR # cs) = qp_loop n cs"
  by (simp_all add: qp_loop.simps(2))

lemma qp_loop_lines: "n \<le> 75 \<Longrightarrow> lines_within 76 n (qp_loop n s)"
proof (induction s arbitrary: n)
  case (Cons c cs)
  consider "c = LF" | "c = CR" | "c \<noteq> LF" "c \<noteq> CR" by blast
  then show ?case
  proof cases
    case 3
    show ?thesis
      unfolding qp_loop_token [OF 3]
      by (rule lines_within_emit [where r = "\<lambda>n. qp_loop n cs"])
         (use qp_token_facts [OF 3] Cons in simp_all)
  qed (use Cons in \<open>simp_all del: lines_within.simps add: lines_within_break\<close>)
qed simp

lemma qp_emit_transport:
  "list_all transport_char tok \<Longrightarrow> list_all transport_char (fst (qp_emit n tok))"
  by (simp add: qp_emit_def transport_char_def)

lemma qp_loop_transport: "list_all transport_char (qp_loop n s)"
proof (induction s arbitrary: n)
  case (Cons c cs)
  consider "c = LF" | "c = CR" | "c \<noteq> LF" "c \<noteq> CR" by blast
  then show ?case
  proof cases
    case 3
    then show ?thesis
      unfolding qp_loop_token [OF 3]
      using Cons qp_emit_transport [OF qp_token_facts(3) [OF 3]] by simp
  qed (use Cons in \<open>simp_all add: transport_char_def\<close>)
qed simp

text \<open>C40. Quoted-printable is lossless up to line endings: decoding what
  \<open>EncodeQuotedPrintable\<close> wrote gives the input with every line feed as CRLF and stray carriage
  returns removed, for arbitrary bytes, soft line breaks included.\<close>

theorem QuotedPrintable_roundtrip:
  "DecodeQuotedPrintable (EncodeQuotedPrintable s) = canonical_text s"
  by (simp add: DecodeQuotedPrintable_def EncodeQuotedPrintable_def qp_loop_decodes)

text \<open>What \<open>EncodeQuotedPrintable\<close> writes can be transported: no line has more than 76
  characters (RFC 2045), and every character is printable 7-bit text, a blank, a tab or part of
  a line ending.\<close>

theorem EncodeQuotedPrintable_lines:
  "lines_within 76 0 (EncodeQuotedPrintable s) \<and> list_all transport_char (EncodeQuotedPrintable s)"
  by (simp add: EncodeQuotedPrintable_def qp_loop_lines qp_loop_transport)

section \<open>Encoded words\<close>

lemma cut_close_after: "CHR ''?'' \<notin> set u \<Longrightarrow> cut_close (u @ ''?='' @ r) = Some (u, r)"
proof (induction u)
  case (Cons c u)
  then show ?case by (cases u) auto
qed simp

lemma parse_word_b64:
  "parse_word (word_prefix @ Base64Encode x @ ''?='' @ r)
     = Some (''UTF-8'', CHR ''B'', Base64Encode x, r)"
  using cut_close_after [OF b64.encode_avoids [OF b64_char_not_qmark], of x r]
  by (simp add: parse_word_def word_prefix_def)

lemma decode_b64_word: "DecodeOneEncodedWord ''UTF-8'' (CHR ''B'') (Base64Encode x) = x"
proof -
  have "toupper (CHR ''B'') = CHR ''B''" "Lower ''UTF-8'' = ''utf-8''"
    by code_simp+
  then show ?thesis
    by (simp add: DecodeOneEncodedWord_def b64.decode_encode)
qed

lemma parse_word_no_start: "c \<noteq> CHR ''='' \<Longrightarrow> parse_word (c # cs) = None"
  by (simp add: parse_word_def split: list.splits)

text \<open>The decoder on one word: the fold before it is dropped when it follows another word.\<close>

lemma dew_word:
  "dew_loop (word_prefix @ Base64Encode x @ ''?='' @ r) False None out = dew_loop r True None (out @ x)"
  "dew_loop (crlf @ '' '' @ word_prefix @ Base64Encode x @ ''?='' @ r) True None out
     = dew_loop r True None (out @ x)"
proof -
  have cons: "word_prefix @ Base64Encode x @ ''?='' @ r
      = CHR ''='' # tl word_prefix @ Base64Encode x @ ''?='' @ r"
    by (simp add: word_prefix_def)
  have step: "dew_loop (word_prefix @ Base64Encode x @ ''?='' @ r) lw pend out
      = dew_loop r True None ((if lw \<and> pend \<noteq> None then out
          else case pend of Some w \<Rightarrow> out @ w | None \<Rightarrow> out) @ x)" for lw pend
    using parse_word_b64 [of x r] unfolding cons by (simp add: decode_b64_word)
  show "dew_loop (word_prefix @ Base64Encode x @ ''?='' @ r) False None out = dew_loop r True None (out @ x)"
    by (simp only: step) simp
  show "dew_loop (crlf @ '' '' @ word_prefix @ Base64Encode x @ ''?='' @ r) True None out
     = dew_loop r True None (out @ x)"
    using step [of True "Some [CR, LF, CHR '' '']"] by (simp add: parse_word_no_start is_lwsp_def)
qed

text \<open>\<open>decoded_so_far out x\<close>: after the text \<open>out\<close> the decoder has produced \<open>x\<close> and has just
  left an encoded word (or has not started).\<close>

definition decoded_so_far :: "string \<Rightarrow> string \<Rightarrow> bool" where
  "decoded_so_far out x \<longleftrightarrow> (if out = [] then x = []
     else \<forall>r. dew_loop (out @ r) False None [] = dew_loop r True None x)"

lemma decoded_so_far_step:
  assumes "decoded_so_far out x"
  shows "decoded_so_far ((if out \<noteq> [] then out @ crlf @ '' '' else out)
           @ word_prefix @ Base64Encode y @ ''?='') (x @ y)"
proof (cases "out = []")
  case True
  with assms dew_word(1) [of y _ "[]"] show ?thesis
    by (simp add: decoded_so_far_def)
next
  case False
  with assms have "dew_loop (out @ crlf @ '' '' @ word_prefix @ Base64Encode y @ ''?='' @ r) False None []
      = dew_loop r True None (x @ y)" for r
    using dew_word(2) [of y r x] by (simp add: decoded_so_far_def)
  with False show ?thesis
    by (simp add: decoded_so_far_def)
qed

lemma dew_eew:
  "decoded_so_far out x \<Longrightarrow> dew_loop (eew_loop s out) False None [] = x @ s"
proof (induction s out arbitrary: x rule: eew_loop.induct)
  case (1 s out)
  show ?case
  proof (cases "s = []")
    case True
    then have "eew_loop s out = out"
      by (subst eew_loop.simps) simp
    with 1(2) True show ?thesis
      by (cases "out = []") (auto simp: decoded_so_far_def dest: spec [of _ "[]"])
  next
    case False
    let ?y = "take (chunk_len s) s"
    have "dew_loop (eew_loop s out) False None [] = (x @ ?y) @ drop (chunk_len s) s"
      using 1(1) [OF False decoded_so_far_step [OF 1(2), of ?y]] False
      by (subst eew_loop.simps) (simp only: if_False)
    then show ?thesis by simp
  qed
qed

lemma dew_plain:
  "\<not> contains_pair (CHR ''='') (CHR ''?'') s \<Longrightarrow>
   dew_loop s lw pend out = out @ (case pend of Some w \<Rightarrow> w | None \<Rightarrow> []) @ s"
proof (induction s arbitrary: lw pend out)
  case (Cons c cs)
  from Cons.prems have none: "parse_word (c # cs) = None"
    by (cases cs) (auto simp: parse_word_def)
  from Cons.prems have "\<not> contains_pair (CHR ''='') (CHR ''?'') cs"
    by (cases cs) auto
  with none Cons.IH show ?case by (simp split: option.splits)
qed (simp split: option.splits)

text \<open>C38. A header value survives its encoding: for every byte string, decoding the encoded words
  that \<open>EncodeEncodedWord\<close> wrote gives the string back. The folds between the words leave no
  white space behind, and a value that needs no encoding and is passed through is left alone by
  the decoder.\<close>

theorem EncodedWord_roundtrip: "DecodeEncodedWords (EncodeEncodedWord s) = s"
proof (cases "needs_encoding s")
  case True
  have "decoded_so_far [] []"
    by (simp add: decoded_so_far_def)
  from dew_eew [OF this] True show ?thesis
    by (simp add: DecodeEncodedWords_def EncodeEncodedWord_def)
next
  case False
  then show ?thesis
    by (simp add: DecodeEncodedWords_def EncodeEncodedWord_def needs_encoding_def dew_plain)
qed

text \<open>Header text in which a line ending occurs only as part of a fold, followed by a blank.\<close>

fun header_safe :: "string \<Rightarrow> bool" where
  "header_safe [] = True"
| "header_safe (c # cs) =
     (if c = CR
      then (case cs of d # e # r \<Rightarrow> d = LF \<and> e = CHR '' '' \<and> header_safe r | _ \<Rightarrow> False)
      else c \<noteq> LF \<and> header_safe cs)"

lemma header_safe_append: "header_safe u \<Longrightarrow> header_safe (u @ r) = header_safe r"
  by (induction u rule: header_safe.induct) (auto split: if_splits list.splits)

lemma header_safe_plain: "CR \<notin> set u \<Longrightarrow> LF \<notin> set u \<Longrightarrow> header_safe u"
  by (induction u) auto

definition ascii :: "char \<Rightarrow> bool" where
  "ascii c = (byte c < 128)"

definition enc_word :: "string \<Rightarrow> string" where
  "enc_word y = word_prefix @ Base64Encode y @ ''?=''"

lemma kEnc_ascii: "list_all (\<lambda>c. ascii c \<and> c \<noteq> CR \<and> c \<noteq> LF) kEnc"
  by (simp add: kEnc_def ascii_def)

lemma b64_char_ascii: "b64_char c \<Longrightarrow> ascii c \<and> c \<noteq> CR \<and> c \<noteq> LF"
proof (cases "c = CHR ''=''")
  case False
  moreover assume "b64_char c"
  ultimately show ?thesis
    using kEnc_ascii unfolding b64_char_def list_all_iff by blast
qed (simp add: ascii_def)

lemma enc_word_chars: "c \<in> set (enc_word y) \<Longrightarrow> ascii c \<and> c \<noteq> CR \<and> c \<noteq> LF"
  using b64_char_ascii [OF b64.encode_alphabet, of c y]
  by (auto simp: enc_word_def word_prefix_def ascii_def)

lemma length_enc_word: "length y \<le> 45 \<Longrightarrow> length (enc_word y) \<le> 72"
  by (simp add: enc_word_def word_prefix_def Base64Encode_rfc length_rfc4648)

lemma chunk_len_le: "chunk_len s \<le> 45"
  using back_off_le [of s "min 45 (length s)"] by (auto simp: chunk_len_def Let_def)

text \<open>What every prefix the encoder writes satisfies.\<close>

definition safe_so_far :: "string \<Rightarrow> bool" where
  "safe_so_far out \<longleftrightarrow> header_safe out \<and> list_all ascii out \<and>
     (\<exists>col \<le> 73. \<forall>r. lines_within 75 0 (out @ r) = lines_within 75 col r)"

lemma safe_so_far_step:
  assumes "safe_so_far out" "length y \<le> 45"
  shows "safe_so_far ((if out \<noteq> [] then out @ crlf @ '' '' else out) @ enc_word y)"
proof -
  let ?fold = "if out \<noteq> [] then out @ crlf @ '' '' else out"
  have plain: "CR \<notin> set (enc_word y)" "LF \<notin> set (enc_word y)" "list_all ascii (enc_word y)"
    using enc_word_chars [of _ y] by (auto simp: list_all_iff)
  have lines: "\<forall>r. lines_within 75 0 (?fold @ r) = lines_within 75 (if out \<noteq> [] then 1 else 0) r"
  proof (cases "out = []")
    case False
    obtain col where col: "col \<le> 73" "\<And>r. lines_within 75 0 (out @ r) = lines_within 75 col r"
      using assms(1) unfolding safe_so_far_def by blast
    have "lines_within 75 col (crlf @ '' '' @ r) = lines_within 75 1 r" for r
      using col(1) by simp
    with False col(2) show ?thesis by simp
  qed simp
  have "lines_within 75 0 ((?fold @ enc_word y) @ r)
      = lines_within 75 ((if out \<noteq> [] then 1 else 0) + length (enc_word y)) r" for r
    using lines lines_within_plain [OF plain(1)] by simp
  moreover have "header_safe (?fold @ enc_word y)"
    using assms(1) plain by (simp add: safe_so_far_def header_safe_append header_safe_plain)
  moreover have "list_all ascii (?fold @ enc_word y)"
    using plain(3) assms(1) by (simp add: safe_so_far_def ascii_def)
  moreover have "(if out \<noteq> [] then 1 else 0) + length (enc_word y) \<le> 73"
    using length_enc_word [OF assms(2)] by simp
  ultimately show ?thesis
    unfolding safe_so_far_def by blast
qed

lemma eew_safe: "safe_so_far out \<Longrightarrow> safe_so_far (eew_loop s out)"
proof (induction s out rule: eew_loop.induct)
  case (1 s out)
  show ?case
  proof (cases "s = []")
    case True
    then show ?thesis using 1(2) by (subst eew_loop.simps) simp
  next
    case False
    have "length (take (chunk_len s) s) \<le> 45"
      using chunk_len_le [of s] by simp
    from 1(1) [OF False] safe_so_far_step [OF 1(2) this] False show ?thesis
      by (subst eew_loop.simps) (simp add: enc_word_def)
  qed
qed

text \<open>An encoded header value is safe to put into a header: whatever bytes the input has,
  the result is 7-bit, a line ending occurs in it only inside a fold followed by a blank (so the
  value can neither end its header nor start another one), and when words were written no line
  of them has more than 75 characters.\<close>

theorem EncodeEncodedWord_safe:
  "header_safe (EncodeEncodedWord s) \<and> list_all ascii (EncodeEncodedWord s)
   \<and> (EncodeEncodedWord s = s \<or> lines_within 75 0 (EncodeEncodedWord s))"
proof (cases "needs_encoding s")
  case True
  have "safe_so_far []"
    by (auto simp: safe_so_far_def)
  then have "safe_so_far (eew_loop s [])"
    by (rule eew_safe)
  then obtain col where "header_safe (eew_loop s [])" "list_all ascii (eew_loop s [])" "col \<le> 73"
    "lines_within 75 0 (eew_loop s [] @ []) = lines_within 75 col []"
    unfolding safe_so_far_def by blast
  with True show ?thesis by (simp add: EncodeEncodedWord_def)
next
  case False
  then have "EncodeEncodedWord s = s" "CR \<notin> set s" "LF \<notin> set s" "\<forall>c \<in> set s. \<not> 0x80 \<le> byte c"
    unfolding EncodeEncodedWord_def needs_encoding_def by auto
  then show ?thesis
    by (simp add: header_safe_plain ascii_def list_all_iff not_le)
qed

end
