(* ===== verification/QM_Wildmat.thy ===== *)
theory QM_Wildmat
  imports QM_Prelude
begin

text \<open>
  \<^verbatim>\<open>src/core/src/wildmat.cpp\<close>: the RFC 3977 wildmat matcher that NNTP newsgroup lists and
  the mail policy's allow and block rules use. The indices \<^verbatim>\<open>ti\<close> and \<^verbatim>\<open>pi\<close> of the
  C++ are the rest of the text and the rest of the pattern. The backtracking matcher is shown
  equivalent to a declarative semantics of parsed patterns, and the comma-separated list to
  "the last item that matches decides".
\<close>

section \<open>The code\<close>

text \<open>The \<^verbatim>\<open>for\<close> loop over a bracket expression, entered after the optional negation. It
  returns whether the character was hit and the pattern after the closing bracket, or
  \<^const>\<open>None\<close> when the bracket is never closed (\<^verbatim>\<open>k >= pat.size()\<close>).\<close>

fun class_loop :: "char \<Rightarrow> bool \<Rightarrow> bool \<Rightarrow> string \<Rightarrow> (bool \<times> string) option" where
  "class_loop t first hit [] = None"
| "class_loop t first hit (c # cs) =
     (if c = CHR '']'' \<and> \<not> first then Some (hit, cs)
      else (case cs of
              d # e # r \<Rightarrow>
                if d = CHR ''-'' \<and> e \<noteq> CHR '']''
                then class_loop t False (hit \<or> schar c \<le> schar t \<and> schar t \<le> schar e) r
                else class_loop t False (hit \<or> c = t) cs
            | _ \<Rightarrow> class_loop t False (hit \<or> c = t) cs))"

definition class_negated :: "string \<Rightarrow> bool" where
  "class_negated ps = (case ps of c # _ \<Rightarrow> c = CHR ''^'' \<or> c = CHR ''!'' | [] \<Rightarrow> False)"

definition class_match :: "char \<Rightarrow> string \<Rightarrow> string option" where
  "class_match t ps =
     (let negate = class_negated ps in
      case class_loop t True False (if negate then tl ps else ps) of
        None \<Rightarrow> None
      | Some (hit, rest) \<Rightarrow> if hit = negate then None else Some rest)"

declare class_loop.simps(2) [simp del]

lemma class_loop_length: "class_loop t f h ps = Some (h', rest) \<Longrightarrow> length rest < length ps"
proof (induction t f h ps rule: class_loop.induct)
  case (2 t first hit c cs)
  then show ?case
    unfolding class_loop.simps(2) [of t first hit c cs]
    by (auto split: if_splits list.splits intro: less_SucI)
qed simp

lemma class_match_length: "class_match t ps = Some rest \<Longrightarrow> length rest < length ps"
  by (auto simp: class_match_def Let_def split: option.splits if_splits dest!: class_loop_length)

function MatchItem :: "string \<Rightarrow> string \<Rightarrow> bool" where
  "MatchItem text [] = (text = [])"
| "MatchItem text (p # ps) =
     (if p = CHR ''*'' then
        (let ps' = dropWhile (\<lambda>c. c = CHR ''*'') ps
         in if ps' = [] then True
            else list_ex (\<lambda>k. MatchItem (drop k text) ps') [0..<Suc (length text)])
      else (case text of
              [] \<Rightarrow> False
            | t # ts \<Rightarrow>
                if p = CHR ''?'' then MatchItem ts ps
                else if p = CHR ''['' then
                  (case class_match t ps of None \<Rightarrow> False | Some rest \<Rightarrow> MatchItem ts rest)
                else if p = CHR 0x5C \<and> ps \<noteq> [] then (if hd ps \<noteq> t then False else MatchItem ts (tl ps))
                else if p \<noteq> t then False else MatchItem ts ps))"
  by pat_completeness auto
termination
  by (relation "measure (\<lambda>(tx, pat). length pat)")
     (auto dest: class_match_length simp: less_Suc_eq_le length_dropWhile_le)

declare MatchItem.simps(2) [simp del]

definition item_negated :: "string \<Rightarrow> bool" where
  "item_negated item = (item \<noteq> [] \<and> hd item = CHR ''!'')"

definition item_matches :: "string \<Rightarrow> string \<Rightarrow> bool" where
  "item_matches text item = MatchItem text (if item_negated item then tl item else item)"

text \<open>The body of the loop over the items, on \<^verbatim>\<open>decided\<close> and \<^verbatim>\<open>result\<close>.\<close>

definition wildmat_step :: "string \<Rightarrow> string \<Rightarrow> bool \<times> bool \<Rightarrow> bool \<times> bool" where
  "wildmat_step text item st =
     (if item_matches text item then (True, \<not> item_negated item) else st)"

definition WildmatMatch :: "string \<Rightarrow> string \<Rightarrow> bool" where
  "WildmatMatch text pattern =
     (if pattern = [] then True
      else case fold (wildmat_step text) (split_on (CHR '','') pattern) (False, False) of
             (decided, result) \<Rightarrow> decided \<and> result)"

section \<open>Patterns and their meaning\<close>

text \<open>A parsed pattern item. A bracket expression is kept as the set of characters it accepts;
  an unclosed bracket accepts nothing.\<close>

datatype wtok = Star | Single "char \<Rightarrow> bool" | Never

text \<open>The text of a bracket expression up to its closing bracket does not depend on the
  character tested.\<close>

definition class_rest :: "string \<Rightarrow> string option" where
  "class_rest ps = map_option snd (class_loop CR True False (if class_negated ps then tl ps else ps))"

definition class_accepts :: "string \<Rightarrow> char \<Rightarrow> bool" where
  "class_accepts ps t = (class_match t ps \<noteq> None)"

lemma class_loop_rest:
  "map_option snd (class_loop t f h ps) = map_option snd (class_loop t' f h' ps)"
proof (induction t f h ps arbitrary: h' rule: class_loop.induct)
  case (2 t first hit c cs)
  show ?case
    unfolding class_loop.simps(2) using 2 by (auto split: list.split)
qed simp

lemma class_rest_length: "class_rest ps = Some rest \<Longrightarrow> length rest < length ps"
  by (auto simp: class_rest_def split: if_splits dest!: class_loop_length)

function tokens :: "string \<Rightarrow> wtok list" where
  "tokens [] = []"
| "tokens (p # ps) =
     (if p = CHR ''*'' then Star # tokens ps
      else if p = CHR ''?'' then Single (\<lambda>_. True) # tokens ps
      else if p = CHR ''['' then
        (case class_rest ps of None \<Rightarrow> [Never] | Some rest \<Rightarrow> Single (class_accepts ps) # tokens rest)
      else if p = CHR 0x5C \<and> ps \<noteq> [] then Single (\<lambda>c. c = hd ps) # tokens (tl ps)
      else Single (\<lambda>c. c = p) # tokens ps)"
  by pat_completeness auto
termination
  by (relation "measure length") (auto dest: class_rest_length)

inductive wm :: "wtok list \<Rightarrow> string \<Rightarrow> bool" where
  wm_end: "wm [] []"
| wm_single: "P c \<Longrightarrow> wm ts s \<Longrightarrow> wm (Single P # ts) (c # s)"
| wm_star0: "wm ts s \<Longrightarrow> wm (Star # ts) s"
| wm_star1: "wm (Star # ts) s \<Longrightarrow> wm (Star # ts) (c # s)"

inductive_simps wm_simps: "wm [] s" "wm (Single P # ts) s" "wm (Never # ts) s"

lemma wm_star: "wm (Star # ts) s \<longleftrightarrow> (\<exists>k \<le> length s. wm ts (drop k s))"
proof
  assume "wm (Star # ts) s"
  then show "\<exists>k \<le> length s. wm ts (drop k s)"
  proof (induction "Star # ts" s)
    case (wm_star0 s)
    then show ?case by (intro exI [of _ 0]) simp
  next
    case (wm_star1 s c)
    then obtain k where "k \<le> length s" "wm ts (drop k s)" by blast
    then show ?case by (intro exI [of _ "Suc k"]) simp
  qed
next
  have star_all: "wm ts (drop k s) \<Longrightarrow> k \<le> length s \<Longrightarrow> wm (Star # ts) s" for k
  proof (induction s arbitrary: k)
    case (Cons c s)
    then show ?case by (cases k) (auto intro: wm.intros)
  qed (auto intro: wm.intros)
  assume "\<exists>k \<le> length s. wm ts (drop k s)"
  with star_all show "wm (Star # ts) s" by blast
qed

lemma wm_star_star: "wm (Star # Star # ts) s = wm (Star # ts) s"
proof
  assume "wm (Star # Star # ts) s"
  then obtain k j where "k \<le> length s" "j \<le> length (drop k s)" "wm ts (drop j (drop k s))"
    by (auto simp: wm_star)
  then show "wm (Star # ts) s"
    unfolding wm_star by (intro exI [of _ "j + k"]) auto
qed (rule wm_star0)


section \<open>The matcher implements the meaning\<close>

lemma tokens_star_run: "wm (Star # tokens ps) s = wm (Star # tokens (dropWhile (\<lambda>c. c = CHR ''*'') ps)) s"
  by (induction ps) (auto simp: wm_star_star)

lemma class_match_rest:
  "(\<exists>rest. class_match t ps = Some rest \<and> P rest)
     \<longleftrightarrow> (\<exists>rest. class_rest ps = Some rest \<and> class_accepts ps t \<and> P rest)"
proof -
  let ?ps = "if class_negated ps then tl ps else ps"
  have "map_option snd (class_loop t True False ?ps) = class_rest ps"
    unfolding class_rest_def by (rule class_loop_rest)
  then have "class_match t ps = Some rest \<longleftrightarrow> class_rest ps = Some rest \<and> class_accepts ps t" for rest
    by (auto simp: class_accepts_def class_match_def Let_def split: option.splits if_splits)
  then show ?thesis by blast
qed

lemma wm_star_Nil: "wm [Star] s"
  by (auto simp: wm_star wm_simps)

lemma MatchItem_wm: "MatchItem tx pat \<longleftrightarrow> wm (tokens pat) tx"
proof (induction tx pat rule: MatchItem.induct)
  case (1 tx)
  show ?case by (simp add: wm_simps)
next
  case (2 tx p ps)
  show ?case
  proof (cases "p = CHR ''*''")
    case True
    let ?ps = "dropWhile (\<lambda>c. c = CHR ''*'') ps"
    have m: "MatchItem tx (p # ps) = (?ps = [] \<or> (\<exists>k \<le> length tx. MatchItem (drop k tx) ?ps))"
      using True by (auto simp: MatchItem.simps(2) list_ex_iff Let_def Bex_def le_less)
    have "wm (tokens (p # ps)) tx = wm (Star # tokens ?ps) tx"
      using True tokens_star_run by simp
    moreover have "MatchItem (drop k tx) ?ps = wm (tokens ?ps) (drop k tx)"
      if "?ps \<noteq> []" "k \<le> length tx" for k
    proof (rule 2(1) [OF True refl that(1)])
      show "k \<in> set [0..<Suc (length tx)]" using that(2) by auto
    qed
    ultimately show ?thesis
      unfolding m using wm_star_Nil by (cases "?ps = []") (auto simp: wm_star)
  next
    case False
    note m = MatchItem.simps(2) [of tx p ps]
    show ?thesis
    proof (cases tx)
      case Nil
      with False show ?thesis
        unfolding m by (simp add: wm_simps split: option.splits)
    next
      case (Cons t ts)
      consider "p = CHR ''?''" | "p = CHR ''[''" | "p = CHR 0x5C" "ps \<noteq> []"
        | "p \<noteq> CHR ''?''" "p \<noteq> CHR ''[''" "\<not> (p = CHR 0x5C \<and> ps \<noteq> [])" by blast
      then show ?thesis
      proof cases
        case 1
        with 2(2) [OF False Cons 1] Cons show ?thesis
          unfolding m by (simp add: wm_simps)
      next
        case 2
        have "MatchItem tx (p # ps) = (\<exists>rest. class_match t ps = Some rest \<and> MatchItem ts rest)"
          using 2 Cons unfolding m by (simp split: option.splits)
        also have "\<dots> = (\<exists>rest. class_match t ps = Some rest \<and> wm (tokens rest) ts)"
          using "2.IH"(3) [OF False Cons _ 2] 2 by auto
        finally show ?thesis
          unfolding class_match_rest using 2 Cons by (simp add: wm_simps split: option.splits)
      next
        case 3
        with "2.IH"(4) [OF False Cons] Cons show ?thesis
          unfolding m by (simp add: wm_simps)
      next
        case 4
        have "MatchItem tx (p # ps) = (p = t \<and> MatchItem ts ps)"
          using 4 Cons False unfolding m by (simp only: list.case if_False) auto
        moreover have "tokens (p # ps) = Single (\<lambda>c. c = p) # tokens ps"
          using 4 False by (simp only: tokens.simps if_False)
        ultimately show ?thesis
          using "2.IH"(5) [OF False Cons] 4 Cons by (auto simp: wm_simps)
      qed
    qed
  qed
qed

section \<open>Lists of items\<close>

lemma wildmat_fold:
  "fold (wildmat_step tx) items st =
     (case find (item_matches tx) (rev items) of
        None \<Rightarrow> st
      | Some item \<Rightarrow> (True, \<not> item_negated item))"
  by (induction items arbitrary: st rule: rev_induct) (auto simp: wildmat_step_def)

lemma find_append_none: "\<forall>v \<in> set vs. \<not> P v \<Longrightarrow> find P (vs @ ys) = find P ys"
  by (induction vs) auto

lemma find_last_match:
  "find P (rev xs) = Some x \<longleftrightarrow> (\<exists>us vs. xs = us @ x # vs \<and> P x \<and> (\<forall>v \<in> set vs. \<not> P v))"
proof
  show "find P (rev xs) = Some x \<Longrightarrow> \<exists>us vs. xs = us @ x # vs \<and> P x \<and> (\<forall>v \<in> set vs. \<not> P v)"
  proof (induction xs rule: rev_induct)
    case (snoc y xs)
    show ?case
    proof (cases "P y")
      case True
      with snoc.prems show ?thesis by (intro exI [of _ xs] exI [of _ "[]"]) simp
    next
      case False
      with snoc obtain us vs where "xs = us @ x # vs" "P x" "\<forall>v \<in> set vs. \<not> P v" by auto
      with False show ?thesis by (intro exI [of _ us] exI [of _ "vs @ [y]"]) auto
    qed
  qed simp
next
  assume "\<exists>us vs. xs = us @ x # vs \<and> P x \<and> (\<forall>v \<in> set vs. \<not> P v)"
  then show "find P (rev xs) = Some x"
    by (auto simp: find_append_none)
qed


text \<open>In a comma-separated pattern the last item that matches decides (RFC 3977): the text is
  accepted exactly when the pattern is empty or some item without a leading exclamation mark
  matches it and no later item does.\<close>

theorem WildmatMatch_last_wins:
  "WildmatMatch tx pattern \<longleftrightarrow> pattern = [] \<or>
     (\<exists>us item vs. split_on (CHR '','') pattern = us @ item # vs
        \<and> \<not> item_negated item \<and> MatchItem tx item \<and> list_all (\<lambda>v. \<not> item_matches tx v) vs)"
proof -
  have "WildmatMatch tx pattern \<longleftrightarrow> pattern = [] \<or>
      (\<exists>item. find (item_matches tx) (rev (split_on (CHR '','') pattern)) = Some item \<and> \<not> item_negated item)"
    by (auto simp: WildmatMatch_def wildmat_fold split: option.splits)
  moreover have "item_matches tx item = MatchItem tx item" if "\<not> item_negated item" for item
    using that by (simp add: item_matches_def)
  ultimately show ?thesis
    unfolding find_last_match list_all_iff by metis
qed

text \<open>A pattern without wildcard characters, quotes, commas and negation matches exactly the
  text it spells, so a rule for one address or one newsgroup covers nothing else.\<close>

theorem WildmatMatch_literal:
  assumes "pattern \<noteq> []" "list_all (\<lambda>c. c \<notin> set ''*?['' \<and> c \<noteq> CHR 0x5C \<and> c \<noteq> CHR '','') pattern"
    and "hd pattern \<noteq> CHR ''!''"
  shows "WildmatMatch tx pattern \<longleftrightarrow> tx = pattern"
proof -
  have item: "MatchItem t p \<longleftrightarrow> t = p"
    if "list_all (\<lambda>c. c \<notin> set ''*?['' \<and> c \<noteq> CHR 0x5C \<and> c \<noteq> CHR '','') p" for t p
    using that
  proof (induction p arbitrary: t)
    case (Cons c p)
    then show ?case by (cases t) (auto simp: MatchItem.simps(2))
  qed simp
  have "split_on (CHR '','') p = [p]"
    if "list_all (\<lambda>c. c \<notin> set ''*?['' \<and> c \<noteq> CHR 0x5C \<and> c \<noteq> CHR '','') p" for p
    using that by (induction p) auto
  with assms item show ?thesis
    by (simp add: WildmatMatch_def wildmat_step_def item_matches_def item_negated_def)
qed

theorem WildmatMatch_literal_witness:
  "WildmatMatch ''alt.test'' ''alt.test'' \<and> \<not> WildmatMatch ''alt.tests'' ''alt.test''"
  using WildmatMatch_literal [of "''alt.test''" "''alt.test''"]
    WildmatMatch_literal [of "''alt.test''" "''alt.tests''"] by simp

end
