(* ===== verification/QM_Telnet.thy ===== *)
theory QM_Telnet
  imports QM_Prelude
begin

text \<open>
  \<^verbatim>\<open>src/core/src/telnet.cpp\<close>, class \<^verbatim>\<open>telnet::Session\<close>: option negotiation, window
  size and terminal type, the CR/LF line discipline, raw byte I/O and the pager, and the two
  framing helpers of \<^verbatim>\<open>src/telnet/src/ssh_server.cpp\<close> that feed the same session.

  The stream a session reads from is a list of events: a byte, or a gap during which nothing
  arrives for longer than the time a caller is prepared to wait (\<^verbatim>\<open>WaitReadable\<close> is false
  there; a blocking read just waits it out). The end of the list is end of file. What the
  session writes is appended to \<open>sent\<close>.
\<close>

section \<open>The stream\<close>

datatype ev = Byte char | Gap

fun ReadByte :: "ev list \<Rightarrow> (char \<times> ev list) option" where
  "ReadByte [] = None"
| "ReadByte (Byte c # r) = Some (c, r)"
| "ReadByte (Gap # r) = ReadByte r"

fun WaitReadable :: "ev list \<Rightarrow> bool \<times> ev list" where
  "WaitReadable (Gap # r) = (False, r)"
| "WaitReadable es = (True, es)"

section \<open>The session\<close>

record session =
  inp :: "ev list"
  sent :: string
  echo :: bool
  pending_cr :: bool
  pushback :: "char option"
  width :: int
  height :: int
  have_naws :: bool
  page_rows :: int
  page_used :: int
  color :: bool
  dumb_terminal :: bool
  term_type :: string
  ssh :: bool

definition new_session :: "ev list \<Rightarrow> session" where
  "new_session es =
     \<lparr>inp = es, sent = [], echo = False, pending_cr = False, pushback = None, width = 80, height = 24,
      have_naws = False, page_rows = 0, page_used = 0, color = False, dumb_terminal = False,
      term_type = [], ssh = False\<rparr>"

abbreviation (input) IAC :: char where "IAC \<equiv> CHR 0xFF"
abbreviation (input) DONT :: char where "DONT \<equiv> CHR 0xFE"
abbreviation (input) DO :: char where "DO \<equiv> CHR 0xFD"
abbreviation (input) WONT :: char where "WONT \<equiv> CHR 0xFC"
abbreviation (input) WILL :: char where "WILL \<equiv> CHR 0xFB"
abbreviation (input) SB :: char where "SB \<equiv> CHR 0xFA"
abbreviation (input) SE :: char where "SE \<equiv> CHR 0xF0"
abbreviation (input) OPT_ECHO :: char where "OPT_ECHO \<equiv> CHR 0x01"
abbreviation (input) OPT_SGA :: char where "OPT_SGA \<equiv> CHR 0x03"
abbreviation (input) OPT_TTYPE :: char where "OPT_TTYPE \<equiv> CHR 0x18"
abbreviation (input) OPT_NAWS :: char where "OPT_NAWS \<equiv> CHR 0x1F"
abbreviation (input) NUL :: char where "NUL \<equiv> CHR 0x00"

definition put :: "string \<Rightarrow> session \<Rightarrow> session" where
  "put bs s = s\<lparr>sent := sent s @ bs\<rparr>"

definition Send3 :: "char \<Rightarrow> char \<Rightarrow> session \<Rightarrow> session" where
  "Send3 verb option s = put [IAC, verb, option] s"

definition Negotiate :: "session \<Rightarrow> session" where
  "Negotiate s =
     Send3 DO OPT_TTYPE (Send3 DO OPT_NAWS (Send3 DO OPT_SGA (Send3 WILL OPT_SGA (Send3 WILL OPT_ECHO s))))"

definition SetSize :: "int \<Rightarrow> int \<Rightarrow> session \<Rightarrow> session" where
  "SetSize w h s =
     s\<lparr>width := (if w < 20 then 20 else if w > 1000 then 1000 else w),
       height := (if h < 5 then 5 else if h > 500 then 500 else h)\<rparr>"

definition BeginSsh :: "string \<Rightarrow> int \<Rightarrow> int \<Rightarrow> session \<Rightarrow> session" where
  "BeginSsh trm w h s =
     (let lower = Lower trm;
          s1 = s\<lparr>ssh := True, echo := (trm \<noteq> []), term_type := trm,
                 dumb_terminal := (lower = [] \<or> lower = ''dumb'' \<or> lower = ''unknown'')\<rparr>
      in if 0 < w \<and> 0 < h then (SetSize w h s1)\<lparr>have_naws := True\<rparr> else s1)"

datatype attr =
  AttrReset | AttrBanner | AttrPrompt | AttrHeader | AttrBody | AttrNotice | AttrError | AttrDim

definition ColorEnabled :: "session \<Rightarrow> bool" where
  "ColorEnabled s = (color s \<and> \<not> dumb_terminal s)"

definition Colour :: "attr \<Rightarrow> session \<Rightarrow> string" where
  "Colour a s =
     (if \<not> ColorEnabled s then []
      else CHR 0x1B # (case a of
         AttrBanner \<Rightarrow> ''[1;36m'' | AttrPrompt \<Rightarrow> ''[1;37m'' | AttrHeader \<Rightarrow> ''[1;33m''
       | AttrBody \<Rightarrow> ''[0;37m'' | AttrNotice \<Rightarrow> ''[1;35m'' | AttrError \<Rightarrow> ''[1;31m''
       | AttrDim \<Rightarrow> ''[0;36m'' | AttrReset \<Rightarrow> ''[0m''))"

text \<open>\<^verbatim>\<open>VisibleWidth\<close>: a CSI sequence ends at its first final byte (\<^verbatim>\<open>'@'\<close> to
  \<^verbatim>\<open>'~'\<close> as \<^verbatim>\<open>char\<close>), any other escape is two characters.\<close>

function VisibleWidth :: "string \<Rightarrow> nat" where
  "VisibleWidth [] = 0"
| "VisibleWidth (c # cs) =
     (if c \<noteq> CHR 0x1B then Suc (VisibleWidth cs)
      else (case cs of
              [] \<Rightarrow> 0
            | d # r \<Rightarrow> if d = CHR ''['' then VisibleWidth (tl (dropWhile (\<lambda>x. schar x < 64 \<or> schar x > 126) r))
                       else VisibleWidth r))"
  by pat_completeness auto
termination
  by (relation "measure length")
     (auto simp: less_Suc_eq_le intro!: le_trans [OF diff_le_self length_dropWhile_le] le_SucI)

section \<open>Reading\<close>

definition NextByte :: "session \<Rightarrow> char option \<times> session" where
  "NextByte s =
     (case pushback s of
        Some c \<Rightarrow> (Some c, s\<lparr>pushback := None\<rparr>)
      | None \<Rightarrow> (case ReadByte (inp s) of
                   Some (c, r) \<Rightarrow> (Some c, s\<lparr>inp := r\<rparr>)
                 | None \<Rightarrow> (None, s\<lparr>inp := []\<rparr>)))"

text \<open>What a session can still read: the measure of every read loop.\<close>

definition avail :: "session \<Rightarrow> nat" where
  "avail s = length (inp s) + (if pushback s = None then 0 else 1)"

lemma ReadByte_length: "ReadByte es = Some (c, r) \<Longrightarrow> length r < length es"
  by (induction es rule: ReadByte.induct) auto

lemma NextByte_avail: "NextByte s = (Some c, s') \<Longrightarrow> avail s' < avail s"
  by (auto simp: NextByte_def avail_def split: option.splits dest: ReadByte_length)

text \<open>The loop of \<^verbatim>\<open>ReadSubnegotiation\<close>. The flag is false when the function returned because
  the stream ended inside an IAC sequence.\<close>

function subneg_loop :: "bool \<Rightarrow> char \<Rightarrow> string \<Rightarrow> session \<Rightarrow> (bool \<times> char \<times> string) \<times> session" where
  "subneg_loop first opt payload s =
     (case NextByte s of
        (None, s1) \<Rightarrow> ((True, opt, payload), s1)
      | (Some p, s1) \<Rightarrow>
          if p = IAC then
            (case NextByte s1 of
               (None, s2) \<Rightarrow> ((False, opt, payload), s2)
             | (Some q, s2) \<Rightarrow>
                 if q = SE then ((True, opt, payload), s2)
                 else if q = IAC then subneg_loop first opt (payload @ [IAC]) s2
                 else subneg_loop first opt payload s2)
          else if first then subneg_loop False p payload s1
          else subneg_loop first opt (take 64 (payload @ [p])) s1)"
  by pat_completeness auto
termination
  by (relation "measure (\<lambda>(f, opt, payload, s). avail s)") (auto dest!: NextByte_avail [OF sym])

declare subneg_loop.simps [simp del]

definition subneg_ttype :: "char \<Rightarrow> string \<Rightarrow> session \<Rightarrow> session" where
  "subneg_ttype opt payload s =
     (if opt = OPT_TTYPE \<and> payload \<noteq> [] \<and> hd payload = NUL then
        (let lower = Lower (tl payload)
         in s\<lparr>term_type := tl payload,
              dumb_terminal := (lower = [] \<or> lower = ''dumb'' \<or> lower = ''unknown'' \<or> lower = ''net'')\<rparr>)
      else s)"

definition subneg_naws :: "char \<Rightarrow> string \<Rightarrow> session \<Rightarrow> session" where
  "subneg_naws opt payload s =
     (if opt = OPT_NAWS \<and> 4 \<le> length payload then
        (let w = 256 * int (byte (payload ! 0)) + int (byte (payload ! 1));
             h = 256 * int (byte (payload ! 2)) + int (byte (payload ! 3))
         in if 0 < w \<and> 0 < h then (SetSize w h s)\<lparr>have_naws := True\<rparr> else s)
      else s)"

definition ReadSubnegotiation :: "session \<Rightarrow> session" where
  "ReadSubnegotiation s =
     (case subneg_loop True (CHR 0x00) [] s of
        ((ok, opt, payload), s1) \<Rightarrow>
          if ok then subneg_naws opt payload (subneg_ttype opt payload s1) else s1)"

text \<open>What \<^verbatim>\<open>NextPayloadByte\<close> does on \<^verbatim>\<open>IAC verb opt\<close>.\<close>

definition answer :: "char \<Rightarrow> char \<Rightarrow> session \<Rightarrow> session" where
  "answer verb opt s =
     (if verb = DO then
        (if opt = OPT_ECHO then s\<lparr>echo := True\<rparr>
         else if opt \<noteq> OPT_SGA then Send3 WONT opt s else s)
      else if verb = DONT then Send3 WONT opt (if opt = OPT_ECHO then s\<lparr>echo := False\<rparr> else s)
      else if verb = WILL then
        (if opt = OPT_TTYPE then put [IAC, SB, OPT_TTYPE, CHR 0x01, IAC, SE] s
         else if opt \<noteq> OPT_SGA \<and> opt \<noteq> OPT_NAWS then Send3 DONT opt s else s)
      else s)"

lemma avail_put [simp]: "avail (put bs s) = avail s"
  by (simp add: avail_def put_def)

lemma avail_SetSize [simp]: "avail (SetSize w h s) = avail s"
  by (simp add: avail_def SetSize_def)

lemma avail_updates [simp]:
  "avail (s\<lparr>have_naws := b\<rparr>) = avail s" "avail (s\<lparr>echo := b\<rparr>) = avail s"
  "avail (s\<lparr>term_type := t, dumb_terminal := b\<rparr>) = avail s" "avail (s\<lparr>pending_cr := b\<rparr>) = avail s"
  by (simp_all add: avail_def)

lemma avail_answer [simp]: "avail (answer verb opt s) = avail s"
  by (simp add: answer_def Send3_def)

text \<open>Every read loop of the session is made of the same small steps: a relation between the session
  before and after that holds across each of them holds across the whole loop.\<close>

locale subneg_steps =
  fixes R :: "session \<Rightarrow> session \<Rightarrow> bool"
  assumes R_refl: "R s s"
    and R_trans: "R s t \<Longrightarrow> R t u \<Longrightarrow> R s u"
    and R_NextByte: "R s (snd (NextByte s))"
    and R_ttype: "R s (subneg_ttype opt payload s)"
    and R_naws: "R s (subneg_naws opt payload s)"
begin

lemma R_NextByteI: "NextByte s = (r, s') \<Longrightarrow> R s s'"
  using R_NextByte [of s] by simp

lemma R_subneg_loop: "R s (snd (subneg_loop f opt payload s))"
proof (induction f opt payload s rule: subneg_loop.induct)
  case (1 f opt payload s)
  obtain r1 s1 where n1: "NextByte s = (r1, s1)" by fastforce
  obtain r2 s2 where n2: "NextByte s1 = (r2, s2)" by fastforce
  note R1 = R_NextByteI [OF n1] and R2 = R_trans [OF R_NextByteI [OF n1] R_NextByteI [OF n2]]
  note unfold = subneg_loop.simps [of f opt payload s]
  show ?case
  proof (cases r1)
    case None
    then show ?thesis using n1 R1 by (simp add: unfold)
  next
    case (Some p)
    note IH = "1.IH" [OF n1 [symmetric] Some]
    show ?thesis
    proof (cases "p = IAC")
      case True
      note IH' = IH(1,2) [OF True n2 [symmetric]]
      show ?thesis
        using n1 n2 Some True R2 R_trans [OF R2 IH'(1)] R_trans [OF R2 IH'(2)]
        by (cases r2) (simp_all add: unfold)
    next
      case False
      then show ?thesis
        using n1 Some R_trans [OF R1 IH(3)] R_trans [OF R1 IH(4)] by (simp add: unfold)
    qed
  qed
qed

lemma R_ReadSubnegotiation: "R s (ReadSubnegotiation s)"
proof -
  obtain ok opt payload s1 where l: "subneg_loop True (CHR 0x00) [] s = ((ok, opt, payload), s1)"
    by (metis prod.exhaust)
  then have "R s s1"
    using R_subneg_loop [of s True "CHR 0x00" "[]"] by simp
  moreover have "R s1 (subneg_naws opt payload (subneg_ttype opt payload s1))"
    by (rule R_trans [OF R_ttype R_naws])
  ultimately show ?thesis
    using l R_trans [of s s1] unfolding ReadSubnegotiation_def by simp
qed

end

interpretation subneg_avail: subneg_steps "\<lambda>s t. avail t \<le> avail s"
proof
  fix s
  show "avail (snd (NextByte s)) \<le> avail s"
    using NextByte_avail [of s] by (cases "NextByte s"; cases "fst (NextByte s)")
      (auto simp: NextByte_def avail_def split: option.splits)
qed (auto simp: subneg_ttype_def subneg_naws_def Let_def)

function NextPayloadByte :: "session \<Rightarrow> char option \<times> session" where
  "NextPayloadByte s =
     (case NextByte s of
        (None, s1) \<Rightarrow> (None, s1)
      | (Some u, s1) \<Rightarrow>
          if u = IAC then
            (case NextByte s1 of
               (None, s2) \<Rightarrow> (None, s2)
             | (Some verb, s2) \<Rightarrow>
                 if verb = IAC then (Some IAC, s2)
                 else if verb = SB then NextPayloadByte (ReadSubnegotiation s2)
                 else if verb = WILL \<or> verb = WONT \<or> verb = DO \<or> verb = DONT then
                   (case NextByte s2 of
                      (None, s3) \<Rightarrow> (None, s3)
                    | (Some opt, s3) \<Rightarrow> NextPayloadByte (answer verb opt s3))
                 else NextPayloadByte s2)
          else (Some u, s1))"
  by pat_completeness auto
termination
  by (relation "measure avail")
     (auto dest!: NextByte_avail [OF sym] intro: le_less_trans [OF subneg_avail.R_ReadSubnegotiation])

declare NextPayloadByte.simps [simp del]

locale payload_steps = subneg_steps +
  assumes R_answer: "R s (answer verb opt s)"
begin

lemma R_NextPayloadByte: "R s (snd (NextPayloadByte s))"
proof (induction s rule: NextPayloadByte.induct)
  case (1 s)
  obtain r1 s1 where n1: "NextByte s = (r1, s1)" by fastforce
  obtain r2 s2 where n2: "NextByte s1 = (r2, s2)" by fastforce
  obtain r3 s3 where n3: "NextByte s2 = (r3, s3)" by fastforce
  note R1 = R_NextByteI [OF n1]
  note R2 = R_trans [OF R1 R_NextByteI [OF n2]]
  note R3 = R_trans [OF R2 R_NextByteI [OF n3]]
  note unfold = NextPayloadByte.simps [of s]
  show ?case
  proof (cases "r1 = Some IAC \<and> r2 \<noteq> None")
    case False
    then show ?thesis
      using n1 n2 R1 R2 by (auto simp: unfold split: option.splits)
  next
    case True
    then obtain verb where r1: "r1 = Some IAC" and r2: "r2 = Some verb" by blast
    note IH = "1.IH" [OF n1 [symmetric] r1 refl n2 [symmetric] r2]
    consider "verb = IAC" | "verb = SB" | "verb = WILL \<or> verb = WONT \<or> verb = DO \<or> verb = DONT"
      | "verb \<noteq> IAC" "verb \<noteq> SB" "\<not> (verb = WILL \<or> verb = WONT \<or> verb = DO \<or> verb = DONT)" by blast
    then show ?thesis
    proof cases
      case 1
      then show ?thesis using n1 n2 r1 r2 R2 by (simp add: unfold)
    next
      case 2
      then show ?thesis
        using n1 n2 r1 r2 IH(1) R_trans [OF R2 R_trans [OF R_ReadSubnegotiation]] by (simp add: unfold)
    next
      case 3
      then have "verb \<noteq> IAC" "verb \<noteq> SB" by auto
      with 3 show ?thesis
        using n1 n2 n3 r1 r2 R3 IH(2) [OF _ _ 3 n3 [symmetric]] R_trans [OF R3 R_trans [OF R_answer]]
        by (cases r3) (simp_all add: unfold)
    next
      case 4
      then show ?thesis
        using n1 n2 r1 r2 IH(3) R_trans [OF R2] by (simp add: unfold)
    qed
  qed
qed

end

interpretation payload_avail: payload_steps "\<lambda>s t. avail t \<le> avail s"
  by unfold_locales simp

lemma NextPayloadByte_avail_le: "NextPayloadByte s = (r, s') \<Longrightarrow> avail s' \<le> avail s"
  using payload_avail.R_NextPayloadByte [of s] by simp

lemma NextPayloadByte_avail:
  assumes "NextPayloadByte s = (Some c, s')"
  shows "avail s' < avail s"
proof -
  obtain u s1 where n1: "NextByte s = (Some u, s1)"
    using assms by (subst (asm) NextPayloadByte.simps) (auto split: prod.splits option.splits)
  obtain r2 s2 where n2: "NextByte s1 = (r2, s2)" by fastforce
  obtain r3 s3 where n3: "NextByte s2 = (r3, s3)" by fastforce
  have le: "avail s2 \<le> avail s1" "avail s3 \<le> avail s2"
    using subneg_avail.R_NextByteI n2 n3 by auto
  have "s' = s1 \<or> s' = s2 \<or> (\<exists>t. NextPayloadByte t = (Some c, s') \<and>
      (t = ReadSubnegotiation s2 \<or> t = s2 \<or> (\<exists>verb opt. t = answer verb opt s3)))"
    using assms n1 n2 n3 by (subst (asm) NextPayloadByte.simps) (auto split: option.splits if_splits)
  then have "avail s' \<le> avail s1"
    using le le_trans [OF subneg_avail.R_ReadSubnegotiation [of s2] le(1)]
    by (auto dest!: NextPayloadByte_avail_le)
  with NextByte_avail [OF n1] show ?thesis by simp
qed

lemma NextPayloadByte_measure:
  "NextPayloadByte s = (r, s') \<Longrightarrow> avail s' + (if r = None then 0 else 1) \<le> avail s"
  using NextPayloadByte_avail [of s] NextPayloadByte_avail_le [of s] by (cases r) (auto simp: Suc_le_eq)

section \<open>Lines\<close>

text \<open>The loop of \<^verbatim>\<open>GetChar\<close>, on the byte just read.\<close>

function getchar_loop :: "char option \<times> session \<Rightarrow> char option \<times> session" where
  "getchar_loop (None, s) = (None, s)"
| "getchar_loop (Some u, s) =
     (if pending_cr s then
        (let s1 = s\<lparr>pending_cr := False\<rparr> in
         if u = LF \<or> u = NUL then getchar_loop (NextPayloadByte s1)
         else if u = CR then
           (case NextPayloadByte s1 of
              (None, s2) \<Rightarrow> (None, s2)
            | (Some n, s2) \<Rightarrow>
                if n = LF \<or> n = NUL then getchar_loop (NextPayloadByte s2)
                else (Some CR, s2\<lparr>pushback := Some n, pending_cr := True\<rparr>))
         else (Some u, s1))
      else if u = CR then (Some CR, s\<lparr>pending_cr := True\<rparr>)
      else (Some u, s))"
  by pat_completeness auto
termination
  by (relation "measure (\<lambda>(r, s). avail s + (if r = None then 0 else 1))")
     (auto dest!: NextPayloadByte_measure NextPayloadByte_measure [OF sym] split: prod.splits if_splits)

definition GetChar :: "session \<Rightarrow> char option \<times> session" where
  "GetChar s = getchar_loop (NextPayloadByte s)"

lemma getchar_loop_avail: "getchar_loop rs = (Some c, s') \<Longrightarrow> avail s' \<le> avail (snd rs)"
proof (induction rs rule: getchar_loop.induct)
  case (2 u s)
  obtain r1 s1 where n1: "NextPayloadByte (s\<lparr>pending_cr := False\<rparr>) = (r1, s1)" by fastforce
  obtain r2 s2 where n2: "NextPayloadByte s1 = (r2, s2)" by fastforce
  have le: "avail s1 \<le> avail s" "avail s2 \<le> avail s1"
    using NextPayloadByte_avail_le n1 n2 by fastforce+
  have lt: "avail s1 < avail s" if "r1 \<noteq> None"
    using that n1 NextPayloadByte_avail [of "s\<lparr>pending_cr := False\<rparr>"] by auto
  have push: "avail (s1\<lparr>pushback := Some n\<rparr>) \<le> avail s" if "r1 \<noteq> None" for n
    using lt [OF that] by (simp add: avail_def)
  have le2: "x \<le> avail s" if "x \<le> avail s2" for x
    using le that by simp
  from 2 n1 n2 le lt push show ?case
    by (auto simp: Let_def split: if_splits option.splits prod.splits intro: le_trans le2)
qed auto

lemma GetChar_avail: "GetChar s = (Some c, s') \<Longrightarrow> avail s' < avail s"
proof -
  assume g: "GetChar s = (Some c, s')"
  obtain r1 s1 where n1: "NextPayloadByte s = (r1, s1)" by fastforce
  with g have "r1 \<noteq> None"
    by (cases r1) (simp_all add: GetChar_def)
  then have "avail s1 < avail s"
    using n1 NextPayloadByte_avail by auto
  with g n1 show ?thesis
    using getchar_loop_avail [of "(r1, s1)" c s'] by (simp add: GetChar_def)
qed

function readline_loop :: "bool \<Rightarrow> string \<Rightarrow> session \<Rightarrow> (bool \<times> string) \<times> session" where
  "readline_loop masked out s =
     (case GetChar s of
        (None, s1) \<Rightarrow> ((False, out), s1)
      | (Some ch, s1) \<Rightarrow>
          if ch = CR \<or> ch = LF then ((True, out), if echo s1 then put crlf s1 else s1)
          else if ch = CHR 0x08 \<or> ch = CHR 0x7F then
            (if out \<noteq> []
             then readline_loop masked (butlast out)
                    (if echo s1 then put [CHR 0x08, CHR '' '', CHR 0x08] s1 else s1)
             else readline_loop masked out s1)
          else if byte ch < 32 then readline_loop masked out s1
          else readline_loop masked (out @ [ch])
                 (if echo s1 then put (if masked then ''*'' else [ch]) s1 else s1))"
  by pat_completeness auto
termination
  by (relation "measure (\<lambda>(masked, out, s). avail s)") (auto dest!: GetChar_avail [OF sym])

declare readline_loop.simps [simp del]

definition ReadLine :: "bool \<Rightarrow> session \<Rightarrow> (bool \<times> string) \<times> session" where
  "ReadLine masked s = readline_loop masked [] s"

section \<open>Writing, raw bytes and prompts\<close>

definition Write :: "string \<Rightarrow> session \<Rightarrow> session" where
  "Write tx s = put (concat (map (\<lambda>c. if c = LF then crlf else [c]) tx)) s"

text \<open>The escape of \<^verbatim>\<open>WriteRaw\<close> and of \<^verbatim>\<open>TelnetEscape\<close> in the SSH server.\<close>

definition TelnetEscape :: "string \<Rightarrow> string" where
  "TelnetEscape bytes = concat (map (\<lambda>c. if c = IAC then [c, IAC] else [c]) bytes)"

definition WriteRaw :: "string \<Rightarrow> session \<Rightarrow> session" where
  "WriteRaw bytes s = (if ssh s then put bytes s else put (TelnetEscape bytes) s)"

definition ReadRawByte :: "int \<Rightarrow> session \<Rightarrow> char option \<times> session" where
  "ReadRawByte timeout_ms s =
     (case pushback s of
        Some c \<Rightarrow> (Some c, s\<lparr>pushback := None\<rparr>)
      | None \<Rightarrow>
          (let (ready, es) = (if timeout_ms > 0 then WaitReadable (inp s) else (True, inp s));
               s1 = s\<lparr>inp := es\<rparr>
           in if ready then NextPayloadByte s1 else (None, s1)))"

fun drain_loop :: "nat \<Rightarrow> int \<Rightarrow> session \<Rightarrow> session" where
  "drain_loop 0 settle_ms s = s"
| "drain_loop (Suc n) settle_ms s =
     (let (ready, es) = WaitReadable (inp s); s1 = s\<lparr>inp := es\<rparr>
      in if \<not> ready then s1
         else (case ReadRawByte settle_ms s1 of
                 (None, s2) \<Rightarrow> s2
               | (Some _, s2) \<Rightarrow> drain_loop n settle_ms s2))"

definition DrainInput :: "int \<Rightarrow> session \<Rightarrow> session" where
  "DrainInput settle_ms s = drain_loop 4096 settle_ms (s\<lparr>pushback := None, pending_cr := False\<rparr>)"

definition Prompt :: "string \<Rightarrow> string \<Rightarrow> session \<Rightarrow> (bool \<times> string) \<times> session" where
  "Prompt question dflt s =
     (case ReadLine False (Write question s) of
        ((False, out), s1) \<Rightarrow> ((False, out), s1)
      | ((True, out), s1) \<Rightarrow> ((True, if out = [] then dflt else out), s1))"

definition YesNo :: "string \<Rightarrow> bool \<Rightarrow> session \<Rightarrow> bool option \<times> session" where
  "YesNo question dflt s =
     (case Prompt (question @ (if dflt then '' [Yes]: '' else '' [No]: '')) [] s of
        ((False, reply), s1) \<Rightarrow> (None, s1)
      | ((True, reply), s1) \<Rightarrow>
          (Some (if reply = [] then dflt else hd reply = CHR ''y'' \<or> hd reply = CHR ''Y''), s1))"

definition PromptInt :: "string \<Rightarrow> int \<Rightarrow> session \<Rightarrow> int option \<times> session" where
  "PromptInt question dflt s =
     (case Prompt (question @ '' ['' @ to_string dflt @ '']: '') [] s of
        ((False, reply), s1) \<Rightarrow> (None, s1)
      | ((True, reply), s1) \<Rightarrow>
          (Some (if reply = [] then dflt
                 else case strtoll reply of (v, rest) \<Rightarrow> if rest = [] then v else dflt), s1))"

section \<open>Paging\<close>

definition SetPageSize :: "int \<Rightarrow> session \<Rightarrow> session" where
  "SetPageSize rows s = s\<lparr>page_rows := (if rows > 2 then rows else 0), page_used := 0\<rparr>"

definition MorePrompt :: "session \<Rightarrow> bool \<times> session" where
  "MorePrompt s =
     (case GetChar (Write ''<more> '' s) of
        (ch, s1) \<Rightarrow>
          (case ch of
             None \<Rightarrow> False
           | Some c \<Rightarrow> c \<notin> {CHR ''s'', CHR ''S'', CHR ''q'', CHR ''Q'', CHR 0x03},
           Write ([CR] @ replicate 10 (CHR '' '') @ [CR]) s1))"

fun page_loop :: "string list \<Rightarrow> session \<Rightarrow> bool \<times> session" where
  "page_loop [] s = (True, s)"
| "page_loop [line] s = (True, Write line s)"
| "page_loop (line # lines) s =
     (let s1 = Write [LF] (Write line s);
          rows = int (VisibleWidth line div nat (width s1)) + 1;
          s2 = s1\<lparr>page_used := page_used s1 + rows\<rparr>
      in if page_used s2 \<ge> page_rows s2 - 1 then
           (case MorePrompt (s2\<lparr>page_used := 0\<rparr>) of
              (False, s3) \<Rightarrow> (False, s3)
            | (True, s3) \<Rightarrow> page_loop lines s3)
         else page_loop lines s2)"

definition Page :: "string \<Rightarrow> session \<Rightarrow> bool \<times> session" where
  "Page tx s = (if page_rows s \<le> 0 then (True, Write tx s) else page_loop (split_on LF tx) s)"

text \<open>\<^verbatim>\<open>Naws\<close> of the SSH server: a window change in the framing the session reads.\<close>

definition Naws :: "nat \<Rightarrow> nat \<Rightarrow> string" where
  "Naws cols rows =
     (let c = min cols 0xFFFE; r = min rows 0xFFFE;
          payload = [char_of (c div 256), char_of c, char_of (r div 256), char_of r]
      in [IAC, SB, OPT_NAWS] @ TelnetEscape payload @ [IAC, SE])"

section \<open>What every operation keeps\<close>

locale session_steps = payload_steps +
  assumes R_put: "R s (put bs s)"
    and R_pending: "R s (s\<lparr>pending_cr := b\<rparr>)"
    and R_push: "R s (s\<lparr>pushback := p\<rparr>)"
    and R_inp: "R s (s\<lparr>inp := es\<rparr>)"
begin

lemma R_NextPayloadByteI: "NextPayloadByte s = (r, s') \<Longrightarrow> R s s'"
  using R_NextPayloadByte [of s] by simp

lemma R_push_pending: "R s (s\<lparr>pushback := p, pending_cr := b\<rparr>)"
  using R_trans [OF R_push [of s p] R_pending [of _ b]] by simp

lemma R_getchar_loop: "R (snd rs) (snd (getchar_loop rs))"
proof (induction rs rule: getchar_loop.induct)
  case (1 s)
  show ?case by (simp add: R_refl)
next
  case (2 u s)
  obtain r1 s1 where n1: "NextPayloadByte (s\<lparr>pending_cr := False\<rparr>) = (r1, s1)" by fastforce
  obtain r2 s2 where n2: "NextPayloadByte s1 = (r2, s2)" by fastforce
  have R1: "R s s1"
    by (rule R_trans [OF R_pending R_NextPayloadByteI [OF n1]])
  have R2: "R s s2"
    by (rule R_trans [OF R1 R_NextPayloadByteI [OF n2]])
  have P: "R s (s1\<lparr>pushback := p, pending_cr := b\<rparr>)" for p b
    by (rule R_trans [OF R1 R_push_pending])
  consider "\<not> pending_cr s" | "pending_cr s" "u = LF \<or> u = NUL" | "pending_cr s" "u = CR"
    | "pending_cr s" "u \<noteq> LF" "u \<noteq> NUL" "u \<noteq> CR" by blast
  then show ?case
  proof cases
    case 1
    then show ?thesis using R_refl R_pending by simp
  next
    case c: 2
    then show ?thesis
      using "2.IH"(1) [OF c(1) refl c(2)] n1 R_trans [OF R1] by (auto simp: Let_def)
  next
    case 3
    then show ?thesis
      using "2.IH"(2) [OF 3(1) refl _ 3(2)] n1 n2 R1 R_trans [OF R2] P
      by (cases r1) (auto simp: Let_def)
  next
    case 4
    then show ?thesis by (simp add: Let_def R_pending)
  qed
qed

lemma R_GetChar: "R s (snd (GetChar s))"
  using R_trans [OF R_NextPayloadByte R_getchar_loop] by (simp add: GetChar_def)

lemma R_readline_loop: "R s (snd (readline_loop m out s))"
proof (induction m out s rule: readline_loop.induct)
  case (1 m out s)
  obtain r s1 where g: "GetChar s = (r, s1)" by fastforce
  then have R1: "R s s1" using R_GetChar [of s] by simp
  have RP: "R s (if e then put bs s1 else s1)" for e bs
    using R1 R_trans [OF R1 R_put] by simp
  show ?case
  proof (cases r)
    case None
    with g R1 show ?thesis by (simp add: readline_loop.simps [of m out s])
  next
    case (Some ch)
    note unfold = readline_loop.simps [of m out s] and IH = "1.IH" [OF g [symmetric] Some]
    consider "ch = CR \<or> ch = LF" | "\<not> (ch = CR \<or> ch = LF)" "ch = CHR 0x08 \<or> ch = CHR 0x7F" "out \<noteq> []"
      | "\<not> (ch = CR \<or> ch = LF)" "ch = CHR 0x08 \<or> ch = CHR 0x7F" "out = []"
      | "\<not> (ch = CR \<or> ch = LF)" "\<not> (ch = CHR 0x08 \<or> ch = CHR 0x7F)" by blast
    then show ?thesis
    proof cases
      case 1
      with g Some RP show ?thesis
        unfolding unfold by (simp only: prod.case option.case if_True snd_conv)
    next
      case 2
      with g Some R_trans [OF RP IH(1) [OF 2]] show ?thesis
        unfolding unfold by (simp only: prod.case option.case if_True if_False not_False_eq_True)
    next
      case 3
      then have "\<not> out \<noteq> []" by simp
      from g Some 3 R_trans [OF R1 IH(2) [OF 3(1,2) this]] show ?thesis
        unfolding unfold by (simp only: prod.case option.case if_True if_False simp_thms)
    next
      case 4
      show ?thesis
        using g Some 4 R_trans [OF R1 IH(3) [OF 4]] R_trans [OF RP IH(4) [OF 4]]
        unfolding unfold
        by (cases "byte ch < 32") (simp_all only: prod.case option.case if_True if_False simp_thms)
    qed
  qed
qed

lemma R_ReadLine: "R s (snd (ReadLine m s))"
  by (simp add: ReadLine_def R_readline_loop)

lemma R_Write: "R s (Write tx s)"
  by (simp add: Write_def R_put)

lemma R_WriteRaw: "R s (WriteRaw bs s)"
  by (simp add: WriteRaw_def R_put)

lemma R_ReadRawByte: "R s (snd (ReadRawByte t s))"
  using R_trans [OF R_inp R_NextPayloadByte] R_NextPayloadByte R_inp R_push
  by (auto simp: ReadRawByte_def Let_def split: option.splits prod.splits)

lemma R_drain_loop: "R s (drain_loop n t s)"
proof (induction n t s rule: drain_loop.induct)
  case (2 n t s)
  obtain ready es where w: "WaitReadable (inp s) = (ready, es)" by fastforce
  obtain r s2 where rr: "ReadRawByte t (s\<lparr>inp := es\<rparr>) = (r, s2)" by fastforce
  have R2: "R s s2"
    using R_trans [OF R_inp [of s es] R_ReadRawByte [of _ t]] rr by simp
  show ?case
  proof (cases "ready \<and> r \<noteq> None")
    case True
    then have "R s2 (drain_loop n t s2)"
      using "2.IH" w rr by fastforce
    with True w rr show ?thesis
      using R_trans [OF R2] by (auto simp: Let_def)
  next
    case False
    with w rr R2 R_inp show ?thesis by (auto simp: Let_def split: option.splits)
  qed
qed (simp add: R_refl)

lemma R_DrainInput: "R s (DrainInput t s)"
  unfolding DrainInput_def by (rule R_trans [OF R_push_pending R_drain_loop])

lemma R_Prompt: "R s (snd (Prompt q d s))"
proof -
  have "R s (snd (ReadLine False (Write q s)))"
    by (rule R_trans [OF R_Write R_ReadLine])
  then show ?thesis
    by (auto simp: Prompt_def split: prod.splits bool.splits)
qed

lemma R_YesNo: "R s (snd (YesNo q d s))"
  using R_Prompt [of s "q @ (if d then '' [Yes]: '' else '' [No]: '')" "[]"]
  by (auto simp: YesNo_def split: prod.splits bool.splits)

lemma R_PromptInt: "R s (snd (PromptInt q d s))"
  using R_Prompt [of s "q @ '' ['' @ to_string d @ '']: ''" "[]"]
  by (auto simp: PromptInt_def split: prod.splits bool.splits)

lemma R_MorePrompt: "R s (snd (MorePrompt s))"
proof -
  have "R s (Write w (snd (GetChar (Write ''<more> '' s))))" for w
    by (rule R_trans [OF R_trans [OF R_Write R_GetChar] R_Write])
  then show ?thesis
    by (simp add: MorePrompt_def case_prod_unfold)
qed

lemma R_Negotiate: "R s (Negotiate s)"
  unfolding Negotiate_def Send3_def by (intro R_trans [OF _ R_put] R_put)

end

locale page_steps = session_steps +
  assumes R_used: "R s (s\<lparr>page_used := n\<rparr>)"
begin

lemma R_page_loop: "R s (snd (page_loop ls s))"
proof (induction ls s rule: page_loop.induct)
  case (3 line l lines s)
  let ?s1 = "Write [LF] (Write line s)"
  let ?s2 = "?s1\<lparr>page_used := page_used ?s1 + (int (VisibleWidth line div nat (width ?s1)) + 1)\<rparr>"
  have R2: "R s ?s2"
    by (rule R_trans [OF R_trans [OF R_Write R_Write] R_used])
  obtain go s3 where m: "MorePrompt (?s2\<lparr>page_used := 0\<rparr>) = (go, s3)" by fastforce
  have R3: "R s s3"
    using R_trans [OF R_trans [OF R2 R_used] R_MorePrompt, of 0] m by simp
  show ?case
    using "3.IH"(1) [OF refl refl refl _ m [symmetric]] "3.IH"(2) [OF refl refl refl]
      m R3 R_trans [OF R3] R_trans [OF R2]
    by (cases go) (simp_all add: Let_def)
qed (simp_all add: R_refl R_Write)

lemma R_Page: "R s (snd (Page tx s))"
  by (simp add: Page_def R_Write R_page_loop)

end

section \<open>The terminal a session can be in\<close>

definition terminal_ok :: "session \<Rightarrow> bool" where
  "terminal_ok s \<longleftrightarrow> 20 \<le> width s \<and> width s \<le> 1000 \<and> 5 \<le> height s \<and> height s \<le> 500"

text \<open>The pager has room left on the screen: fewer rows used than trigger the next prompt.\<close>

definition pager_ok :: "session \<Rightarrow> bool" where
  "pager_ok s \<longleftrightarrow> page_rows s = 0
     \<or> (2 < page_rows s \<and> 0 \<le> page_used s \<and> page_used s < page_rows s - 1)"

lemma session_frame [simp]:
  "width (put bs s) = width s" "height (put bs s) = height s" "page_rows (put bs s) = page_rows s"
  "page_used (put bs s) = page_used s"
  by (simp_all add: put_def)

lemma NextByte_cases:
  "NextByte s = (r, t) \<Longrightarrow> t = s\<lparr>pushback := None\<rparr> \<or> (\<exists>es. t = s\<lparr>inp := es\<rparr>)"
  by (auto simp: NextByte_def split: option.splits)

interpretation keep_terminal: page_steps "\<lambda>s t. terminal_ok s \<longrightarrow> terminal_ok t"
proof
  fix s
  show "terminal_ok s \<longrightarrow> terminal_ok (snd (NextByte s))"
    using NextByte_cases [of s] by (cases "NextByte s") (auto simp: terminal_ok_def)
qed (auto simp: terminal_ok_def subneg_ttype_def subneg_naws_def SetSize_def answer_def Send3_def Let_def)

interpretation keep_pager: session_steps
  "\<lambda>s t. page_rows t = page_rows s \<and> page_used t = page_used s"
proof
  fix s
  show "page_rows (snd (NextByte s)) = page_rows s \<and> page_used (snd (NextByte s)) = page_used s"
    using NextByte_cases [of s] by (cases "NextByte s") auto
qed (auto simp: subneg_ttype_def subneg_naws_def SetSize_def answer_def Send3_def Let_def)

lemma Write_frame [simp]:
  "page_rows (Write tx s) = page_rows s" "page_used (Write tx s) = page_used s"
  "width (Write tx s) = width s"
  by (simp_all add: Write_def)

lemma page_loop_pager:
  "pager_ok s \<Longrightarrow> pager_ok (snd (page_loop ls s)) \<and> page_rows (snd (page_loop ls s)) = page_rows s"
proof (induction ls s rule: page_loop.induct)
  case (3 line l lines s)
  let ?s1 = "Write [LF] (Write line s)"
  let ?s2 = "?s1\<lparr>page_used := page_used ?s1 + (int (VisibleWidth line div nat (width ?s1)) + 1)\<rparr>"
  obtain go s3 where m: "MorePrompt (?s2\<lparr>page_used := 0\<rparr>) = (go, s3)" by fastforce
  then have s3: "page_rows s3 = page_rows s" "page_used s3 = 0"
    using keep_pager.R_MorePrompt [of "?s2\<lparr>page_used := 0\<rparr>"] by simp_all
  show ?case
  proof (cases "page_used ?s2 \<ge> page_rows ?s2 - 1")
    case True
    have "pager_ok s3"
      using s3 "3.prems" by (auto simp: pager_ok_def)
    with "3.IH"(1) [OF refl refl refl True m [symmetric]] m s3 True show ?thesis
      by (cases go) (simp_all add: Let_def)
  next
    case False
    then have "pager_ok ?s2"
      using "3.prems" by (auto simp: pager_ok_def)
    with False "3.IH"(2) [OF refl refl refl False] show ?thesis
      by (simp add: Let_def)
  qed
qed (simp_all add: pager_ok_def)

text \<open>The calls the shell makes on a session, one rule per public method.\<close>

inductive session_step :: "session \<Rightarrow> session \<Rightarrow> bool" where
  "session_step s (Negotiate s)"
| "session_step s (BeginSsh trm w h s)"
| "session_step s (snd (GetChar s))"
| "session_step s (snd (ReadLine m s))"
| "session_step s (Write tx s)"
| "session_step s (WriteRaw bs s)"
| "session_step s (snd (ReadRawByte t s))"
| "session_step s (DrainInput t s)"
| "session_step s (snd (Prompt q d s))"
| "session_step s (snd (YesNo q b s))"
| "session_step s (snd (PromptInt q n s))"
| "session_step s (SetPageSize n s)"
| "session_step s (s\<lparr>page_used := 0\<rparr>)"
| "session_step s (snd (Page tx s))"
| "session_step s (SetSize w h s)"
| "session_step s (s\<lparr>color := b\<rparr>)"

inductive session_reachable :: "session \<Rightarrow> bool" where
  "session_reachable (new_session es)"
| "session_reachable s \<Longrightarrow> session_step s t \<Longrightarrow> session_reachable t"

lemma SetSize_terminal: "terminal_ok (SetSize w h s)"
  by (simp add: terminal_ok_def SetSize_def)

lemma BeginSsh_terminal: "terminal_ok s \<Longrightarrow> terminal_ok (BeginSsh trm w h s)"
  by (simp add: terminal_ok_def BeginSsh_def SetSize_def Let_def)

lemma pager_ok_cong: "page_rows t = page_rows s \<and> page_used t = page_used s \<Longrightarrow> pager_ok s \<Longrightarrow> pager_ok t"
  by (simp add: pager_ok_def)

lemma session_step_ok:
  assumes "session_step s t" "terminal_ok s" "pager_ok s"
  shows "terminal_ok t \<and> pager_ok t"
  using assms(1)
proof cases
  case (2 trm w h)
  then show ?thesis
    using assms BeginSsh_terminal by (auto simp: pager_ok_def BeginSsh_def SetSize_def Let_def)
next
  case (12 n)
  then show ?thesis
    using assms by (auto simp: terminal_ok_def pager_ok_def SetPageSize_def)
next
  case 13
  then show ?thesis
    using assms by (auto simp: terminal_ok_def pager_ok_def)
next
  case (14 tx)
  then show ?thesis
    using assms keep_terminal.R_Page page_loop_pager [of s] pager_ok_cong [OF conjI, of "Write tx s" s]
    by (auto simp: Page_def split: if_splits)
next
  case (15 w h)
  then show ?thesis
    using assms SetSize_terminal by (auto simp: pager_ok_def SetSize_def)
next
  case (16 b)
  then show ?thesis
    using assms by (auto simp: terminal_ok_def pager_ok_def)
qed (use assms keep_terminal.R_Negotiate keep_terminal.R_GetChar keep_terminal.R_ReadLine
      keep_terminal.R_Write keep_terminal.R_WriteRaw keep_terminal.R_ReadRawByte
      keep_terminal.R_DrainInput keep_terminal.R_Prompt keep_terminal.R_YesNo keep_terminal.R_PromptInt
      pager_ok_cong [OF keep_pager.R_Negotiate] pager_ok_cong [OF keep_pager.R_GetChar]
      pager_ok_cong [OF keep_pager.R_ReadLine] pager_ok_cong [OF keep_pager.R_Write]
      pager_ok_cong [OF keep_pager.R_WriteRaw] pager_ok_cong [OF keep_pager.R_ReadRawByte]
      pager_ok_cong [OF keep_pager.R_DrainInput] pager_ok_cong [OF keep_pager.R_Prompt]
      pager_ok_cong [OF keep_pager.R_YesNo] pager_ok_cong [OF keep_pager.R_PromptInt] in simp_all)

lemma session_reachable_ok: "session_reachable s \<Longrightarrow> terminal_ok s \<and> pager_ok s"
proof (induction rule: session_reachable.induct)
  case (1 es)
  show ?case by (simp add: new_session_def terminal_ok_def pager_ok_def)
next
  case (2 s t)
  then show ?case using session_step_ok by blast
qed

text \<open>C37. No input can put the terminal into a state the pager cannot handle: whatever bytes the
  peer sends and whichever session operations the shell performs, in any order, the window is
  between 20 and 1000 columns and between 5 and 500 rows (so the pager never divides by zero),
  and when paging is on the rows already used stay below the rows that trigger a prompt.\<close>

theorem session_terminal_safe:
  assumes "session_reachable s"
  shows "20 \<le> width s \<and> width s \<le> 1000 \<and> 5 \<le> height s \<and> height s \<le> 500
    \<and> (page_rows s = 0 \<or> 0 \<le> page_used s \<and> page_used s < page_rows s - 1)"
  using session_reachable_ok [OF assms] by (auto simp: terminal_ok_def pager_ok_def)

text \<open>The session after a hostile window-size announcement of 0 by 1 and then of 65535 columns.\<close>

definition naws_session :: session where
  "naws_session = new_session (map Byte
     ([IAC, SB, OPT_NAWS, NUL, NUL, NUL, CHR 0x01, IAC, SE]
        @ [IAC, SB, OPT_NAWS, IAC, IAC, IAC, IAC, NUL, CHR 0x01, IAC, SE, CHR ''x'']))"

theorem session_terminal_safe_witness:
  "width (snd (GetChar naws_session)) = 1000 \<and> height (snd (GetChar naws_session)) = 5
   \<and> width (snd (GetChar naws_session)) \<le> 1000"
proof -
  have "session_reachable (snd (GetChar naws_session))"
    unfolding naws_session_def by (rule session_reachable.intros(2) [OF session_reachable.intros(1) session_step.intros(3)])
  from session_terminal_safe [OF this] show ?thesis
    by code_simp
qed

section \<open>Binary data through the escape\<close>

fun read_bytes :: "nat \<Rightarrow> int \<Rightarrow> session \<Rightarrow> string \<times> session" where
  "read_bytes 0 t s = ([], s)"
| "read_bytes (Suc n) t s =
     (case ReadRawByte t s of
        (None, s1) \<Rightarrow> ([], s1)
      | (Some c, s1) \<Rightarrow> (case read_bytes n t s1 of (cs, s2) \<Rightarrow> (c # cs, s2)))"

lemma NextByte_inp:
  "pushback s = None \<Longrightarrow> NextByte (s\<lparr>inp := Byte c # r\<rparr>) = (Some c, s\<lparr>inp := r\<rparr>)"
  "pushback s = None \<Longrightarrow> inp s = Byte c # r \<Longrightarrow> NextByte s = (Some c, s\<lparr>inp := r\<rparr>)"
  by (simp_all add: NextByte_def)

lemma TelnetEscape_simps [simp]:
  "TelnetEscape [] = []"
  "TelnetEscape (c # cs) = (if c = IAC then [IAC, IAC] else [c]) @ TelnetEscape cs"
  by (simp_all add: TelnetEscape_def)

lemma NextPayloadByte_plain:
  assumes "pushback s = None" "inp s = Byte c # r" "c \<noteq> IAC"
  shows "NextPayloadByte s = (Some c, s\<lparr>inp := r\<rparr>)"
  using assms NextByte_inp(2) [OF assms(1,2)] by (simp add: NextPayloadByte.simps [of s])

lemma NextPayloadByte_escaped:
  assumes "pushback s = None" "inp s = Byte IAC # Byte IAC # r"
  shows "NextPayloadByte s = (Some IAC, s\<lparr>inp := r\<rparr>)"
  using NextByte_inp(2) [OF assms] NextByte_inp(1) [OF assms(1)]
  by (simp add: NextPayloadByte.simps [of s])

lemma ReadRawByte_escape:
  assumes "pushback s = None" "inp s = map Byte (TelnetEscape (c # cs)) @ r"
  shows "ReadRawByte t s = (Some c, s\<lparr>inp := map Byte (TelnetEscape cs) @ r\<rparr>)"
proof -
  have "WaitReadable (inp s) = (True, inp s)"
    using assms(2) by simp
  moreover have "NextPayloadByte s = (Some c, s\<lparr>inp := map Byte (TelnetEscape cs) @ r\<rparr>)"
    using assms NextPayloadByte_plain [OF assms(1)] NextPayloadByte_escaped [OF assms(1)]
    by (cases "c = IAC") simp_all
  ultimately show ?thesis
    using assms(1) by (simp add: ReadRawByte_def)
qed

lemma read_bytes_escape:
  "pushback s = None \<Longrightarrow> inp s = map Byte (TelnetEscape data) @ r \<Longrightarrow>
   read_bytes (length data) t s = (data, s\<lparr>inp := r\<rparr>)"
proof (induction data arbitrary: s)
  case (Cons c cs)
  have "read_bytes (length cs) t (s\<lparr>inp := map Byte (TelnetEscape cs) @ r\<rparr>) = (cs, s\<lparr>inp := r\<rparr>)"
    using Cons.IH [of "s\<lparr>inp := map Byte (TelnetEscape cs) @ r\<rparr>"] Cons.prems(1) by simp
  with ReadRawByte_escape [OF Cons.prems] show ?case by simp
qed auto

text \<open>Binary transfers over telnet are 8-bit clean: whatever bytes \<open>WriteRaw\<close> puts on the
  wire for \<open>data\<close>, a session that reads as many raw bytes from that wire gets exactly \<open>data\<close>,
  with any timeout, consumes nothing beyond them, answers nothing and keeps its state.\<close>

theorem WriteRaw_ReadRaw_roundtrip:
  assumes "\<not> ssh a" "pushback b = None"
    and "sent (WriteRaw data a) = sent a @ wire"
    and "inp b = map Byte wire @ rest"
  shows "read_bytes (length data) t b = (data, b\<lparr>inp := rest\<rparr>)"
proof -
  have "wire = TelnetEscape data"
    using assms(1,3) by (simp add: WriteRaw_def put_def)
  with read_bytes_escape assms(2,4) show ?thesis by blast
qed

theorem WriteRaw_ReadRaw_roundtrip_witness:
  "read_bytes (Suc (Suc (Suc 0))) 5 (new_session (map Byte [CR, IAC, IAC, LF, CHR ''z'']))
     = ([CR, IAC, LF], new_session [Byte (CHR ''z'')])"
proof -
  let ?b = "new_session (map Byte [CR, IAC, IAC, LF, CHR ''z''])"
  have "read_bytes (length [CR, IAC, LF]) 5 ?b = ([CR, IAC, LF], ?b\<lparr>inp := [Byte (CHR ''z'')]\<rparr>)"
    by (rule WriteRaw_ReadRaw_roundtrip [where a = "new_session []" and wire = "[CR, IAC, IAC, LF]"])
       (simp_all add: new_session_def WriteRaw_def put_def)
  then show ?thesis by (simp add: new_session_def del: read_bytes.simps)
qed

section \<open>Window changes\<close>

lemma subneg_loop_escape:
  "pushback s = None \<Longrightarrow> inp s = map Byte (TelnetEscape p @ [IAC, SE]) @ r \<Longrightarrow>
   length pl + length p \<le> 64 \<Longrightarrow>
   subneg_loop False opt pl s = ((True, opt, pl @ p), s\<lparr>inp := r\<rparr>)"
proof (induction p arbitrary: pl s)
  case Nil
  then have i: "inp s = Byte IAC # Byte SE # r" by simp
  show ?case
    using NextByte_inp(2) [OF Nil(1) i] NextByte_inp(1) [OF Nil(1)]
    by (simp add: subneg_loop.simps [of False opt pl s])
next
  case (Cons c p)
  let ?s = "s\<lparr>inp := map Byte (TelnetEscape p @ [IAC, SE]) @ r\<rparr>"
  have IH: "subneg_loop False opt (pl @ [c]) ?s = ((True, opt, pl @ c # p), s\<lparr>inp := r\<rparr>)"
    using Cons.IH [of ?s "pl @ [c]"] Cons.prems by simp
  show ?case
  proof (cases "c = IAC")
    case True
    then have i: "inp s = Byte IAC # Byte IAC # inp ?s"
      using Cons.prems(2) by simp
    show ?thesis
      using NextByte_inp(2) [OF Cons.prems(1) i] NextByte_inp(1) [OF Cons.prems(1)] IH True
      by (simp add: subneg_loop.simps [of False opt pl s])
  next
    case False
    then have i: "inp s = Byte c # inp ?s"
      using Cons.prems(2) by simp
    show ?thesis
      using NextByte_inp(2) [OF Cons.prems(1) i] IH False Cons.prems(3)
      by (simp add: subneg_loop.simps [of False opt pl s])
  qed
qed

lemma SetSize_inp: "SetSize w h (s\<lparr>inp := es\<rparr>) = (SetSize w h s)\<lparr>inp := es\<rparr>"
  by (simp add: SetSize_def)

lemma SetSize_min:
  "SetSize (int (min c 0xFFFE)) (int (min r 0xFFFE)) s = SetSize (int c) (int r) s"
  by (simp add: SetSize_def min_def)

lemma high_low: "256 * int (n div 256) + int (n mod 256) = int n"
proof -
  have "int (256 * (n div 256) + n mod 256) = int n"
    by (rule arg_cong [OF mult_div_mod_eq])
  then show ?thesis
    by (simp only: of_nat_add of_nat_mult of_nat_numeral)
qed

text \<open>A window change reported over SSH reaches the shell: when \<open>Naws cols rows\<close> (with both
  numbers positive) arrives before a character, reading that character returns it and sets the
  session's size to the reported size within the clamp, even where a size byte is 0xFF.\<close>

theorem Naws_sets_size:
  assumes "0 < cols" "0 < rows" "pushback s = None" "c \<noteq> IAC"
    and "inp s = map Byte (Naws cols rows) @ Byte c # rest"
  shows "NextPayloadByte s = (Some c, (SetSize (int cols) (int rows) s)\<lparr>have_naws := True, inp := rest\<rparr>)"
proof -
  define c' where "c' = min cols 0xFFFE"
  define r' where "r' = min rows 0xFFFE"
  define p :: string where "p = [char_of (c' div 256), char_of c', char_of (r' div 256), char_of r']"
  define s1 where "s1 = s\<lparr>inp := map Byte (TelnetEscape p @ [IAC, SE]) @ Byte c # rest\<rparr>"
  have i: "inp s = Byte IAC # Byte SB # Byte OPT_NAWS # inp s1"
    using assms(5) by (simp add: s1_def p_def c'_def r'_def Naws_def Let_def)
  have len: "subneg_loop False OPT_NAWS [] s1 = ((True, OPT_NAWS, p), s\<lparr>inp := Byte c # rest\<rparr>)"
    using subneg_loop_escape [of s1 p "Byte c # rest" "[]" OPT_NAWS] assms(3)
    by (simp add: s1_def p_def del: TelnetEscape_simps)
  have "subneg_loop True NUL [] (s\<lparr>inp := Byte OPT_NAWS # inp s1\<rparr>)
      = ((True, OPT_NAWS, p), s\<lparr>inp := Byte c # rest\<rparr>)"
    using NextByte_inp(1) [OF assms(3)] len
    by (simp add: subneg_loop.simps [of True NUL "[]"] s1_def del: TelnetEscape_simps)
  moreover have "subneg_naws OPT_NAWS p (s\<lparr>inp := Byte c # rest\<rparr>)
      = (SetSize (int cols) (int rows) s)\<lparr>have_naws := True, inp := Byte c # rest\<rparr>"
  proof -
    have le: "c' \<le> 0xFFFE" "r' \<le> 0xFFFE" and pos: "0 < c'" "0 < r'"
      using assms(1,2) by (simp_all add: c'_def r'_def)
    have "256 * int (byte (p ! 0)) + int (byte (p ! 1)) = int c'"
      "256 * int (byte (p ! 2)) + int (byte (p ! 3)) = int r'"
      using high_low [of c'] high_low [of r'] le by (simp_all add: p_def)
    moreover have "length p = 4"
      by (simp add: p_def)
    ultimately have "subneg_naws OPT_NAWS p (s\<lparr>inp := Byte c # rest\<rparr>)
        = (SetSize (int c') (int r') (s\<lparr>inp := Byte c # rest\<rparr>))\<lparr>have_naws := True\<rparr>"
      using pos unfolding subneg_naws_def by (simp only: Let_def) simp
    also have "SetSize (int c') (int r') (s\<lparr>inp := Byte c # rest\<rparr>)
        = (SetSize (int cols) (int rows) s)\<lparr>inp := Byte c # rest\<rparr>"
      using SetSize_min [of cols rows, folded c'_def r'_def] by (simp add: SetSize_inp)
    finally show ?thesis by simp
  qed
  ultimately have "ReadSubnegotiation (s\<lparr>inp := Byte OPT_NAWS # inp s1\<rparr>)
      = (SetSize (int cols) (int rows) s)\<lparr>have_naws := True, inp := Byte c # rest\<rparr>"
    by (simp add: ReadSubnegotiation_def subneg_ttype_def)
  then show ?thesis
    using NextByte_inp(2) [OF assms(3) i] NextByte_inp(1) [OF assms(3)] assms(3,4)
    by (simp add: NextPayloadByte.simps [of s] NextPayloadByte_plain SetSize_def)
qed

theorem Naws_sets_size_witness:
  "NextPayloadByte (new_session (map Byte (Naws 255 40) @ [Byte (CHR ''x'')]))
     = (Some (CHR ''x''), (SetSize 255 40 (new_session []))\<lparr>have_naws := True\<rparr>)"
  using Naws_sets_size [of 255 40 "new_session (map Byte (Naws 255 40) @ [Byte (CHR ''x'')])" "CHR ''x''" "[]"]
  by (simp add: new_session_def SetSize_def)

section \<open>The line discipline\<close>

lemma NextPayloadByte_inp:
  assumes "pushback s = None" "c \<noteq> IAC"
  shows "NextPayloadByte (s\<lparr>inp := Byte c # r\<rparr>) = (Some c, s\<lparr>inp := r\<rparr>)"
  using NextPayloadByte_plain [of "s\<lparr>inp := Byte c # r\<rparr>" c r] assms by simp

lemma GetChar_plain:
  assumes "pushback s = None" "inp s = Byte c # r" "c \<noteq> IAC" "c \<noteq> CR" "c \<noteq> LF" "c \<noteq> NUL"
  shows "GetChar s = (Some c, s\<lparr>inp := r, pending_cr := False\<rparr>)"
  using assms NextPayloadByte_plain [OF assms(1-3)] by (simp add: GetChar_def Let_def)

lemma GetChar_return:
  assumes "pushback s = None" "inp s = Byte CR # r" "\<not> pending_cr s"
  shows "GetChar s = (Some CR, s\<lparr>inp := r, pending_cr := True\<rparr>)"
  using assms NextPayloadByte_plain [OF assms(1,2)] by (simp add: GetChar_def)

text \<open>What may follow the carriage return that ended a line and still belongs to that ending.\<close>

definition line_tail :: "string \<Rightarrow> bool" where
  "line_tail t \<longleftrightarrow> t \<in> {[LF], [NUL], [CR, LF], [CR, NUL]}"

lemma GetChar_tail:
  assumes "pushback s = None" "inp s = map Byte t @ r" "line_tail t" "pending_cr s"
  shows "GetChar s = GetChar (s\<lparr>inp := r, pending_cr := False\<rparr>)"
proof -
  have one: "GetChar s = GetChar (s\<lparr>inp := r, pending_cr := False\<rparr>)"
    if "inp s = Byte x # r" "x = LF \<or> x = NUL" for x
  proof -
    have "NextPayloadByte s = (Some x, s\<lparr>inp := r\<rparr>)"
      using NextPayloadByte_plain [OF assms(1) that(1)] that(2) by auto
    with that(2) assms(4) show ?thesis by (auto simp: GetChar_def Let_def)
  qed
  have two: "GetChar s = GetChar (s\<lparr>inp := r, pending_cr := False\<rparr>)"
    if "inp s = Byte CR # Byte x # r" "x = LF \<or> x = NUL" for x
  proof -
    have "NextPayloadByte s = (Some CR, s\<lparr>inp := Byte x # r\<rparr>)"
      using NextPayloadByte_plain [OF assms(1) that(1)] by simp
    moreover have "NextPayloadByte (s\<lparr>inp := Byte x # r, pending_cr := False\<rparr>)
        = (Some x, s\<lparr>inp := r, pending_cr := False\<rparr>)"
      using NextPayloadByte_plain [of "s\<lparr>inp := Byte x # r, pending_cr := False\<rparr>" x r] assms(1) that(2)
      by auto
    ultimately show ?thesis
      using that(2) assms(4) by (auto simp: GetChar_def Let_def)
  qed
  show ?thesis
    using assms(2,3) one two by (auto simp: line_tail_def)
qed

definition typed :: "char \<Rightarrow> bool" where
  "typed c \<longleftrightarrow> 32 \<le> byte c \<and> byte c \<noteq> 127 \<and> c \<noteq> IAC"

lemma typed_not: "typed c \<Longrightarrow> c \<noteq> CR \<and> c \<noteq> LF \<and> c \<noteq> NUL \<and> c \<noteq> IAC \<and> c \<noteq> CHR 0x08 \<and> c \<noteq> CHR 0x7F"
  by (auto simp: typed_def)

lemma readline_loop_typed:
  assumes "list_all typed l" "pushback s = None" "\<not> pending_cr s" "inp s = map Byte (l @ [CR]) @ r"
  shows "\<exists>s'. readline_loop m out s = ((True, out @ l), s') \<and> inp s' = r \<and> pending_cr s' \<and> pushback s' = None"
  using assms
proof (induction l arbitrary: out s)
  case Nil
  then have g: "GetChar s = (Some CR, s\<lparr>inp := r, pending_cr := True\<rparr>)"
    by (intro GetChar_return) simp_all
  show ?case
    using g Nil by (simp add: readline_loop.simps [of m out s] put_def)
next
  case (Cons c l)
  let ?r = "map Byte (l @ [CR]) @ r"
  let ?s1 = "s\<lparr>inp := ?r, pending_cr := False\<rparr>"
  let ?s2 = "if echo ?s1 then put (if m then ''*'' else [c]) ?s1 else ?s1"
  from Cons.prems(1) have c: "c \<noteq> CR" "c \<noteq> LF" "c \<noteq> NUL" "c \<noteq> IAC" "c \<noteq> CHR 0x08" "c \<noteq> CHR 0x7F"
    "\<not> byte c < 32"
    using typed_not [of c] by (auto simp: typed_def)
  have g: "GetChar s = (Some c, ?s1)"
    using Cons.prems c by (intro GetChar_plain) simp_all
  have "readline_loop m out s = readline_loop m (out @ [c]) ?s2"
    using g c unfolding readline_loop.simps [of m out s] by (simp only: prod.case option.case if_False simp_thms)
  moreover have "\<exists>s'. readline_loop m (out @ [c]) ?s2 = ((True, (out @ [c]) @ l), s') \<and> inp s' = r
      \<and> pending_cr s' \<and> pushback s' = None"
    using Cons.prems by (intro Cons.IH) (simp_all add: put_def)
  ultimately show ?case by simp
qed

lemma readline_loop_tail:
  assumes "pushback s = None" "inp s = map Byte t @ r" "line_tail t" "pending_cr s"
  shows "readline_loop m out s = readline_loop m out (s\<lparr>inp := r, pending_cr := False\<rparr>)"
  unfolding readline_loop.simps [of m out s] GetChar_tail [OF assms]
  by (rule readline_loop.simps [symmetric])

fun read_lines :: "nat \<Rightarrow> session \<Rightarrow> (bool \<times> string) list \<times> session" where
  "read_lines 0 s = ([], s)"
| "read_lines (Suc n) s =
     (case ReadLine False s of (l, s1) \<Rightarrow> (case read_lines n s1 of (ls, s2) \<Rightarrow> (l # ls, s2)))"

definition typed_lines :: "(string \<times> string) list \<Rightarrow> ev list" where
  "typed_lines lts = concat (map (\<lambda>(l, t). map Byte (l @ CR # t)) lts)"

lemma read_lines_pending:
  assumes "list_all (\<lambda>(l, t). list_all typed l \<and> line_tail t) lts"
    and "pushback s = None" "pending_cr s" "line_tail t0" "inp s = map Byte t0 @ typed_lines lts"
  shows "fst (read_lines (length lts) s) = map (\<lambda>(l, t). (True, l)) lts"
  using assms
proof (induction lts arbitrary: s t0)
  case (Cons lt lts)
  obtain l t where lt: "lt = (l, t)" by fastforce
  let ?s = "s\<lparr>inp := typed_lines (lt # lts), pending_cr := False\<rparr>"
  have "\<exists>s'. readline_loop False [] ?s = ((True, [] @ l), s') \<and> inp s' = map Byte t @ typed_lines lts
      \<and> pending_cr s' \<and> pushback s' = None"
    using Cons.prems lt by (intro readline_loop_typed) (simp_all add: typed_lines_def)
  then obtain s' where s': "ReadLine False s = ((True, l), s')" "inp s' = map Byte t @ typed_lines lts"
    "pending_cr s'" "pushback s' = None"
    using readline_loop_tail [OF Cons.prems(2,5,4,3), of False "[]"] by (auto simp: ReadLine_def)
  with Cons.IH [of s' t] Cons.prems(1) lt show ?case
    by (auto split: prod.splits)
qed simp

text \<open>Lines arrive as they were typed: from a fresh session, reading as many lines as the peer
  sent returns exactly the text of each line, whether each line ended in CR LF, CR NUL,
  CR CR LF or CR CR NUL; blank lines are neither lost nor invented.\<close>

theorem ReadLine_lines:
  assumes "list_all (\<lambda>(l, t). list_all typed l \<and> line_tail t) lts"
  shows "fst (read_lines (length lts) (new_session (typed_lines lts))) = map (\<lambda>(l, t). (True, l)) lts"
proof (cases lts)
  case (Cons lt lts')
  obtain l t where lt: "lt = (l, t)" by fastforce
  let ?s = "new_session (typed_lines lts)"
  obtain s' where s': "readline_loop False [] ?s = ((True, [] @ l), s')"
    "inp s' = map Byte t @ typed_lines lts'" "pending_cr s'" "pushback s' = None"
    using readline_loop_typed [of l ?s "map Byte t @ typed_lines lts'" False "[]"] assms Cons lt
    by (auto simp: typed_lines_def new_session_def)
  have "fst (read_lines (length lts') s') = map (\<lambda>(l, t). (True, l)) lts'"
    using assms Cons lt s' by (intro read_lines_pending [of lts' s' t]) simp_all
  with s' Cons lt show ?thesis
    by (auto simp: ReadLine_def split: prod.splits)
qed (simp add: typed_lines_def)

theorem ReadLine_lines_witness:
  "fst (read_lines 3 (new_session (typed_lines [(''hi'', [LF]), ([], [CR, LF]), (''bye'', [NUL])])))
     = [(True, ''hi''), (True, []), (True, ''bye'')]"
  using ReadLine_lines [of "[(''hi'', [LF]), ([], [CR, LF]), (''bye'', [NUL])]"]
  by (simp add: typed_def line_tail_def numeral_3_eq_3 del: read_lines.simps)

text \<open>A defect of the lookahead: when two carriage returns are followed by a literal 0xFF byte
  (sent doubled, as the protocol requires), \<open>GetChar\<close> reports the second line ending and keeps
  the 0xFF for later, but the next call takes the kept byte for the start of a telnet command:
  it swallows the following character \<open>x\<close> together with the 0xFF and returns the character
  after it.\<close>

theorem GetChar_pushback_iac:
  assumes "pushback s = None" "pending_cr s" "inp s = map Byte ([CR, IAC, IAC, x, y] @ rest)"
    and "x \<notin> {IAC, SB, WILL, WONT, DO, DONT}" "typed y"
  shows "GetChar s = (Some CR, s\<lparr>inp := map Byte ([x, y] @ rest), pushback := Some IAC\<rparr>)
    \<and> GetChar (snd (GetChar s)) = (Some y, s\<lparr>inp := map Byte rest, pending_cr := False\<rparr>)"
proof -
  let ?s1 = "s\<lparr>inp := map Byte ([x, y] @ rest), pushback := Some IAC\<rparr>"
  have n1: "NextPayloadByte s = (Some CR, s\<lparr>inp := map Byte ([IAC, IAC, x, y] @ rest)\<rparr>)"
    using NextPayloadByte_plain [OF assms(1)] assms(3) by simp
  have n2: "NextPayloadByte (s\<lparr>inp := map Byte ([IAC, IAC, x, y] @ rest), pending_cr := False\<rparr>)
      = (Some IAC, s\<lparr>inp := map Byte ([x, y] @ rest), pending_cr := False\<rparr>)"
    using NextPayloadByte_escaped [of "s\<lparr>inp := map Byte ([IAC, IAC, x, y] @ rest), pending_cr := False\<rparr>"]
      assms(1) by simp
  have first: "GetChar s = (Some CR, ?s1)"
    using n1 n2 assms(2) by (simp add: GetChar_def Let_def)
  have y: "y \<noteq> CR" "y \<noteq> LF" "y \<noteq> NUL" "y \<noteq> IAC"
    using typed_not [OF assms(5)] by simp_all
  have no_pb: "s\<lparr>pushback := None\<rparr> = s"
    using assms(1) by (cases s) simp
  have "NextPayloadByte ?s1 = NextPayloadByte (s\<lparr>inp := map Byte (y # rest)\<rparr>)"
    using assms(4) unfolding NextPayloadByte.simps [of ?s1] by (simp add: NextByte_def no_pb)
  then have "NextPayloadByte ?s1 = (Some y, s\<lparr>inp := map Byte rest\<rparr>)"
    using NextPayloadByte_plain [of "s\<lparr>inp := map Byte (y # rest)\<rparr>" y "map Byte rest"] assms(1) y by simp
  with first y assms(2) show ?thesis
    by (simp add: GetChar_def Let_def)
qed

theorem GetChar_pushback_iac_witness:
  "fst (GetChar (snd (GetChar ((new_session (map Byte [CR, IAC, IAC, CHR ''a'', CHR ''b'']))
      \<lparr>pending_cr := True\<rparr>)))) = Some (CHR ''b'')"
proof -
  let ?s = "(new_session (map Byte [CR, IAC, IAC, CHR ''a'', CHR ''b'']))\<lparr>pending_cr := True\<rparr>"
  have "GetChar (snd (GetChar ?s)) = (Some (CHR ''b''), ?s\<lparr>inp := map Byte [], pending_cr := False\<rparr>)"
    by (rule GetChar_pushback_iac [of ?s "CHR ''a''" "CHR ''b''" "[]", THEN conjunct2])
      (simp_all add: new_session_def typed_def)
  then show ?thesis by (simp only: fst_conv)
qed

end
