(* ===== verification/QM_XModem.thy ===== *)
theory QM_XModem
  imports QM_Telnet "HOL-Library.Signed_Division"
begin

text \<open>
  The Xmodem file transfer of the BBS shell, \<^verbatim>\<open>src/telnet/src/xmodem.cpp\<close>, on top of the raw byte
  operations of the telnet session. \<open>Send\<close> and \<open>Receive\<close> are whole conversations on one session:
  what the peer sends is the input of the session, what goes to the peer is its output.
  The receive loop ends because every turn consumes input; no fuel is used.
\<close>

section \<open>The checksum\<close>

abbreviation (input) SOH :: char where "SOH \<equiv> CHR 0x01"
abbreviation (input) STX :: char where "STX \<equiv> CHR 0x02"
abbreviation (input) EOT :: char where "EOT \<equiv> CHR 0x04"
abbreviation (input) ACK :: char where "ACK \<equiv> CHR 0x06"
abbreviation (input) NAK :: char where "NAK \<equiv> CHR 0x15"
abbreviation (input) CAN :: char where "CAN \<equiv> CHR 0x18"
abbreviation (input) SUB :: char where "SUB \<equiv> CHR 0x1A"

definition kByteTimeoutMs :: int where "kByteTimeoutMs = 10000"

definition kMaxRetries :: nat where "kMaxRetries = 10"

definition crc_bit :: "16 word \<Rightarrow> 16 word" where
  "crc_bit crc = (if crc AND 0x8000 \<noteq> 0 then push_bit 1 crc XOR 0x1021 else push_bit 1 crc)"

definition crc_byte :: "16 word \<Rightarrow> char \<Rightarrow> 16 word" where
  "crc_byte crc c = (crc_bit ^^ 8) (crc XOR push_bit 8 (of_char c))"

definition Crc16 :: "string \<Rightarrow> 16 word" where
  "Crc16 data = foldl crc_byte 0 data"

section \<open>Sending\<close>

definition SendByte :: "char \<Rightarrow> session \<Rightarrow> session" where
  "SendByte b t = WriteRaw [b] t"

definition Cancel :: "session \<Rightarrow> session" where
  "Cancel t = WriteRaw [CAN, CAN] t"

text \<open>Six attempts to see the receiver's \<open>C\<close>; \<open>False\<close> when it cancels or never asks.\<close>

fun send_start :: "nat \<Rightarrow> int \<Rightarrow> session \<Rightarrow> bool \<times> session" where
  "send_start 0 start_timeout_ms t = (False, t)"
| "send_start (Suc i) start_timeout_ms t =
     (case ReadRawByte (start_timeout_ms sdiv 6 + 1) t of
        (None, t1) \<Rightarrow> send_start i start_timeout_ms t1
      | (Some c, t1) \<Rightarrow>
          if c = CHR ''C'' then (True, t1)
          else if c = CAN then (False, t1)
          else send_start i start_timeout_ms t1)"

definition mk_frame :: "8 word \<Rightarrow> string \<Rightarrow> string" where
  "mk_frame block payload =
     (let crc = Crc16 payload
      in [if length payload = 1024 then STX else SOH, char_of (unat block), char_of (unat (255 - block))]
         @ payload @ [char_of (unat (drop_bit 8 crc)), char_of (unat (crc AND 0xFF))])"

text \<open>One block, resent until it is acknowledged: \<open>Some True\<close> acknowledged, \<open>Some False\<close>
  cancelled by the peer, \<open>None\<close> retries exhausted.\<close>

fun send_retry :: "nat \<Rightarrow> string \<Rightarrow> session \<Rightarrow> bool option \<times> session" where
  "send_retry 0 frame t = (None, t)"
| "send_retry (Suc n) frame t =
     (case ReadRawByte kByteTimeoutMs (WriteRaw frame t) of
        (None, t1) \<Rightarrow> send_retry n frame t1
      | (Some reply, t1) \<Rightarrow>
          if reply = ACK then (Some True, t1)
          else if reply = CAN then (Some False, t1)
          else send_retry n frame t1)"

definition block_size :: "string \<Rightarrow> nat" where
  "block_size data = (if length data \<ge> 1024 then 1024 else 128)"

definition block_payload :: "string \<Rightarrow> string" where
  "block_payload data =
     (let want = block_size data; payload = take want data
      in payload @ replicate (want - length payload) SUB)"

text \<open>The block loop, on the part of the data from position \<open>at\<close>.\<close>

function send_blocks :: "string \<Rightarrow> 8 word \<Rightarrow> session \<Rightarrow> bool \<times> session" where
  "send_blocks data block t =
     (if data = [] then (True, t)
      else case send_retry kMaxRetries (mk_frame block (block_payload data)) t of
             (Some True, t1) \<Rightarrow> send_blocks (drop (block_size data) data) (block + 1) t1
           | (Some False, t1) \<Rightarrow> (False, t1)
           | (None, t1) \<Rightarrow> (False, Cancel t1))"
  by pat_completeness auto
termination
  by (relation "measure (\<lambda>(data, _). length data)") (auto simp: block_size_def)

declare send_blocks.simps [simp del]

fun send_eot :: "nat \<Rightarrow> session \<Rightarrow> bool \<times> session" where
  "send_eot 0 t = (False, t)"
| "send_eot (Suc n) t =
     (case ReadRawByte kByteTimeoutMs (SendByte EOT t) of
        (reply, t1) \<Rightarrow> if reply = Some ACK then (True, t1) else send_eot n t1)"

definition Send :: "session \<Rightarrow> string \<Rightarrow> int \<Rightarrow> bool \<times> session" where
  "Send t data start_timeout_ms =
     (case send_start 6 start_timeout_ms t of
        (False, t1) \<Rightarrow> (False, t1)
      | (True, t1) \<Rightarrow>
          (case send_blocks data 1 t1 of
             (False, t2) \<Rightarrow> (False, t2)
           | (True, t2) \<Rightarrow> send_eot kMaxRetries t2))"

section \<open>Receiving\<close>

function recv_start :: "int \<Rightarrow> int \<Rightarrow> session \<Rightarrow> char option \<times> session" where
  "recv_start start_timeout_ms waited t =
     (if waited < start_timeout_ms
      then case ReadRawByte 3000 (SendByte (CHR ''C'') t) of
             (r, t1) \<Rightarrow> (case r of
                 Some b \<Rightarrow> if b = SOH \<or> b = STX \<or> b = EOT \<or> b = CAN then (Some b, t1)
                           else recv_start start_timeout_ms (waited + 3000) t1
               | None \<Rightarrow> recv_start start_timeout_ms (waited + 3000) t1)
      else (None, t))"
  by pat_completeness auto
termination
  by (relation "measure (\<lambda>(limit, waited, _). nat (limit - waited))") auto

declare recv_start.simps [simp del]

definition strip_sub :: "string \<Rightarrow> string" where
  "strip_sub out = rev (dropWhile (\<lambda>c. c = SUB) (rev out))"

text \<open>The block number, its complement, the payload and the checksum bytes of one block; \<open>None\<close>
  when a byte does not arrive in time.\<close>

definition recv_frame :: "nat \<Rightarrow> session \<Rightarrow> (char \<times> char \<times> string \<times> char \<times> char) option \<times> session" where
  "recv_frame want t =
     (case read_bytes 2 kByteTimeoutMs t of
        ([num, inv_num], t1) \<Rightarrow>
          (case read_bytes want kByteTimeoutMs t1 of
             (payload, t2) \<Rightarrow>
               if length payload < want then (None, t2)
               else (case read_bytes 2 kByteTimeoutMs t2 of
                       ([hi, lo], t3) \<Rightarrow> (Some (num, inv_num, payload, hi, lo), t3)
                     | (_, t3) \<Rightarrow> (None, t3)))
      | (_, t1) \<Rightarrow> (None, t1))"

text \<open>What happens to a complete block: the file and the expected number afterwards, or \<open>None\<close> when
  the file would grow past \<open>max_bytes\<close>.\<close>

definition recv_store ::
  "nat \<Rightarrow> 8 word \<Rightarrow> string \<Rightarrow> (char \<times> char \<times> string \<times> char \<times> char) \<Rightarrow> session
     \<Rightarrow> (8 word \<times> string) option \<times> session" where
  "recv_store max_bytes expect out = (\<lambda>(num, inv_num, payload, hi, lo) t.
     let num_ok = (255 - of_char num :: 8 word) = of_char inv_num;
         crc_ok = Crc16 payload = push_bit 8 (of_char hi) OR of_char lo
     in if num_ok \<and> of_char num = expect - 1 then (Some (expect, out), SendByte ACK t)
        else if num_ok \<and> crc_ok \<and> of_char num = expect
        then if length out + length payload > max_bytes then (None, Cancel t)
             else (Some (expect + 1, out @ payload), SendByte ACK t)
        else (Some (expect, out), SendByte NAK (DrainInput 200 t)))"

lemma avail_SendByte [simp]: "avail (SendByte b t) = avail t"
  by (simp add: SendByte_def WriteRaw_def)

lemma avail_Cancel [simp]: "avail (Cancel t) = avail t"
  by (simp add: Cancel_def WriteRaw_def)

lemma WaitReadable_length: "WaitReadable es = (b, r) \<Longrightarrow> length r \<le> length es"
  by (cases es rule: WaitReadable.cases) auto

lemma ReadRawByte_measure:
  assumes "ReadRawByte tmo t = (r, t1)"
  shows "avail t1 + (if r = None then 0 else 1) \<le> avail t"
proof (cases "pushback t")
  case None
  obtain ready es where w: "(if tmo > 0 then WaitReadable (inp t) else (True, inp t)) = (ready, es)"
    by fastforce
  then have "length es \<le> length (inp t)"
    using WaitReadable_length by (auto split: if_splits)
  then have le: "avail (t\<lparr>inp := es\<rparr>) \<le> avail t"
    by (simp add: avail_def)
  from assms None w have "(if ready then NextPayloadByte (t\<lparr>inp := es\<rparr>) else (None, t\<lparr>inp := es\<rparr>)) = (r, t1)"
    by (simp add: ReadRawByte_def Let_def)
  then show ?thesis
    using le NextPayloadByte_measure [of "t\<lparr>inp := es\<rparr>" r t1] by (cases ready) auto
qed (use assms in \<open>auto simp: ReadRawByte_def avail_def\<close>)

lemma drain_loop_avail: "avail (drain_loop n tmo t) \<le> avail t"
proof (induction n tmo t rule: drain_loop.induct)
  case (2 n tmo t)
  obtain ready es where w: "WaitReadable (inp t) = (ready, es)" by fastforce
  obtain r t2 where rr: "ReadRawByte tmo (t\<lparr>inp := es\<rparr>) = (r, t2)" by fastforce
  have le: "avail (t\<lparr>inp := es\<rparr>) \<le> avail t"
    using WaitReadable_length [OF w] by (simp add: avail_def)
  have "avail t2 \<le> avail t"
    using ReadRawByte_measure [OF rr] le by simp
  with w rr le "2.IH" show ?case
    by (cases r) (fastforce simp: Let_def)+
qed simp

lemma avail_DrainInput: "avail (DrainInput tmo t) \<le> avail t"
  unfolding DrainInput_def by (rule le_trans [OF drain_loop_avail]) (simp add: avail_def)

lemma read_bytes_avail: "read_bytes n tmo t = (cs, t1) \<Longrightarrow> avail t1 \<le> avail t"
proof (induction n arbitrary: t cs)
  case (Suc n)
  obtain r t2 where rr: "ReadRawByte tmo t = (r, t2)" by fastforce
  with Suc ReadRawByte_measure [OF rr] show ?case
    by (cases r) (fastforce split: prod.splits)+
qed simp

lemma recv_frame_avail: "recv_frame want t = (r, t1) \<Longrightarrow> avail t1 \<le> avail t"
  by (auto simp: recv_frame_def split: prod.splits list.splits if_splits dest!: read_bytes_avail)

lemma recv_store_avail: "recv_store m e out f t = (r, t1) \<Longrightarrow> avail t1 \<le> avail t"
  by (auto simp: recv_store_def Let_def avail_DrainInput split: prod.splits if_splits)

function recv_loop :: "nat \<Rightarrow> char \<Rightarrow> 8 word \<Rightarrow> string \<Rightarrow> session \<Rightarrow> (bool \<times> string) \<times> session" where
  "recv_loop max_bytes b expect out t =
     (if b = EOT then ((True, strip_sub out), SendByte ACK t)
      else if b = CAN then ((False, out), t)
      else if b \<noteq> SOH \<and> b \<noteq> STX
      then (case ReadRawByte kByteTimeoutMs (SendByte NAK (DrainInput 200 t)) of
              (None, t1) \<Rightarrow> ((False, out), t1)
            | (Some b1, t1) \<Rightarrow> recv_loop max_bytes b1 expect out t1)
      else (case recv_frame (if b = STX then 1024 else 128) t of
              (None, t1) \<Rightarrow> ((False, out), t1)
            | (Some frame, t1) \<Rightarrow>
                (case recv_store max_bytes expect out frame t1 of
                   (None, t2) \<Rightarrow> ((False, out), t2)
                 | (Some (expect1, out1), t2) \<Rightarrow>
                     (case ReadRawByte kByteTimeoutMs t2 of
                        (None, t3) \<Rightarrow> ((False, out1), t3)
                      | (Some b1, t3) \<Rightarrow> recv_loop max_bytes b1 expect1 out1 t3))))"
  by pat_completeness auto
termination
  by (relation "measure (\<lambda>(_, _, _, _, t). avail t)")
    (auto dest!: ReadRawByte_measure [OF sym] recv_store_avail [OF sym] recv_frame_avail [OF sym]
      intro: less_le_trans [OF _ avail_DrainInput [of 200]])

declare recv_loop.simps [simp del]

definition Receive :: "session \<Rightarrow> nat \<Rightarrow> int \<Rightarrow> (bool \<times> string) \<times> session" where
  "Receive t max_bytes start_timeout_ms =
     (case recv_start start_timeout_ms 0 t of
        (None, t1) \<Rightarrow> ((False, []), t1)
      | (Some b, t1) \<Rightarrow> recv_loop max_bytes b 1 [] t1)"

section \<open>What the checksum detects\<close>

lemma and_top_bit: "(x AND 0x8000 \<noteq> 0) = bit (x :: 16 word) 15"
proof -
  have "x AND push_bit 15 1 \<noteq> 0 \<longleftrightarrow> bit x 15"
    by (metis and_exp_eq_0_iff_not_bit push_bit_of_1)
  then show ?thesis by simp
qed

lemma crc_bit_xor: "crc_bit x = push_bit 1 x XOR (if bit x 15 then 0x1021 else 0)"
  by (simp add: crc_bit_def and_top_bit)

lemma crc_bit_linear: "crc_bit (x XOR y) = crc_bit x XOR crc_bit y"
  unfolding crc_bit_xor by (simp add: bit_xor_iff push_bit_xor ac_simps xor.left_commute)

lemma crc_bit_bit_0: "bit (crc_bit x) 0 = bit x 15"
  by (simp add: crc_bit_xor bit_0 even_xor_iff)

lemma xor_cancel: "x XOR m = y XOR m \<Longrightarrow> x = y" for x y m :: "16 word"
  by (metis xor.assoc xor_self_eq xor.right_neutral)

lemma crc_bit_inj: "crc_bit x = crc_bit y \<Longrightarrow> x = y"
proof -
  assume eq: "crc_bit x = crc_bit y"
  then have top: "bit x 15 = bit y 15"
    using crc_bit_bit_0 [of x] crc_bit_bit_0 [of y] by simp
  have sh: "push_bit 1 x = push_bit 1 y"
    by (rule xor_cancel [where m = "if bit y 15 then 0x1021 else 0"]) (use eq top in \<open>simp only: crc_bit_xor\<close>)
  have "bit x n = bit y n" if "n < 16" for n
  proof (cases "n = 15")
    case False
    with that have "bit (push_bit 1 x) (Suc n) = bit x n" "bit (push_bit 1 y) (Suc n) = bit y n"
      by (simp_all only: bit_push_bit_iff) simp_all
    with sh show ?thesis by simp
  qed (simp add: top)
  then show "x = y" by (intro bit_word_eqI) simp
qed

lemma crc_bits_inj: "(crc_bit ^^ n) x = (crc_bit ^^ n) y \<Longrightarrow> x = y"
  by (induction n) (auto dest: crc_bit_inj)

lemma crc_bits_linear: "(crc_bit ^^ n) (x XOR y) = (crc_bit ^^ n) x XOR (crc_bit ^^ n) y"
  by (induction n) (simp_all add: crc_bit_linear)

lemma crc_bits_low: "n + k \<le> 16 \<Longrightarrow> take_bit k x = x \<Longrightarrow> (crc_bit ^^ n) x = push_bit n x"
proof (induction n)
  case (Suc n)
  have "bit x (15 - n) = bit (take_bit k x) (15 - n)"
    using Suc.prems(2) by simp
  then have "\<not> bit (push_bit n x) 15"
    using Suc.prems(1) by (auto simp: bit_push_bit_iff bit_take_bit_iff)
  with Suc show ?case
    by (simp add: crc_bit_xor push_bit_double)
qed simp

lemma take_bit_char: "take_bit 8 (of_char c) = (of_char c :: 16 word)"
proof -
  have "take_bit 8 (of_nat (of_char c)) = (of_nat (take_bit 8 (of_char c)) :: 16 word)"
    by (rule take_bit_of_nat)
  also have "take_bit 8 (of_char c) = (of_char c :: nat)"
    by (simp add: take_bit_eq_mod)
  finally show ?thesis by (simp add: of_nat_of_char)
qed

lemma crc_byte_shift: "(crc_bit ^^ 8) (of_char c) = push_bit 8 (of_char c :: 16 word)"
  by (rule crc_bits_low [OF _ take_bit_char]) simp

lemma bytes_disjoint: "push_bit 8 (of_char a) AND of_char b = (0 :: 16 word)"
proof -
  have "push_bit 8 (of_char a) AND take_bit 8 (of_char b) = (0 :: 16 word)"
    by (rule bit_eqI) (auto simp: bit_simps)
  then show ?thesis by (simp only: take_bit_char)
qed

lemma bytes_or: "push_bit 8 (of_char a) OR of_char b = (of_nat (byte a * 256 + byte b) :: 16 word)"
  unfolding disjunctive_add_eq_or [OF bytes_disjoint, symmetric]
  by (simp add: push_bit_eq_mult of_nat_of_char)

lemma bytes_xor: "push_bit 8 (of_char a) XOR of_char b = (of_nat (byte a * 256 + byte b) :: 16 word)"
  using disjunctive_xor_eq_or [OF bytes_disjoint [of a b]] bytes_or by simp

lemma bytes_inj:
  assumes "(of_nat (byte a * 256 + byte b) :: 16 word) = of_nat (byte c * 256 + byte d)"
  shows "a = c \<and> b = d"
proof -
  have lt: "byte x < 256" for x by (rule byte_less)
  have "byte a * 256 + byte b < 65536" "byte c * 256 + byte d < 65536"
    using lt [of a] lt [of b] lt [of c] lt [of d] by linarith+
  then have "byte a * 256 + byte b < 2 ^ 16" "byte c * 256 + byte d < 2 ^ 16"
    by simp_all
  with assms have "byte a * 256 + byte b = byte c * 256 + byte d"
    unfolding word_of_nat_eq_iff by (simp add: take_bit_nat_eq_self del: of_nat_add of_nat_mult)
  then have eq: "(byte a * 256 + byte b) div 256 = (byte c * 256 + byte d) div 256"
      "(byte a * 256 + byte b) mod 256 = (byte c * 256 + byte d) mod 256"
    by simp_all
  from eq(1) have "byte a = byte c" by simp
  moreover from eq(2) have "byte b = byte d"
    by simp
  ultimately have "byte a = byte c \<and> byte b = byte d" ..
  then show ?thesis by simp
qed

lemma crc_byte_pair:
  "crc_byte (crc_byte w a) b = (crc_bit ^^ 16) (w XOR (push_bit 8 (of_char a) XOR of_char b))"
proof -
  have "crc_byte (crc_byte w a) b
      = (crc_bit ^^ 8) ((crc_bit ^^ 8) (w XOR push_bit 8 (of_char a)) XOR (crc_bit ^^ 8) (of_char b))"
    by (simp add: crc_byte_def crc_byte_shift)
  also have "\<dots> = (crc_bit ^^ (8 + 8)) ((w XOR push_bit 8 (of_char a)) XOR of_char b)"
    by (simp only: crc_bits_linear [symmetric] funpow_add comp_def)
  finally show ?thesis by (simp add: xor.assoc)
qed

lemma foldl_crc_byte_inj: "foldl crc_byte x vs = foldl crc_byte y vs \<Longrightarrow> x = y"
proof (induction vs arbitrary: x y)
  case (Cons v vs)
  then have "crc_byte x v = crc_byte y v" by simp
  then show ?case
    unfolding crc_byte_def by (blast dest: crc_bits_inj xor_cancel)
qed simp

lemma Crc16_burst:
  assumes "Crc16 (us @ [a, b] @ vs) = Crc16 (us @ [c, d] @ vs)"
  shows "a = c \<and> b = d"
proof -
  let ?w = "foldl crc_byte 0 us"
  have "crc_byte (crc_byte ?w a) b = crc_byte (crc_byte ?w c) d"
    using assms foldl_crc_byte_inj [where vs = vs] by (simp add: Crc16_def)
  then have "?w XOR (push_bit 8 (of_char a) XOR of_char b) = ?w XOR (push_bit 8 (of_char c) XOR of_char d)"
    unfolding crc_byte_pair by (rule crc_bits_inj)
  then show ?thesis
    using bytes_inj xor_cancel [where m = ?w] unfolding bytes_xor by (metis xor.commute)
qed

section \<open>One turn of the receiver\<close>

text \<open>The tail shared by the turns of the loop: read the next header byte and go on.\<close>

definition recv_next :: "nat \<Rightarrow> 8 word \<Rightarrow> string \<Rightarrow> session \<Rightarrow> (bool \<times> string) \<times> session" where
  "recv_next max_bytes expect out t =
     (case ReadRawByte kByteTimeoutMs t of
        (None, t1) \<Rightarrow> ((False, out), t1)
      | (Some b, t1) \<Rightarrow> recv_loop max_bytes b expect out t1)"

text \<open>A block on the wire as \<open>Send\<close> builds it, but with a payload that may have changed on the way.\<close>

definition tx_frame :: "8 word \<Rightarrow> string \<Rightarrow> string \<Rightarrow> string" where
  "tx_frame block payload arrived =
     [if length payload = 1024 then STX else SOH, char_of (unat block), char_of (unat (255 - block))]
     @ arrived @ [char_of (unat (drop_bit 8 (Crc16 payload))), char_of (unat (Crc16 payload AND 0xFF))]"

lemma mk_frame_tx: "mk_frame block payload = tx_frame block payload payload"
  by (simp add: mk_frame_def tx_frame_def Let_def)

lemma of_char_unat: "of_char (char_of (unat w)) = w" for w :: "8 word"
proof -
  have "unat w < 256" using unsigned_less [of w, where 'a = nat] by simp
  then have "byte (char_of (unat w)) = unat w" by simp
  then show ?thesis by (metis of_nat_of_char of_nat_unat ucast_id)
qed

lemma crc_split:
  "push_bit 8 (of_char (char_of (unat (drop_bit 8 w)))) OR of_char (char_of (unat (w AND 0xFF))) = w"
  for w :: "16 word"
proof -
  have "unat (drop_bit 8 w) = unat w div 256" by (simp add: drop_bit_eq_div unat_div_distrib)
  moreover have "unat w < 65536" using unsigned_less [of w, where 'a = nat] by simp
  ultimately have hi: "byte (char_of (unat (drop_bit 8 w))) = unat w div 256"
    by (simp add: div_less_iff_less_mult)
  have "w AND 0xFF = take_bit 8 w" by (simp add: take_bit_eq_mask mask_eq_exp_minus_1)
  then have "unat (w AND 0xFF) = unat w mod 256" by (simp add: take_bit_eq_mod unat_mod_distrib)
  then have lo: "byte (char_of (unat (w AND 0xFF))) = unat w mod 256" by simp
  show ?thesis
    unfolding bytes_or hi lo by (simp del: of_nat_add of_nat_mult)
qed

lemma complement_not: "(255 - (e - 1) :: 8 word) = 255 - e + 1"
  by simp

lemma read_bytes_escape2:
  "pushback s = None \<Longrightarrow> inp s = map Byte (TelnetEscape data) @ r \<Longrightarrow> n = length data \<Longrightarrow>
   read_bytes n t s = (data, s\<lparr>inp := r\<rparr>)"
  using read_bytes_escape by simp

lemma TelnetEscape_append [simp]: "TelnetEscape (xs @ ys) = TelnetEscape xs @ TelnetEscape ys"
  by (simp add: TelnetEscape_def)

lemma recv_frame_tx:
  assumes "pushback s = None" "length arrived = want"
    and "inp s = map Byte (TelnetEscape ([num, inv_num] @ arrived @ [hi, lo])) @ r"
  shows "recv_frame want s = (Some (num, inv_num, arrived, hi, lo), s\<lparr>inp := r\<rparr>)"
proof -
  let ?i2 = "map Byte (TelnetEscape [hi, lo]) @ r"
  let ?i1 = "map Byte (TelnetEscape arrived) @ ?i2"
  have "read_bytes 2 kByteTimeoutMs s = ([num, inv_num], s\<lparr>inp := ?i1\<rparr>)"
    by (rule read_bytes_escape2) (use assms in simp_all)
  moreover have "read_bytes want kByteTimeoutMs (s\<lparr>inp := ?i1\<rparr>) = (arrived, s\<lparr>inp := ?i2\<rparr>)"
    using read_bytes_escape2 [of "s\<lparr>inp := ?i1\<rparr>" arrived ?i2] assms(1,2)
    by (simp del: TelnetEscape_simps)
  moreover have "read_bytes 2 kByteTimeoutMs (s\<lparr>inp := ?i2\<rparr>) = ([hi, lo], s\<lparr>inp := r\<rparr>)"
    using read_bytes_escape2 [of "s\<lparr>inp := ?i2\<rparr>" "[hi, lo]" r 2] assms(1)
    by (simp del: TelnetEscape_simps)
  ultimately show ?thesis
    using assms(2) by (simp add: recv_frame_def del: TelnetEscape_simps)
qed

lemma SendByte_simps [simp]:
  "inp (SendByte b t) = inp t" "pushback (SendByte b t) = pushback t" "ssh (SendByte b t) = ssh t"
  "b \<noteq> IAC \<Longrightarrow> sent (SendByte b t) = sent t @ [b]"
  by (simp_all add: SendByte_def WriteRaw_def put_def)

lemma DrainInput_gap:
  assumes "inp t = Gap # r"
  shows "DrainInput tmo t = t\<lparr>pushback := None, pending_cr := False, inp := r\<rparr>"
proof -
  have "drain_loop (Suc n) tmo (t\<lparr>pushback := None, pending_cr := False\<rparr>)
      = t\<lparr>pushback := None, pending_cr := False, inp := r\<rparr>" for n
    using assms by simp
  from this [of 4095] show ?thesis by (simp add: DrainInput_def del: drain_loop.simps)
qed

text \<open>A block that arrives as a whole is read up to its last byte and judged by \<open>recv_store\<close>.\<close>

lemma recv_next_frame:
  assumes "pushback t = None" "length arrived = length payload" "length payload \<in> {128, 1024}"
    and "inp t = map Byte (TelnetEscape (tx_frame block payload arrived)) @ r"
  shows "recv_next max_bytes expect out t =
    (case recv_store max_bytes expect out
            (char_of (unat block), char_of (unat (255 - block)), arrived,
             char_of (unat (drop_bit 8 (Crc16 payload))), char_of (unat (Crc16 payload AND 0xFF)))
            (t\<lparr>inp := r\<rparr>) of
       (None, t2) \<Rightarrow> ((False, out), t2)
     | (Some (expect1, out1), t2) \<Rightarrow> recv_next max_bytes expect1 out1 t2)"
proof -
  let ?num = "char_of (unat block) :: char" and ?inv = "char_of (unat (255 - block)) :: char"
  let ?hi = "char_of (unat (drop_bit 8 (Crc16 payload))) :: char"
  let ?lo = "char_of (unat (Crc16 payload AND 0xFF)) :: char"
  let ?b = "if length payload = 1024 then STX else SOH"
  let ?i = "map Byte (TelnetEscape ([?num, ?inv] @ arrived @ [?hi, ?lo])) @ r"
  have "ReadRawByte kByteTimeoutMs t = (Some ?b, t\<lparr>inp := ?i\<rparr>)"
    by (rule ReadRawByte_escape) (use assms in \<open>simp_all add: tx_frame_def\<close>)
  moreover have "recv_frame (if ?b = STX then 1024 else 128) (t\<lparr>inp := ?i\<rparr>)
      = (Some (?num, ?inv, arrived, ?hi, ?lo), t\<lparr>inp := r\<rparr>)"
    using recv_frame_tx [of "t\<lparr>inp := ?i\<rparr>" arrived "length payload" ?num ?inv ?hi ?lo r] assms(1-3)
    by (auto simp del: TelnetEscape_simps TelnetEscape_append)
  moreover have "?b \<noteq> EOT" "?b \<noteq> CAN" "\<not> (?b \<noteq> SOH \<and> ?b \<noteq> STX)" by simp_all
  ultimately show ?thesis
    unfolding recv_next_def
    by (subst recv_loop.simps) (simp only: prod.case option.case if_False recv_next_def)
qed

lemma recv_next_good:
  assumes "pushback t = None" "length payload \<in> {128, 1024}" "length out + length payload \<le> max_bytes"
    and "inp t = map Byte (TelnetEscape (tx_frame expect payload payload)) @ r"
  shows "recv_next max_bytes expect out t
       = recv_next max_bytes (expect + 1) (out @ payload) (SendByte ACK (t\<lparr>inp := r\<rparr>))"
  using recv_next_frame [OF assms(1) refl assms(2,4)] assms(3)
  by (simp add: recv_store_def of_char_unat crc_split)

lemma recv_next_repeat:
  assumes "pushback t = None" "length arrived = length payload" "length payload \<in> {128, 1024}"
    and "inp t = map Byte (TelnetEscape (tx_frame (expect - 1) payload arrived)) @ r"
  shows "recv_next max_bytes expect out t
       = recv_next max_bytes expect out (SendByte ACK (t\<lparr>inp := r\<rparr>))"
  using recv_next_frame [OF assms] by (simp add: recv_store_def of_char_unat)

lemma recv_next_damaged:
  assumes "pushback t = None" "length arrived = length payload" "length payload \<in> {128, 1024}"
    and "inp t = map Byte (TelnetEscape (tx_frame expect payload arrived)) @ Gap # r"
    and "Crc16 arrived \<noteq> Crc16 payload"
  shows "recv_next max_bytes expect out t
       = recv_next max_bytes expect out (SendByte NAK (t\<lparr>pushback := None, pending_cr := False, inp := r\<rparr>))"
proof -
  have "DrainInput 200 (t\<lparr>inp := Gap # r\<rparr>) = t\<lparr>pushback := None, pending_cr := False, inp := r\<rparr>"
    using DrainInput_gap [of "t\<lparr>inp := Gap # r\<rparr>"] by simp
  then show ?thesis
    using recv_next_frame [OF assms(1-4)] assms(5)
    by (simp add: recv_store_def of_char_unat crc_split)
qed

lemma recv_next_eot:
  assumes "pushback t = None" "inp t = Byte EOT # r"
  shows "recv_next max_bytes expect out t = ((True, strip_sub out), SendByte ACK (t\<lparr>inp := r\<rparr>))"
  using ReadRawByte_escape [of t EOT "[]" r kByteTimeoutMs] assms
  by (simp add: recv_next_def recv_loop.simps)

section \<open>A transfer over a bad line\<close>

text \<open>One block as it goes over the line: the damaged copies, each followed by a silence in which the
  receiver drains its input and answers NAK, then the copy that gets through, then the copies resent
  because an acknowledgement was lost (what these contain does not matter).\<close>

record passage =
  damaged :: "string list"
  intact :: string
  resent :: "string list"

definition passage_ok :: "passage \<Rightarrow> bool" where
  "passage_ok p \<longleftrightarrow> length (intact p) \<in> {128, 1024}
     \<and> list_all (\<lambda>a. length a = length (intact p) \<and> Crc16 a \<noteq> Crc16 (intact p)) (damaged p)
     \<and> list_all (\<lambda>a. length a = length (intact p)) (resent p)"

definition passage_events :: "8 word \<Rightarrow> passage \<Rightarrow> ev list" where
  "passage_events block p =
     concat (map (\<lambda>a. map Byte (TelnetEscape (tx_frame block (intact p) a)) @ [Gap]) (damaged p))
     @ map Byte (TelnetEscape (mk_frame block (intact p)))
     @ concat (map (\<lambda>a. map Byte (TelnetEscape (tx_frame block (intact p) a))) (resent p))"

fun line_events :: "8 word \<Rightarrow> passage list \<Rightarrow> ev list" where
  "line_events block [] = [Byte EOT]"
| "line_events block (p # ps) = passage_events block p @ line_events (block + 1) ps"

definition passage_answers :: "passage \<Rightarrow> string" where
  "passage_answers p = replicate (length (damaged p)) NAK @ replicate (Suc (length (resent p))) ACK"

lemma recv_damaged:
  assumes "pushback t = None" "length payload \<in> {128, 1024}"
    and "list_all (\<lambda>a. length a = length payload \<and> Crc16 a \<noteq> Crc16 payload) as"
    and "inp t = concat (map (\<lambda>a. map Byte (TelnetEscape (tx_frame expect payload a)) @ [Gap]) as) @ r"
  shows "\<exists>t1. recv_next max_bytes expect out t = recv_next max_bytes expect out t1
    \<and> inp t1 = r \<and> pushback t1 = None \<and> ssh t1 = ssh t \<and> sent t1 = sent t @ replicate (length as) NAK"
  using assms
proof (induction as arbitrary: t)
  case (Cons a as)
  let ?r = "concat (map (\<lambda>a. map Byte (TelnetEscape (tx_frame expect payload a)) @ [Gap]) as) @ r"
  let ?t = "SendByte NAK (t\<lparr>pushback := None, pending_cr := False, inp := ?r\<rparr>)"
  have "recv_next max_bytes expect out t = recv_next max_bytes expect out ?t"
    by (rule recv_next_damaged [where payload = payload and arrived = a]) (use Cons.prems in simp_all)
  with Cons.IH [of ?t] Cons.prems show ?case by auto
qed auto

lemma recv_resent:
  assumes "pushback t = None" "length payload \<in> {128, 1024}"
    and "list_all (\<lambda>a. length a = length payload) as"
    and "inp t = concat (map (\<lambda>a. map Byte (TelnetEscape (tx_frame block payload a))) as) @ r"
  shows "\<exists>t1. recv_next max_bytes (block + 1) out t = recv_next max_bytes (block + 1) out t1
    \<and> inp t1 = r \<and> pushback t1 = None \<and> ssh t1 = ssh t \<and> sent t1 = sent t @ replicate (length as) ACK"
  using assms
proof (induction as arbitrary: t)
  case (Cons a as)
  let ?r = "concat (map (\<lambda>a. map Byte (TelnetEscape (tx_frame block payload a))) as) @ r"
  let ?t = "SendByte ACK (t\<lparr>inp := ?r\<rparr>)"
  have "recv_next max_bytes (block + 1) out t = recv_next max_bytes (block + 1) out ?t"
    by (rule recv_next_repeat [where payload = payload and arrived = a]) (use Cons.prems in simp_all)
  with Cons.IH [of ?t] Cons.prems show ?case by auto
qed auto

lemma recv_passage:
  assumes "pushback t = None" "passage_ok p" "length out + length (intact p) \<le> max_bytes"
    and "inp t = passage_events expect p @ r"
  shows "\<exists>t1. recv_next max_bytes expect out t = recv_next max_bytes (expect + 1) (out @ intact p) t1
    \<and> inp t1 = r \<and> pushback t1 = None \<and> ssh t1 = ssh t \<and> sent t1 = sent t @ passage_answers p"
proof -
  let ?r2 = "concat (map (\<lambda>a. map Byte (TelnetEscape (tx_frame expect (intact p) a))) (resent p)) @ r"
  let ?r1 = "map Byte (TelnetEscape (mk_frame expect (intact p))) @ ?r2"
  have ok: "length (intact p) \<in> {128, 1024}"
      "list_all (\<lambda>a. length a = length (intact p) \<and> Crc16 a \<noteq> Crc16 (intact p)) (damaged p)"
      "list_all (\<lambda>a. length a = length (intact p)) (resent p)"
    using assms(2) unfolding passage_ok_def by blast+
  obtain t1 where t1: "recv_next max_bytes expect out t = recv_next max_bytes expect out t1"
      "inp t1 = ?r1" "pushback t1 = None" "ssh t1 = ssh t"
      "sent t1 = sent t @ replicate (length (damaged p)) NAK"
    using recv_damaged [OF assms(1) ok(1,2), of expect ?r1] assms(4) by (auto simp: passage_events_def)
  let ?t2 = "SendByte ACK (t1\<lparr>inp := ?r2\<rparr>)"
  have t2: "recv_next max_bytes expect out t1 = recv_next max_bytes (expect + 1) (out @ intact p) ?t2"
    by (rule recv_next_good) (use t1 ok assms(3) in \<open>simp_all add: mk_frame_tx\<close>)
  obtain t3 where "recv_next max_bytes (expect + 1) (out @ intact p) ?t2
        = recv_next max_bytes (expect + 1) (out @ intact p) t3"
      "inp t3 = r" "pushback t3 = None" "ssh t3 = ssh t1" "sent t3 = sent ?t2 @ replicate (length (resent p)) ACK"
    using recv_resent [of ?t2 "intact p" "resent p" expect r] ok t1(3) by auto
  with t1 t2 show ?thesis by (auto simp: passage_answers_def)
qed

lemma recv_line:
  assumes "pushback t = None" "list_all passage_ok ps"
    and "length out + length (concat (map intact ps)) \<le> max_bytes" "inp t = line_events expect ps"
  shows "fst (recv_next max_bytes expect out t) = (True, strip_sub (out @ concat (map intact ps)))
    \<and> sent (snd (recv_next max_bytes expect out t)) = sent t @ concat (map passage_answers ps) @ [ACK]"
  using assms
proof (induction ps arbitrary: expect out t)
  case Nil
  then show ?case using recv_next_eot [of t "[]"] by simp
next
  case (Cons p ps)
  obtain t1 where "recv_next max_bytes expect out t = recv_next max_bytes (expect + 1) (out @ intact p) t1"
      "inp t1 = line_events (expect + 1) ps" "pushback t1 = None" "sent t1 = sent t @ passage_answers p"
    using recv_passage [of t p out max_bytes expect "line_events (expect + 1) ps"] Cons.prems by auto
  with Cons.IH [of t1 "out @ intact p" "expect + 1"] Cons.prems show ?case by simp
qed

lemma Receive_next:
  assumes "pushback t = None" "inp t = Byte b # r" "b \<in> {SOH, STX, EOT}" "0 < start_timeout_ms"
  shows "Receive t max_bytes start_timeout_ms = recv_next max_bytes 1 [] (SendByte (CHR ''C'') t)"
proof -
  let ?t = "SendByte (CHR ''C'') t"
  have "ReadRawByte tmo ?t = (Some b, ?t\<lparr>inp := r\<rparr>)" for tmo
    using ReadRawByte_escape [of ?t b "[]" r tmo] assms(1-3) by auto
  with assms(3,4) show ?thesis
    by (auto simp: Receive_def recv_start.simps [of start_timeout_ms 0] recv_next_def)
qed

lemma line_events_header: "\<exists>b r. line_events block ps = Byte b # r \<and> b \<in> {SOH, STX, EOT}"
proof (cases ps)
  case (Cons p ps')
  then show ?thesis
    by (cases "damaged p") (simp_all add: passage_events_def mk_frame_tx tx_frame_def)
qed simp

lemma Receive_line:
  assumes "pushback t = None" "list_all passage_ok ps" "length (concat (map intact ps)) \<le> max_bytes"
    and "inp t = line_events 1 ps" "0 < start_timeout_ms"
  shows "fst (Receive t max_bytes start_timeout_ms) = (True, strip_sub (concat (map intact ps)))
    \<and> sent (snd (Receive t max_bytes start_timeout_ms))
        = sent t @ ''C'' @ concat (map passage_answers ps) @ [ACK]"
proof -
  obtain b r where "inp t = Byte b # r" "b \<in> {SOH, STX, EOT}"
    using line_events_header [of 1 ps] assms(4) by auto
  then have "Receive t max_bytes start_timeout_ms = recv_next max_bytes 1 [] (SendByte (CHR ''C'') t)"
    using Receive_next [OF assms(1) _ _ assms(5)] by blast
  then show ?thesis
    using recv_line [of "SendByte (CHR ''C'') t" ps "[]" max_bytes 1] assms by simp
qed

section \<open>What the sender puts on the line\<close>

function blocks :: "string \<Rightarrow> string list" where
  "blocks data = (if data = [] then [] else block_payload data # blocks (drop (block_size data) data))"
  by pat_completeness auto
termination
  by (relation "measure length") (auto simp: block_size_def)

declare blocks.simps [simp del]

fun frames :: "8 word \<Rightarrow> string list \<Rightarrow> string" where
  "frames block [] = [EOT]"
| "frames block (p # ps) = mk_frame block p @ frames (block + 1) ps"

lemma block_payload_length: "length (block_payload data) = block_size data"
  by (simp add: block_payload_def Let_def)

lemma blocks_sizes: "p \<in> set (blocks data) \<Longrightarrow> length p \<in> {128, 1024}"
  by (induction data rule: blocks.induct)
    (subst (asm) (2) blocks.simps, auto simp: block_payload_length block_size_def split: if_splits)

lemma ReadRawByte_byte:
  "pushback t = None \<Longrightarrow> inp t = Byte b # r \<Longrightarrow> b \<noteq> IAC \<Longrightarrow> ReadRawByte tmo t = (Some b, t\<lparr>inp := r\<rparr>)"
  using ReadRawByte_escape [of t b "[]" r tmo] by simp

lemma WriteRaw_simps [simp]:
  "inp (WriteRaw bs t) = inp t" "pushback (WriteRaw bs t) = pushback t" "ssh (WriteRaw bs t) = ssh t"
  "\<not> ssh t \<Longrightarrow> sent (WriteRaw bs t) = sent t @ TelnetEscape bs"
  by (simp_all add: WriteRaw_def put_def)

lemma send_retry_acked:
  assumes "pushback t = None" "inp t = Byte ACK # r"
  shows "send_retry kMaxRetries frame t = (Some True, (WriteRaw frame t)\<lparr>inp := r\<rparr>)"
proof -
  have "ReadRawByte kByteTimeoutMs (WriteRaw frame t) = (Some ACK, (WriteRaw frame t)\<lparr>inp := r\<rparr>)"
    by (rule ReadRawByte_byte) (use assms in simp_all)
  then have "send_retry (Suc n) frame t = (Some True, (WriteRaw frame t)\<lparr>inp := r\<rparr>)" for n
    by simp
  from this [of 9] show ?thesis by (simp add: kMaxRetries_def del: send_retry.simps)
qed

lemma send_eot_acked:
  assumes "pushback t = None" "inp t = Byte ACK # r"
  shows "send_eot kMaxRetries t = (True, (SendByte EOT t)\<lparr>inp := r\<rparr>)"
proof -
  have "ReadRawByte kByteTimeoutMs (SendByte EOT t) = (Some ACK, (SendByte EOT t)\<lparr>inp := r\<rparr>)"
    by (rule ReadRawByte_byte) (use assms in simp_all)
  then have "send_eot (Suc n) t = (True, (SendByte EOT t)\<lparr>inp := r\<rparr>)" for n
    by simp
  from this [of 9] show ?thesis by (simp add: kMaxRetries_def del: send_eot.simps)
qed

lemma send_blocks_acked:
  assumes "pushback t = None" "\<not> ssh t" "inp t = map Byte (replicate (length (blocks data)) ACK) @ r"
  shows "\<exists>t1. send_blocks data block t = (True, t1) \<and> inp t1 = r \<and> pushback t1 = None \<and> \<not> ssh t1
    \<and> sent t1 @ [EOT] = sent t @ TelnetEscape (frames block (blocks data))"
  using assms
proof (induction data block t rule: send_blocks.induct)
  case (1 data block t)
  show ?case
  proof (cases "data = []")
    case True
    with 1 show ?thesis by (simp add: send_blocks.simps blocks.simps)
  next
    case False
    let ?rest = "blocks (drop (block_size data) data)"
    let ?f = "mk_frame block (block_payload data)"
    let ?r = "map Byte (replicate (length ?rest) ACK) @ r"
    have b: "blocks data = block_payload data # ?rest"
      using False by (subst blocks.simps) simp
    have retry: "send_retry kMaxRetries ?f t = (Some True, (WriteRaw ?f t)\<lparr>inp := ?r\<rparr>)"
      by (rule send_retry_acked) (use 1 b in simp_all)
    have "\<exists>t1. send_blocks (drop (block_size data) data) (block + 1) ((WriteRaw ?f t)\<lparr>inp := ?r\<rparr>) = (True, t1)
      \<and> inp t1 = r \<and> pushback t1 = None \<and> \<not> ssh t1
      \<and> sent t1 @ [EOT] = sent (WriteRaw ?f t) @ TelnetEscape (frames (block + 1) ?rest)"
      using "1.IH" [OF False retry [symmetric] refl refl] 1 by simp
    with False b retry 1 show ?thesis
      by (simp add: send_blocks.simps [of data])
  qed
qed

lemma blocks_concat: "\<exists>k \<le> 127. concat (blocks data) = data @ replicate k SUB"
proof (induction data rule: blocks.induct)
  case (1 data)
  show ?case
  proof (cases "length data < 128")
    case True
    then have d: "block_size data = 128" "drop 128 data = []" by (simp_all add: block_size_def)
    show ?thesis
    proof (cases data)
      case (Cons c cs)
      then have "data \<noteq> []" by simp
      then have "blocks data = [block_payload data]"
        using d by (simp add: blocks.simps [of data] blocks.simps [of "[]"])
      with d True have "concat (blocks data) = data @ replicate (128 - length data) SUB"
        by (simp add: block_payload_def)
      moreover have "128 - length data \<le> 127" using Cons by simp
      ultimately show ?thesis by blast
    qed (simp add: blocks.simps)
  next
    case False
    then have "data \<noteq> []" by auto
    moreover have "block_payload data = take (block_size data) data"
      using False by (simp add: block_payload_def block_size_def)
    ultimately show ?thesis
      using "1.IH" by (subst blocks.simps) auto
  qed
qed

lemma strip_sub_pad [simp]: "strip_sub (data @ replicate k SUB) = strip_sub data"
  by (induction k) (simp_all add: strip_sub_def replicate_append_same)

definition clean_passage :: "string \<Rightarrow> passage" where
  "clean_passage p = \<lparr>damaged = [], intact = p, resent = []\<rparr>"

lemma line_events_clean: "line_events block (map clean_passage ps) = map Byte (TelnetEscape (frames block ps))"
  by (induction ps arbitrary: block) (simp_all add: clean_passage_def passage_events_def)

lemma passage_answers_clean: "concat (map passage_answers (map clean_passage ps)) = replicate (length ps) ACK"
  by (induction ps) (simp_all add: clean_passage_def passage_answers_def)

lemma Send_acked:
  assumes "s = new_session (map Byte (''C'' @ replicate (Suc (length (blocks data))) ACK))"
  shows "\<exists>t. Send s data start_timeout_ms = (True, t) \<and> sent t = TelnetEscape (frames 1 (blocks data))"
proof -
  let ?acks = "map Byte (replicate (length (blocks data)) ACK) @ [Byte ACK]"
  have "ReadRawByte tmo s = (Some (CHR ''C''), s\<lparr>inp := ?acks\<rparr>)" for tmo
    by (rule ReadRawByte_byte) (simp_all add: assms new_session_def replicate_append_same)
  then have "send_start (Suc n) start_timeout_ms s = (True, s\<lparr>inp := ?acks\<rparr>)" for n by simp
  from this [of 5] have st: "send_start 6 start_timeout_ms s = (True, s\<lparr>inp := ?acks\<rparr>)"
    by (simp del: send_start.simps)
  obtain t1 where t1: "send_blocks data 1 (s\<lparr>inp := ?acks\<rparr>) = (True, t1)" "inp t1 = [Byte ACK]"
      "pushback t1 = None" "sent t1 @ [EOT] = TelnetEscape (frames 1 (blocks data))"
    using send_blocks_acked [of "s\<lparr>inp := ?acks\<rparr>" data "[Byte ACK]" 1] by (auto simp: assms new_session_def)
  then show ?thesis
    using st send_eot_acked [OF t1(3), of "[]"] by (simp add: Send_def)
qed

section \<open>Transfers\<close>

text \<open>C16. A transfer between two of these ends is a conversation that fits together: when the receiver's
  answers (one \<open>C\<close>, an ACK per block and one for the end) reach \<open>Send\<close>, it reports success, and when the
  bytes it put on the wire reach \<open>Receive\<close>, that reports success with the data, less trailing 0x1A
  bytes, and gives exactly those answers. Telnet escaping of 0xFF included, for every content and
  length that fits the limit (block numbers wrap at 256).\<close>

theorem Xmodem_transfer:
  assumes "length data + 127 \<le> max_bytes" "0 < timeout"
    and "answers = ''C'' @ replicate (Suc (length (blocks data))) ACK"
    and "sender = Send (new_session (map Byte answers)) data start_timeout_ms"
    and "receiver = Receive (new_session (map Byte (sent (snd sender)))) max_bytes timeout"
  shows "fst sender \<and> fst receiver = (True, strip_sub data) \<and> sent (snd receiver) = answers"
proof -
  let ?ps = "map clean_passage (blocks data)"
  obtain t where t: "sender = (True, t)" "sent t = TelnetEscape (frames 1 (blocks data))"
    using Send_acked [OF refl] assms(3,4) by blast
  obtain k where k: "k \<le> 127" "concat (blocks data) = data @ replicate k SUB"
    using blocks_concat by blast
  have intact: "map intact ?ps = blocks data"
    by (simp add: clean_passage_def comp_def)
  have "list_all passage_ok ?ps"
    using blocks_sizes by (auto simp: list_all_iff passage_ok_def clean_passage_def)
  moreover have "length (concat (map intact ?ps)) \<le> max_bytes"
    unfolding intact using k assms(1) by simp
  moreover have "inp (new_session (map Byte (sent t))) = line_events 1 ?ps"
    unfolding line_events_clean t(2) by (simp add: new_session_def)
  ultimately have "fst receiver = (True, strip_sub (concat (map intact ?ps)))
      \<and> sent (snd receiver) = ''C'' @ concat (map passage_answers ?ps) @ [ACK]"
    using Receive_line [of "new_session (map Byte (sent t))" ?ps max_bytes timeout] assms(2,5) t(1)
    by (simp add: new_session_def)
  then show ?thesis
    unfolding intact passage_answers_clean k(2) assms(3) t(1)
    by (simp add: replicate_append_same)
qed

theorem Xmodem_transfer_witness:
  "fst (Receive (new_session (map Byte (sent (snd
     (Send (new_session (map Byte [CHR ''C'', ACK, ACK])) [IAC, CHR ''a''] 60000))))) 1000 60000)
   = (True, [IAC, CHR ''a''])"
proof -
  have one: "length (blocks [IAC, CHR ''a'']) = 1"
    by (simp add: blocks.simps [of "[IAC, CHR ''a'']"] blocks.simps [of "[]"] block_size_def)
  show ?thesis
    using Xmodem_transfer [of "[IAC, CHR ''a'']" 1000 60000 _ _ 60000, OF _ _ refl refl refl]
    by (simp add: one strip_sub_def)
qed

text \<open>A bad line does not change the file: whatever number of damaged copies precede a block
  (each with a checksum that does not match its content, each answered with NAK after a pause) and
  whatever copies are resent after it was stored, \<open>Receive\<close> stores every block once, in order, and
  returns the concatenation of the intact blocks less the padding.\<close>

theorem Receive_bad_line:
  assumes "pushback t = None" "inp t = line_events 1 ps" "list_all passage_ok ps"
    and "length (concat (map intact ps)) \<le> max_bytes" "0 < start_timeout_ms"
  shows "fst (Receive t max_bytes start_timeout_ms) = (True, strip_sub (concat (map intact ps)))
    \<and> sent (snd (Receive t max_bytes start_timeout_ms))
        = sent t @ ''C'' @ concat (map passage_answers ps) @ [ACK]"
  using Receive_line [OF assms(1,3,4,2,5)] .

theorem Receive_bad_line_witness:
  "fst (Receive (new_session (line_events 1
     [\<lparr>damaged = [[CHR ''b'', CHR ''a''] @ replicate 126 (CHR ''a'')],
       intact = [CHR ''a'', CHR ''a''] @ replicate 126 (CHR ''a''), resent = []\<rparr>])) 128 3000)
   = (True, [CHR ''a'', CHR ''a''] @ replicate 126 (CHR ''a''))"
proof -
  let ?a = "[CHR ''a'', CHR ''a''] @ replicate 126 (CHR ''a'')"
  let ?p = "\<lparr>damaged = [[CHR ''b'', CHR ''a''] @ replicate 126 (CHR ''a'')], intact = ?a, resent = []\<rparr>"
  have "Crc16 ([CHR ''b'', CHR ''a''] @ replicate 126 (CHR ''a'')) \<noteq> Crc16 ?a"
    using Crc16_burst [of "[]"] by force
  then have ok: "passage_ok ?p" by (simp add: passage_ok_def)
  have "strip_sub ?a = ?a" by (simp add: strip_sub_def)
  then show ?thesis
    using Receive_bad_line [of "new_session (line_events 1 [?p])" "[?p]" 128 3000] ok
    by (simp add: new_session_def)
qed

text \<open>The checksum catches every error confined to two adjacent bytes: two payloads that agree
  everywhere else have the same CRC only if they are equal.\<close>

theorem Crc16_detects_burst: "Crc16 (us @ [a, b] @ vs) = Crc16 (us @ [c, d] @ vs) \<longleftrightarrow> a = c \<and> b = d"
  using Crc16_burst by blast

lemma strip_sub_length: "length (strip_sub out) \<le> length out"
  using length_dropWhile_le [of "\<lambda>c. c = SUB" "rev out"] by (simp add: strip_sub_def)

lemma recv_store_length:
  "recv_store m e out f t = (Some (e1, out1), t1) \<Longrightarrow> length out \<le> m \<Longrightarrow> length out1 \<le> m"
  by (auto simp: recv_store_def Let_def split: prod.splits if_splits)

lemma recv_loop_length: "length out \<le> m \<Longrightarrow> length (snd (fst (recv_loop m b e out t))) \<le> m"
proof (induction m b e out t rule: recv_loop.induct)
  case (1 m b e out t)
  obtain r t1 where rn: "ReadRawByte kByteTimeoutMs (SendByte NAK (DrainInput 200 t)) = (r, t1)" by fastforce
  obtain f t2 where rf: "recv_frame (if b = STX then 1024 else 128) t = (f, t2)" by fastforce
  show ?case
  proof (cases "b = SOH \<or> b = STX")
    case block: True
    show ?thesis
    proof (cases f)
      case (Some frame)
      obtain st t3 where st: "recv_store m e out frame t2 = (st, t3)" by fastforce
      obtain r4 t4 where r4: "ReadRawByte kByteTimeoutMs t3 = (r4, t4)" by fastforce
      show ?thesis
      proof (cases st)
        case (Some eo)
        obtain e1 out1 where eo: "eo = (e1, out1)" by fastforce
        have len: "length out1 \<le> m"
          using recv_store_length st Some eo "1.prems" by blast
        have "length (snd (fst (recv_loop m b1 e1 out1 t4))) \<le> m" if "r4 = Some b1" for b1
          using "1.IH"(2) [OF _ _ _ rf [symmetric] \<open>f = Some frame\<close> st [symmetric] Some eo [symmetric] r4 [symmetric] that len]
            block by auto
        with block rf \<open>f = Some frame\<close> st Some eo r4 len show ?thesis
          by (subst recv_loop.simps) (auto split: option.splits)
      qed (use block rf Some st "1.prems" in \<open>subst recv_loop.simps, auto\<close>)
    qed (use block rf "1.prems" in \<open>subst recv_loop.simps, auto\<close>)
  next
    case other: False
    then show ?thesis
      using "1.prems" "1.IH"(1) [OF _ _ _ rn [symmetric]] rn le_trans [OF strip_sub_length [of out] "1.prems"]
      by (subst recv_loop.simps) (auto split: option.splits)
  qed
qed

text \<open>Whatever a peer sends, \<open>Receive\<close> never builds a file longer than \<open>max_bytes\<close>, successful or
  not.\<close>

theorem Receive_bounded: "length (snd (fst (Receive t max_bytes start_timeout_ms))) \<le> max_bytes"
  by (auto simp: Receive_def recv_loop_length split: prod.splits option.splits)

end
