(* ===== verification/QM_Psl.thy ===== *)
theory QM_Psl
  imports QM_Prelude
begin

text \<open>
  The Public Suffix List lookup, \<^verbatim>\<open>src/core/src/psl.cpp\<close>. The list itself
  (\<^verbatim>\<open>psl_data.cpp\<close>) is generated data: the chunks of rule text are an argument of every
  definition, and the theorems hold for every list.
\<close>

section \<open>The rule table\<close>

datatype kind = Normal | Wildcard | Exception

type_synonym rule_map = "string \<rightharpoonup> kind"

definition add_rule :: "string \<Rightarrow> rule_map \<Rightarrow> rule_map" where
  "add_rule line m =
     (let (k, start) = (if line ! 0 = CHR ''!'' then (Exception, 1)
                        else if length line > 2 \<and> line ! 0 = CHR ''*'' \<and> line ! 1 = CHR ''.'' then (Wildcard, 2)
                        else (Normal, 0));
          key = Lower (drop start line)
      in if m key = None \<or> k = Exception then m(key \<mapsto> k) else m)"

text \<open>One chunk: lines end at a line feed or at the end of the C string.\<close>

fun rules_chunk :: "string \<Rightarrow> string \<Rightarrow> rule_map \<Rightarrow> rule_map" where
  "rules_chunk line [] m = (if line \<noteq> [] then add_rule line m else m)"
| "rules_chunk line (c # p) m =
     (if c \<noteq> LF \<and> c \<noteq> CHR 0x00 then rules_chunk (line @ [c]) p m
      else let m1 = (if line \<noteq> [] then add_rule line m else m)
           in if c = CHR 0x00 then m1 else rules_chunk [] p m1)"

definition Rules :: "string list \<Rightarrow> rule_map" where
  "Rules chunks = fold (rules_chunk []) chunks Map.empty"

section \<open>Suffixes\<close>

definition Labels :: "string \<Rightarrow> string list" where
  "Labels domain = split_on (CHR ''.'') domain"

definition Join :: "string list \<Rightarrow> nat \<Rightarrow> string" where
  "Join labels from =
     foldl (\<lambda>out l. (if out \<noteq> [] then out @ ''.'' else out) @ l) [] (drop from labels)"

text \<open>The walk over the trailing label sequences, from the shortest (index \<open>i - 1\<close> first).\<close>

fun suffix_walk :: "rule_map \<Rightarrow> string list \<Rightarrow> nat \<Rightarrow> nat \<Rightarrow> nat" where
  "suffix_walk rules labels 0 best = (if best = 0 then 1 else best)"
| "suffix_walk rules labels (Suc i) best =
     (case rules (Join labels i) of
        None \<Rightarrow> suffix_walk rules labels i best
      | Some Exception \<Rightarrow> length labels - i - 1
      | Some Wildcard \<Rightarrow> suffix_walk rules labels i (max best (length labels - i + (if i > 0 then 1 else 0)))
      | Some Normal \<Rightarrow> suffix_walk rules labels i (max best (length labels - i)))"

definition SuffixLabels :: "rule_map \<Rightarrow> string list \<Rightarrow> nat" where
  "SuffixLabels rules labels = suffix_walk rules labels (length labels) 0"

definition strip_root :: "string \<Rightarrow> string" where
  "strip_root d = rev (dropWhile (\<lambda>c. c = CHR ''.'') (rev d))"

definition PublicSuffix :: "rule_map \<Rightarrow> string \<Rightarrow> string" where
  "PublicSuffix rules domain =
     (let d = strip_root (Lower domain)
      in if d = [] then []
         else let labels = Labels d; n = min (SuffixLabels rules labels) (length labels)
              in Join labels (length labels - n))"

definition RegistrableDomain :: "rule_map \<Rightarrow> string \<Rightarrow> string" where
  "RegistrableDomain rules domain =
     (let d = strip_root (Lower domain)
      in if d = [] then []
         else let labels = Labels d; n = min (SuffixLabels rules labels) (length labels)
              in if length labels \<le> n then [] else Join labels (length labels - n - 1))"

section \<open>Labels and their joins\<close>

lemma foldl_join:
  assumes "out \<noteq> []"
  shows "foldl (\<lambda>out l. (if out \<noteq> [] then out @ ''.'' else out) @ l) out ls
       = (if ls = [] then out else out @ CHR ''.'' # join_on (CHR ''.'') ls)"
  using assms
proof (induction ls arbitrary: out)
  case (Cons l ls)
  then show ?case by (simp add: join_on_Cons)
qed simp

lemma Join_join_on: "list_all (\<lambda>l. l \<noteq> []) labels \<Longrightarrow> Join labels k = join_on (CHR ''.'') (drop k labels)"
proof -
  assume "list_all (\<lambda>l. l \<noteq> []) labels"
  then have "list_all (\<lambda>l. l \<noteq> []) (drop k labels)"
    by (auto simp: list_all_iff dest: in_set_dropD)
  then show ?thesis
    unfolding Join_def by (cases "drop k labels") (simp_all add: foldl_join join_on_Cons)
qed

lemma Join_drop: "Join (drop m labels) k = Join labels (m + k)"
  by (simp add: Join_def add.commute)

text \<open>A name whose labels are all non-empty, as \<^verbatim>\<open>Labels\<close> cuts it.\<close>

definition proper :: "string list \<Rightarrow> bool" where
  "proper labels \<longleftrightarrow> labels \<noteq> [] \<and> list_all (\<lambda>l. l \<noteq> [] \<and> CHR ''.'' \<notin> set l) labels"

lemma Labels_Join:
  assumes "proper labels" "k < length labels"
  shows "Labels (Join labels k) = drop k labels"
proof -
  have "list_all (\<lambda>l. l \<noteq> []) labels" and dots: "list_all (\<lambda>l. CHR ''.'' \<notin> set l) (drop k labels)"
    using assms(1) by (auto simp: proper_def list_all_iff dest: in_set_dropD)
  then have "Join labels k = join_on (CHR ''.'') (drop k labels)"
    by (simp add: Join_join_on)
  moreover have "drop k labels \<noteq> []" using assms(2) by simp
  ultimately show ?thesis
    unfolding Labels_def using split_join dots by simp
qed

lemma join_on_last:
  "ls \<noteq> [] \<Longrightarrow> last ls \<noteq> [] \<Longrightarrow> join_on d ls \<noteq> [] \<and> last (join_on d ls) = last (last ls)"
  by (induction d ls rule: join_on.induct) auto

lemma set_join_on: "set (join_on d ls) \<subseteq> insert d (\<Union> (set ` set ls))"
  by (induction d ls rule: join_on.induct) auto

lemma strip_root_Join:
  assumes "proper labels" "k < length labels"
  shows "strip_root (Join labels k) = Join labels k \<and> Join labels k \<noteq> []"
proof -
  let ?ls = "drop k labels"
  have all: "l \<noteq> [] \<and> CHR ''.'' \<notin> set l" if "l \<in> set ?ls" for l
    using assms(1) that by (auto simp: proper_def list_all_iff dest: in_set_dropD)
  have ls: "?ls \<noteq> []" using assms(2) by simp
  then have lst: "last ?ls \<noteq> []" "CHR ''.'' \<notin> set (last ?ls)"
    using all [of "last ?ls"] last_in_set by blast+
  have J: "Join labels k = join_on (CHR ''.'') ?ls"
    using assms(1) by (intro Join_join_on) (auto simp: proper_def list_all_iff)
  have "Join labels k \<noteq> []" "last (Join labels k) \<noteq> CHR ''.''"
    using join_on_last [OF ls lst(1)] lst(2) last_in_set [OF lst(1)] unfolding J by auto
  then show ?thesis
    by (cases "Join labels k" rule: rev_cases) (simp_all add: strip_root_def)
qed

lemma set_split_on: "p \<in> set (split_on d s) \<Longrightarrow> set p \<subseteq> set s"
  by (induction s arbitrary: p) (fastforce split: list.splits if_splits)+

lemma strip_root_set: "set (strip_root d) \<subseteq> set d"
  unfolding strip_root_def by (metis set_dropWhileD set_rev subsetI)

lemma Lower_strip: "set s \<subseteq> insert (CHR ''.'') (set (Lower d)) \<Longrightarrow> Lower s = s"
  by (force simp: Lower_def tolower_def intro: map_idI)

lemma Lower_Join:
  assumes "proper labels" "labels = Labels (strip_root (Lower d))"
  shows "Lower (Join labels k) = Join labels k"
proof (rule Lower_strip)
  have "Join labels k = join_on (CHR ''.'') (drop k labels)"
    using assms(1) by (intro Join_join_on) (auto simp: proper_def list_all_iff)
  moreover have "set l \<subseteq> set (Lower d)" if "l \<in> set (drop k labels)" for l
    using that set_split_on strip_root_set unfolding assms(2) Labels_def by (metis in_set_dropD subset_trans)
  ultimately show "set (Join labels k) \<subseteq> insert (CHR ''.'') (set (Lower d))"
    using set_join_on [of "CHR ''.''" "drop k labels"] by auto
qed

section \<open>The walk\<close>

lemma rule_cases [case_names None Normal Wildcard Exception]:
  fixes r :: "kind option"
  obtains "r = None" | "r = Some Normal" | "r = Some Wildcard" | "r = Some Exception"
  by (metis kind.exhaust option.exhaust)

lemma walk_above:
  "i \<le> m \<Longrightarrow> m + n + 1 = length labels \<Longrightarrow> n < best \<Longrightarrow> n < suffix_walk rules labels i best"
proof (induction i arbitrary: best)
  case (Suc i)
  have IH: "n < suffix_walk rules labels i (max best b)" for b
    using Suc.IH [of "max best b"] Suc.prems by simp
  have "n < suffix_walk rules labels i best" "n < length labels - i - 1"
    using Suc.IH Suc.prems by simp_all
  with IH show ?case by (cases "rules (Join labels i)" rule: rule_cases) simp_all
qed simp

lemma walk_tail:
  assumes "i \<le> m" "m + n + 1 = length labels" "suffix_walk rules labels i best = n"
  shows "(if best = 0 then 1 else best) = n"
  using assms
proof (induction i arbitrary: best)
  case (Suc i)
  have no: "suffix_walk rules labels i (max best b) \<noteq> n" if "n < b" for b
    using walk_above [of i m n labels "max best b" rules] Suc.prems(1,2) that
    by (metis Suc_leD less_irrefl less_max_iff_disj)
  have big: "n < length labels - i - 1" using Suc.prems by simp
  then have "n < length labels - i" "n < length labels - i + (if i > 0 then 1 else 0)" by simp_all
  from no [OF this(1)] no [OF this(2)] big Suc.prems(3) have "rules (Join labels i) = None"
    by (cases "rules (Join labels i)" rule: rule_cases) simp_all
  with Suc show ?case by simp
qed simp

lemma walk_drop:
  assumes "m + n + 1 = length labels" "i \<le> n + 1" "suffix_walk rules labels (m + i) best = n"
  shows "suffix_walk rules (drop m labels) i best = n"
  using assms
proof (induction i arbitrary: best)
  case 0
  then show ?case using walk_tail [of m m n labels] by simp
next
  case (Suc i)
  have J: "Join (drop m labels) i = Join labels (m + i)"
    by (rule Join_drop)
  have len: "length (drop m labels) - i = length labels - (m + i)"
    using Suc.prems(1,2) by simp
  note walk = Suc.prems(3) [unfolded add_Suc_right suffix_walk.simps(2)]
  show ?case
  proof (cases "rules (Join labels (m + i)) = Some Wildcard \<and> i = 0 \<and> m > 0")
    case True
    moreover have "length labels - m = n + 1" using Suc.prems(1) by simp
    ultimately have "suffix_walk rules labels m (max best (n + 2)) = n"
      using walk by (elim conjE) simp
    moreover have "n < suffix_walk rules labels m (max best (n + 2))"
      by (rule walk_above [of m m]) (use Suc.prems in simp_all)
    ultimately show ?thesis by simp
  next
    case False
    have IH: "suffix_walk rules labels (m + i) b = n \<Longrightarrow> suffix_walk rules (drop m labels) i b = n" for b
      using Suc.IH Suc.prems by simp
    show ?thesis
      using walk False IH J len
      by (cases "rules (Join labels (m + i))" rule: rule_cases) (auto split: if_splits)
  qed
qed

text \<open>Cutting a name down to its registrable part does not change how many labels the public
  suffix has.\<close>

lemma SuffixLabels_drop:
  assumes "SuffixLabels rules labels = n" "n < length labels"
  shows "SuffixLabels rules (drop (length labels - n - 1) labels) = n"
proof -
  let ?m = "length labels - n - 1"
  have "?m + n + 1 = length labels" using assms(2) by simp
  moreover have "length (drop ?m labels) = n + 1" using assms(2) by simp
  ultimately show ?thesis
    using walk_drop [of ?m n labels "n + 1" rules 0] assms(1) unfolding SuffixLabels_def by simp
qed

section \<open>Registrable domains\<close>

text \<open>For every rule list, the registrable domain of a registrable domain is itself: on every name
  without empty labels \<open>RegistrableDomain\<close> is idempotent, so two names share it exactly when they
  share the organizational domain.\<close>

theorem RegistrableDomain_idem:
  assumes "list_all (\<lambda>l. l \<noteq> []) (Labels (strip_root (Lower d)))"
  shows "RegistrableDomain rules (RegistrableDomain rules d) = RegistrableDomain rules d"
proof (cases "RegistrableDomain rules d = []")
  case False
  let ?labels = "Labels (strip_root (Lower d))"
  let ?n = "SuffixLabels rules ?labels"
  let ?m = "length ?labels - ?n - 1"
  have n: "?n < length ?labels" and r: "RegistrableDomain rules d = Join ?labels ?m"
    using False by (auto simp: RegistrableDomain_def Let_def split: if_splits)
  have pr: "proper ?labels"
    using assms split_on_free by (auto simp: proper_def list_all_iff Labels_def)
  have m: "?m < length ?labels" using n by simp
  have "strip_root (Lower (Join ?labels ?m)) = Join ?labels ?m" "Join ?labels ?m \<noteq> []"
    using strip_root_Join [OF pr m] Lower_Join [OF pr refl] by simp_all
  moreover have "Labels (Join ?labels ?m) = drop ?m ?labels"
    by (rule Labels_Join [OF pr m])
  ultimately show ?thesis
    unfolding r using SuffixLabels_drop [OF refl n] n
    by (simp add: RegistrableDomain_def Let_def Join_drop)
qed (simp add: RegistrableDomain_def strip_root_def)

theorem RegistrableDomain_idem_witness:
  "RegistrableDomain (Rules [''co.uk'']) (RegistrableDomain (Rules [''co.uk'']) ''www.Example.co.uk.'')
     = ''example.co.uk''"
proof -
  have "RegistrableDomain (Rules [''co.uk'']) ''www.Example.co.uk.'' = ''example.co.uk''"
    by code_simp
  moreover have "list_all (\<lambda>l. l \<noteq> []) (Labels (strip_root (Lower ''www.Example.co.uk.'')))"
    by code_simp
  ultimately show ?thesis
    using RegistrableDomain_idem [of "''www.Example.co.uk.''" "Rules [''co.uk'']"] by simp
qed

section \<open>The algorithm of the list\<close>

text \<open>The number of labels a matching rule covers, for the trailing sequence at index \<open>i\<close>.\<close>

definition covers :: "rule_map \<Rightarrow> string list \<Rightarrow> nat \<Rightarrow> nat set" where
  "covers rules labels i =
     (if rules (Join labels i) = Some Normal then {length labels - i}
      else if rules (Join labels i) = Some Wildcard then {length labels - i + (if i > 0 then 1 else 0)}
      else {})"

lemma finite_covers [simp]: "finite (\<Union>j<i. covers rules labels j)"
  by (auto simp: covers_def)

lemma Max_insert_max:
  "finite S \<Longrightarrow> 1 \<le> c \<Longrightarrow> Max (insert (max 1 (max b c)) S) = Max (insert (max 1 b) (insert c S))"
  for b c :: nat
  by (cases "S = {}") (auto simp: max_def)

lemma walk_no_exception:
  assumes "i \<le> length labels" "\<And>j. j < i \<Longrightarrow> rules (Join labels j) \<noteq> Some Exception"
  shows "suffix_walk rules labels i best = Max (insert (max 1 best) (\<Union>j<i. covers rules labels j))"
  using assms
proof (induction i arbitrary: best)
  case (Suc i)
  have IH: "suffix_walk rules labels i b = Max (insert (max 1 b) (\<Union>j<i. covers rules labels j))" for b
    using Suc.IH Suc.prems by simp
  have "Max (insert (max 1 (max best c)) (\<Union>j<i. covers rules labels j))
      = Max (insert (max 1 best) (insert c (\<Union>j<i. covers rules labels j)))" if "1 \<le> c" for c
    by (rule Max_insert_max) (use that in simp_all)
  with IH Suc.prems show ?case
    by (cases "rules (Join labels i)" rule: rule_cases)
      (simp_all add: lessThan_Suc covers_def Un_commute)
qed simp

lemma walk_exception:
  assumes "j < i" "rules (Join labels j) = Some Exception"
    and "\<And>k. j < k \<Longrightarrow> k < i \<Longrightarrow> rules (Join labels k) \<noteq> Some Exception"
  shows "suffix_walk rules labels i best = length labels - j - 1"
  using assms
proof (induction i arbitrary: best)
  case (Suc i)
  show ?case
  proof (cases "i = j")
    case False
    then have IH: "suffix_walk rules labels i b = length labels - j - 1" for b
      using Suc.IH [of b] Suc.prems by simp
    with Suc.prems False show ?thesis
      by (cases "rules (Join labels i)" rule: rule_cases) auto
  qed (use Suc.prems in simp)
qed simp


end
