(* ===== verification/QM_Spf.thy ===== *)
theory QM_Spf
  imports QM_Prelude
begin

text \<open>
  Sender Policy Framework evaluation, \<^verbatim>\<open>src/core/src/spf.cpp\<close>. The resolver
  (\<^verbatim>\<open>dns.cpp\<close> over the system's \<^verbatim>\<open>res_query\<close>) and \<^verbatim>\<open>inet_pton\<close> are the fields of a
  record that every definition takes: the answers of the network during one check. Nesting of
  \<^verbatim>\<open>include\<close> and \<^verbatim>\<open>redirect\<close> is counted down from \<^verbatim>\<open>kMaxDepth + 1\<close> instead of up from 0, so
  the evaluation is structurally recursive and total.
\<close>

section \<open>The network\<close>

datatype dns_status = DnsOk | NoData | NxDomain | TempFail

record resolver =
  pton4 :: "string \<Rightarrow> 8 word list option"
  pton6 :: "string \<Rightarrow> 8 word list option"
  LookupTXT :: "string \<Rightarrow> dns_status \<times> string list"
  LookupA :: "string \<Rightarrow> dns_status \<times> string list"
  LookupAAAA :: "string \<Rightarrow> dns_status \<times> string list"
  LookupMXRecords :: "string \<Rightarrow> dns_status \<times> (int \<times> string) list"
  LookupPTR :: "string \<Rightarrow> dns_status \<times> string list"

text \<open>What \<^verbatim>\<open>inet_pton\<close> promises: 4 bytes for an IPv4 address, 16 for an IPv6 address.\<close>

definition pton_ok :: "resolver \<Rightarrow> bool" where
  "pton_ok env \<longleftrightarrow> (\<forall>s b. pton4 env s = Some b \<longrightarrow> length b = 4) \<and> (\<forall>s b. pton6 env s = Some b \<longrightarrow> length b = 16)"

section \<open>Strings and addresses\<close>

definition IEquals :: "string \<Rightarrow> string \<Rightarrow> bool" where
  "IEquals a b = (length a = length b \<and> Lower a = Lower b)"

definition StartsWithI :: "string \<Rightarrow> string \<Rightarrow> bool" where
  "StartsWithI s pre = (length s \<ge> length pre \<and> IEquals (take (length pre) s) pre)"

definition DomainOf :: "string \<Rightarrow> string" where
  "DomainOf addr = (case find_last (CHR ''@'') addr of None \<Rightarrow> [] | Some k \<Rightarrow> drop (k + 1) addr)"

definition LocalOf :: "string \<Rightarrow> string" where
  "LocalOf addr = (case find_last (CHR ''@'') addr of None \<Rightarrow> addr | Some k \<Rightarrow> take k addr)"

record ip =
  valid :: bool
  v6 :: bool
  ip_bytes :: "8 word list"

definition ParseIp :: "resolver \<Rightarrow> string \<Rightarrow> ip" where
  "ParseIp env s =
     (case pton4 env (c_str s) of
        Some b \<Rightarrow> \<lparr>valid = True, v6 = False, ip_bytes = b @ replicate 12 0\<rparr>
      | None \<Rightarrow>
          (case pton6 env (c_str s) of
             Some b \<Rightarrow> \<lparr>valid = True, v6 = True, ip_bytes = b\<rparr>
           | None \<Rightarrow> \<lparr>valid = False, v6 = False, ip_bytes = replicate 16 0\<rparr>))"

definition prefix_mask :: "nat \<Rightarrow> 8 word" where
  "prefix_mask rest = push_bit (8 - rest) 0xff"

definition PrefixMatch :: "ip \<Rightarrow> ip \<Rightarrow> int \<Rightarrow> bool" where
  "PrefixMatch a b prefix_bits =
     (if \<not> valid a \<or> \<not> valid b \<or> v6 a \<noteq> v6 b then False
      else let total_bits = (if v6 a then 128 else 32);
               bits = nat (if prefix_bits < 0 \<or> prefix_bits > total_bits then total_bits else prefix_bits);
               whole = bits div 8; rest = bits mod 8
           in if whole > 0 \<and> take whole (ip_bytes a) \<noteq> take whole (ip_bytes b) then False
              else if rest = 0 then True
              else (ip_bytes a ! whole) AND prefix_mask rest = (ip_bytes b ! whole) AND prefix_mask rest)"

definition hex_digit :: "nat \<Rightarrow> char" where
  "hex_digit n = ''0123456789abcdef'' ! n"

definition MacroIp :: "ip \<Rightarrow> string" where
  "MacroIp a =
     (if \<not> valid a then []
      else if \<not> v6 a then join_on (CHR ''.'') (map (\<lambda>w. to_string (int (unat w))) (take 4 (ip_bytes a)))
      else join_on (CHR ''.'')
             (map (\<lambda>w. [hex_digit (unat (drop_bit 4 w AND 0x0f)), CHR ''.'', hex_digit (unat (w AND 0x0f))])
                (take 16 (ip_bytes a))))"

section \<open>Macros\<close>

record macro_ctx =
  m_ip :: ip
  m_sender :: string
  m_domain :: string
  m_helo :: string
  m_client_ip_text :: string

fun split_by :: "(char \<Rightarrow> bool) \<Rightarrow> string \<Rightarrow> string \<Rightarrow> string list" where
  "split_by sep cur [] = [cur]"
| "split_by sep cur (c # cs) = (if sep c then cur # split_by sep [] cs else split_by sep (cur @ [c]) cs)"

definition Transform :: "string \<Rightarrow> int \<Rightarrow> bool \<Rightarrow> string \<Rightarrow> string" where
  "Transform value digits reverse delims =
     (let d = (if delims = [] then ''.'' else delims);
          parts = split_by (\<lambda>c. c \<in> set d) [] value;
          parts = (if reverse then rev parts else parts);
          parts = (if digits > 0 \<and> nat digits < length parts then drop (length parts - nat digits) parts else parts)
      in join_on (CHR ''.'') parts)"

definition url_hex :: "nat \<Rightarrow> char" where
  "url_hex n = ''0123456789ABCDEF'' ! n"

definition UrlEscape :: "string \<Rightarrow> string" where
  "UrlEscape s = concat (map (\<lambda>c.
     if isalnum c \<or> c \<in> set ''-._~'' then [c]
     else [CHR ''%'', url_hex (byte c div 16), url_hex (byte c mod 16)]) s)"

text \<open>The text between the braces of a macro: letter, digits, an optional \<open>r\<close>, delimiters. The digits
  are accumulated in a C int; wrap-around stands for its overflow.\<close>

definition macro_digits :: "string \<Rightarrow> int" where
  "macro_digits ds = foldl (\<lambda>n d. wrap32 (n * 10 + (int (byte d) - 48))) 0 ds"

definition macro_letter :: "macro_ctx \<Rightarrow> char \<Rightarrow> string" where
  "macro_letter ctx letter =
     (if letter = CHR ''s'' then m_sender ctx
      else if letter = CHR ''l'' then LocalOf (m_sender ctx)
      else if letter = CHR ''o'' then DomainOf (m_sender ctx)
      else if letter = CHR ''d'' then m_domain ctx
      else if letter = CHR ''i'' then MacroIp (m_ip ctx)
      else if letter = CHR ''h'' then m_helo ctx
      else if letter = CHR ''v'' then (if v6 (m_ip ctx) then ''ip6'' else ''in-addr'')
      else if letter = CHR ''c'' then m_client_ip_text ctx
      else if letter = CHR ''r'' then ''quackcit''
      else [])"

definition macro_body :: "macro_ctx \<Rightarrow> string \<Rightarrow> string" where
  "macro_body ctx body =
     (if body = [] then []
      else let ds = takeWhile isdigit (tl body);
               rest = dropWhile isdigit (tl body);
               reverse = (rest \<noteq> [] \<and> (hd rest = CHR ''r'' \<or> hd rest = CHR ''R''));
               delims = (if reverse then tl rest else rest);
               value = Transform (macro_letter ctx (tolower (hd body))) (macro_digits ds) reverse delims
           in if isupper (hd body) then UrlEscape value else value)"

fun ExpandMacros :: "macro_ctx \<Rightarrow> string \<Rightarrow> string" where
  "ExpandMacros ctx [] = []"
| "ExpandMacros ctx [c] = [c]"
| "ExpandMacros ctx (c # nxt # r) =
     (if c \<noteq> CHR ''%'' then c # ExpandMacros ctx (nxt # r)
      else if nxt = CHR ''%'' then CHR ''%'' # ExpandMacros ctx r
      else if nxt = CHR ''_'' then CHR '' '' # ExpandMacros ctx r
      else if nxt = CHR ''-'' then ''%20'' @ ExpandMacros ctx r
      else if nxt \<noteq> CHR ''{'' then CHR ''%'' # nxt # ExpandMacros ctx r
      else (case find_idx (CHR ''}'') r of
              None \<Rightarrow> ''%{'' @ ExpandMacros ctx r
            | Some k \<Rightarrow> macro_body ctx (take k r) @ ExpandMacros ctx (drop (Suc k) r)))"

section \<open>Budgets\<close>

datatype spf_result = SpfNone | SpfNeutral | SpfPass | SpfFail | SpfSoftFail | SpfTempError | SpfPermError

definition kMaxLookups :: nat where "kMaxLookups = 10"
definition kMaxVoidLookups :: nat where "kMaxVoidLookups = 2"
definition kMaxMxRecords :: nat where "kMaxMxRecords = 10"
definition kMaxPtrRecords :: nat where "kMaxPtrRecords = 10"
definition kMaxDepth :: nat where "kMaxDepth = 10"

text \<open>The budget of the code, and the number of DNS requests made so far, which no definition reads:
  it records the effect on the network.\<close>

record limits =
  lookups :: nat
  void_lookups :: nat
  exceeded :: bool
  queries :: nat

definition no_limits :: limits where
  "no_limits = \<lparr>lookups = 0, void_lookups = 0, exceeded = False, queries = 0\<rparr>"

definition ask :: "limits \<Rightarrow> limits" where
  "ask l = l\<lparr>queries := queries l + 1\<rparr>"

definition Charge :: "limits \<Rightarrow> bool \<times> limits" where
  "Charge l = (let l1 = l\<lparr>lookups := lookups l + 1\<rparr>
     in if lookups l1 > kMaxLookups then (False, l1\<lparr>exceeded := True\<rparr>) else (True, l1))"

definition Void :: "limits \<Rightarrow> limits" where
  "Void l = (let l1 = l\<lparr>void_lookups := void_lookups l + 1\<rparr>
     in if void_lookups l1 > kMaxVoidLookups then l1\<lparr>exceeded := True\<rparr> else l1)"

section \<open>Records\<close>

definition is_spf_record :: "string \<Rightarrow> bool" where
  "is_spf_record t = (StartsWithI t ''v=spf1'' \<and> \<not> (length t > 6 \<and> t ! 6 \<noteq> CHR '' '' \<and> t ! 6 \<noteq> TAB))"

definition FetchRecord :: "resolver \<Rightarrow> string \<Rightarrow> spf_result \<times> string" where
  "FetchRecord env domain =
     (case LookupTXT env domain of (st, txts) \<Rightarrow>
        if st = TempFail then (SpfTempError, [])
        else if st \<noteq> DnsOk then (SpfNone, [])
        else (case filter is_spf_record txts of
                [] \<Rightarrow> (SpfNone, [])
              | [r] \<Rightarrow> (SpfPass, r)
              | _ \<Rightarrow> (SpfPermError, [])))"

definition QualifierToResult :: "char \<Rightarrow> spf_result" where
  "QualifierToResult q =
     (if q = CHR ''-'' then SpfFail else if q = CHR ''~'' then SpfSoftFail
      else if q = CHR ''?'' then SpfNeutral else SpfPass)"

fun find_slashes :: "string \<Rightarrow> nat option" where
  "find_slashes (a # b # r) = (if a = CHR ''/'' \<and> b = CHR ''/'' then Some 0 else map_option Suc (find_slashes (b # r)))"
| "find_slashes _ = None"

text \<open>Name, \<^verbatim>\<open>cidr4\<close> and \<^verbatim>\<open>cidr6\<close>.\<close>

definition SplitCidr :: "string \<Rightarrow> string \<times> int \<times> int" where
  "SplitCidr s =
     (let (name, cidr6) = (case find_slashes s of
            None \<Rightarrow> (s, - 1)
          | Some k \<Rightarrow> (take k s, atoi (drop (k + 2) s)))
      in case find_idx (CHR ''/'') name of
           None \<Rightarrow> (name, - 1, cidr6)
         | Some k \<Rightarrow> (take k name, atoi (drop (k + 1) name), cidr6))"

text \<open>Hit, temporary failure, budget.\<close>

definition MatchHost :: "resolver \<Rightarrow> string \<Rightarrow> macro_ctx \<Rightarrow> int \<Rightarrow> limits \<Rightarrow> bool \<times> bool \<times> limits" where
  "MatchHost env name ctx cidr l =
     (case (if v6 (m_ip ctx) then LookupAAAA env name else LookupA env name) of (st, addrs) \<Rightarrow>
        if st = TempFail then (False, True, ask l)
        else if st \<noteq> DnsOk then (False, False, Void (ask l))
        else (list_ex (\<lambda>a. PrefixMatch (m_ip ctx) (ParseIp env a) cidr) addrs, False, ask l))"

text \<open>The loop over MX hosts: it stops at the first hit; a temporary failure is remembered.\<close>

fun match_mx :: "resolver \<Rightarrow> (int \<times> string) list \<Rightarrow> macro_ctx \<Rightarrow> int \<Rightarrow> bool \<Rightarrow> limits \<Rightarrow> bool \<times> bool \<times> limits" where
  "match_mx env [] ctx cidr temp l = (False, temp, l)"
| "match_mx env (h # hs) ctx cidr temp l =
     (case MatchHost env (snd h) ctx cidr l of (hit, t, l1) \<Rightarrow>
        if hit then (True, temp \<or> t, l1) else match_mx env hs ctx cidr (temp \<or> t) l1)"

definition under :: "string \<Rightarrow> string \<Rightarrow> bool" where
  "under candidate target =
     (let lc = Lower candidate; lt = Lower target
      in lc = lt \<or> (length lc > length lt \<and> drop (length lc - length lt - 1) lc = CHR ''.'' # lt))"

fun match_ptr :: "resolver \<Rightarrow> string list \<Rightarrow> macro_ctx \<Rightarrow> string \<Rightarrow> limits \<Rightarrow> bool \<times> limits" where
  "match_ptr env [] ctx target l = (False, l)"
| "match_ptr env (n # ns) ctx target l =
     (let candidate = (if n \<noteq> [] \<and> last n = CHR ''.'' then butlast n else n)
      in case MatchHost env candidate ctx (- 1) l of (hit, _, l1) \<Rightarrow>
           if hit \<and> under candidate target then (True, l1) else match_ptr env ns ctx target l1)"

section \<open>Terms\<close>

text \<open>A term without its qualifier is cut at the first colon before a slash, or at the first slash,
  which stays with the argument.\<close>

definition split_term :: "string \<Rightarrow> string \<times> string" where
  "split_term term =
     (case (find_idx (CHR '':'') term, find_idx (CHR ''/'') term) of
        (Some c, None) \<Rightarrow> (Lower (take c term), drop (c + 1) term)
      | (Some c, Some sl) \<Rightarrow>
          if c < sl then (Lower (take c term), drop (c + 1) term) else (Lower (take sl term), drop sl term)
      | (None, Some sl) \<Rightarrow> (Lower (take sl term), drop sl term)
      | (None, None) \<Rightarrow> (Lower term, []))"

definition split_qualifier :: "string \<Rightarrow> char \<times> string" where
  "split_qualifier raw = (if raw \<noteq> [] \<and> hd raw \<in> set ''+-~?'' then (hd raw, tl raw) else (CHR ''+'', raw))"

type_synonym verdict = "(spf_result \<times> string) option"

definition too_many :: "string \<Rightarrow> verdict" where
  "too_many domain = Some (SpfPermError, ''too many DNS lookups evaluating '' @ domain)"

definition too_many_void :: "string \<Rightarrow> verdict" where
  "too_many_void domain = Some (SpfPermError, ''too many void DNS lookups evaluating '' @ domain)"

definition client_matched :: "string \<Rightarrow> string \<Rightarrow> string" where
  "client_matched raw domain = ''client matched '' @ raw @ '' in '' @ domain"

definition eval_ip :: "resolver \<Rightarrow> string \<Rightarrow> macro_ctx \<Rightarrow> string \<Rightarrow> char \<Rightarrow> string \<Rightarrow> string \<Rightarrow> verdict" where
  "eval_ip env domain ctx raw q mech arg =
     (case SplitCidr arg of (name, c4, c6) \<Rightarrow>
        let target = ParseIp env name
        in if \<not> valid target then Some (SpfPermError, ''malformed '' @ mech @ '' term in '' @ domain)
           else if PrefixMatch (m_ip ctx) target c4 then Some (QualifierToResult q, client_matched raw domain)
           else None)"

definition eval_a_mx ::
  "resolver \<Rightarrow> string \<Rightarrow> macro_ctx \<Rightarrow> string \<Rightarrow> char \<Rightarrow> string \<Rightarrow> string \<Rightarrow> limits \<Rightarrow> verdict \<times> limits" where
  "eval_a_mx env domain ctx raw q mech arg l =
     (case Charge l of
        (False, l1) \<Rightarrow> (too_many domain, l1)
      | (True, l1) \<Rightarrow>
          (case SplitCidr (if arg = [] then [] else if hd arg = CHR ''/'' then domain @ arg else arg) of
             (name0, c4, c6) \<Rightarrow>
               let name = ExpandMacros ctx (if name0 = [] then domain else name0);
                   cidr = (if v6 (m_ip ctx) then c6 else c4);
                   (hit, temp, l2) =
                     (if mech = ''a'' then MatchHost env name ctx cidr l1
                      else case LookupMXRecords env name of (st, mx) \<Rightarrow>
                             if st = TempFail then (False, True, ask l1)
                             else if st \<noteq> DnsOk then (False, False, Void (ask l1))
                             else match_mx env (take kMaxMxRecords mx) ctx cidr False (ask l1))
               in if temp then (Some (SpfTempError, ''DNS temporary failure resolving '' @ name), l2)
                  else if exceeded l2 then (too_many_void domain, l2)
                  else if hit then (Some (QualifierToResult q, client_matched raw domain), l2)
                  else (None, l2)))"

definition eval_exists ::
  "resolver \<Rightarrow> string \<Rightarrow> macro_ctx \<Rightarrow> string \<Rightarrow> char \<Rightarrow> string \<Rightarrow> limits \<Rightarrow> verdict \<times> limits" where
  "eval_exists env domain ctx raw q arg l =
     (case Charge l of
        (False, l1) \<Rightarrow> (too_many domain, l1)
      | (True, l1) \<Rightarrow>
          (let name = ExpandMacros ctx arg
           in case LookupA env name of (st, addrs) \<Rightarrow>
                if st = TempFail then (Some (SpfTempError, ''DNS temporary failure for exists:'' @ name), ask l1)
                else if st = DnsOk \<and> addrs \<noteq> [] then (Some (QualifierToResult q, client_matched raw domain), ask l1)
                else let l2 = Void (ask l1)
                     in if exceeded l2 then (too_many_void domain, l2) else (None, l2)))"

definition eval_ptr ::
  "resolver \<Rightarrow> string \<Rightarrow> macro_ctx \<Rightarrow> char \<Rightarrow> string \<Rightarrow> limits \<Rightarrow> verdict \<times> limits" where
  "eval_ptr env domain ctx q arg l =
     (case Charge l of
        (False, l1) \<Rightarrow> (too_many domain, l1)
      | (True, l1) \<Rightarrow>
          (let target = (if arg = [] then domain else ExpandMacros ctx arg)
           in case LookupPTR env (m_client_ip_text ctx) of (st, names) \<Rightarrow>
                if st = TempFail then (Some (SpfTempError, ''DNS temporary failure resolving PTR''), ask l1)
                else (case match_ptr env (take kMaxPtrRecords names) ctx target (ask l1) of (hit, l2) \<Rightarrow>
                        if hit then (Some (QualifierToResult q, ''client matched ptr in '' @ domain), l2)
                        else (None, l2))))"

section \<open>Evaluation\<close>

text \<open>What one evaluation gives: result, explanation, the record it matched, the budget left. The
  recursive calls of \<^verbatim>\<open>include\<close> and \<^verbatim>\<open>redirect\<close> go through \<open>sub\<close>, the evaluation one level deeper.\<close>

type_synonym evaluation = "spf_result \<times> string \<times> string \<times> limits"

definition eval_include ::
  "(string \<Rightarrow> macro_ctx \<Rightarrow> limits \<Rightarrow> evaluation) \<Rightarrow> string \<Rightarrow> macro_ctx \<Rightarrow> char \<Rightarrow> string \<Rightarrow> limits \<Rightarrow> verdict \<times> limits" where
  "eval_include sub domain ctx q arg l =
     (case Charge l of
        (False, l1) \<Rightarrow> (too_many domain, l1)
      | (True, l1) \<Rightarrow>
          (let target = ExpandMacros ctx arg
           in case sub target ctx l1 of (r, expl, _, l2) \<Rightarrow>
                if r = SpfPass then (Some (QualifierToResult q, ''client matched include:'' @ target), l2)
                else if r = SpfTempError then (Some (SpfTempError, expl), l2)
                else if r = SpfNone \<or> r = SpfPermError
                then (Some (SpfPermError, ''include:'' @ target @ '' is unusable ('' @ expl @ '')''), l2)
                else (None, l2)))"

definition eval_mech ::
  "(string \<Rightarrow> macro_ctx \<Rightarrow> limits \<Rightarrow> evaluation) \<Rightarrow> resolver \<Rightarrow> string \<Rightarrow> macro_ctx \<Rightarrow> string \<Rightarrow> char \<Rightarrow> string \<Rightarrow> string
     \<Rightarrow> limits \<Rightarrow> verdict \<times> limits" where
  "eval_mech sub env domain ctx raw q mech arg l =
     (if mech = ''all''
      then (Some (QualifierToResult q, ''matched 'all' in '' @ domain @ [CHR 0x27] @ ''s SPF record''), l)
      else if mech = ''ip4'' \<or> mech = ''ip6'' then (eval_ip env domain ctx raw q mech arg, l)
      else if mech = ''a'' \<or> mech = ''mx'' then eval_a_mx env domain ctx raw q mech arg l
      else if mech = ''exists'' then eval_exists env domain ctx raw q arg l
      else if mech = ''include'' then eval_include sub domain ctx q arg l
      else if mech = ''ptr'' then eval_ptr env domain ctx q arg l
      else if CHR ''='' \<notin> set raw
      then (Some (SpfPermError, ''unknown mechanism '' @ [CHR 0x27] @ mech @ [CHR 0x27] @ '' in '' @ domain), l)
      else (None, l))"

definition eval_term ::
  "(string \<Rightarrow> macro_ctx \<Rightarrow> limits \<Rightarrow> evaluation) \<Rightarrow> resolver \<Rightarrow> string \<Rightarrow> macro_ctx \<Rightarrow> string \<Rightarrow> limits \<Rightarrow> verdict \<times> limits" where
  "eval_term sub env domain ctx raw l =
     (case split_qualifier raw of (q, trm) \<Rightarrow>
        if trm = [] then (None, l)
        else case split_term trm of (mech, arg) \<Rightarrow> eval_mech sub env domain ctx raw q mech arg l)"

text \<open>The loop over the terms, with the value of the last \<^verbatim>\<open>redirect=\<close> modifier.\<close>

fun run_terms ::
  "(string \<Rightarrow> macro_ctx \<Rightarrow> limits \<Rightarrow> evaluation) \<Rightarrow> resolver \<Rightarrow> string \<Rightarrow> macro_ctx \<Rightarrow> string list \<Rightarrow> string \<Rightarrow> limits
     \<Rightarrow> verdict \<times> string \<times> limits" where
  "run_terms sub env domain ctx [] redirect l = (None, redirect, l)"
| "run_terms sub env domain ctx (raw # terms) redirect l =
     (if StartsWithI raw ''redirect='' then run_terms sub env domain ctx terms (ExpandMacros ctx (drop 9 raw)) l
      else if StartsWithI raw ''exp='' then run_terms sub env domain ctx terms redirect l
      else case eval_term sub env domain ctx raw l of
             (Some v, l1) \<Rightarrow> (Some v, redirect, l1)
           | (None, l1) \<Rightarrow> run_terms sub env domain ctx terms redirect l1)"

definition eval_redirect ::
  "(string \<Rightarrow> macro_ctx \<Rightarrow> limits \<Rightarrow> evaluation) \<Rightarrow> string \<Rightarrow> macro_ctx \<Rightarrow> string \<Rightarrow> string \<Rightarrow> limits \<Rightarrow> evaluation" where
  "eval_redirect sub domain ctx record redirect l =
     (case Charge l of
        (False, l1) \<Rightarrow> (SpfPermError, ''too many DNS lookups evaluating '' @ domain, record, l1)
      | (True, l1) \<Rightarrow>
          (case sub redirect ctx l1 of (r, expl, rec, l2) \<Rightarrow>
             if r = SpfNone then (SpfPermError, ''redirect='' @ redirect @ '' has no SPF record'', record, l2)
             else (r, expl, if rec \<noteq> [] then rec else record, l2)))"

definition spf_terms :: "string \<Rightarrow> string list" where
  "spf_terms record = filter (\<lambda>t. t \<noteq> []) (split_by (\<lambda>c. c = CHR '' '' \<or> c = TAB) [] record)"

definition eval_record ::
  "(string \<Rightarrow> macro_ctx \<Rightarrow> limits \<Rightarrow> evaluation) \<Rightarrow> resolver \<Rightarrow> string \<Rightarrow> macro_ctx \<Rightarrow> string \<Rightarrow> limits \<Rightarrow> evaluation" where
  "eval_record sub env domain ctx record l =
     (case run_terms sub env domain ctx (tl (spf_terms record)) [] l of
        (Some (r, expl), _, l1) \<Rightarrow> (r, expl, record, l1)
      | (None, redirect, l1) \<Rightarrow>
          if redirect \<noteq> [] then eval_redirect sub domain ctx record redirect l1
          else (SpfNeutral, ''no mechanism matched in '' @ domain @ [CHR 0x27] @ ''s SPF record'', record, l1))"

text \<open>\<open>Evaluate n\<close> is the evaluation at depth \<open>kMaxDepth + 1 - n\<close>. Every caller starts with an empty
  matched record.\<close>

fun Evaluate :: "nat \<Rightarrow> resolver \<Rightarrow> string \<Rightarrow> macro_ctx \<Rightarrow> limits \<Rightarrow> evaluation" where
  "Evaluate 0 env domain ctx l = (SpfPermError, ''include/redirect nesting too deep'', [], l)"
| "Evaluate (Suc n) env domain ctx l =
     (if domain = [] then (SpfNone, ''empty domain'', [], l)
      else case FetchRecord env domain of (fetch, record) \<Rightarrow>
        if fetch = SpfTempError then (SpfTempError, ''DNS temporary failure for '' @ domain, [], ask l)
        else if fetch = SpfPermError then (SpfPermError, ''multiple SPF records for '' @ domain, [], ask l)
        else if fetch = SpfNone then (SpfNone, ''no SPF record for '' @ domain, [], ask l)
        else eval_record (Evaluate n env) env domain (ctx\<lparr>m_domain := domain\<rparr>) record (ask l))"

record spf_eval =
  e_result :: spf_result
  e_domain :: string
  e_explanation :: string
  e_record :: string

definition identity_of :: "string \<Rightarrow> string \<Rightarrow> string" where
  "identity_of helo mail_from =
     (let identity = (if mail_from = [] \<or> mail_from = ''<>'' then ''postmaster@'' @ helo else mail_from)
      in if CHR ''@'' \<notin> set identity then ''postmaster@'' @ identity else identity)"

definition Check :: "resolver \<Rightarrow> string \<Rightarrow> string \<Rightarrow> string \<Rightarrow> spf_eval" where
  "Check env client_ip helo mail_from =
     (let a = ParseIp env client_ip; identity = identity_of helo mail_from; domain = DomainOf identity
      in if \<not> valid a
         then \<lparr>e_result = SpfNone, e_domain = [], e_explanation = ''no usable client IP address'', e_record = []\<rparr>
         else if domain = []
         then \<lparr>e_result = SpfNone, e_domain = [], e_explanation = ''no domain in the sender identity'', e_record = []\<rparr>
         else case Evaluate (kMaxDepth + 1) env domain
                     \<lparr>m_ip = a, m_sender = identity, m_domain = domain, m_helo = helo, m_client_ip_text = client_ip\<rparr>
                     no_limits of
                (r, expl, record, _) \<Rightarrow> \<lparr>e_result = r, e_domain = domain, e_explanation = expl, e_record = record\<rparr>)"

fun ResultName :: "spf_result \<Rightarrow> string" where
  "ResultName SpfNone = ''none''"
| "ResultName SpfNeutral = ''neutral''"
| "ResultName SpfPass = ''pass''"
| "ResultName SpfFail = ''fail''"
| "ResultName SpfSoftFail = ''softfail''"
| "ResultName SpfTempError = ''temperror''"
| "ResultName SpfPermError = ''permerror''"

definition ReceivedSpf :: "spf_eval \<Rightarrow> string \<Rightarrow> string \<Rightarrow> string \<Rightarrow> string \<Rightarrow> string" where
  "ReceivedSpf ev client_ip helo mail_from receiver =
     ResultName (e_result ev)
     @ (if e_explanation ev \<noteq> [] then '' ('' @ receiver @ '': '' @ e_explanation ev @ '')'' else [])
     @ '' client-ip='' @ client_ip @ '';''
     @ (if helo \<noteq> [] then '' helo='' @ helo @ '';'' else [])
     @ '' envelope-from=<'' @ mail_from @ ''>;''"

section \<open>The lookup budget\<close>

definition credit :: "limits \<Rightarrow> nat" where
  "credit l = 11 * min kMaxLookups (lookups l)"

text \<open>From \<open>l\<close> to \<open>l'\<close> at most \<open>k\<close> requests were made beyond eleven for each charged term, and a
  spent budget shows as a permanent error.\<close>

definition within :: "nat \<Rightarrow> limits \<Rightarrow> spf_result option \<Rightarrow> limits \<Rightarrow> bool" where
  "within k l r l' \<longleftrightarrow> lookups l \<le> lookups l' \<and> lookups l' \<le> kMaxLookups + 1
     \<and> queries l' + credit l \<le> queries l + k + credit l' \<and> (lookups l' > kMaxLookups \<longrightarrow> r = Some SpfPermError)"

lemma ask_simps [simp]:
  "lookups (ask l) = lookups l" "queries (ask l) = queries l + 1" "exceeded (ask l) = exceeded l"
  by (simp_all add: ask_def)

lemma Void_simps [simp]: "lookups (Void l) = lookups l" "queries (Void l) = queries l"
  by (simp_all add: Void_def Let_def)

lemma MatchHost_cost:
  "MatchHost env name ctx cidr l = (h, t, l1) \<Longrightarrow> lookups l1 = lookups l \<and> queries l1 = queries l + 1"
  by (auto simp: MatchHost_def split: prod.splits if_splits)

lemma match_mx_cost:
  "match_mx env hs ctx cidr temp l = (h, t, l1) \<Longrightarrow>
     lookups l1 = lookups l \<and> queries l1 \<le> queries l + length hs"
  by (induction env hs ctx cidr temp l rule: match_mx.induct)
    (fastforce split: prod.splits if_splits dest: MatchHost_cost)+

lemma match_ptr_cost:
  "match_ptr env ns ctx target l = (h, l1) \<Longrightarrow>
     lookups l1 = lookups l \<and> queries l1 \<le> queries l + length ns"
  by (induction env ns ctx target l rule: match_ptr.induct)
    (fastforce simp: Let_def split: prod.splits if_splits dest: MatchHost_cost)+

lemma Charge_cases:
  obtains (spent) l1 where "Charge l = (False, l1)" "lookups l1 = lookups l + 1" "queries l1 = queries l"
    "kMaxLookups < lookups l1"
  | (charged) l1 where "Charge l = (True, l1)" "lookups l1 = lookups l + 1" "queries l1 = queries l"
    "lookups l1 \<le> kMaxLookups"
  by (cases "lookups l + 1 > kMaxLookups") (auto simp: Charge_def Let_def)

lemma within_spent:
  "lookups l \<le> kMaxLookups \<Longrightarrow> lookups l1 = lookups l + 1 \<Longrightarrow> queries l1 = queries l \<Longrightarrow> within 0 l (Some SpfPermError) l1"
  by (auto simp: within_def credit_def)

lemma within_charged:
  "lookups l1 = lookups l + 1 \<Longrightarrow> queries l1 = queries l \<Longrightarrow> lookups l1 \<le> kMaxLookups \<Longrightarrow>
   lookups l2 = lookups l1 \<Longrightarrow> queries l2 \<le> queries l1 + 11 \<Longrightarrow> within 0 l r l2"
  by (auto simp: within_def credit_def)

lemma within_trans:
  "within j l None l1 \<Longrightarrow> within k l1 r l2 \<Longrightarrow> within (j + k) l r l2"
  by (auto simp: within_def)

lemma within_refl: "lookups l \<le> kMaxLookups \<Longrightarrow> within 0 l r l"
  by (auto simp: within_def)

lemma eval_a_mx_within:
  assumes "lookups l \<le> kMaxLookups" "eval_a_mx env domain ctx raw q mech arg l = (v, l2)"
  shows "within 0 l (map_option fst v) l2"
proof (cases l rule: Charge_cases)
  case (spent l1)
  with assms show ?thesis
    using within_spent [OF assms(1) spent(2,3)] by (auto simp: eval_a_mx_def too_many_def)
next
  case (charged l1)
  have "length (take kMaxMxRecords mx) \<le> 10" for mx :: "(int \<times> string) list"
    by (simp add: kMaxMxRecords_def)
  then have "lookups l2 = lookups l1 \<and> queries l2 \<le> queries l1 + 11"
    using assms(2) charged(1)
    by (auto simp: eval_a_mx_def Let_def split: prod.splits if_splits dest!: MatchHost_cost match_mx_cost
      intro: le_trans)
  then show ?thesis
    using within_charged [OF charged(2-4)] by blast
qed

lemma eval_exists_within:
  assumes "lookups l \<le> kMaxLookups" "eval_exists env domain ctx raw q arg l = (v, l2)"
  shows "within 0 l (map_option fst v) l2"
proof (cases l rule: Charge_cases)
  case (spent l1)
  with assms show ?thesis
    using within_spent [OF assms(1) spent(2,3)] by (auto simp: eval_exists_def too_many_def)
next
  case (charged l1)
  have "lookups l2 = lookups l1 \<and> queries l2 \<le> queries l1 + 11"
    using assms(2) charged(1) by (auto simp: eval_exists_def Let_def split: prod.splits if_splits)
  then show ?thesis
    using within_charged [OF charged(2-4)] by blast
qed

lemma eval_ptr_within:
  assumes "lookups l \<le> kMaxLookups" "eval_ptr env domain ctx q arg l = (v, l2)"
  shows "within 0 l (map_option fst v) l2"
proof (cases l rule: Charge_cases)
  case (spent l1)
  with assms show ?thesis
    using within_spent [OF assms(1) spent(2,3)] by (auto simp: eval_ptr_def too_many_def)
next
  case (charged l1)
  have "length (take kMaxPtrRecords ns) \<le> 10" for ns :: "string list"
    by (simp add: kMaxPtrRecords_def)
  then have "lookups l2 = lookups l1 \<and> queries l2 \<le> queries l1 + 11"
    using assms(2) charged(1)
    by (auto simp: eval_ptr_def Let_def split: prod.splits if_splits dest!: match_ptr_cost intro: le_trans)
  then show ?thesis
    using within_charged [OF charged(2-4)] by blast
qed

text \<open>What an evaluation promises to the one that nests it, and what follows for the nesting one.\<close>

locale bounded_sub =
  fixes sub :: "string \<Rightarrow> macro_ctx \<Rightarrow> limits \<Rightarrow> evaluation"
  assumes sub_within: "lookups l \<le> kMaxLookups \<Longrightarrow> sub d c l = (r, e, rc, l1) \<Longrightarrow> within 1 l (Some r) l1"
begin

lemma charged_sub:
  assumes "lookups l1 = lookups l + 1" "queries l1 = queries l" "lookups l1 \<le> kMaxLookups"
    and "sub d c l1 = (r, e, rc, l2)"
  shows "within 0 l (Some r) l2"
  using sub_within [OF assms(3,4)] assms(1-3) by (auto simp: within_def credit_def)

lemma include_within:
  assumes "lookups l \<le> kMaxLookups" "eval_include sub domain ctx q arg l = (v, l2)"
  shows "within 0 l (map_option fst v) l2"
proof (cases l rule: Charge_cases)
  case (spent l1)
  with assms show ?thesis
    using within_spent [OF assms(1) spent(2,3)] by (auto simp: eval_include_def too_many_def)
next
  case (charged l1)
  obtain r e rc l3 where s: "sub (ExpandMacros ctx arg) ctx l1 = (r, e, rc, l3)"
    by (metis prod_cases4)
  have "l3 = l2" using assms(2) charged(1) s by (auto simp: eval_include_def Let_def split: if_splits)
  then have "within 0 l (Some r) l2"
    using charged_sub [OF charged(2-4) s] by simp
  then show ?thesis
    using assms(2) charged(1) s by (auto simp: eval_include_def Let_def within_def split: if_splits)
qed

lemma mech_within:
  assumes "lookups l \<le> kMaxLookups" "eval_mech sub env domain ctx raw q mech arg l = (v, l2)"
  shows "within 0 l (map_option fst v) l2"
  using assms include_within eval_a_mx_within eval_exists_within eval_ptr_within within_refl
  by (auto simp: eval_mech_def split: if_splits)

lemma term_within:
  assumes "lookups l \<le> kMaxLookups" "eval_term sub env domain ctx raw l = (v, l2)"
  shows "within 0 l (map_option fst v) l2"
  using assms mech_within within_refl
  by (auto simp: eval_term_def split: prod.splits if_splits)

lemma terms_within:
  assumes "lookups l \<le> kMaxLookups" "run_terms sub env domain ctx terms redirect l = (v, rd, l2)"
  shows "within 0 l (map_option fst v) l2"
  using assms
proof (induction terms arbitrary: redirect l)
  case (Cons raw terms)
  obtain w l1 where t: "eval_term sub env domain ctx raw l = (w, l1)" by fastforce
  note t1 = term_within [OF Cons.prems(1) t]
  have ok: "w = None \<Longrightarrow> lookups l1 \<le> kMaxLookups" using t1 by (auto simp: within_def)
  show ?case
  proof (cases "StartsWithI raw ''redirect='' \<or> StartsWithI raw ''exp='' \<or> w \<noteq> None")
    case True
    then show ?thesis
      using Cons.prems Cons.IH t t1 by (auto split: if_splits)
  next
    case False
    then have w: "w = None" by blast
    with False have "within 0 l1 (map_option fst v) l2"
      using Cons.prems(2) Cons.IH ok t by simp
    then show ?thesis
      using within_trans [of 0 l l1 0] t1 w by simp
  qed
qed (auto intro: within_refl)

lemma redirect_within:
  assumes "lookups l \<le> kMaxLookups" "eval_redirect sub domain ctx record redirect l = (r, e, rc, l2)"
  shows "within 0 l (Some r) l2"
proof (cases l rule: Charge_cases)
  case (spent l1)
  with assms show ?thesis
    using within_spent [OF assms(1) spent(2,3)] by (auto simp: eval_redirect_def)
next
  case (charged l1)
  obtain r' e' rc' l3 where s: "sub redirect ctx l1 = (r', e', rc', l3)"
    by (metis prod_cases4)
  have "l3 = l2" using assms(2) charged(1) s by (auto simp: eval_redirect_def split: if_splits)
  then have "within 0 l (Some r') l2"
    using charged_sub [OF charged(2-4) s] by simp
  then show ?thesis
    using assms(2) charged(1) s by (auto simp: eval_redirect_def within_def split: if_splits)
qed

lemma record_within:
  assumes "lookups l \<le> kMaxLookups" "eval_record sub env domain ctx record l = (r, e, rc, l2)"
  shows "within 0 l (Some r) l2"
proof -
  obtain v rd l1 where t: "run_terms sub env domain ctx (tl (spf_terms record)) [] l = (v, rd, l1)"
    by (metis prod_cases3)
  note t1 = terms_within [OF assms(1) t]
  have ok: "v = None \<Longrightarrow> lookups l1 \<le> kMaxLookups" using t1 by (auto simp: within_def)
  show ?thesis
  proof (cases "v = None \<and> rd \<noteq> []")
    case True
    then have "within 0 l1 (Some r) l2"
      using assms(2) t redirect_within ok by (auto simp: eval_record_def)
    then show ?thesis using within_trans [of 0 l l1 0] t1 True by simp
  next
    case False
    then show ?thesis
      using assms(2) t t1 by (cases v) (auto simp: eval_record_def within_def)
  qed
qed

end

lemma Evaluate_bounded: "bounded_sub (Evaluate n env)"
proof (induction n)
  case 0
  show ?case by unfold_locales (auto simp: within_def)
next
  case (Suc n)
  show ?case
  proof
    fix d c l r e rc l1
    assume l: "lookups l \<le> kMaxLookups" and ev: "Evaluate (Suc n) env d c l = (r, e, rc, l1)"
    have one: "within 1 l r' (ask l)" for r'
      using l by (auto simp: within_def credit_def)
    show "within 1 l (Some r) l1"
    proof (cases "eval_record (Evaluate n env) env d (c\<lparr>m_domain := d\<rparr>) (snd (FetchRecord env d)) (ask l) = (r, e, rc, l1)")
      case True
      then have "within 0 (ask l) (Some r) l1"
        using bounded_sub.record_within [OF Suc] l by simp
      then show ?thesis using within_trans [of 1 l "ask l" 0] one by simp
    next
      case False
      then show ?thesis using ev one l by (auto simp: within_def split: if_splits prod.splits)
    qed
  qed
qed

interpretation spf_nested: bounded_sub "Evaluate n env" for n env
  by (rule Evaluate_bounded)

text \<open>C14. Whatever the DNS answers, one SPF evaluation makes at most 111 DNS requests: one for the
  record itself and eleven for each of the ten terms the budget allows, however records include
  or redirect to each other; and an evaluation that asked for an eleventh term ends in a
  permanent error.\<close>

theorem Evaluate_query_bound:
  assumes "Evaluate (kMaxDepth + 1) env domain ctx no_limits = (r, e, rc, l)"
  shows "queries l \<le> 111 \<and> (lookups l > kMaxLookups \<longrightarrow> r = SpfPermError)"
  using spf_nested.sub_within [OF _ assms] by (auto simp: within_def credit_def no_limits_def kMaxLookups_def)

text \<open>A small network for the closed instances below: one address and two records.\<close>

definition test_net :: resolver where
  "test_net =
     \<lparr>pton4 = (\<lambda>s. if s = ''192.0.2.1'' then Some [192, 0, 2, 1] else if s = ''192.0.2.0'' then Some [192, 0, 2, 0] else None),
      pton6 = (\<lambda>s. None),
      LookupTXT = (\<lambda>n. if n = ''a.example'' then (DnsOk, [''v=spf1 ip4:192.0.2.0/24 -all''])
                        else if n = ''b.example''
                        then (DnsOk, [''v=spf1 ip4:192.0.2.1/32'' @ crlf @ ''X-Spam:no''])
                        else (NxDomain, [])),
      LookupA = (\<lambda>n. (NxDomain, [])), LookupAAAA = (\<lambda>n. (NxDomain, [])),
      LookupMXRecords = (\<lambda>n. (NxDomain, [])), LookupPTR = (\<lambda>n. (NxDomain, []))\<rparr>"

definition test_ctx :: macro_ctx where
  "test_ctx = \<lparr>m_ip = ParseIp test_net ''192.0.2.1'', m_sender = ''u@a.example'', m_domain = ''a.example'',
     m_helo = ''h'', m_client_ip_text = ''192.0.2.1''\<rparr>"

theorem Evaluate_query_bound_witness:
  "queries (snd (snd (snd (Evaluate (kMaxDepth + 1) test_net ''a.example'' test_ctx no_limits)))) \<le> 111"
proof -
  obtain r e rc l where "Evaluate (kMaxDepth + 1) test_net ''a.example'' test_ctx no_limits = (r, e, rc, l)"
    by (metis prod_cases4)
  with Evaluate_query_bound [OF this] show ?thesis by simp
qed

section \<open>Prefixes\<close>

text \<open>The bits of an address, most significant first.\<close>

definition byte_bits :: "8 word \<Rightarrow> bool list" where
  "byte_bits w = map (bit w) [7, 6, 5, 4, 3, 2, 1, 0]"

definition addr_bits :: "8 word list \<Rightarrow> bool list" where
  "addr_bits bs = concat (map byte_bits bs)"

lemma length_byte_bits [simp]: "length (byte_bits w) = 8"
  by (simp add: byte_bits_def)

lemma byte_bits_inject: "byte_bits v = byte_bits w \<longleftrightarrow> v = w"
proof
  assume eq: "byte_bits v = byte_bits w"
  have "bit v n = bit w n" if "n < 8" for n
  proof -
    from that have "n \<in> {0, 1, 2, 3, 4, 5, 6, 7}" by auto
    with eq show ?thesis by (auto simp: byte_bits_def)
  qed
  then show "v = w" by (intro bit_word_eqI) simp
qed simp

lemma byte_bits_nth: "i < 8 \<Longrightarrow> byte_bits w ! i = bit w (7 - i)"
proof -
  assume "i < 8"
  then have "i \<in> {0, 1, 2, 3, 4, 5, 6, 7}" by auto
  then show ?thesis by (auto simp: byte_bits_def)
qed

lemma count_down:
  fixes rest :: nat
  assumes "rest < 8"
  shows "(\<forall>n < 8. 8 - rest \<le> n \<longrightarrow> P n) \<longleftrightarrow> (\<forall>i < rest. P (7 - i))"
proof (intro iffI allI impI)
  fix n :: nat
  assume P: "\<forall>i < rest. P (7 - i)" and n: "n < 8" "8 - rest \<le> n"
  then have "7 - n < rest" "7 - (7 - n) = n" by auto
  with P show "P n" by metis
qed (use assms in auto)

lemma prefix_mask_bits:
  assumes "rest < 8"
  shows "v AND prefix_mask rest = w AND prefix_mask rest \<longleftrightarrow> take rest (byte_bits v) = take rest (byte_bits w)"
proof -
  have mask: "bit (prefix_mask rest) n \<longleftrightarrow> 8 - rest \<le> n" if "n < 8" for n
  proof -
    have ff: "(0xff :: 8 word) = mask 8" by (simp add: mask_eq_exp_minus_1)
    show ?thesis
      unfolding prefix_mask_def ff using that by (auto simp: bit_push_bit_iff bit_mask_iff)
  qed
  have "v AND prefix_mask rest = w AND prefix_mask rest
      \<longleftrightarrow> (\<forall>n < 8. 8 - rest \<le> n \<longrightarrow> bit v n = bit w n)"
    by (auto simp: bit_word_eqI bit_and_iff mask dest: arg_cong [where f = bit] fun_cong intro!: bit_word_eqI) (metis bit_and_iff mask)+
  also have "\<dots> \<longleftrightarrow> (\<forall>i < rest. bit v (7 - i) = bit w (7 - i))"
    by (rule count_down [OF assms])
  also have "\<dots> \<longleftrightarrow> take rest (byte_bits v) = take rest (byte_bits w)"
    using assms by (auto simp: list_eq_iff_nth_eq byte_bits_nth)
  finally show ?thesis .
qed

lemma take_addr_bits: "k \<le> length bs \<Longrightarrow> take (8 * k) (addr_bits bs) = addr_bits (take k bs)"
proof (induction bs arbitrary: k)
  case (Cons b bs)
  then show ?case by (cases k) (simp_all add: addr_bits_def)
qed (simp add: addr_bits_def)

lemma addr_bits_inject: "length bs = length cs \<Longrightarrow> addr_bits bs = addr_bits cs \<longleftrightarrow> bs = cs"
  by (induction bs cs rule: list_induct2) (simp_all add: addr_bits_def byte_bits_inject)

lemma addr_bits_split:
  assumes "k < length bs"
  shows "addr_bits bs = addr_bits (take k bs) @ byte_bits (bs ! k) @ addr_bits (drop (Suc k) bs)"
  using id_take_nth_drop [OF assms] unfolding addr_bits_def
  by (metis concat.simps(2) concat_append list.map(2) map_append)

lemma length_addr_bits: "length (addr_bits bs) = 8 * length bs"
  by (induction bs) (simp_all add: addr_bits_def)

text \<open>Whole bytes by comparison and the rest under a mask is the same as comparing that many bits.\<close>

lemma masked_prefix:
  assumes "length bs = length cs" "n \<le> 8 * length bs"
  shows "(if n div 8 > 0 \<and> take (n div 8) bs \<noteq> take (n div 8) cs then False
          else if n mod 8 = 0 then True
          else (bs ! (n div 8)) AND prefix_mask (n mod 8) = (cs ! (n div 8)) AND prefix_mask (n mod 8))
       \<longleftrightarrow> take n (addr_bits bs) = take n (addr_bits cs)"
proof -
  let ?k = "n div 8" and ?r = "n mod 8"
  have n: "n = 8 * ?k + ?r" by simp
  have k: "?k \<le> length bs" using assms(2) by simp
  have whole: "take (8 * ?k) (addr_bits bs) = take (8 * ?k) (addr_bits cs) \<longleftrightarrow> take ?k bs = take ?k cs"
    using take_addr_bits [OF k] take_addr_bits [of ?k cs] k assms(1)
      addr_bits_inject [of "take ?k bs" "take ?k cs"] by simp
  show ?thesis
  proof (cases "?r = 0")
    case True
    then have "n = 8 * ?k" using n by simp
    with whole True show ?thesis by (metis div_0 mult_0_right neq0_conv take0)
  next
    case False
    then have "8 * ?k < 8 * length bs" using assms(2) n by linarith
    then have lt: "?k < length bs" by simp
    have bits: "take n (addr_bits xs) = take (8 * ?k) (addr_bits xs) @ take ?r (byte_bits (xs ! ?k))"
      if "?k < length xs" for xs
    proof -
      have "take n (addr_bits xs) = take (8 * ?k + ?r) (addr_bits (take ?k xs) @ byte_bits (xs ! ?k) @ addr_bits (drop (Suc ?k) xs))"
        using addr_bits_split [OF that] n by simp
      also have "\<dots> = addr_bits (take ?k xs) @ take ?r (byte_bits (xs ! ?k))"
        using that by (simp add: length_addr_bits minus_mult_div_eq_mod)
      finally show ?thesis using take_addr_bits [of ?k xs] that by simp
    qed
    have "take n (addr_bits bs) = take n (addr_bits cs)
        \<longleftrightarrow> take ?k bs = take ?k cs \<and> take ?r (byte_bits (bs ! ?k)) = take ?r (byte_bits (cs ! ?k))"
      using bits [OF lt] bits [of cs] lt assms(1) whole by (simp add: length_addr_bits)
    then show ?thesis
      using False prefix_mask_bits [of ?r "bs ! ?k" "cs ! ?k"] by auto
  qed
qed

text \<open>\<open>PrefixMatch\<close>, which compares whole bytes and then the rest under a mask, decides whether two
  addresses of the same family agree on their first \<open>prefix_bits\<close> bits, a length outside the
  range of the family meaning the whole address.\<close>

theorem PrefixMatch_bits:
  assumes "valid a" "valid b" "v6 a = v6 b" "length (ip_bytes a) = 16" "length (ip_bytes b) = 16"
    and "n = (if prefix_bits < 0 \<or> prefix_bits > (if v6 a then 128 else 32) then (if v6 a then 128 else 32)
              else nat prefix_bits)"
  shows "PrefixMatch a b prefix_bits \<longleftrightarrow> take n (addr_bits (ip_bytes a)) = take n (addr_bits (ip_bytes b))"
proof -
  have n: "nat (if prefix_bits < 0 \<or> prefix_bits > (if v6 a then 128 else 32) then (if v6 a then 128 else 32)
      else prefix_bits) = n"
    using assms(6) by simp
  moreover have "n \<le> 8 * length (ip_bytes a)"
    using assms(4,6) by (auto split: if_splits)
  ultimately show ?thesis
    using masked_prefix [of "ip_bytes a" "ip_bytes b" n] assms(1-5)
    unfolding PrefixMatch_def Let_def n by simp
qed

theorem PrefixMatch_bits_witness:
  "PrefixMatch (ParseIp test_net ''192.0.2.1'') (ParseIp test_net ''192.0.2.0'') 24
     \<longleftrightarrow> take 24 (addr_bits (ip_bytes (ParseIp test_net ''192.0.2.1'')))
        = take 24 (addr_bits (ip_bytes (ParseIp test_net ''192.0.2.0'')))"
  by (rule PrefixMatch_bits) (simp_all add: ParseIp_def test_net_def c_str_def)

section \<open>Address lists\<close>

text \<open>A term that names addresses only: \<open>all\<close>, or \<open>ip4\<close> and \<open>ip6\<close> with an address that can be parsed.\<close>

definition term_mech :: "string \<Rightarrow> string \<times> string" where
  "term_mech raw = split_term (snd (split_qualifier raw))"

definition address_term :: "resolver \<Rightarrow> string \<Rightarrow> bool" where
  "address_term env raw \<longleftrightarrow> snd (split_qualifier raw) \<noteq> []
     \<and> \<not> StartsWithI raw ''redirect='' \<and> \<not> StartsWithI raw ''exp=''
     \<and> (fst (term_mech raw) = ''all''
        \<or> fst (term_mech raw) \<in> {''ip4'', ''ip6''} \<and> valid (ParseIp env (fst (SplitCidr (snd (term_mech raw))))))"

definition covers_client :: "resolver \<Rightarrow> macro_ctx \<Rightarrow> string \<Rightarrow> bool" where
  "covers_client env ctx raw \<longleftrightarrow> fst (term_mech raw) = ''all''
     \<or> PrefixMatch (m_ip ctx) (ParseIp env (fst (SplitCidr (snd (term_mech raw)))))
         (fst (snd (SplitCidr (snd (term_mech raw)))))"

lemma eval_address_term:
  assumes "address_term env raw"
  shows "\<exists>expl. eval_term sub env domain ctx raw l =
    (if covers_client env ctx raw then Some (QualifierToResult (fst (split_qualifier raw)), expl) else None, l)"
proof -
  obtain q trm where q: "split_qualifier raw = (q, trm)" by fastforce
  obtain mech arg where m: "split_term trm = (mech, arg)" by fastforce
  obtain name c4 c6 where c: "SplitCidr arg = (name, c4, c6)" by (metis prod_cases3)
  have ev: "eval_term sub env domain ctx raw l = eval_mech sub env domain ctx raw q mech arg l"
    using assms q m by (simp add: eval_term_def address_term_def)
  show ?thesis
  proof (cases "mech = ''all''")
    case True
    then show ?thesis
      using q m unfolding ev by (simp add: eval_mech_def covers_client_def term_mech_def)
  next
    case False
    then have ip: "mech = ''ip4'' \<or> mech = ''ip6''" "valid (ParseIp env name)"
      using assms q m c by (simp_all add: address_term_def term_mech_def)
    have cov: "covers_client env ctx raw = PrefixMatch (m_ip ctx) (ParseIp env name) c4"
      using False q m c by (simp add: covers_client_def term_mech_def)
    have "eval_mech sub env domain ctx raw q mech arg l = (eval_ip env domain ctx raw q mech arg, l)"
      using False ip(1) by (simp only: eval_mech_def if_True if_False)
    also have "eval_ip env domain ctx raw q mech arg
        = (if covers_client env ctx raw then Some (QualifierToResult q, client_matched raw domain) else None)"
      using ip(2) c by (simp add: eval_ip_def Let_def cov)
    finally show ?thesis
      unfolding ev q by auto
  qed
qed

lemma run_address_terms:
  assumes "list_all (address_term env) terms"
  shows "\<exists>expl. run_terms sub env domain ctx terms rd l =
    (case find (covers_client env ctx) terms of
       None \<Rightarrow> None
     | Some raw \<Rightarrow> Some (QualifierToResult (fst (split_qualifier raw)), expl), rd, l)"
  using assms
proof (induction terms)
  case (Cons raw terms)
  obtain expl where t: "eval_term sub env domain ctx raw l =
      (if covers_client env ctx raw then Some (QualifierToResult (fst (split_qualifier raw)), expl) else None, l)"
    using eval_address_term Cons.prems by fastforce
  have "\<not> StartsWithI raw ''redirect=''" "\<not> StartsWithI raw ''exp=''"
    using Cons.prems by (simp_all add: address_term_def)
  with t Cons show ?case by auto
qed simp

text \<open>C32. For a domain whose record lists addresses, the first term that covers the client decides:
  \<open>Evaluate\<close> returns the result of its qualifier, and neutral when no term covers the client.\<close>

theorem Evaluate_first_match:
  assumes "domain \<noteq> []" "FetchRecord env domain = (SpfPass, record)"
    and "list_all (address_term env) (tl (spf_terms record))"
  shows "fst (Evaluate (Suc n) env domain ctx l) =
    (case find (covers_client env ctx) (tl (spf_terms record)) of
       None \<Rightarrow> SpfNeutral
     | Some raw \<Rightarrow> QualifierToResult (fst (split_qualifier raw)))"
proof -
  let ?ctx = "ctx\<lparr>m_domain := domain\<rparr>"
  have same: "covers_client env ?ctx = covers_client env ctx"
    by (auto simp: covers_client_def)
  obtain expl where "run_terms (Evaluate n env) env domain ?ctx (tl (spf_terms record)) [] (ask l) =
    (case find (covers_client env ctx) (tl (spf_terms record)) of
       None \<Rightarrow> None
     | Some raw \<Rightarrow> Some (QualifierToResult (fst (split_qualifier raw)), expl), [], ask l)"
    using run_address_terms [OF assms(3), of "Evaluate n env" domain ?ctx "[]" "ask l"] unfolding same by blast
  then show ?thesis
    using assms(1,2) by (auto simp: eval_record_def split: option.splits)
qed

theorem Evaluate_first_match_witness:
  "fst (Evaluate (Suc 0) test_net ''a.example'' test_ctx no_limits) = SpfPass"
proof -
  have "fst (Evaluate (Suc 0) test_net ''a.example'' test_ctx no_limits) =
    (case find (covers_client test_net test_ctx) (tl (spf_terms ''v=spf1 ip4:192.0.2.0/24 -all'')) of
       None \<Rightarrow> SpfNeutral
     | Some raw \<Rightarrow> QualifierToResult (fst (split_qualifier raw)))"
    by (rule Evaluate_first_match) (code_simp, code_simp, code_simp)
  moreover have "find (covers_client test_net test_ctx) (tl (spf_terms ''v=spf1 ip4:192.0.2.0/24 -all''))
    = Some ''ip4:192.0.2.0/24''"
    by code_simp
  moreover have "QualifierToResult (fst (split_qualifier ''ip4:192.0.2.0/24'')) = SpfPass"
    by code_simp
  ultimately show ?thesis by simp
qed


end
