(* ===== verification/QM_Dmarc.thy ===== *)
theory QM_Dmarc
  imports QM_Psl QM_Spf
begin

text \<open>
  DMARC evaluation, \<^verbatim>\<open>src/core/src/dmarc.cpp\<close>, on the public suffix rules of \<open>QM_Psl\<close> and the
  resolver record of \<open>QM_Spf\<close>. The SPF result and the DKIM verification results are inputs, as in the
  code.
\<close>

section \<open>Policies\<close>

datatype dmarc_policy = PNone | PQuarantine | PReject

datatype dmarc_result = DNone | DPass | DFail | DTempError | DPermError

datatype dkim_result = KNone | KPass | KFail | KNeutral | KTempError | KPermError

text \<open>Policies are ordered by what they ask of the receiver.\<close>

fun severity :: "dmarc_policy \<Rightarrow> nat" where
  "severity PNone = 0"
| "severity PQuarantine = 1"
| "severity PReject = 2"

lemma severity_inject: "severity p = severity q \<longleftrightarrow> p = q"
  by (cases p; cases q) simp_all

instantiation dmarc_policy :: linorder
begin

definition less_eq_dmarc_policy :: "dmarc_policy \<Rightarrow> dmarc_policy \<Rightarrow> bool" where
  "p \<le> q \<longleftrightarrow> severity p \<le> severity q"

definition less_dmarc_policy :: "dmarc_policy \<Rightarrow> dmarc_policy \<Rightarrow> bool" where
  "p < q \<longleftrightarrow> severity p < severity q"

instance
  by standard (auto simp: less_eq_dmarc_policy_def less_dmarc_policy_def severity_inject)

end

record verify_result =
  k_result :: dkim_result
  k_domain :: string
  k_selector :: string
  k_algorithm :: string
  k_info :: string

record dmarc_eval =
  d_result :: dmarc_result
  d_policy :: dmarc_policy
  d_spf_aligned :: bool
  d_dkim_aligned :: bool
  d_from_domain :: string
  d_policy_domain :: string
  d_record :: string
  d_info :: string

definition ShouldReject :: "dmarc_eval \<Rightarrow> bool" where
  "ShouldReject ev = (d_result ev = DFail \<and> d_policy ev = PReject)"

definition ShouldQuarantine :: "dmarc_eval \<Rightarrow> bool" where
  "ShouldQuarantine ev = (d_result ev = DFail \<and> d_policy ev = PQuarantine)"

section \<open>Alignment\<close>

definition OrganizationalDomain :: "rule_map \<Rightarrow> string \<Rightarrow> string" where
  "OrganizationalDomain rules domain =
     (let org = RegistrableDomain rules domain in if org = [] then Lower domain else org)"

definition Aligned :: "rule_map \<Rightarrow> string \<Rightarrow> string \<Rightarrow> bool \<Rightarrow> bool" where
  "Aligned rules a b strict =
     (if a = [] \<or> b = [] then False
      else let la = Lower a; lb = Lower b
           in if la = lb then True
              else if strict then False
              else OrganizationalDomain rules la = OrganizationalDomain rules lb)"

definition fnv_step :: "64 word \<Rightarrow> char \<Rightarrow> 64 word" where
  "fnv_step h c = (h XOR of_char c) * 1099511628211"

definition SampleBucket :: "string \<Rightarrow> int" where
  "SampleBucket seed = uint (foldl fnv_step 1469598103934665603 seed mod 100)"

definition ParsePolicy :: "string \<Rightarrow> dmarc_policy" where
  "ParsePolicy v =
     (let p = Lower (Trim v)
      in if p = ''reject'' then PReject else if p = ''quarantine'' then PQuarantine else PNone)"

section \<open>The record\<close>

text \<open>The answer of one candidate domain, and the loop over the candidates: result, record and the
  domain it was found at.\<close>

definition is_dmarc_record :: "string \<Rightarrow> bool" where
  "is_dmarc_record t = (take 8 (Lower (Trim t)) = ''v=dmarc1'')"

fun fetch_loop :: "resolver \<Rightarrow> string list \<Rightarrow> bool \<Rightarrow> dmarc_result \<times> string \<times> string" where
  "fetch_loop env [] temp = (if temp then DTempError else DNone, [], [])"
| "fetch_loop env (d # ds) temp =
     (case LookupTXT env (''_dmarc.'' @ d) of (st, txts) \<Rightarrow>
        if st = TempFail then fetch_loop env ds True
        else (case find is_dmarc_record txts of
                Some t \<Rightarrow> (DPass, t, d)
              | None \<Rightarrow> fetch_loop env ds temp))"

definition DmarcFetchRecord :: "rule_map \<Rightarrow> resolver \<Rightarrow> string \<Rightarrow> dmarc_result \<times> string \<times> string" where
  "DmarcFetchRecord rules env from_domain =
     (let org = OrganizationalDomain rules from_domain
      in fetch_loop env (if org \<noteq> from_domain \<and> org \<noteq> [] then [from_domain, org] else [from_domain]) False)"

record dmarc_tags =
  p_tag :: string
  sp_tag :: string
  adkim :: string
  aspf :: string
  pct :: int

definition no_tags :: dmarc_tags where
  "no_tags = \<lparr>p_tag = [], sp_tag = [], adkim = ''r'', aspf = ''r'', pct = 100\<rparr>"

definition parse_tag :: "string \<Rightarrow> dmarc_tags \<Rightarrow> dmarc_tags" where
  "parse_tag chunk t =
     (case find_idx (CHR ''='') chunk of
        None \<Rightarrow> t
      | Some eq \<Rightarrow>
          (let name = Lower (Trim (take eq chunk)); value = Trim (drop (eq + 1) chunk)
           in if name = ''p'' then t\<lparr>p_tag := value\<rparr>
              else if name = ''sp'' then t\<lparr>sp_tag := value\<rparr>
              else if name = ''adkim'' then t\<lparr>adkim := Lower value\<rparr>
              else if name = ''aspf'' then t\<lparr>aspf := Lower value\<rparr>
              else if name = ''pct'' then t\<lparr>pct := atoi value\<rparr>
              else t))"

definition parse_tags :: "string \<Rightarrow> dmarc_tags" where
  "parse_tags record = fold parse_tag (split_on (CHR '';'') record) no_tags"

section \<open>The verdict\<close>

definition blank_eval :: "string \<Rightarrow> dmarc_eval" where
  "blank_eval from_domain =
     \<lparr>d_result = DNone, d_policy = PNone, d_spf_aligned = False, d_dkim_aligned = False,
      d_from_domain = from_domain, d_policy_domain = [], d_record = [], d_info = []\<rparr>"

definition published_policy :: "string \<Rightarrow> string \<Rightarrow> dmarc_tags \<Rightarrow> dmarc_policy" where
  "published_policy from_domain policy_domain t =
     (let is_subdomain = (policy_domain \<noteq> [] \<and> Lower from_domain \<noteq> Lower policy_domain)
      in ParsePolicy (if is_subdomain \<and> sp_tag t \<noteq> [] then sp_tag t else p_tag t))"

definition fail_eval :: "dmarc_policy \<Rightarrow> int \<Rightarrow> string \<Rightarrow> dmarc_eval \<Rightarrow> dmarc_eval" where
  "fail_eval published p seed ev =
     (let info = ''neither SPF nor DKIM authenticated an aligned identity'';
          ev1 = ev\<lparr>d_result := DFail, d_info := info\<rparr>
      in if p \<ge> 100 \<or> SampleBucket seed < p then ev1\<lparr>d_policy := published\<rparr>
         else if published = PReject
         then ev1\<lparr>d_policy := PQuarantine, d_info := info @ ''; outside pct= sample, softened to quarantine''\<rparr>
         else ev1\<lparr>d_policy := PNone,
                  d_info := (if published \<noteq> PNone then info @ ''; outside pct= sample'' else info)\<rparr>)"

definition aligned_eval :: "bool \<Rightarrow> dmarc_eval \<Rightarrow> dmarc_eval" where
  "aligned_eval dkim_ok ev = ev\<lparr>d_result := DPass, d_policy := PNone,
     d_info := (if dkim_ok then ''aligned DKIM signature'' else ''aligned SPF pass'')\<rparr>"

definition spf_aligned :: "rule_map \<Rightarrow> dmarc_tags \<Rightarrow> string \<Rightarrow> string \<Rightarrow> spf_result \<Rightarrow> bool" where
  "spf_aligned rules t from_domain spf_domain spf_res =
     (spf_res = SpfPass \<and> Aligned rules spf_domain from_domain (aspf t = ''s''))"

definition dkim_aligned :: "rule_map \<Rightarrow> dmarc_tags \<Rightarrow> string \<Rightarrow> verify_result list \<Rightarrow> bool" where
  "dkim_aligned rules t from_domain dkim_results =
     list_ex (\<lambda>d. k_result d = KPass \<and> Aligned rules (k_domain d) from_domain (adkim t = ''s'')) dkim_results"

definition record_eval ::
  "rule_map \<Rightarrow> string \<Rightarrow> string \<Rightarrow> spf_result \<Rightarrow> verify_result list \<Rightarrow> string \<Rightarrow> dmarc_eval \<Rightarrow> dmarc_eval" where
  "record_eval rules from_domain spf_domain spf_res dkim_results msg_id ev =
     (let t = parse_tags (d_record ev)
      in if p_tag t = [] then ev\<lparr>d_result := DPermError, d_info := ''DMARC record has no p= tag''\<rparr>
         else let spf_ok = spf_aligned rules t from_domain spf_domain spf_res;
                  dkim_ok = dkim_aligned rules t from_domain dkim_results;
                  ev2 = ev\<lparr>d_spf_aligned := spf_ok, d_dkim_aligned := dkim_ok\<rparr>
              in if spf_ok \<or> dkim_ok then aligned_eval dkim_ok ev2
                 else fail_eval (published_policy from_domain (d_policy_domain ev) t) (pct t)
                        (if msg_id = [] then from_domain else msg_id) ev2)"

definition DmarcEvaluate ::
  "rule_map \<Rightarrow> resolver \<Rightarrow> string \<Rightarrow> string \<Rightarrow> spf_result \<Rightarrow> verify_result list \<Rightarrow> string \<Rightarrow> dmarc_eval" where
  "DmarcEvaluate rules env from_domain spf_domain spf_res dkim_results msg_id =
     (let ev = blank_eval from_domain
      in if from_domain = [] then ev\<lparr>d_info := ''no From: domain to evaluate''\<rparr>
         else case DmarcFetchRecord rules env from_domain of (fetch, record, policy_domain) \<Rightarrow>
           let ev1 = ev\<lparr>d_record := record, d_policy_domain := policy_domain\<rparr>
           in if fetch = DTempError
              then ev1\<lparr>d_result := DTempError, d_info := ''DMARC record lookup failed temporarily''\<rparr>
              else if fetch = DNone then ev1\<lparr>d_info := ''no DMARC record for '' @ from_domain\<rparr>
              else record_eval rules from_domain spf_domain spf_res dkim_results msg_id ev1)"

fun DmarcResultName :: "dmarc_result \<Rightarrow> string" where
  "DmarcResultName DNone = ''none''"
| "DmarcResultName DPass = ''pass''"
| "DmarcResultName DFail = ''fail''"
| "DmarcResultName DTempError = ''temperror''"
| "DmarcResultName DPermError = ''permerror''"

fun PolicyName :: "dmarc_policy \<Rightarrow> string" where
  "PolicyName PNone = ''none''"
| "PolicyName PQuarantine = ''quarantine''"
| "PolicyName PReject = ''reject''"

section \<open>What the verdict means\<close>

lemma fail_eval_simps [simp]:
  "d_result (fail_eval pol p seed ev) = DFail"
  "d_policy (fail_eval pol p seed ev) \<le> pol"
  "severity pol \<le> Suc (severity (d_policy (fail_eval pol p seed ev)))"
  "100 \<le> p \<Longrightarrow> d_policy (fail_eval pol p seed ev) = pol"
  by (cases pol; simp add: fail_eval_def Let_def less_eq_dmarc_policy_def)+

lemma aligned_eval_simps [simp]:
  "d_result (aligned_eval b ev) = DPass" "d_policy (aligned_eval b ev) = PNone"
  by (simp_all add: aligned_eval_def)

lemma fetch_loop_result: "fetch_loop env ds temp = (r, rec, d) \<Longrightarrow> r \<in> {DPass, DTempError, DNone}"
  by (induction env ds temp rule: fetch_loop.induct) (auto split: prod.splits if_splits option.splits)

lemma fetch_result: "DmarcFetchRecord rules env from = (r, rec, d) \<Longrightarrow> r \<in> {DPass, DTempError, DNone}"
  unfolding DmarcFetchRecord_def Let_def by (rule fetch_loop_result)

lemma DmarcEvaluate_found:
  assumes "from_domain \<noteq> []" "DmarcFetchRecord rules env from_domain = (DPass, record, policy_domain)"
  shows "DmarcEvaluate rules env from_domain spf_domain spf_res dkim_results msg_id
       = record_eval rules from_domain spf_domain spf_res dkim_results msg_id
           ((blank_eval from_domain)\<lparr>d_record := record, d_policy_domain := policy_domain\<rparr>)"
  using assms by (simp add: DmarcEvaluate_def)



text \<open>A message is refused or quarantined on the sender's word only: when \<open>DmarcEvaluate\<close> asks for either,
  a record was found for the domain or its organizational domain, that record asks for at least
  this much, and neither SPF nor DKIM authenticated an aligned identity. A lookup that failed, a
  missing record or a record without \<open>p=\<close> never costs a message its delivery.\<close>

theorem Dmarc_action_sound:
  assumes "ev = DmarcEvaluate rules env from_domain spf_domain spf_res dkim_results msg_id"
    and "ShouldReject ev \<or> ShouldQuarantine ev"
  shows "\<exists>record policy_domain. DmarcFetchRecord rules env from_domain = (DPass, record, policy_domain)
    \<and> d_policy ev \<le> published_policy from_domain policy_domain (parse_tags record)
    \<and> \<not> spf_aligned rules (parse_tags record) from_domain spf_domain spf_res
    \<and> \<not> dkim_aligned rules (parse_tags record) from_domain dkim_results"
proof -
  obtain r rc pd where f: "DmarcFetchRecord rules env from_domain = (r, rc, pd)"
    by (metis prod_cases3)
  have fail: "d_result ev = DFail" using assms(2) by (auto simp: ShouldReject_def ShouldQuarantine_def)
  have nonempty: "from_domain \<noteq> []" and r: "r = DPass"
    using fail f fetch_result [OF f] unfolding assms(1) by (auto simp: DmarcEvaluate_def blank_eval_def Let_def split: if_splits)
  show ?thesis
    using fail f r unfolding assms(1) DmarcEvaluate_found [OF nonempty f [unfolded r]]
    by (auto simp: record_eval_def Let_def split: if_splits)
qed

theorem Dmarc_action_sound_witness:
  "ShouldReject (DmarcEvaluate Map.empty (test_net\<lparr>LookupTXT := (\<lambda>n. (DnsOk, [''v=DMARC1; p=reject'']))\<rparr>)
     ''b.example'' ''evil.test'' SpfPass [] ''id'')
   \<and> \<not> spf_aligned Map.empty (parse_tags ''v=DMARC1; p=reject'') ''b.example'' ''evil.test'' SpfPass"
proof -
  let ?env = "test_net\<lparr>LookupTXT := (\<lambda>n. (DnsOk, [''v=DMARC1; p=reject'']))\<rparr>"
  have f: "DmarcFetchRecord Map.empty ?env ''b.example'' = (DPass, ''v=DMARC1; p=reject'', ''b.example'')"
    by code_simp
  have r: "ShouldReject (DmarcEvaluate Map.empty ?env ''b.example'' ''evil.test'' SpfPass [] ''id'')"
    by code_simp
  then show ?thesis
    using Dmarc_action_sound [OF refl, of Map.empty ?env "''b.example''" "''evil.test''" SpfPass "[]" "''id''"] f by auto
qed

end
