(* ===== verification/QM_Tables.thy ===== *)
theory QM_Tables
  imports QM_Prelude "HOL-Library.List_Lexorder" "HOL-Library.Char_ord"
begin

text \<open>
  The SQL the sources send to DuckDB, on tables that are lists of rows in insertion order:
  \<^verbatim>\<open>INSERT OR IGNORE\<close>, \<^verbatim>\<open>INSERT ... ON CONFLICT DO UPDATE\<close>, \<^verbatim>\<open>DELETE ... WHERE\<close> and
  \<^verbatim>\<open>SELECT ... ORDER BY\<close>. The contract of a table with a primary key is the locale \<open>keyed_table\<close>,
  which the theories of the components interpret for their tables.
\<close>

section \<open>Statements\<close>

definition insert_or_ignore :: "('r \<Rightarrow> 'k) \<Rightarrow> 'r \<Rightarrow> 'r list \<Rightarrow> 'r list" where
  "insert_or_ignore key row rows = (if list_ex (\<lambda>r. key r = key row) rows then rows else rows @ [row])"

definition upsert :: "('r \<Rightarrow> 'k) \<Rightarrow> ('r \<Rightarrow> 'r \<Rightarrow> 'r) \<Rightarrow> 'r \<Rightarrow> 'r list \<Rightarrow> 'r list" where
  "upsert key upd row rows =
     (if list_ex (\<lambda>r. key r = key row) rows
      then map (\<lambda>r. if key r = key row then upd row r else r) rows
      else rows @ [row])"

definition delete_where :: "('r \<Rightarrow> bool) \<Rightarrow> 'r list \<Rightarrow> 'r list" where
  "delete_where P rows = filter (\<lambda>r. \<not> P r) rows"

definition lookup_key :: "('r \<Rightarrow> 'k) \<Rightarrow> 'k \<Rightarrow> 'r list \<Rightarrow> 'r option" where
  "lookup_key key k rows = find (\<lambda>r. key r = k) rows"

section \<open>Tables with a primary key\<close>

definition unique_key :: "('r \<Rightarrow> 'k) \<Rightarrow> 'r list \<Rightarrow> bool" where
  "unique_key key rows = distinct (map key rows)"

lemma unique_key_filter: "unique_key key rows \<Longrightarrow> unique_key key (filter P rows)"
  by (induction rows) (auto simp: unique_key_def)

lemma unique_key_delete: "unique_key key rows \<Longrightarrow> unique_key key (delete_where P rows)"
  unfolding delete_where_def by (rule unique_key_filter)

lemma unique_key_insert: "unique_key key rows \<Longrightarrow> unique_key key (insert_or_ignore key row rows)"
  by (force simp: insert_or_ignore_def unique_key_def list_ex_iff)

lemma find_append: "find P (xs @ ys) = (case find P xs of Some x \<Rightarrow> Some x | None \<Rightarrow> find P ys)"
  by (induction xs) auto

text \<open>What the clients of a keyed table rely on: an update keeps the key of the row it changes.\<close>

locale keyed_table =
  fixes key :: "'r \<Rightarrow> 'k"
    and upd :: "'r \<Rightarrow> 'r \<Rightarrow> 'r"
  assumes key_upd: "key (upd row r) = key r"
begin

lemma map_key_upd: "map key (map (\<lambda>r. if P r then upd row r else r) rows) = map key rows"
  by (simp add: key_upd)

lemma unique_upsert:
  assumes "unique_key key rows"
  shows "unique_key key (upsert key upd row rows)"
proof (cases "list_ex (\<lambda>r. key r = key row) rows")
  case True
  then show ?thesis
    using assms unfolding upsert_def unique_key_def by (simp only: if_True map_key_upd)
next
  case False
  then show ?thesis
    using assms by (auto simp: upsert_def unique_key_def list_ex_iff)
qed

lemma lookup_upsert:
  "lookup_key key k (upsert key upd row rows) =
     (if k = key row
      then Some (case lookup_key key k rows of None \<Rightarrow> row | Some r \<Rightarrow> upd row r)
      else lookup_key key k rows)"
proof (cases "list_ex (\<lambda>r. key r = key row) rows")
  case True
  have "find (\<lambda>r. key r = k) (map (\<lambda>r. if key r = key row then upd row r else r) rows)
      = map_option (\<lambda>r. if key r = key row then upd row r else r) (find (\<lambda>r. key r = k) rows)"
    by (induction rows) (auto simp: key_upd)
  moreover have "find (\<lambda>r. key r = key row) rows \<noteq> None"
    using True by (auto simp: find_None_iff list_ex_iff)
  moreover have "find (\<lambda>r. key r = k) rows = Some r \<Longrightarrow> key r = k" for r
    by (auto simp: find_Some_iff)
  ultimately show ?thesis
    using True by (cases "find (\<lambda>r. key r = k) rows") (auto simp: upsert_def lookup_key_def)
next
  case False
  then have "find (\<lambda>r. key r = key row) rows = None"
    by (auto simp: find_None_iff list_ex_iff)
  with False show ?thesis
    by (auto simp: upsert_def lookup_key_def find_append split: option.splits)
qed

lemma set_upsert: "r \<in> set (upsert key upd row rows) \<Longrightarrow> r = row \<or> r \<in> set rows \<or> (\<exists>q \<in> set rows. r = upd row q)"
  by (auto simp: upsert_def split: if_splits)

lemma upsert_has_key: "\<exists>r \<in> set (upsert key upd row rows). key r = key row"
  using lookup_upsert [of "key row" row rows] by (auto simp: lookup_key_def find_Some_iff)

end

lemma lookup_delete: "\<not> P' k \<Longrightarrow> (\<And>r. P r \<longleftrightarrow> P' (key r)) \<Longrightarrow> lookup_key key k (delete_where P rows) = lookup_key key k rows"
  by (induction rows) (auto simp: lookup_key_def delete_where_def)

lemma sort_key_hd_max:
  fixes f :: "'r \<Rightarrow> 'o :: linorder"
  assumes "rows \<noteq> []"
  shows "hd (sort_key f rows) \<in> set rows \<and> (\<forall>r \<in> set rows. f (hd (sort_key f rows)) \<le> f r)"
proof -
  have "sort_key f rows \<noteq> []" using assms by (metis length_0_conv length_sort)
  then obtain x xs where s: "sort_key f rows = x # xs" by (cases "sort_key f rows") auto
  have "sorted (map f (x # xs))" using s sorted_sort_key [of f rows] by simp
  moreover have "set rows = insert x (set xs)" using s set_sort [of f rows] by simp
  ultimately show ?thesis using s by auto
qed

end
