(* ===== verification/QM_MailPolicy.thy ===== *)
theory QM_MailPolicy
  imports QM_Dmarc QM_Wildmat QM_Tables
begin

text \<open>
  The site policy of the SMTP front-ends, \<^verbatim>\<open>src/core/src/mailpolicy.cpp\<close>: hosted domains, aliases,
  access rules, blocklist zones, DKIM keys, send quotas and enforcement switches. The state is one
  record of the tables \<^verbatim>\<open>EnsureSchema\<close> creates. The field \<open>online\<close> says whether DuckDB executes
  statements: when it does not, \<^verbatim>\<open>ExecP\<close> gives a null result and every operation takes its error
  branch. Times are microseconds, as in DuckDB's \<^verbatim>\<open>TIMESTAMP\<close>; \<open>now\<close> is an argument. Columns hold
  no NULL (no statement of the code stores one) and names are ASCII, so SQL's \<^verbatim>\<open>lower\<close> is \<open>Lower\<close>.
\<close>

section \<open>The tables\<close>

record domain_row =
  dm_domain :: string
  dm_kind :: string
  dm_enabled :: bool
  dm_selector :: string
  dm_note :: string

record alias_row =
  al_alias :: string
  al_destination :: string
  al_enabled :: bool

record acl_row =
  ac_id :: int
  ac_scope :: string
  ac_pattern :: string
  ac_action :: string
  ac_enabled :: bool
  ac_note :: string

record zone_row =
  zo_zone :: string
  zo_enabled :: bool

record dkim_key =
  ke_domain :: string
  ke_selector :: string
  ke_private :: string
  ke_public :: string
  ke_algo :: string
  ke_headers :: string
  ke_enabled :: bool
  ke_created :: int

record rate_limit =
  rl_username :: string
  rl_burst_max :: int
  rl_burst_secs :: int
  rl_daily_max :: int
  rl_enabled :: bool

record send_row =
  se_username :: string
  se_rcpt :: string
  se_at :: int

record inbound_verdict =
  in_client_ip :: string
  in_helo :: string
  in_mail_from :: string
  in_rcpt :: string
  in_spf :: string
  in_dkim :: string
  in_dmarc :: string
  in_rbl :: string
  in_disposition :: string
  in_detail :: string

record policy_db =
  online :: bool
  config :: "(string \<times> string) list"
  domains :: "domain_row list"
  aliases :: "alias_row list"
  acl :: "acl_row list"
  acl_seq :: int
  zones :: "zone_row list"
  keys :: "dkim_key list"
  rates :: "rate_limit list"
  send_log :: "send_row list"
  inbound_log :: "inbound_verdict list"
  aide_posts :: "(string \<times> string) list"

type_synonym 'a outcome = "string + 'a"

text \<open>A statement is executed, or the operation reports its message.\<close>

definition exec :: "policy_db \<Rightarrow> string \<Rightarrow> policy_db \<Rightarrow> policy_db outcome" where
  "exec db err db' = (if online db then Inr db' else Inl err)"

definition rows_of :: "policy_db \<Rightarrow> 'r list \<Rightarrow> 'r list" where
  "rows_of db rows = (if online db then rows else [])"

definition GetConfig :: "policy_db \<Rightarrow> string \<Rightarrow> string \<Rightarrow> string" where
  "GetConfig db name dflt =
     (case map_of (rows_of db (config db)) name of None \<Rightarrow> dflt | Some v \<Rightarrow> v)"

definition default_limit :: "string \<Rightarrow> rate_limit" where
  "default_limit user =
     \<lparr>rl_username = user, rl_burst_max = 100, rl_burst_secs = 300, rl_daily_max = 500, rl_enabled = True\<rparr>"

definition config_defaults :: "(string \<times> string) list" where
  "config_defaults = [(''qm_spf_reject'', ''0''), (''qm_dkim_reject'', ''0''), (''qm_dmarc_enforce'', ''1''),
     (''qm_rbl_reject'', ''1''), (''qm_quarantine_room'', ''Junk'')]"

text \<open>The tables of a fresh database are empty; on an existing one only the defaults are filled in.\<close>

definition EnsureSchema :: "policy_db \<Rightarrow> policy_db" where
  "EnsureSchema db =
     (if online db
      then db\<lparr>rates := insert_or_ignore rl_username (default_limit []) (rates db),
              config := fold (insert_or_ignore fst) config_defaults (config db)\<rparr>
      else db)"

section \<open>Domains\<close>

definition PolicyDomainOf :: "string \<Rightarrow> string" where
  "PolicyDomainOf addr = (case find_last (CHR ''@'') addr of None \<Rightarrow> [] | Some k \<Rightarrow> Lower (drop (k + 1) addr))"

definition IsLocalDomain :: "policy_db \<Rightarrow> string \<Rightarrow> bool" where
  "IsLocalDomain db domain =
     (if domain = [] then True
      else let want = Lower domain; fqdn = Lower (GetConfig db ''c_fqdn'' [])
           in if fqdn \<noteq> [] \<and> want = fqdn then True
              else list_ex (\<lambda>d. Lower (dm_domain d) = want \<and> dm_enabled d \<and> dm_kind d = ''local'')
                     (rows_of db (domains db)))"

definition ListDomains :: "policy_db \<Rightarrow> domain_row list" where
  "ListDomains db = sort_key dm_domain (rows_of db (domains db))"

definition new_domain :: "string \<Rightarrow> string \<Rightarrow> string \<Rightarrow> domain_row" where
  "new_domain domain k selector =
     \<lparr>dm_domain = domain, dm_kind = k, dm_enabled = True, dm_selector = selector, dm_note = []\<rparr>"

definition set_kind :: "domain_row \<Rightarrow> domain_row \<Rightarrow> domain_row" where
  "set_kind excluded d = d\<lparr>dm_kind := dm_kind excluded, dm_enabled := True\<rparr>"

definition AddDomain :: "policy_db \<Rightarrow> string \<Rightarrow> string \<Rightarrow> policy_db outcome" where
  "AddDomain db domain knd =
     (if domain = [] then Inl ''domain is required''
      else let k = Lower (if knd = [] then ''local'' else knd)
           in if k \<noteq> ''local'' \<and> k \<noteq> ''relay'' then Inl (''kind must be 'local' or 'relay'' @ [CHR 0x27])
              else exec db ''could not add the domain''
                     (db\<lparr>domains := upsert dm_domain set_kind (new_domain (Lower domain) k []) (domains db)\<rparr>))"

definition RemoveDomain :: "policy_db \<Rightarrow> string \<Rightarrow> policy_db outcome" where
  "RemoveDomain db domain =
     exec db ''could not remove the domain''
       (db\<lparr>domains := delete_where (\<lambda>d. Lower (dm_domain d) = Lower domain) (domains db)\<rparr>)"

section \<open>Aliases\<close>

definition kMaxAliasDepth :: nat where "kMaxAliasDepth = 10"

definition collect :: "policy_db \<Rightarrow> string \<Rightarrow> string list" where
  "collect db key = filter (\<lambda>dest. dest \<noteq> [])
     (map al_destination (filter (\<lambda>a. Lower (al_alias a) = Lower key \<and> al_enabled a) (rows_of db (aliases db))))"

definition ExpandOnce :: "policy_db \<Rightarrow> string \<Rightarrow> string list" where
  "ExpandOnce db addr =
     (let out = collect db addr
      in if out \<noteq> [] then out
         else let domain = PolicyDomainOf addr
              in if domain \<noteq> [] then collect db (CHR ''@'' # domain) else [])"

text \<open>One candidate of the frontier: the keys seen, the result, the next frontier.\<close>

definition expand_candidate ::
  "policy_db \<Rightarrow> string \<Rightarrow> string list \<times> string list \<times> string list \<Rightarrow> string list \<times> string list \<times> string list" where
  "expand_candidate db candidate = (\<lambda>(seen, result, nxt).
     let key = Lower candidate
     in if key \<in> set seen then (seen, result, nxt)
        else let further = ExpandOnce db candidate
             in if further = []
                then (seen @ [key], if candidate \<in> set result then result else result @ [candidate], nxt)
                else (seen @ [key], result, nxt @ further))"

fun expand_loop :: "policy_db \<Rightarrow> nat \<Rightarrow> string list \<Rightarrow> string list \<Rightarrow> string list \<Rightarrow> string list" where
  "expand_loop db 0 frontier seen result = result"
| "expand_loop db (Suc n) frontier seen result =
     (if frontier = [] then result
      else case fold (expand_candidate db) frontier (seen, result, []) of
             (seen1, result1, nxt) \<Rightarrow> expand_loop db n nxt seen1 result1)"

definition ExpandAlias :: "policy_db \<Rightarrow> string \<Rightarrow> string list" where
  "ExpandAlias db addr =
     (let frontier = ExpandOnce db addr
      in if frontier = [] then frontier else expand_loop db kMaxAliasDepth frontier [Lower addr] [])"

definition AddAlias :: "policy_db \<Rightarrow> string \<Rightarrow> string \<Rightarrow> policy_db outcome" where
  "AddAlias db alias destination =
     (if alias = [] \<or> destination = [] then Inl ''alias and destination are both required''
      else exec db ''could not add the alias''
             (db\<lparr>aliases := aliases db @ [\<lparr>al_alias = Lower alias, al_destination = destination, al_enabled = True\<rparr>]\<rparr>))"

definition RemoveAlias :: "policy_db \<Rightarrow> string \<Rightarrow> string \<Rightarrow> policy_db outcome" where
  "RemoveAlias db alias destination =
     exec db ''could not remove the alias''
       (db\<lparr>aliases := delete_where (\<lambda>a. Lower (al_alias a) = Lower alias
              \<and> (destination = [] \<or> al_destination a = destination)) (aliases db)\<rparr>)"

section \<open>Access rules\<close>

datatype acl_verdict = AclNone | AclAllow | AclBlock

definition cidr_compare :: "8 word list \<Rightarrow> 8 word list \<Rightarrow> int \<Rightarrow> bool" where
  "cidr_compare a b bits0 =
     (let total = int (length a) * 8;
          bits = nat (if bits0 < 0 \<or> bits0 > total then total else bits0);
          whole = bits div 8; rest = bits mod 8
      in if whole > 0 \<and> take whole a \<noteq> take whole b then False
         else if rest = 0 then True
         else (a ! whole) AND prefix_mask rest = (b ! whole) AND prefix_mask rest)"

definition CidrMatch :: "resolver \<Rightarrow> string \<Rightarrow> string \<Rightarrow> bool" where
  "CidrMatch env addr cidr =
     (let (net, bits) = (case find_idx (CHR ''/'') cidr of
            None \<Rightarrow> (cidr, - 1)
          | Some k \<Rightarrow> (take k cidr, atoi (drop (k + 1) cidr)))
      in case (pton4 env (c_str addr), pton4 env (c_str net)) of
           (Some a, Some b) \<Rightarrow> cidr_compare a b bits
         | _ \<Rightarrow> (case (pton6 env (c_str addr), pton6 env (c_str net)) of
                   (Some a, Some b) \<Rightarrow> cidr_compare a b bits
                 | _ \<Rightarrow> False))"

definition IpMatches :: "resolver \<Rightarrow> string \<Rightarrow> string \<Rightarrow> bool" where
  "IpMatches env addr pattern =
     (if addr = [] \<or> pattern = [] then False
      else if CHR ''/'' \<in> set pattern then CidrMatch env addr pattern
      else WildmatMatch (Lower addr) (Lower pattern))"

definition IpMatchesAny :: "resolver \<Rightarrow> string \<Rightarrow> string \<Rightarrow> bool" where
  "IpMatchesAny env addr patterns =
     list_ex (\<lambda>entry. IpMatches env addr (trim_blank entry)) (split_on (CHR '','') patterns)"

definition acl_hit :: "resolver \<Rightarrow> bool \<Rightarrow> string \<Rightarrow> acl_row \<Rightarrow> bool" where
  "acl_hit env is_ip value r =
     (ac_pattern r \<noteq> []
      \<and> (if is_ip \<and> CHR ''/'' \<in> set (ac_pattern r) then CidrMatch env value (ac_pattern r)
         else WildmatMatch (Lower value) (Lower (ac_pattern r))))"

text \<open>The loop over the rules; \<open>blocked\<close> is the note of the first block rule that matched.\<close>

fun acl_loop :: "resolver \<Rightarrow> bool \<Rightarrow> string \<Rightarrow> acl_row list \<Rightarrow> string option \<Rightarrow> acl_verdict \<times> string" where
  "acl_loop env is_ip value [] blocked =
     (case blocked of None \<Rightarrow> (AclNone, []) | Some note \<Rightarrow> (AclBlock, note))"
| "acl_loop env is_ip value (r # rs) blocked =
     (if \<not> acl_hit env is_ip value r then acl_loop env is_ip value rs blocked
      else if Lower (ac_action r) = ''allow''
      then (AclAllow, if ac_note r = [] then ''allowed by rule '' @ [CHR 0x27] @ ac_pattern r @ [CHR 0x27] else ac_note r)
      else if Lower (ac_action r) = ''block'' \<and> blocked = None
      then acl_loop env is_ip value rs
             (Some (if ac_note r = [] then ''blocked by rule '' @ [CHR 0x27] @ ac_pattern r @ [CHR 0x27] else ac_note r))
      else acl_loop env is_ip value rs blocked)"

definition CheckAcl :: "resolver \<Rightarrow> policy_db \<Rightarrow> string \<Rightarrow> string \<Rightarrow> acl_verdict \<times> string" where
  "CheckAcl env db scope value =
     (if value = [] then (AclNone, [])
      else let lscope = Lower scope
           in acl_loop env (lscope = ''ip'' \<or> lscope = ''webadmin'') value
                (sort_key ac_id (filter (\<lambda>r. Lower (ac_scope r) = lscope \<and> ac_enabled r) (rows_of db (acl db)))) None)"

definition AddAcl :: "policy_db \<Rightarrow> string \<Rightarrow> string \<Rightarrow> string \<Rightarrow> string \<Rightarrow> policy_db outcome" where
  "AddAcl db scope pattern action note =
     (let s = Lower scope; a = Lower action
      in if s \<noteq> ''ip'' \<and> s \<noteq> ''sender'' \<and> s \<noteq> ''domain'' \<and> s \<noteq> ''rcpt'' \<and> s \<noteq> ''helo''
         then Inl ''scope must be one of: ip, sender, domain, rcpt, helo''
         else if a \<noteq> ''allow'' \<and> a \<noteq> ''block'' then Inl (''action must be 'allow' or 'block'' @ [CHR 0x27])
         else if pattern = [] then Inl ''pattern is required''
         else exec db ''could not add the rule''
                (db\<lparr>acl := acl db @ [\<lparr>ac_id = acl_seq db, ac_scope = s, ac_pattern = pattern, ac_action = a,
                                       ac_enabled = True, ac_note = note\<rparr>],
                    acl_seq := acl_seq db + 1\<rparr>))"

definition RemoveAcl :: "policy_db \<Rightarrow> int \<Rightarrow> policy_db outcome" where
  "RemoveAcl db i = exec db ''could not remove the rule'' (db\<lparr>acl := delete_where (\<lambda>r. ac_id r = i) (acl db)\<rparr>)"

section \<open>Blocklist zones\<close>

definition RblZones :: "policy_db \<Rightarrow> string list" where
  "RblZones db = filter (\<lambda>z. z \<noteq> []) (sort (map zo_zone (filter zo_enabled (rows_of db (zones db)))))"

definition enable_zone :: "zone_row \<Rightarrow> zone_row \<Rightarrow> zone_row" where
  "enable_zone excluded z = z\<lparr>zo_enabled := True\<rparr>"

definition AddRblZone :: "policy_db \<Rightarrow> string \<Rightarrow> policy_db outcome" where
  "AddRblZone db zone =
     (if zone = [] then Inl ''zone is required''
      else exec db ''could not add the zone''
             (db\<lparr>zones := upsert zo_zone enable_zone \<lparr>zo_zone = Lower zone, zo_enabled = True\<rparr> (zones db)\<rparr>))"

definition RemoveRblZone :: "policy_db \<Rightarrow> string \<Rightarrow> policy_db outcome" where
  "RemoveRblZone db zone =
     exec db ''could not remove the zone'' (db\<lparr>zones := delete_where (\<lambda>z. Lower (zo_zone z) = Lower zone) (zones db)\<rparr>)"

section \<open>DKIM keys\<close>

definition DnsRecord :: "string \<Rightarrow> string" where
  "DnsRecord pub_b64 = ''v=DKIM1; k=rsa; p='' @ pub_b64"

definition key_headers :: string where
  "key_headers = ''from:to:cc:subject:date:message-id:mime-version:content-type:content-transfer-encoding''"

definition LoadKey :: "policy_db \<Rightarrow> string \<Rightarrow> dkim_key option" where
  "LoadKey db domain =
     (case sort_key (\<lambda>k. - ke_created k)
             (filter (\<lambda>k. Lower (ke_domain k) = Lower domain \<and> ke_enabled k) (rows_of db (keys db))) of
        [] \<Rightarrow> None
      | k # _ \<Rightarrow> Some (k\<lparr>ke_enabled := True\<rparr>))"

definition DkimKeyFor :: "rule_map \<Rightarrow> policy_db \<Rightarrow> string \<Rightarrow> dkim_key option" where
  "DkimKeyFor rules db domain =
     (if domain = [] then None
      else case LoadKey db domain of
             Some k \<Rightarrow> Some k
           | None \<Rightarrow> (let org = OrganizationalDomain rules domain
                      in if org \<noteq> Lower domain \<and> org \<noteq> [] then LoadKey db org else None))"

definition ListDkimKeys :: "policy_db \<Rightarrow> dkim_key list" where
  "ListDkimKeys db =
     map (\<lambda>k. k\<lparr>ke_private := []\<rparr>) (sort_key ke_domain (sort_key ke_selector (rows_of db (keys db))))"

definition key_of :: "dkim_key \<Rightarrow> string \<times> string" where
  "key_of k = (ke_domain k, ke_selector k)"

definition new_key :: "string \<Rightarrow> string \<Rightarrow> string \<Rightarrow> string \<Rightarrow> int \<Rightarrow> dkim_key" where
  "new_key domain selector priv pub now =
     \<lparr>ke_domain = domain, ke_selector = selector, ke_private = priv, ke_public = pub, ke_algo = ''rsa-sha256'',
      ke_headers = key_headers, ke_enabled = True, ke_created = now\<rparr>"

definition replace_pair :: "dkim_key \<Rightarrow> dkim_key \<Rightarrow> dkim_key" where
  "replace_pair excluded k = k\<lparr>ke_private := ke_private excluded, ke_public := ke_public excluded, ke_enabled := True\<rparr>"

definition replace_private :: "dkim_key \<Rightarrow> dkim_key \<Rightarrow> dkim_key" where
  "replace_private excluded k = k\<lparr>ke_private := ke_private excluded, ke_enabled := True\<rparr>"

definition set_selector :: "domain_row \<Rightarrow> domain_row \<Rightarrow> domain_row" where
  "set_selector excluded d = d\<lparr>dm_selector := dm_selector excluded\<rparr>"

text \<open>\<open>gen\<close> is what \<^verbatim>\<open>dkim::GenerateKey\<close> obtains from OpenSSL for the given size: an error or the key pair.
  The result carries the DNS record.\<close>

definition GenerateDkimKey ::
  "(int \<Rightarrow> (string \<times> string) outcome) \<Rightarrow> int \<Rightarrow> policy_db \<Rightarrow> string \<Rightarrow> string \<Rightarrow> int \<Rightarrow> (string \<times> policy_db) outcome" where
  "GenerateDkimKey gen now db domain selector bits =
     (if domain = [] \<or> selector = [] then Inl ''domain and selector are both required''
      else case gen bits of
             Inl err \<Rightarrow> Inl err
           | Inr (priv, pub) \<Rightarrow>
               if \<not> online db then Inl ''could not store the generated key''
               else Inr (DnsRecord pub,
                 db\<lparr>keys := upsert key_of replace_pair (new_key (Lower domain) selector priv pub now) (keys db),
                    domains := upsert dm_domain set_selector (new_domain (Lower domain) ''local'' selector) (domains db)\<rparr>))"

definition AddDkimKey :: "int \<Rightarrow> policy_db \<Rightarrow> string \<Rightarrow> string \<Rightarrow> string \<Rightarrow> policy_db outcome" where
  "AddDkimKey now db domain selector private_key_pem =
     (if domain = [] \<or> selector = [] \<or> private_key_pem = []
      then Inl ''domain, selector and private key are all required''
      else exec db ''could not store the key''
             (db\<lparr>keys := upsert key_of replace_private (new_key (Lower domain) selector private_key_pem [] now) (keys db)\<rparr>))"

definition RemoveDkimKey :: "policy_db \<Rightarrow> string \<Rightarrow> string \<Rightarrow> policy_db outcome" where
  "RemoveDkimKey db domain selector =
     exec db ''could not remove the key''
       (db\<lparr>keys := delete_where (\<lambda>k. Lower (ke_domain k) = Lower domain \<and> ke_selector k = selector) (keys db)\<rparr>)"

definition DkimKeyLookup :: "policy_db \<Rightarrow> string \<Rightarrow> string \<Rightarrow> string option" where
  "DkimKeyLookup db selector domain =
     (case find (\<lambda>k. Lower (ke_domain k) = Lower domain \<and> ke_selector k = selector \<and> ke_enabled k) (rows_of db (keys db)) of
        None \<Rightarrow> None
      | Some k \<Rightarrow> if ke_public k = [] then None else Some (DnsRecord (ke_public k)))"

section \<open>Send quotas\<close>

definition LoadLimit :: "policy_db \<Rightarrow> string \<Rightarrow> rate_limit" where
  "LoadLimit db username =
     (case rev (sort_key rl_username (filter (\<lambda>r. rl_username r = username \<or> rl_username r = []) (rows_of db (rates db)))) of
        [] \<Rightarrow> default_limit username
      | r # _ \<Rightarrow> r)"

record rate_verdict =
  rv_allowed :: bool
  rv_reason :: string
  rv_retry_after :: int
  rv_burst_used :: int
  rv_daily_used :: int
  rv_limit :: rate_limit

text \<open>The rows of the send log after \<open>now\<close> less a number of seconds, and the age in seconds of the oldest
  of them: DuckDB's \<^verbatim>\<open>date_diff\<close> counts second boundaries.\<close>

definition window :: "int \<Rightarrow> policy_db \<Rightarrow> string \<Rightarrow> int \<Rightarrow> send_row list" where
  "window now db username secs =
     filter (\<lambda>s. se_username s = username \<and> se_at s > now - secs * 1000000) (rows_of db (send_log db))"

definition oldest :: "int \<Rightarrow> send_row list \<Rightarrow> int" where
  "oldest now rows = (if rows = [] then 0 else now div 1000000 - Min (set (map se_at rows)) div 1000000)"

definition retry_after :: "int \<Rightarrow> int \<Rightarrow> send_row list \<Rightarrow> int" where
  "retry_after now secs rows = max 1 (secs - oldest now rows)"

definition CheckRate :: "int \<Rightarrow> policy_db \<Rightarrow> string \<Rightarrow> int \<Rightarrow> rate_verdict" where
  "CheckRate now db username count0 =
     (let cnt = (if count0 < 1 then 1 else count0);
          lim = LoadLimit db username;
          v = \<lparr>rv_allowed = True, rv_reason = [], rv_retry_after = 0, rv_burst_used = 0, rv_daily_used = 0, rv_limit = lim\<rparr>
      in if \<not> rl_enabled lim then v
         else let burst_secs = (if rl_burst_secs lim > 0 then rl_burst_secs lim else 300);
                  burst = window now db username burst_secs;
                  daily = window now db username 86400;
                  v1 = v\<lparr>rv_burst_used := int (length burst), rv_daily_used := int (length daily)\<rparr>
              in if rl_burst_max lim > 0 \<and> int (length burst) + cnt > rl_burst_max lim
                 then v1\<lparr>rv_allowed := False, rv_retry_after := retry_after now burst_secs burst,
                         rv_reason := ''rate limit exceeded ('' @ to_string (int (length burst)) @ ''/''
                           @ to_string (rl_burst_max lim) @ '' in '' @ to_string burst_secs @ ''s)''\<rparr>
                 else if rl_daily_max lim > 0 \<and> int (length daily) + cnt > rl_daily_max lim
                 then v1\<lparr>rv_allowed := False, rv_retry_after := retry_after now 86400 daily,
                         rv_reason := ''daily limit exceeded ('' @ to_string (int (length daily)) @ ''/''
                           @ to_string (rl_daily_max lim) @ '' in 24h)''\<rparr>
                 else v1)"

definition RecordSend :: "int \<Rightarrow> policy_db \<Rightarrow> string \<Rightarrow> string \<Rightarrow> int \<Rightarrow> policy_db" where
  "RecordSend now db username rcpt cnt =
     (if online db
      then db\<lparr>send_log := send_log db @ replicate (nat cnt) \<lparr>se_username = username, se_rcpt = rcpt, se_at = now\<rparr>\<rparr>
      else db)"

definition replace_limit :: "rate_limit \<Rightarrow> rate_limit \<Rightarrow> rate_limit" where
  "replace_limit excluded r = r\<lparr>rl_burst_max := rl_burst_max excluded, rl_burst_secs := rl_burst_secs excluded,
     rl_daily_max := rl_daily_max excluded, rl_enabled := True\<rparr>"

definition SetRateLimit :: "policy_db \<Rightarrow> string \<Rightarrow> int \<Rightarrow> int \<Rightarrow> int \<Rightarrow> policy_db outcome" where
  "SetRateLimit db username burst_max burst_secs daily_max =
     (if burst_secs \<le> 0 then Inl ''burst_secs must be positive''
      else exec db ''could not set the rate limit''
             (db\<lparr>rates := upsert rl_username replace_limit
                 \<lparr>rl_username = username, rl_burst_max = burst_max, rl_burst_secs = burst_secs,
                  rl_daily_max = daily_max, rl_enabled = True\<rparr> (rates db)\<rparr>))"

definition ListRateLimits :: "policy_db \<Rightarrow> rate_limit list" where
  "ListRateLimits db = sort_key rl_username (rows_of db (rates db))"

definition PruneSendLog :: "int \<Rightarrow> policy_db \<Rightarrow> policy_db" where
  "PruneSendLog now db =
     (if online db then db\<lparr>send_log := delete_where (\<lambda>s. se_at s < now - 90000 * 1000000) (send_log db)\<rparr> else db)"

section \<open>Enforcement and audit\<close>

record enforcement =
  en_spf_reject :: bool
  en_dkim_reject :: bool
  en_dmarc_enforce :: bool
  en_rbl_reject :: bool
  en_quarantine_room :: string

definition config_flag :: "policy_db \<Rightarrow> string \<Rightarrow> bool \<Rightarrow> bool" where
  "config_flag db name dflt =
     (let v = GetConfig db name (if dflt then ''1'' else ''0'')
      in v = ''1'' \<or> Lower v = ''true'' \<or> Lower v = ''yes'' \<or> Lower v = ''on'')"

definition GetEnforcement :: "policy_db \<Rightarrow> enforcement" where
  "GetEnforcement db =
     (let room = GetConfig db ''qm_quarantine_room'' ''Junk''
      in \<lparr>en_spf_reject = config_flag db ''qm_spf_reject'' False,
          en_dkim_reject = config_flag db ''qm_dkim_reject'' False,
          en_dmarc_enforce = config_flag db ''qm_dmarc_enforce'' True,
          en_rbl_reject = config_flag db ''qm_rbl_reject'' True,
          en_quarantine_room = (if room = [] then ''Junk'' else room)\<rparr>)"

definition labelled :: "string \<Rightarrow> string \<Rightarrow> string" where
  "labelled label value = (if value \<noteq> [] then label @ '': '' @ value @ [LF] else [])"

definition LogInbound :: "policy_db \<Rightarrow> inbound_verdict \<Rightarrow> policy_db" where
  "LogInbound db v =
     (let db1 = (if online db then db\<lparr>inbound_log := inbound_log db @ [v]\<rparr> else db)
      in if in_disposition v = ''accept'' \<or> GetConfig db1 ''qm_aide_log_rejects'' ''0'' \<noteq> ''1'' then db1
         else let body = ''Disposition: '' @ in_disposition v @ [LF] @ labelled ''From'' (in_mail_from v)
                    @ labelled ''To'' (in_rcpt v) @ labelled ''Client'' (in_client_ip v) @ labelled ''HELO'' (in_helo v)
                    @ labelled ''SPF'' (in_spf v) @ labelled ''DKIM'' (in_dkim v) @ labelled ''DMARC'' (in_dmarc v)
                    @ labelled ''Blocklist'' (in_rbl v) @ labelled ''Detail'' (in_detail v)
              in db1\<lparr>aide_posts := aide_posts db1 @ [(''Inbound mail '' @ in_disposition v @ '': '' @ in_mail_from v, body)]\<rparr>)"

section \<open>Keys stay unique\<close>

interpretation domain_kinds: keyed_table dm_domain set_kind
  by unfold_locales (simp add: set_kind_def)

interpretation domain_selectors: keyed_table dm_domain set_selector
  by unfold_locales (simp add: set_selector_def)

interpretation zone_table: keyed_table zo_zone enable_zone
  by unfold_locales (simp add: enable_zone_def)

interpretation key_pairs: keyed_table key_of replace_pair
  by unfold_locales (simp add: key_of_def replace_pair_def)

interpretation private_keys: keyed_table key_of replace_private
  by unfold_locales (simp add: key_of_def replace_private_def)

interpretation limit_table: keyed_table rl_username replace_limit
  by unfold_locales (simp add: replace_limit_def)

definition policy_ok :: "policy_db \<Rightarrow> bool" where
  "policy_ok db \<longleftrightarrow> unique_key dm_domain (domains db) \<and> unique_key zo_zone (zones db) \<and> unique_key key_of (keys db)
     \<and> unique_key rl_username (rates db) \<and> unique_key ac_id (acl db) \<and> list_all (\<lambda>r. ac_id r < acl_seq db) (acl db)"

text \<open>Everything the administration and the mail flow do to the tables.\<close>

inductive policy_step :: "policy_db \<Rightarrow> policy_db \<Rightarrow> bool" where
  schema: "policy_step db (EnsureSchema db)"
| add_domain: "AddDomain db d k = Inr db' \<Longrightarrow> policy_step db db'"
| remove_domain: "RemoveDomain db d = Inr db' \<Longrightarrow> policy_step db db'"
| add_alias: "AddAlias db a d = Inr db' \<Longrightarrow> policy_step db db'"
| remove_alias: "RemoveAlias db a d = Inr db' \<Longrightarrow> policy_step db db'"
| add_acl: "AddAcl db sc p a n = Inr db' \<Longrightarrow> policy_step db db'"
| remove_acl: "RemoveAcl db i = Inr db' \<Longrightarrow> policy_step db db'"
| add_zone: "AddRblZone db z = Inr db' \<Longrightarrow> policy_step db db'"
| remove_zone: "RemoveRblZone db z = Inr db' \<Longrightarrow> policy_step db db'"
| generate_key: "GenerateDkimKey gen now db d sel bits = Inr (rec, db') \<Longrightarrow> policy_step db db'"
| add_key: "AddDkimKey now db d sel pem = Inr db' \<Longrightarrow> policy_step db db'"
| remove_key: "RemoveDkimKey db d sel = Inr db' \<Longrightarrow> policy_step db db'"
| record_send: "policy_step db (RecordSend now db u r n)"
| set_limit: "SetRateLimit db u bm bs dm = Inr db' \<Longrightarrow> policy_step db db'"
| prune: "policy_step db (PruneSendLog now db)"
| log: "policy_step db (LogInbound db v)"
| switch: "policy_step db (db\<lparr>online := b\<rparr>)"

lemma exec_Inr [simp]: "exec db err db1 = Inr db2 \<longleftrightarrow> online db \<and> db2 = db1"
  by (auto simp: exec_def)

lemmas policy_defs = EnsureSchema_def AddDomain_def RemoveDomain_def AddAlias_def RemoveAlias_def AddAcl_def
  RemoveAcl_def AddRblZone_def RemoveRblZone_def GenerateDkimKey_def AddDkimKey_def RemoveDkimKey_def
  RecordSend_def SetRateLimit_def PruneSendLog_def LogInbound_def

lemmas policy_keys = unique_key_insert unique_key_delete domain_kinds.unique_upsert domain_selectors.unique_upsert
  zone_table.unique_upsert key_pairs.unique_upsert private_keys.unique_upsert limit_table.unique_upsert

lemma list_all_delete: "list_all P rows \<Longrightarrow> list_all P (delete_where Q rows)"
  by (auto simp: list_all_iff delete_where_def)

lemma acl_append_ok:
  assumes "unique_key ac_id rules" "list_all (\<lambda>r. ac_id r < n) rules" "ac_id r = n"
  shows "unique_key ac_id (rules @ [r]) \<and> list_all (\<lambda>r. ac_id r < n + 1) (rules @ [r])"
  using assms by (fastforce simp: unique_key_def list_all_iff)


definition fresh_db :: policy_db where
  "fresh_db = \<lparr>online = True, config = [], domains = [], aliases = [], acl = [], acl_seq = 1, zones = [], keys = [],
     rates = [], send_log = [], inbound_log = [], aide_posts = []\<rparr>"


section \<open>Allow beats block\<close>

lemma acl_loop_verdict:
  "fst (acl_loop env is_ip value rs blocked) =
     (if list_ex (\<lambda>r. acl_hit env is_ip value r \<and> Lower (ac_action r) = ''allow'') rs then AclAllow
      else if blocked \<noteq> None \<or> list_ex (\<lambda>r. acl_hit env is_ip value r \<and> Lower (ac_action r) = ''block'') rs then AclBlock
      else AclNone)"
  by (induction env is_ip "value" rs blocked rule: acl_loop.induct) (auto split: option.splits)

text \<open>An enabled rule of the scope that matches the value.\<close>

definition acl_applies :: "resolver \<Rightarrow> string \<Rightarrow> string \<Rightarrow> acl_row \<Rightarrow> bool" where
  "acl_applies env scope value r \<longleftrightarrow> ac_enabled r \<and> Lower (ac_scope r) = Lower scope
     \<and> acl_hit env (Lower scope = ''ip'' \<or> Lower scope = ''webadmin'') value r"

text \<open>The verdict of the access rules does not depend on their order: a value is allowed when some
  enabled rule of the scope that matches it says allow, blocked when none does and some such rule
  says block, and undecided otherwise.\<close>

theorem CheckAcl_allow_beats_block:
  assumes "online db" "value \<noteq> []"
  shows "fst (CheckAcl env db scope value) =
    (if list_ex (\<lambda>r. acl_applies env scope value r \<and> Lower (ac_action r) = ''allow'') (acl db) then AclAllow
     else if list_ex (\<lambda>r. acl_applies env scope value r \<and> Lower (ac_action r) = ''block'') (acl db) then AclBlock
     else AclNone)"
proof -
  have e: "list_ex (\<lambda>r. acl_hit env (Lower scope = ''ip'' \<or> Lower scope = ''webadmin'') value r \<and> Lower (ac_action r) = act)
        (sort_key ac_id (filter (\<lambda>r. Lower (ac_scope r) = Lower scope \<and> ac_enabled r) (rows_of db (acl db))))
      \<longleftrightarrow> list_ex (\<lambda>r. acl_applies env scope value r \<and> Lower (ac_action r) = act) (acl db)" for act
    using assms(1) by (auto simp: list_ex_iff acl_applies_def rows_of_def)
  show ?thesis
    unfolding CheckAcl_def Let_def if_not_P [OF assms(2)] acl_loop_verdict e by simp
qed

definition acl_test_db :: policy_db where
  "acl_test_db = fresh_db\<lparr>acl :=
     [\<lparr>ac_id = 1, ac_scope = ''domain'', ac_pattern = ''*.test'', ac_action = ''block'', ac_enabled = True, ac_note = []\<rparr>,
      \<lparr>ac_id = 2, ac_scope = ''domain'', ac_pattern = ''good.test'', ac_action = ''allow'', ac_enabled = True, ac_note = []\<rparr>]\<rparr>"

theorem CheckAcl_allow_beats_block_witness:
  "fst (CheckAcl test_net acl_test_db ''domain'' ''good.test'') = AclAllow
   \<and> fst (CheckAcl test_net acl_test_db ''domain'' ''bad.test'') = AclBlock"
proof -
  have on: "online acl_test_db" by (simp add: acl_test_db_def fresh_db_def)
  have "list_ex (\<lambda>r. acl_applies test_net ''domain'' ''good.test'' r \<and> Lower (ac_action r) = ''allow'') (acl acl_test_db)"
    by code_simp
  moreover have "\<not> list_ex (\<lambda>r. acl_applies test_net ''domain'' ''bad.test'' r \<and> Lower (ac_action r) = ''allow'') (acl acl_test_db)"
    "list_ex (\<lambda>r. acl_applies test_net ''domain'' ''bad.test'' r \<and> Lower (ac_action r) = ''block'') (acl acl_test_db)"
    by code_simp+
  ultimately show ?thesis
    using CheckAcl_allow_beats_block [OF on, of "''good.test''" test_net "''domain''"]
      CheckAcl_allow_beats_block [OF on, of "''bad.test''" test_net "''domain''"] by simp
qed

section \<open>Alias expansion\<close>

text \<open>The alias graph on lower-case keys: expansion of a name depends on its lower case only.\<close>

definition alias_edge :: "policy_db \<Rightarrow> string \<Rightarrow> string \<Rightarrow> bool" where
  "alias_edge db x y \<longleftrightarrow> (\<exists>d \<in> set (ExpandOnce db x). y = Lower d)"

lemma find_last_Lower: "find_last (CHR ''@'') (Lower addr) = find_last (CHR ''@'') addr"
proof -
  have "byte (tolower c) = byte (CHR ''@'') \<longleftrightarrow> byte c = byte (CHR ''@'')" for c
    by (auto simp: byte_tolower)
  then have at: "tolower c = CHR ''@'' \<longleftrightarrow> c = CHR ''@''" for c
    by (metis of_char_eq_iff)
  have "find_idx (CHR ''@'') (map tolower s) = find_idx (CHR ''@'') s" for s
    by (induction s) (auto simp: at)
  from this [of "rev addr"] show ?thesis
    by (simp add: find_last_def Lower_def rev_map)
qed

lemma PolicyDomainOf_Lower: "PolicyDomainOf (Lower addr) = PolicyDomainOf addr"
  unfolding PolicyDomainOf_def find_last_Lower
  by (simp add: Lower_def drop_map split: option.splits)

lemma ExpandOnce_Lower: "ExpandOnce db (Lower addr) = ExpandOnce db addr"
  unfolding ExpandOnce_def PolicyDomainOf_Lower by (simp add: collect_def)

lemma ExpandOnce_cong: "Lower x = Lower y \<Longrightarrow> ExpandOnce db x = ExpandOnce db y"
  by (metis ExpandOnce_Lower)

text \<open>What holds between the rounds: every key seen has its successors seen or waiting, every terminal
  key seen other than the start is in the result, and the result holds terminal addresses with
  distinct keys that were seen, all of them reached from the start.\<close>

definition expand_inv :: "policy_db \<Rightarrow> string \<Rightarrow> string list \<Rightarrow> string list \<Rightarrow> string list \<Rightarrow> bool" where
  "expand_inv db start frontier seen result \<longleftrightarrow>
     (\<forall>x \<in> set seen. \<forall>y. alias_edge db x y \<longrightarrow> y \<in> set seen \<union> Lower ` set frontier)
     \<and> (\<forall>x \<in> set seen. x \<noteq> start \<longrightarrow> ExpandOnce db x = [] \<longrightarrow> x \<in> Lower ` set result)
     \<and> (\<forall>r \<in> set result. ExpandOnce db r = [] \<and> Lower r \<in> set seen \<and> Lower r \<noteq> start) \<and> distinct (map Lower result)
     \<and> (\<forall>c \<in> set frontier \<union> set result. (alias_edge db)\<^sup>+\<^sup>+ start (Lower c)) \<and> start \<in> set seen"

lemma expand_candidate_inv:
  assumes "expand_inv db start (c # cs @ nxt) seen result"
    and "expand_candidate db c (seen, result, nxt) = (seen1, result1, nxt1)"
  shows "expand_inv db start (cs @ nxt1) seen1 result1 \<and> set seen1 = insert (Lower c) (set seen)"
proof (cases "Lower c \<in> set seen")
  case True
  then have "seen1 = seen" "result1 = result" "nxt1 = nxt"
    using assms(2) by (simp_all add: expand_candidate_def)
  with True assms(1) show ?thesis by (auto simp: expand_inv_def)
next
  case new: False
  then have "c \<notin> set result" using assms(1) by (auto simp: expand_inv_def)
  have edge: "alias_edge db (Lower c) y \<longleftrightarrow> y \<in> Lower ` set (ExpandOnce db c)" for y
    by (auto simp: alias_edge_def ExpandOnce_Lower)
  show ?thesis
  proof (cases "ExpandOnce db c = []")
    case True
    then have "seen1 = seen @ [Lower c]" "result1 = result @ [c]" "nxt1 = nxt"
      using assms(2) new \<open>c \<notin> set result\<close> by (simp_all add: expand_candidate_def)
    with True assms(1) new edge show ?thesis
      by (auto simp: expand_inv_def ExpandOnce_Lower)
  next
    case False
    then have "seen1 = seen @ [Lower c]" "result1 = result" "nxt1 = nxt @ ExpandOnce db c"
      using assms(2) new by (simp_all add: expand_candidate_def)
    moreover have "(alias_edge db)\<^sup>+\<^sup>+ start (Lower f)" if "f \<in> set (ExpandOnce db c)" for f
      using assms(1) edge that by (auto simp: expand_inv_def intro: tranclp.trancl_into_trancl)
    ultimately show ?thesis
      using False assms(1) edge by (auto simp: expand_inv_def ExpandOnce_Lower image_Un)
  qed
qed

lemma expand_round_inv:
  assumes "expand_inv db start (frontier @ nxt) seen result"
    and "fold (expand_candidate db) frontier (seen, result, nxt) = (seen1, result1, nxt1)"
  shows "expand_inv db start nxt1 seen1 result1 \<and> set seen1 = set seen \<union> Lower ` set frontier"
  using assms
proof (induction frontier arbitrary: seen result nxt)
  case (Cons c cs)
  obtain s r n where e: "expand_candidate db c (seen, result, nxt) = (s, r, n)" by (metis prod_cases3)
  have "expand_inv db start (cs @ n) s r \<and> set s = insert (Lower c) (set seen)"
    by (rule expand_candidate_inv [OF _ e]) (use Cons.prems in simp)
  with Cons.IH [of n s r] Cons.prems(2) e show ?case by auto
qed simp

lemma expand_loop_sound:
  assumes "expand_inv db start frontier seen result"
  shows "\<exists>seen' frontier'. expand_inv db start frontier' seen' (expand_loop db n frontier seen result)"
  using assms
proof (induction n arbitrary: frontier seen result)
  case (Suc n)
  obtain s r f where e: "fold (expand_candidate db) frontier (seen, result, []) = (s, r, f)" by (metis prod_cases3)
  with Suc.IH [of f s r] expand_round_inv [OF _ e] Suc.prems show ?case by auto
qed auto

lemma expand_loop_complete:
  assumes "expand_inv db start frontier seen result"
    and "x \<in> set seen" "(alias_edge db ^^ m) x y" "m \<le> n" "y \<noteq> start" "ExpandOnce db y = []"
  shows "y \<in> Lower ` set (expand_loop db n frontier seen result)"
  using assms(1-4)
proof (induction n arbitrary: frontier seen result x m)
  case 0
  then show ?case using assms(5,6) by (auto simp: expand_inv_def)
next
  case (Suc n)
  show ?case
  proof (cases "frontier = []")
    case True
    have "z \<in> set seen" if "(alias_edge db ^^ k) x z" for k z
      using that Suc.prems(1,2) True by (induction k arbitrary: z) (auto simp: expand_inv_def)
    then show ?thesis
      using Suc.prems(1,3) True assms(5,6) by (auto simp: expand_inv_def)
  next
    case False
    obtain s r f where e: "fold (expand_candidate db) frontier (seen, result, []) = (s, r, f)" by (metis prod_cases3)
    have inv: "expand_inv db start f s r" and s: "set s = set seen \<union> Lower ` set frontier"
      using expand_round_inv [OF _ e] Suc.prems(1) by simp_all
    have "\<exists>k z. k \<le> n \<and> z \<in> set s \<and> (alias_edge db ^^ k) z y"
    proof (cases m)
      case 0
      then show ?thesis using Suc.prems(2,3) s by auto
    next
      case (Suc k)
      then obtain z where z: "alias_edge db x z" "(alias_edge db ^^ k) z y"
        using Suc.prems(3) relpowp_Suc_D2 by metis
      then have "z \<in> set s" using Suc.prems(1,2) s by (auto simp: expand_inv_def)
      with z(2) Suc Suc.prems(4) show ?thesis by auto
    qed
    then obtain k z where "k \<le> n" "z \<in> set s" "(alias_edge db ^^ k) z y" by blast
    from Suc.IH [OF inv this(2,3,1)] e False show ?thesis by simp
  qed
qed

lemma alias_edge_Lower: "alias_edge db (Lower x) y \<longleftrightarrow> y \<in> Lower ` set (ExpandOnce db x)"
  by (auto simp: alias_edge_def ExpandOnce_Lower)

lemma expand_start:
  "ExpandOnce db addr \<noteq> [] \<Longrightarrow> expand_inv db (Lower addr) (ExpandOnce db addr) [Lower addr] []"
  by (auto simp: expand_inv_def alias_edge_Lower ExpandOnce_Lower intro!: tranclp.r_into_trancl)

text \<open>C36. Alias expansion ends on every table, cyclic or not, and its result is right: each address in it
  is reached from the start through aliases and expands no further, no two are the same up to
  case, the start itself is not among them, and every final address that at most ten alias
  steps away (other than the start) is found.\<close>

theorem ExpandAlias_correct:
  "list_all (\<lambda>r. ExpandOnce db r = [] \<and> Lower r \<noteq> Lower addr \<and> (alias_edge db)\<^sup>+\<^sup>+ (Lower addr) (Lower r)) (ExpandAlias db addr)
   \<and> distinct (map Lower (ExpandAlias db addr))
   \<and> {y. \<exists>m \<le> kMaxAliasDepth. (alias_edge db ^^ m) (Lower addr) y \<and> y \<noteq> Lower addr \<and> ExpandOnce db y = []}
      \<subseteq> Lower ` set (ExpandAlias db addr)"
proof (cases "ExpandOnce db addr = []")
  case True
  have "y = Lower addr" if "(alias_edge db ^^ m) (Lower addr) y" for m y
    using that True by (induction m arbitrary: y) (fastforce simp: alias_edge_Lower)+
  with True show ?thesis by (auto simp: ExpandAlias_def)
next
  case False
  note start = expand_start [OF False]
  have result: "ExpandAlias db addr = expand_loop db kMaxAliasDepth (ExpandOnce db addr) [Lower addr] []"
    using False by (simp add: ExpandAlias_def Let_def)
  obtain f s where "expand_inv db (Lower addr) f s (ExpandAlias db addr)"
    using expand_loop_sound [OF start] unfolding result by blast
  moreover have "y \<in> Lower ` set (ExpandAlias db addr)"
    if "m \<le> kMaxAliasDepth" "(alias_edge db ^^ m) (Lower addr) y" "y \<noteq> Lower addr" "ExpandOnce db y = []" for m y
    unfolding result by (rule expand_loop_complete [OF start _ that(2,1,3,4)]) simp
  ultimately show ?thesis
    by (auto simp: expand_inv_def list_all_iff)
qed

section \<open>Quotas\<close>

text \<open>A submission as \<^verbatim>\<open>smtp_out\<close> performs it: the quota is checked for the number of recipients, one
  row is recorded for each, and the log is pruned. The history keeps every send ever made.\<close>

definition sends :: "int \<Rightarrow> string \<Rightarrow> string list \<Rightarrow> send_row list" where
  "sends now user rcpts = map (\<lambda>r. \<lparr>se_username = user, se_rcpt = r, se_at = now\<rparr>) rcpts"

definition charge_all :: "int \<Rightarrow> string \<Rightarrow> string list \<Rightarrow> policy_db \<Rightarrow> policy_db" where
  "charge_all now user rcpts db = fold (\<lambda>r d. RecordSend now d user r 1) rcpts db"

inductive quota_run :: "policy_db \<Rightarrow> send_row list \<Rightarrow> int \<Rightarrow> policy_db \<Rightarrow> bool" for db0 where
  start: "quota_run db0 [] t db0"
| submit: "quota_run db0 hist t db \<Longrightarrow> t \<le> now \<Longrightarrow> rcpts \<noteq> [] \<Longrightarrow>
    rv_allowed (CheckRate now db user (int (length rcpts))) \<Longrightarrow>
    quota_run db0 (hist @ sends now user rcpts) now (PruneSendLog now (charge_all now user rcpts db))"

lemma charge_all_log:
  "online db \<Longrightarrow> charge_all now user rcpts db = db\<lparr>send_log := send_log db @ sends now user rcpts\<rparr>"
  unfolding charge_all_def sends_def
  by (induction rcpts arbitrary: db) (simp_all add: RecordSend_def)

lemma LoadLimit_cong:
  "online db = online db1 \<Longrightarrow> rates db = rates db1 \<Longrightarrow> LoadLimit db user = LoadLimit db1 user"
  by (simp add: LoadLimit_def rows_of_def)

definition recent :: "int \<Rightarrow> send_row \<Rightarrow> bool" where
  "recent t s \<longleftrightarrow> se_at s \<ge> t - 90000 * 1000000"

lemma quota_run_log:
  assumes "quota_run db0 hist t db" "online db0" "send_log db0 = []"
  shows "online db \<and> rates db = rates db0 \<and> filter (recent t) hist = filter (recent t) (send_log db)
    \<and> list_all (\<lambda>s. se_at s \<le> t) hist"
  using assms
proof (induction rule: quota_run.induct)
  case (submit hist t db now rcpts user)
  then have IH: "online db" "rates db = rates db0" "filter (recent t) hist = filter (recent t) (send_log db)"
      "list_all (\<lambda>s. se_at s \<le> t) hist"
    by simp_all
  have "filter (recent now) (filter (recent t) rows) = filter (recent now) rows" for rows
    using submit.hyps(2) by (auto simp: recent_def intro!: filter_cong)
  then have "filter (recent now) hist = filter (recent now) (send_log db)"
    using IH(3) by metis
  moreover have "send_log (PruneSendLog now (charge_all now user rcpts db))
      = filter (recent now) (send_log db @ sends now user rcpts)"
    using IH(1) by (simp add: PruneSendLog_def charge_all_log delete_where_def recent_def [abs_def] not_less)
  moreover have "list_all (\<lambda>s. se_at s \<le> now) (hist @ sends now user rcpts)"
    using IH(4) submit.hyps(2) by (auto simp: list_all_iff sends_def)
  ultimately show ?case
    using IH(1,2) by (simp add: PruneSendLog_def charge_all_log)
qed simp

text \<open>The sends of a user in the window of \<open>secs\<close> seconds that ends at \<open>\<tau>\<close>.\<close>

definition in_window :: "string \<Rightarrow> int \<Rightarrow> int \<Rightarrow> send_row list \<Rightarrow> nat" where
  "in_window user secs \<tau> hist =
     length (filter (\<lambda>s. se_username s = user \<and> se_at s > \<tau> - secs * 1000000 \<and> se_at s \<le> \<tau>) hist)"

lemma window_history:
  assumes "online db" "filter (recent t) hist = filter (recent t) (send_log db)" "t \<le> now" "secs \<le> 90000"
  shows "window now db user secs = filter (\<lambda>s. se_username s = user \<and> se_at s > now - secs * 1000000) hist"
proof -
  have "filter (\<lambda>s. se_username s = user \<and> se_at s > now - secs * 1000000) (filter (recent t) rows)
      = filter (\<lambda>s. se_username s = user \<and> se_at s > now - secs * 1000000) rows" for rows
    using assms(3,4) by (auto simp: recent_def intro!: filter_cong)
  from this [of "send_log db"] this [of hist] show ?thesis
    using assms(1,2) by (simp add: window_def rows_of_def)
qed

lemma length_filter_mono: "(\<And>x. P x \<Longrightarrow> Q x) \<Longrightarrow> length (filter P xs) \<le> length (filter Q xs)"
  by (induction xs) (auto simp: le_SucI)

lemma in_window_submit:
  assumes "\<And>\<tau>. int (in_window user secs \<tau> hist) \<le> limit" "0 \<le> secs"
    and "int (length (filter (\<lambda>s. se_username s = user \<and> se_at s > now - secs * 1000000) hist)) + int (length rcpts) \<le> limit"
  shows "int (in_window user secs \<tau> (hist @ sends now user rcpts)) \<le> limit"
proof (cases "now \<le> \<tau>")
  case True
  let ?P = "\<lambda>s. se_username s = user \<and> se_at s > now - secs * 1000000"
  have "length (filter (\<lambda>s. se_username s = user \<and> se_at s > \<tau> - secs * 1000000 \<and> se_at s \<le> \<tau>) hist)
      \<le> length (filter ?P hist)"
    using True by (intro length_filter_mono) auto
  moreover have "length (filter (\<lambda>s. se_username s = user \<and> se_at s > \<tau> - secs * 1000000 \<and> se_at s \<le> \<tau>)
      (sends now user rcpts)) \<le> length rcpts"
    using length_filter_le [of _ "sends now user rcpts"] by (simp add: sends_def)
  ultimately show ?thesis
    using assms(3) by (simp add: in_window_def)
next
  case False
  then have "filter (\<lambda>s. se_username s = user \<and> se_at s > \<tau> - secs * 1000000 \<and> se_at s \<le> \<tau>) (sends now user rcpts) = []"
    by (auto simp: sends_def filter_empty_conv)
  with assms(1) [of \<tau>] show ?thesis by (simp add: in_window_def)
qed

lemma in_window_other:
  "u \<noteq> user \<Longrightarrow> in_window user secs \<tau> (hist @ sends now u rcpts) = in_window user secs \<tau> hist"
  by (simp add: in_window_def sends_def filter_empty_conv)

lemma CheckRate_allowed:
  assumes "rv_allowed (CheckRate now db user n)" "lim = LoadLimit db user" "rl_enabled lim" "0 < rl_burst_secs lim" "1 \<le> n"
  shows "(0 < rl_burst_max lim \<longrightarrow> int (length (window now db user (rl_burst_secs lim))) + n \<le> rl_burst_max lim)
    \<and> (0 < rl_daily_max lim \<longrightarrow> int (length (window now db user 86400)) + n \<le> rl_daily_max lim)"
  using assms by (auto simp: CheckRate_def Let_def split: if_splits)

lemma quota_run_bound:
  assumes "quota_run db0 hist t db" "online db0" "send_log db0 = []" "0 \<le> secs" "secs \<le> 90000" "0 \<le> limit"
    and "\<And>now d n. online d \<Longrightarrow> rates d = rates db0 \<Longrightarrow> 1 \<le> n \<Longrightarrow> rv_allowed (CheckRate now d user n) \<Longrightarrow>
           int (length (window now d user secs)) + n \<le> limit"
  shows "int (in_window user secs \<tau> hist) \<le> limit"
  using assms(1)
proof (induction arbitrary: \<tau> rule: quota_run.induct)
  case (start t)
  then show ?case using assms(6) by (simp add: in_window_def)
next
  case (submit hist t db now rcpts u)
  note log = quota_run_log [OF submit.hyps(1) assms(2,3)]
  show ?case
  proof (cases "u = user")
    case True
    have n: "1 \<le> int (length rcpts)" using submit.hyps(3) by (cases rcpts) simp_all
    have "int (length (window now db user secs)) + int (length rcpts) \<le> limit"
      by (rule assms(7)) (use log submit.hyps(4) True n in simp_all)
    moreover have "window now db user secs = filter (\<lambda>s. se_username s = user \<and> se_at s > now - secs * 1000000) hist"
      by (rule window_history) (use log submit.hyps(2) assms(5) in simp_all)
    ultimately show ?thesis
      using in_window_submit [OF submit.IH assms(4)] True by simp
  next
    case False
    then show ?thesis using in_window_other submit.IH by simp
  qed
qed

text \<open>The send quotas hold over the whole history, not only over the log the code keeps: when
  submissions are checked and recorded one after another, then no window of the user's burst
  length ever contains more sends than the burst limit and no 24 hours more than the daily
  limit, although the log is pruned after every submission. The burst window must not exceed
  the 25 hours that pruning keeps.\<close>

theorem quota_respected:
  assumes "quota_run db0 hist t db" "online db0" "send_log db0 = []" "lim = LoadLimit db0 user" "rl_enabled lim"
    and "0 < rl_burst_secs lim" "rl_burst_secs lim \<le> 90000"
  shows "(0 < rl_burst_max lim \<longrightarrow> int (in_window user (rl_burst_secs lim) \<tau> hist) \<le> rl_burst_max lim)
    \<and> (0 < rl_daily_max lim \<longrightarrow> int (in_window user 86400 \<tau> hist) \<le> rl_daily_max lim)"
proof (intro conjI impI)
  have lim: "LoadLimit d user = lim" if "online d" "rates d = rates db0" for d
    using LoadLimit_cong [of d db0] that assms(2,4) by simp
  have allowed: "(0 < rl_burst_max lim \<longrightarrow> int (length (window now d user (rl_burst_secs lim))) + n \<le> rl_burst_max lim)
      \<and> (0 < rl_daily_max lim \<longrightarrow> int (length (window now d user 86400)) + n \<le> rl_daily_max lim)"
    if "online d" "rates d = rates db0" "1 \<le> n" "rv_allowed (CheckRate now d user n)" for now d n
    by (rule CheckRate_allowed [OF that(4) _ assms(5,6) that(3)]) (use lim that in simp)
  show "int (in_window user (rl_burst_secs lim) \<tau> hist) \<le> rl_burst_max lim" if "0 < rl_burst_max lim"
    by (rule quota_run_bound [OF assms(1-3)]) (use that assms(6,7) allowed in auto)
  show "int (in_window user 86400 \<tau> hist) \<le> rl_daily_max lim" if "0 < rl_daily_max lim"
    by (rule quota_run_bound [OF assms(1-3)]) (use that allowed in auto)
qed

definition quota_test_db :: policy_db where
  "quota_test_db = fresh_db\<lparr>rates := [\<lparr>rl_username = [], rl_burst_max = 2, rl_burst_secs = 60, rl_daily_max = 5, rl_enabled = True\<rparr>]\<rparr>"

theorem quota_respected_witness:
  "int (in_window ''u'' 60 7 ([] @ sends 7 ''u'' [''a'', ''b''])) \<le> 2"
proof -
  have on: "online quota_test_db" "send_log quota_test_db = []"
    by (simp_all add: quota_test_db_def fresh_db_def)
  have lim: "LoadLimit quota_test_db ''u'' = \<lparr>rl_username = [], rl_burst_max = 2, rl_burst_secs = 60, rl_daily_max = 5, rl_enabled = True\<rparr>"
    by (simp add: LoadLimit_def quota_test_db_def fresh_db_def rows_of_def)
  have "window 7 quota_test_db ''u'' secs = []" for secs
    by (simp add: window_def rows_of_def quota_test_db_def fresh_db_def)
  then have "rv_allowed (CheckRate 7 quota_test_db ''u'' (int (length [''a'', ''b''])))"
    by (simp add: CheckRate_def Let_def lim)
  then have "quota_run quota_test_db ([] @ sends 7 ''u'' [''a'', ''b'']) 7
      (PruneSendLog 7 (charge_all 7 ''u'' [''a'', ''b''] quota_test_db))"
    by (intro quota_run.submit [OF quota_run.start [of _ 0]]) simp_all
  from quota_respected [OF this on refl, of "''u''" 7] show ?thesis
    by (simp add: lim)
qed

definition long_window_db :: policy_db where
  "long_window_db = fresh_db\<lparr>
     rates := [\<lparr>rl_username = ''u'', rl_burst_max = 1, rl_burst_secs = 172800, rl_daily_max = 0, rl_enabled = True\<rparr>],
     send_log := [\<lparr>se_username = ''u'', se_rcpt = ''r'', se_at = 0\<rparr>]\<rparr>"

text \<open>A defect: \<open>SetRateLimit\<close> accepts any positive window, but \<open>PruneSendLog\<close> forgets sends after
  25 hours. With a window of two days, pruning turns a refusal into a permission.\<close>

theorem PruneSendLog_long_window:
  "SetRateLimit fresh_db ''u'' 1 172800 0 = Inr (fresh_db\<lparr>rates := rates long_window_db\<rparr>)
   \<and> \<not> rv_allowed (CheckRate (100000 * 1000000) long_window_db ''u'' 1)
   \<and> rv_allowed (CheckRate (100000 * 1000000) (PruneSendLog (100000 * 1000000) long_window_db) ''u'' 1)"
proof (intro conjI)
  show "SetRateLimit fresh_db ''u'' 1 172800 0 = Inr (fresh_db\<lparr>rates := rates long_window_db\<rparr>)"
    by (simp add: SetRateLimit_def exec_def fresh_db_def long_window_db_def upsert_def)
  have lim: "LoadLimit db ''u'' = hd (rates long_window_db)" if "online db" "rates db = rates long_window_db" for db
    using that by (simp add: LoadLimit_def rows_of_def long_window_db_def)
  show "\<not> rv_allowed (CheckRate (100000 * 1000000) long_window_db ''u'' 1)"
    using lim [of long_window_db]
    by (simp add: CheckRate_def Let_def long_window_db_def window_def rows_of_def fresh_db_def)
  show "rv_allowed (CheckRate (100000 * 1000000) (PruneSendLog (100000 * 1000000) long_window_db) ''u'' 1)"
    using lim [of "PruneSendLog (100000 * 1000000) long_window_db"]
    by (simp add: CheckRate_def Let_def long_window_db_def window_def rows_of_def fresh_db_def PruneSendLog_def delete_where_def)
qed

section \<open>Hosted domains\<close>

definition host_row :: "string \<Rightarrow> domain_row \<Rightarrow> bool" where
  "host_row want d \<longleftrightarrow> Lower (dm_domain d) = want \<and> dm_enabled d \<and> dm_kind d = ''local''"

lemma IsLocalDomain_rows:
  "online db \<Longrightarrow> IsLocalDomain db x \<longleftrightarrow> x = [] \<or> (Lower (GetConfig db ''c_fqdn'' []) \<noteq> [] \<and> Lower x = Lower (GetConfig db ''c_fqdn'' []))
     \<or> list_ex (host_row (Lower x)) (domains db)"
  by (auto simp: IsLocalDomain_def Let_def rows_of_def host_row_def [abs_def])

lemma host_row_upsert:
  "list_ex (host_row want) (upsert dm_domain set_kind (new_domain (Lower d) ''local'' []) rows)
     \<longleftrightarrow> list_ex (host_row want) rows \<or> want = Lower d"
proof -
  let ?row = "new_domain (Lower d) ''local'' []"
  have here: "host_row want (set_kind ?row r) \<longleftrightarrow> want = Lower d" if "dm_domain r = Lower d" for r
    using that by (auto simp: host_row_def set_kind_def new_domain_def)
  have row: "host_row want ?row \<longleftrightarrow> want = Lower d" "dm_domain ?row = Lower d"
    by (auto simp: host_row_def new_domain_def)
  have old: "dm_domain r = Lower d \<Longrightarrow> host_row want r \<Longrightarrow> want = Lower d" for r
    by (auto simp: host_row_def)
  show ?thesis
  proof (cases "list_ex (\<lambda>r. dm_domain r = Lower d) rows")
    case True
    with here old row show ?thesis by (auto simp: upsert_def list_ex_iff)
  next
    case False
    with row show ?thesis by (auto simp: upsert_def)
  qed
qed

text \<open>Adding a hosted domain makes exactly that domain local, whatever row it had before and
  whatever its case, and removing it takes exactly that domain away again; the configured host
  name stays local in any case.\<close>

theorem hosted_domain_add_remove:
  assumes "online db" "d \<noteq> []"
  shows "\<exists>db1 db2. AddDomain db d ''local'' = Inr db1 \<and> RemoveDomain db1 d = Inr db2
    \<and> IsLocalDomain db1 x = (IsLocalDomain db x \<or> Lower x = Lower d)
    \<and> IsLocalDomain db2 x = (x = [] \<or> Lower (GetConfig db ''c_fqdn'' []) \<noteq> [] \<and> Lower x = Lower (GetConfig db ''c_fqdn'' [])
        \<or> IsLocalDomain db x \<and> Lower x \<noteq> Lower d)"
proof -
  let ?db1 = "db\<lparr>domains := upsert dm_domain set_kind (new_domain (Lower d) ''local'' []) (domains db)\<rparr>"
  let ?db2 = "db\<lparr>domains := delete_where (\<lambda>r. Lower (dm_domain r) = Lower d) (domains ?db1)\<rparr>"
  have "Lower ''local'' = ''local''" by code_simp
  then have add: "AddDomain db d ''local'' = Inr ?db1"
    using assms by (simp add: AddDomain_def exec_def)
  have remove: "RemoveDomain ?db1 d = Inr ?db2"
    using assms by (simp add: RemoveDomain_def exec_def)
  have cfg: "GetConfig (db\<lparr>domains := ds\<rparr>) = GetConfig db" for ds
    by (simp add: GetConfig_def [abs_def] rows_of_def)
  have gone: "list_ex (host_row want) (delete_where (\<lambda>r. Lower (dm_domain r) = Lower d) rows)
      \<longleftrightarrow> list_ex (host_row want) rows \<and> want \<noteq> Lower d" for want rows
    by (auto simp: delete_where_def list_ex_iff host_row_def)
  have "IsLocalDomain ?db1 x = (IsLocalDomain db x \<or> Lower x = Lower d)"
    using assms(1) by (auto simp: IsLocalDomain_rows cfg host_row_upsert)
  moreover have "IsLocalDomain ?db2 x = (x = [] \<or> Lower (GetConfig db ''c_fqdn'' []) \<noteq> [] \<and> Lower x = Lower (GetConfig db ''c_fqdn'' [])
        \<or> IsLocalDomain db x \<and> Lower x \<noteq> Lower d)"
    using assms(1) by (auto simp: IsLocalDomain_rows cfg host_row_upsert gone)
  ultimately show ?thesis using add remove by blast
qed

theorem hosted_domain_add_remove_witness:
  "\<exists>db1 db2. AddDomain fresh_db ''Example.org'' ''local'' = Inr db1 \<and> RemoveDomain db1 ''Example.org'' = Inr db2
     \<and> IsLocalDomain db1 ''example.ORG'' \<and> \<not> IsLocalDomain db2 ''example.ORG''"
proof -
  have "online fresh_db" by (simp add: fresh_db_def)
  moreover have "Lower ''example.ORG'' = Lower ''Example.org''" "GetConfig fresh_db ''c_fqdn'' [] = []"
    by code_simp+
  ultimately show ?thesis
    using hosted_domain_add_remove [of fresh_db "''Example.org''" "''example.ORG''"] by fastforce
qed

text \<open>A defect: storing a new private key under an existing selector leaves the old public key in
  the row. Mail is then signed with the new key while the local key lookup still serves the
  record of the old one, so the server rejects its own signatures.\<close>

theorem AddDkimKey_stale_public:
  "\<exists>db1 db2. GenerateDkimKey (\<lambda>_. Inr (''OLDPRIV'', ''OLDPUB'')) 0 fresh_db ''a.example'' ''s1'' 2048 = Inr (DnsRecord ''OLDPUB'', db1)
     \<and> AddDkimKey 1 db1 ''a.example'' ''s1'' ''NEWPRIV'' = Inr db2
     \<and> map_option ke_private (DkimKeyFor Map.empty db2 ''a.example'') = Some ''NEWPRIV''
     \<and> DkimKeyLookup db2 ''s1'' ''a.example'' = Some (DnsRecord ''OLDPUB'')"
proof -
  let ?r = "GenerateDkimKey (\<lambda>_. Inr (''OLDPRIV'', ''OLDPUB'')) 0 fresh_db ''a.example'' ''s1'' 2048"
  let ?db1 = "snd (projr ?r)"
  let ?db2 = "projr (AddDkimKey 1 ?db1 ''a.example'' ''s1'' ''NEWPRIV'')"
  have "?r = Inr (DnsRecord ''OLDPUB'', ?db1)" "AddDkimKey 1 ?db1 ''a.example'' ''s1'' ''NEWPRIV'' = Inr ?db2"
    by (simp_all add: GenerateDkimKey_def AddDkimKey_def exec_def fresh_db_def)
  moreover have "map_option ke_private (DkimKeyFor Map.empty ?db2 ''a.example'') = Some ''NEWPRIV''"
    "DkimKeyLookup ?db2 ''s1'' ''a.example'' = Some (DnsRecord ''OLDPUB'')"
    by code_simp+
  ultimately show ?thesis by blast
qed

end
