(* ===== verification/QM_Store.thy ===== *)
theory QM_Store
  imports QM_Tables "HOL-Library.Word"
begin

unbundle bit_operations_syntax

text \<open>
  The Citadel store, \<^verbatim>\<open>src/core/src/citadel_store.cpp\<close>: the tables and the operations on users,
  registration records, floors, rooms and site configuration. Messages, rights, sessions and quotas
  are in the theories that build on this one.

  The state is one record with a list of rows per table and the next value per sequence. The field
  \<open>faults\<close> decides, statement by statement, which writes DuckDB refuses for reasons of its own: a
  \<open>True\<close> at its head makes the next write statement (or the next \<^verbatim>\<open>nextval\<close>) fail and leave the tables
  alone, an empty list lets all succeed. Writes also fail when they break a key. Queries succeed.
  Columns hold no NULL and names are ASCII, so SQL's \<^verbatim>\<open>lower\<close> is \<open>Lower\<close>; \<^verbatim>\<open>now\<close> is an argument.
  A query without \<^verbatim>\<open>ORDER BY\<close> returns rows in insertion order, as DuckDB does by default.
\<close>

section \<open>The tables\<close>

record user_row =
  cu_username :: string
  cu_usernum :: int
  cu_axlevel :: int
  cu_flags :: int
  cu_times_called :: int
  cu_num_posts :: int
  cu_last_call :: int
  cu_screenwidth :: int
  cu_screenheight :: int

record user_info = user_row +
  ui_enabled :: bool

record registration =
  rg_real_name :: string
  rg_street :: string
  rg_city :: string
  rg_state :: string
  rg_zipcode :: string
  rg_phone :: string
  rg_email :: string
  rg_country :: string
  rg_bio :: string

record floor_info =
  fl_num :: int
  fl_name :: string
  fl_room_count :: int

record room =
  rm_num :: int
  rm_name :: string
  rm_display :: string
  rm_floor :: int
  rm_flags :: int
  rm_password :: string
  rm_listorder :: int
  rm_view :: int
  rm_info :: string
  rm_owner :: int
  rm_highest :: int

record message =
  ms_num :: int
  ms_euid :: string
  ms_author :: string
  ms_author_usernum :: int
  ms_recipient :: string
  ms_node :: string
  ms_time :: int
  ms_subject :: string
  ms_format :: int
  ms_references :: string
  ms_origin_room :: string
  ms_raw :: string

record msg_row = message +
  ms_size :: int

record tombstone =
  tb_room :: int
  tb_seq :: int
  tb_euid :: string
  tb_num :: int
  tb_deleted_at :: int

record room_state =
  rs_username :: string
  rs_room :: int
  rs_last_read :: int
  rs_flags :: int

record acl_entry =
  ae_room :: int
  ae_identifier :: string
  ae_rights :: string

record quota_limit =
  ql_username :: string
  ql_limit_bytes :: int
  ql_enabled :: bool
  ql_changed_at :: int

record store =
  accounts :: "(string \<times> bool) list"
  users :: "user_row list"
  regs :: "(string \<times> registration) list"
  floors :: "(int \<times> string) list"
  rooms :: "room list"
  messages :: "msg_row list"
  room_msgs :: "(int \<times> int) list"
  tombstones :: "tombstone list"
  room_states :: "room_state list"
  room_acl :: "acl_entry list"
  cfg :: "(string \<times> string) list"
  quotas :: "quota_limit list"
  msgids :: "(string \<times> int) list"
  msg_flags :: "(int \<times> string \<times> string) list"
  prefs :: "((string \<times> string) \<times> string) list"
  dav_names :: "((int \<times> string) \<times> string) list"
  dav_collections :: "((string \<times> string) \<times> int) list"
  dav_locks :: "(string \<times> int) list"
  user_seq :: int
  floor_seq :: int
  room_seq :: int
  msg_seq :: int
  faults :: "bool list"

section \<open>Statements\<close>

text \<open>A write statement: \<open>f\<close> gives the new tables, or \<open>None\<close> when a key is violated.\<close>

definition ExecP :: "(store \<Rightarrow> store option) \<Rightarrow> store \<Rightarrow> bool \<times> store" where
  "ExecP f st =
     (let st1 = st\<lparr>faults := tl (faults st)\<rparr> in
      if faults st \<noteq> [] \<and> hd (faults st) then (False, st1)
      else (case f st1 of None \<Rightarrow> (False, st1) | Some st2 \<Rightarrow> (True, st2)))"

definition nextval :: "(store \<Rightarrow> int) \<Rightarrow> (store \<Rightarrow> store) \<Rightarrow> store \<Rightarrow> int option \<times> store" where
  "nextval cur advance st =
     (let st1 = st\<lparr>faults := tl (faults st)\<rparr> in
      if faults st \<noteq> [] \<and> hd (faults st) then (None, st1) else (Some (cur st1), advance st1))"

definition has_flag :: "int \<Rightarrow> int \<Rightarrow> bool" where
  "has_flag flags b = (flags AND b \<noteq> 0)"

abbreviation (input) "QR_PERMANENT \<equiv> 2 :: int"
abbreviation (input) "QR_PRIVATE \<equiv> 4 :: int"
abbreviation (input) "QR_PASSWORDED \<equiv> 8 :: int"
abbreviation (input) "QR_READONLY \<equiv> 8192 :: int"
abbreviation (input) "QR_MAILBOX \<equiv> 16384 :: int"
abbreviation (input) "US_REGIS \<equiv> 1024 :: int"
abbreviation (input) "kLobbyRoom \<equiv> 0 :: int"
abbreviation (input) "kAideRoom \<equiv> 1 :: int"
abbreviation (input) "kAideAxLevel \<equiv> 6 :: int"

section \<open>Site configuration\<close>

definition store_GetConfig :: "store \<Rightarrow> string \<Rightarrow> string \<Rightarrow> string" where
  "store_GetConfig st name dflt = (case map_of (cfg st) name of None \<Rightarrow> dflt | Some v \<Rightarrow> v)"

definition set_value :: "'k \<times> 'v \<Rightarrow> 'k \<times> 'v \<Rightarrow> 'k \<times> 'v" where
  "set_value new old = (fst old, snd new)"

definition SetConfig :: "string \<Rightarrow> string \<Rightarrow> store \<Rightarrow> store" where
  "SetConfig name v st = snd (ExecP (\<lambda>s. Some (s\<lparr>cfg := upsert fst set_value (name, v) (cfg s)\<rparr>)) st)"

definition ListConfig :: "store \<Rightarrow> (string \<times> string) list" where
  "ListConfig st = sort_key fst (cfg st)"

section \<open>Users\<close>

definition new_user :: "string \<Rightarrow> int \<Rightarrow> user_row" where
  "new_user u n = \<lparr>cu_username = u, cu_usernum = n, cu_axlevel = 4, cu_flags = 0, cu_times_called = 0,
     cu_num_posts = 0, cu_last_call = 0, cu_screenwidth = 80, cu_screenheight = 24\<rparr>"

definition insert_user :: "user_row \<Rightarrow> user_row list \<Rightarrow> user_row list" where
  "insert_user row rows =
     (if list_ex (\<lambda>r. cu_username r = cu_username row \<or> cu_usernum r = cu_usernum row) rows
      then rows else rows @ [row])"

definition GetOrAssignUserNum :: "string \<Rightarrow> store \<Rightarrow> int \<times> store" where
  "GetOrAssignUserNum u st =
     (if u \<notin> set (map fst (accounts st)) then (0, st)
      else case lookup_key cu_username u (users st) of
        Some r \<Rightarrow> (cu_usernum r, st)
      | None \<Rightarrow>
         (case nextval user_seq (\<lambda>s. s\<lparr>user_seq := user_seq s + 1\<rparr>) st of
            (None, st) \<Rightarrow> (0, st)
          | (Some n, st) \<Rightarrow>
             (let (_, st) = ExecP (\<lambda>s. Some (s\<lparr>users := insert_user (new_user u n) (users s)\<rparr>)) st
              in (case lookup_key cu_username u (users st) of Some r \<Rightarrow> cu_usernum r | None \<Rightarrow> 0, st))))"

definition GetAxLevel :: "store \<Rightarrow> string \<Rightarrow> int" where
  "GetAxLevel st u = (case lookup_key cu_username u (users st) of None \<Rightarrow> 4 | Some r \<Rightarrow> cu_axlevel r)"

definition RowToUser :: "store \<Rightarrow> string \<times> bool \<Rightarrow> user_info" where
  "RowToUser st acc =
     (let r = (case lookup_key cu_username (fst acc) (users st) of Some r \<Rightarrow> r | None \<Rightarrow> new_user (fst acc) 0)
      in user_row.extend (user_row.truncate (r\<lparr>cu_username := fst acc\<rparr>)) (user_info.fields (snd acc)))"

definition ListUsers :: "store \<Rightarrow> user_info list" where
  "ListUsers st = map (RowToUser st) (sort_key fst (accounts st))"

definition GetUser :: "store \<Rightarrow> string \<Rightarrow> user_info option" where
  "GetUser st u = map_option (RowToUser st) (lookup_key fst u (accounts st))"

definition update_user :: "string \<Rightarrow> (user_row \<Rightarrow> user_row) \<Rightarrow> store \<Rightarrow> bool \<times> store" where
  "update_user u f st =
     ExecP (\<lambda>s. Some (s\<lparr>users := map (\<lambda>r. if cu_username r = u then f r else r) (users s)\<rparr>)) st"

definition SetAxLevel :: "string \<Rightarrow> int \<Rightarrow> store \<Rightarrow> (string + unit) \<times> store" where
  "SetAxLevel u ax st =
     (if ax < 0 \<or> ax > 6 then (Inl ''access level must be 0-6'', st)
      else let (n, st) = GetOrAssignUserNum u st in
        if n \<le> 0 then (Inl ''no such user'', st)
        else let (ok, st) = update_user u (\<lambda>r. r\<lparr>cu_axlevel := ax\<rparr>) st in
          (if ok then Inr () else Inl ''update failed'', st))"

definition SetUserFlags :: "string \<Rightarrow> int \<Rightarrow> store \<Rightarrow> bool \<times> store" where
  "SetUserFlags u fl st =
     (let (n, st) = GetOrAssignUserNum u st in
      if n \<le> 0 then (False, st) else update_user u (\<lambda>r. r\<lparr>cu_flags := fl\<rparr>) st)"

definition SetScreenSize :: "string \<Rightarrow> int \<Rightarrow> int \<Rightarrow> store \<Rightarrow> bool \<times> store" where
  "SetScreenSize u width height st =
     (let (n, st) = GetOrAssignUserNum u st in
      if n \<le> 0 then (False, st)
      else update_user u (\<lambda>r. r\<lparr>cu_screenwidth := max 20 (min width 1000),
                               cu_screenheight := max 5 (min height 500)\<rparr>) st)"

definition RecordCall :: "int \<Rightarrow> string \<Rightarrow> store \<Rightarrow> store" where
  "RecordCall now u st =
     (let (n, st) = GetOrAssignUserNum u st in
      if n \<le> 0 then st
      else snd (update_user u (\<lambda>r. r\<lparr>cu_times_called := cu_times_called r + 1, cu_last_call := now\<rparr>) st))"

definition GetRegistration :: "store \<Rightarrow> string \<Rightarrow> registration option" where
  "GetRegistration st u = map_of (regs st) u"

definition SetRegistration :: "string \<Rightarrow> registration \<Rightarrow> store \<Rightarrow> bool \<times> store" where
  "SetRegistration u reg st =
     (let (n, st) = GetOrAssignUserNum u st in
      if n \<le> 0 then (False, st)
      else let (ok, st) = ExecP (\<lambda>s. Some (s\<lparr>regs := upsert fst set_value (u, reg) (regs s)\<rparr>)) st in
        if \<not> ok then (False, st)
        else (True, case GetUser st u of None \<Rightarrow> st | Some info \<Rightarrow> snd (SetUserFlags u (cu_flags info OR US_REGIS) st)))"

definition blank_registration :: registration where
  "blank_registration = \<lparr>rg_real_name = [], rg_street = [], rg_city = [], rg_state = [], rg_zipcode = [],
     rg_phone = [], rg_email = [], rg_country = [], rg_bio = []\<rparr>"

definition set_bio :: "string \<times> registration \<Rightarrow> string \<times> registration \<Rightarrow> string \<times> registration" where
  "set_bio new old = (fst old, (snd old)\<lparr>rg_bio := rg_bio (snd new)\<rparr>)"

definition SetBio :: "string \<Rightarrow> string \<Rightarrow> store \<Rightarrow> bool \<times> store" where
  "SetBio u bio st =
     (let (n, st) = GetOrAssignUserNum u st in
      if n \<le> 0 then (False, st)
      else ExecP (\<lambda>s. Some (s\<lparr>regs := upsert fst set_bio (u, blank_registration\<lparr>rg_bio := bio\<rparr>) (regs s)\<rparr>)) st)"

definition IsLocalUser :: "string \<Rightarrow> store \<Rightarrow> bool \<times> store" where
  "IsLocalUser addr st =
     (let at = find_idx CHR ''@'' addr;
          local = (case at of None \<Rightarrow> addr | Some k \<Rightarrow> take k addr);
          domain = (case at of None \<Rightarrow> [] | Some k \<Rightarrow> drop (Suc k) addr);
          fqdn = store_GetConfig st ''c_fqdn'' [] in
      if at \<noteq> None \<and> domain \<noteq> [] \<and> fqdn \<noteq> [] \<and> Lower domain \<noteq> Lower fqdn then (False, st)
      else let (n, st) = GetOrAssignUserNum local st in (n > 0, st))"

section \<open>Floors\<close>

definition floor_of :: "store \<Rightarrow> int \<times> string \<Rightarrow> floor_info" where
  "floor_of st f = \<lparr>fl_num = fst f, fl_name = snd f,
     fl_room_count = int (length (filter (\<lambda>r. rm_floor r = fst f) (rooms st)))\<rparr>"

definition ListFloors :: "store \<Rightarrow> floor_info list" where
  "ListFloors st = map (floor_of st) (sort_key fst (floors st))"

definition GetFloor :: "store \<Rightarrow> int \<Rightarrow> floor_info option" where
  "GetFloor st n = map_option (floor_of st) (lookup_key fst n (floors st))"

definition CreateFloor :: "string \<Rightarrow> store \<Rightarrow> (string + int) \<times> store" where
  "CreateFloor name st =
     (case nextval floor_seq (\<lambda>s. s\<lparr>floor_seq := floor_seq s + 1\<rparr>) st of
        (None, st) \<Rightarrow> (Inl ''could not allocate floor number'', st)
      | (Some n, st) \<Rightarrow>
         (let (ok, st) = ExecP (\<lambda>s. if n \<in> set (map fst (floors s)) then None
                                   else Some (s\<lparr>floors := floors s @ [(n, name)]\<rparr>)) st in
          (if ok then Inr n else Inl ''insert failed'', st)))"

definition RenameFloor :: "int \<Rightarrow> string \<Rightarrow> store \<Rightarrow> (string + unit) \<times> store" where
  "RenameFloor n name st =
     (if name = [] then (Inl ''floor name may not be empty'', st)
      else if GetFloor st n = None then (Inl ''no such floor'', st)
      else let (ok, st) = ExecP (\<lambda>s. Some (s\<lparr>floors := map (\<lambda>f. if fst f = n then (n, name) else f) (floors s)\<rparr>)) st in
        (if ok then Inr () else Inl ''update failed'', st))"

definition KillFloor :: "int \<Rightarrow> store \<Rightarrow> (string + unit) \<times> store" where
  "KillFloor n st =
     (if n = 0 then (Inl ''cannot delete the main floor'', st)
      else case GetFloor st n of None \<Rightarrow> (Inl ''no such floor'', st)
      | Some f \<Rightarrow>
         if fl_room_count f > 0 then (Inl ''floor still contains rooms'', st)
         else let (ok, st) = ExecP (\<lambda>s. Some (s\<lparr>floors := delete_where (\<lambda>f. fst f = n) (floors s)\<rparr>)) st in
           (if ok then Inr () else Inl ''delete failed'', st))"

section \<open>Rooms\<close>

text \<open>\<^verbatim>\<open>snprintf(prefix, 16, "%010lld", usernum)\<close> keeps at most fifteen characters.\<close>

definition MailboxRoomName :: "int \<Rightarrow> string \<Rightarrow> string" where
  "MailboxRoomName usernum display_name =
     (let ds = digits_of (nat \<bar>usernum\<bar>); sign = (if usernum < 0 then ''-'' else []);
          zeros = replicate (10 - length sign - length ds) CHR ''0'' in
      take 15 (sign @ zeros @ ds) @ ''.'' @ display_name)"

definition GetRoomByNum :: "store \<Rightarrow> int \<Rightarrow> room option" where
  "GetRoomByNum st n = lookup_key rm_num n (rooms st)"

definition ResolveRoom :: "string \<Rightarrow> string \<Rightarrow> store \<Rightarrow> room option \<times> store" where
  "ResolveRoom u wanted st =
     (case find (\<lambda>r. rm_owner r = 0 \<and> Lower (rm_display r) = Lower wanted) (rooms st) of
        Some r \<Rightarrow> (Some r, st)
      | None \<Rightarrow>
         if u = [] then (None, st)
         else let (n, st) = GetOrAssignUserNum u st in
           if n > 0 then (find (\<lambda>r. rm_owner r = n \<and> Lower (rm_display r) = Lower wanted) (rooms st), st)
           else (None, st))"

definition IsReservedRoomName :: "string \<Rightarrow> bool" where
  "IsReservedRoomName s = (\<not> length s < 12 \<and> list_all isdigit (take 10 s) \<and> s ! 10 = CHR ''.'')"

definition room_key :: "int \<Rightarrow> string \<Rightarrow> string" where
  "room_key owner display_name = (if owner > 0 then MailboxRoomName owner display_name else display_name)"

definition CreateRoom :: "string \<Rightarrow> int \<Rightarrow> int \<Rightarrow> string \<Rightarrow> int \<Rightarrow> store \<Rightarrow> (string + int) \<times> store" where
  "CreateRoom display_name floor qr_flags pass owner st =
     (if display_name = [] then (Inl ''room name may not be empty'', st)
      else if owner = 0 \<and> IsReservedRoomName display_name
      then (Inl ''that name is reserved for personal mailboxes'', st)
      else case nextval room_seq (\<lambda>s. s\<lparr>room_seq := room_seq s + 1\<rparr>) st of
        (None, st) \<Rightarrow> (Inl ''could not allocate room number'', st)
      | (Some n, st) \<Rightarrow>
         (let row = \<lparr>rm_num = n, rm_name = room_key owner display_name, rm_display = display_name,
                     rm_floor = floor, rm_flags = qr_flags, rm_password = pass, rm_listorder = 0, rm_view = 0,
                     rm_info = [], rm_owner = owner, rm_highest = 0\<rparr>;
              (ok, st) = ExecP (\<lambda>s. if list_ex (\<lambda>r. rm_num r = n \<or> rm_name r = rm_name row) (rooms s) then None
                                  else Some (s\<lparr>rooms := rooms s @ [row]\<rparr>)) st in
          (if ok then Inr n else Inl ''room already exists'', st)))"

definition UpdateRoom :: "room \<Rightarrow> store \<Rightarrow> (string + unit) \<times> store" where
  "UpdateRoom room st =
     (case GetRoomByNum st (rm_num room) of
        None \<Rightarrow> (Inl ''no such room'', st)
      | Some old \<Rightarrow>
         if rm_display room = [] then (Inl ''room name may not be empty'', st)
         else if rm_owner old = 0 \<and> IsReservedRoomName (rm_display room)
         then (Inl ''that name is reserved for personal mailboxes'', st)
         else if rm_floor room \<noteq> rm_floor old \<and> GetFloor st (rm_floor room) = None then (Inl ''no such floor'', st)
         else
          (let key = room_key (rm_owner old) (rm_display room);
               upd = (\<lambda>r. r\<lparr>rm_name := key, rm_display := rm_display room, rm_floor := rm_floor room,
                        rm_flags := rm_flags room, rm_password := rm_password room, rm_listorder := rm_listorder room,
                        rm_view := rm_view room, rm_info := rm_info room\<rparr>);
               (ok, st) = ExecP (\<lambda>s. if list_ex (\<lambda>r. rm_num r \<noteq> rm_num room \<and> rm_name r = key) (rooms s) then None
                   else Some (s\<lparr>rooms := map (\<lambda>r. if rm_num r = rm_num room then upd r else r) (rooms s)\<rparr>)) st in
           (if ok then Inr () else Inl ''a room with that name already exists'', st)))"

type_synonym room_hook = "int \<Rightarrow> store \<Rightarrow> store"

definition RegisterRoomDeletedHook :: "string \<Rightarrow> room_hook \<Rightarrow> (string \<times> room_hook) list \<Rightarrow> (string \<times> room_hook) list" where
  "RegisterRoomDeletedHook name hook hooks =
     (if list_ex (\<lambda>h. fst h = name) hooks
      then (let i = length (takeWhile (\<lambda>h. fst h \<noteq> name) hooks) in hooks[i := (name, hook)])
      else hooks @ [(name, hook)])"

definition KillRoom :: "(string \<times> room_hook) list \<Rightarrow> int \<Rightarrow> store \<Rightarrow> (string + unit) \<times> store" where
  "KillRoom hooks n st =
     (if n = kLobbyRoom then (Inl ''cannot delete the Lobby'', st)
      else if n = kAideRoom then (Inl ''cannot delete the Aide room'', st)
      else
       (let st = fold (\<lambda>h s. snd h n s) hooks st;
            st = snd (ExecP (\<lambda>s. Some (s\<lparr>room_msgs := delete_where (\<lambda>p. fst p = n) (room_msgs s)\<rparr>)) st);
            st = snd (ExecP (\<lambda>s. Some (s\<lparr>room_states := delete_where (\<lambda>r. rs_room r = n) (room_states s)\<rparr>)) st);
            st = snd (ExecP (\<lambda>s. Some (s\<lparr>room_acl := delete_where (\<lambda>r. ae_room r = n) (room_acl s)\<rparr>)) st);
            st = snd (ExecP (\<lambda>s. Some (s\<lparr>tombstones := delete_where (\<lambda>t. tb_room t = n) (tombstones s)\<rparr>)) st);
            st = snd (ExecP (\<lambda>s. Some (s\<lparr>dav_names := delete_where (\<lambda>d. fst (fst d) = n) (dav_names s)\<rparr>)) st);
            st = snd (ExecP (\<lambda>s. Some (s\<lparr>dav_collections := delete_where (\<lambda>d. snd d = n) (dav_collections s)\<rparr>)) st);
            st = snd (ExecP (\<lambda>s. Some (s\<lparr>dav_locks := delete_where (\<lambda>d. snd d = n) (dav_locks s)\<rparr>)) st);
            (ok, st) = ExecP (\<lambda>s. Some (s\<lparr>rooms := delete_where (\<lambda>r. rm_num r = n) (rooms s)\<rparr>)) st in
        (if ok then Inr () else Inl ''delete failed'', st)))"

definition FindUserRoom :: "string \<Rightarrow> string \<Rightarrow> store \<Rightarrow> int \<times> store" where
  "FindUserRoom u display_name st =
     (let (n, st) = GetOrAssignUserNum u st in
      if n \<le> 0 then (- 1, st)
      else (case find (\<lambda>r. Lower (rm_name r) = Lower (MailboxRoomName n display_name)) (rooms st) of
              None \<Rightarrow> - 1 | Some r \<Rightarrow> rm_num r, st))"

definition GetOrCreateUserRoom :: "string \<Rightarrow> string \<Rightarrow> store \<Rightarrow> int \<times> store" where
  "GetOrCreateUserRoom u display_name st =
     (let (n, st) = GetOrAssignUserNum u st in
      if n \<le> 0 then (- 1, st)
      else case lookup_key rm_name (MailboxRoomName n display_name) (rooms st) of
        Some r \<Rightarrow> (rm_num r, st)
      | None \<Rightarrow> (case CreateRoom display_name 0 (QR_MAILBOX OR QR_PRIVATE OR QR_PERMANENT) [] n st of
                  (Inl _, st) \<Rightarrow> (- 1, st) | (Inr room, st) \<Rightarrow> (room, st)))"

definition GetOrCreateMailRoom :: "string \<Rightarrow> store \<Rightarrow> int \<times> store" where
  "GetOrCreateMailRoom u st = GetOrCreateUserRoom u ''Mail'' st"

definition kDefaults :: "(string \<times> int) list" where
  "kDefaults = [(''Mail'', 1), (''Sent Items'', 1), (''Drafts'', 1), (''Trash'', 1), (''Calendar'', 3),
     (''Contacts'', 2), (''Notes'', 5), (''Tasks'', 4)]"

definition ensure_room :: "string \<Rightarrow> string \<times> int \<Rightarrow> store \<Rightarrow> store" where
  "ensure_room u d st =
     (let (n, st) = GetOrCreateUserRoom u (fst d) st in
      if n \<ge> 0 \<and> snd d \<noteq> 0
      then snd (ExecP (\<lambda>s. Some (s\<lparr>rooms := map (\<lambda>r. if rm_num r = n then r\<lparr>rm_view := snd d\<rparr> else r) (rooms s)\<rparr>)) st)
      else st)"

definition EnsureUserRooms :: "string \<Rightarrow> store \<Rightarrow> store" where
  "EnsureUserRooms u st =
     (let (n, st) = GetOrAssignUserNum u st in if n \<le> 0 then st else fold (ensure_room u) kDefaults st)"

section \<open>Schema and seeds\<close>

definition lpad10 :: "string \<Rightarrow> string" where
  "lpad10 s = (if length s \<ge> 10 then take 10 s else replicate (10 - length s) CHR ''0'' @ s)"

definition seed_room :: "int \<Rightarrow> string \<Rightarrow> int \<Rightarrow> int \<Rightarrow> int \<Rightarrow> string \<Rightarrow> room" where
  "seed_room n name flags view order info = \<lparr>rm_num = n, rm_name = name, rm_display = name, rm_floor = 0,
     rm_flags = flags, rm_password = [], rm_listorder = order, rm_view = view, rm_info = info,
     rm_owner = 0, rm_highest = 0\<rparr>"

definition seed_rooms :: "room list" where
  "seed_rooms = [seed_room 0 ''Lobby'' 2 0 0 ''Welcome to the Lobby.'',
     seed_room 1 ''Aide'' 6 0 10 ''Room for system administrators.'',
     seed_room 2 ''Global Address Book'' 6 2 20 ''Shared address book.'',
     seed_room 3 ''Trashcan'' 2 0 30 ''Discarded rooms land here.'']"

definition config_seeds :: "(string \<times> string) list" where
  "config_seeds = [(''c_nodename'', ''quackcit''), (''c_humannode'', ''QuackCit BBS''), (''c_fqdn'', ''quackmail.test''),
     (''c_sysadm'', ''admin''), (''c_version'', ''QuackCit 0.7.0''), (''c_bbs_city'', ''The Cloud''),
     (''qm_aide_log'', ''1''), (''qm_aide_log_rejects'', ''0''), (''qm_room_mail'', ''1''), (''qm_subaddress_sep'', ''+''),
     (''qm_subaddress_create'', ''0''), (''qm_listserv'', ''1''), (''qm_list_archive_base'', [])]"

definition insert_room :: "room \<Rightarrow> room list \<Rightarrow> room list" where
  "insert_room row rows =
     (if list_ex (\<lambda>r. rm_num r = rm_num row \<or> rm_name r = rm_name row) rows then rows else rows @ [row])"

definition padded_name :: "room \<Rightarrow> room" where
  "padded_name r = (if rm_owner r > 0 then r\<lparr>rm_name := lpad10 (to_string (rm_owner r)) @ ''.'' @ rm_display r\<rparr> else r)"

text \<open>\<^verbatim>\<open>CREATE ... IF NOT EXISTS\<close> leaves existing tables alone; a new database has empty tables and the
  sequences at their start. What remains of the function are its migrations and seeds.\<close>

definition empty_store :: "(string \<times> bool) list \<Rightarrow> bool list \<Rightarrow> store" where
  "empty_store accs fs = \<lparr>accounts = accs, users = [], regs = [], floors = [], rooms = [], messages = [],
     room_msgs = [], tombstones = [], room_states = [], room_acl = [], cfg = [], quotas = [], msgids = [],
     msg_flags = [], prefs = [], dav_names = [], dav_collections = [], dav_locks = [],
     user_seq = 1, floor_seq = 10, room_seq = 100, msg_seq = 1, faults = fs\<rparr>"

definition EnsureCitadelSchema :: "store \<Rightarrow> store" where
  "EnsureCitadelSchema st =
     (let st = snd (ExecP (\<lambda>s. Some (s\<lparr>messages := map (\<lambda>m. if ms_size m < 0 \<and> ms_format m = 4
                 then m\<lparr>ms_size := int (length (ms_raw m))\<rparr> else m) (messages s)\<rparr>)) st);
          st = snd (ExecP (\<lambda>s. let rs = map padded_name (rooms s) in
                 if distinct (map rm_name rs) then Some (s\<lparr>rooms := rs\<rparr>) else None) st);
          st = snd (ExecP (\<lambda>s. Some (s\<lparr>floors := insert_or_ignore fst (0, ''Main Floor'') (floors s)\<rparr>)) st);
          st = snd (ExecP (\<lambda>s. Some (s\<lparr>rooms := fold insert_room seed_rooms (rooms s)\<rparr>)) st)
      in snd (ExecP (\<lambda>s. Some (s\<lparr>cfg := fold (insert_or_ignore fst) config_seeds (cfg s)\<rparr>)) st))"

section \<open>What a statement keeps\<close>

text \<open>A predicate on stores that does not look at the fault schedule: the contract under which the
  invariants of the store are carried through statements, whichever of them fail.\<close>

locale store_inv =
  fixes I :: "store \<Rightarrow> bool"
  assumes any_faults: "I (st\<lparr>faults := fs\<rparr>) \<longleftrightarrow> I st"
begin

lemma ExecP_pres:
  assumes "I st" and "\<And>s s'. I s \<Longrightarrow> f s = Some s' \<Longrightarrow> I s'"
  shows "I (snd (ExecP f st))"
proof -
  have "I (st\<lparr>faults := fs\<rparr>)" for fs by (simp add: any_faults assms(1))
  then show ?thesis using assms(2)
    by (auto simp: ExecP_def Let_def split: option.splits)
qed

lemma ExecP_post:
  assumes "I st" and "\<And>s s'. I s \<Longrightarrow> f s = Some s' \<Longrightarrow> P s'" and "fst (ExecP f st)"
  shows "P (snd (ExecP f st))"
proof -
  have "I (st\<lparr>faults := tl (faults st)\<rparr>)" by (simp add: any_faults assms(1))
  then show ?thesis using assms(2,3)
    by (auto simp: ExecP_def Let_def split: option.splits if_splits)
qed

lemma nextval_pres:
  assumes "I st" and "\<And>s. I s \<Longrightarrow> I (advance s)"
  shows "I (snd (nextval cur advance st))"
  using assms by (auto simp: nextval_def Let_def any_faults)

end

lemma nextval_Some:
  "nextval cur advance st = (Some n, st') \<Longrightarrow> n = cur (st\<lparr>faults := tl (faults st)\<rparr>) \<and> st' = advance (st\<lparr>faults := tl (faults st)\<rparr>)"
  by (auto simp: nextval_def Let_def split: if_splits)

lemma nextval_None: "nextval cur advance st = (None, st') \<Longrightarrow> st' = st\<lparr>faults := tl (faults st)\<rparr>"
  by (auto simp: nextval_def Let_def split: if_splits)

section \<open>The invariant\<close>

definition users_ok :: "user_row list \<Rightarrow> int \<Rightarrow> bool" where
  "users_ok us next \<longleftrightarrow> unique_key cu_username us \<and> unique_key cu_usernum us
     \<and> list_all (\<lambda>r. 0 < cu_usernum r \<and> cu_usernum r < next) us \<and> 0 < next"

definition room_ok :: "int \<Rightarrow> room \<Rightarrow> bool" where
  "room_ok next r \<longleftrightarrow> 0 \<le> rm_num r \<and> rm_num r < next \<and> 0 \<le> rm_owner r \<and> rm_name r = room_key (rm_owner r) (rm_display r)
     \<and> \<not> (rm_owner r = 0 \<and> IsReservedRoomName (rm_display r))"

definition rooms_ok :: "room list \<Rightarrow> int \<Rightarrow> bool" where
  "rooms_ok rs next \<longleftrightarrow> unique_key rm_num rs \<and> unique_key rm_name rs \<and> list_all (room_ok next) rs \<and> 100 \<le> next"

definition msgs_ok :: "int list \<Rightarrow> (int \<times> int) list \<Rightarrow> tombstone list \<Rightarrow> int \<Rightarrow> bool" where
  "msgs_ok ns ps ts next \<longleftrightarrow> distinct ns \<and> list_all (\<lambda>n. 0 < n \<and> n < next) ns
     \<and> distinct ps \<and> list_all (\<lambda>p. snd p \<in> set ns) ps
     \<and> unique_key tb_seq ts \<and> list_all (\<lambda>t. 0 < tb_seq t \<and> tb_seq t < next \<and> tb_seq t \<notin> set ns) ts \<and> 0 < next"

definition acl_key :: "acl_entry \<Rightarrow> int \<times> string" where
  "acl_key e = (ae_room e, ae_identifier e)"

definition state_key :: "room_state \<Rightarrow> string \<times> int" where
  "state_key r = (rs_username r, rs_room r)"

definition keys_ok :: "store \<Rightarrow> bool" where
  "keys_ok st \<longleftrightarrow> unique_key acl_key (room_acl st) \<and> unique_key state_key (room_states st) \<and> unique_key fst (cfg st)
     \<and> unique_key ql_username (quotas st) \<and> unique_key fst (msgids st) \<and> unique_key fst (regs st) \<and> unique_key fst (floors st)"

definition store_ok :: "store \<Rightarrow> bool" where
  "store_ok st \<longleftrightarrow> users_ok (users st) (user_seq st) \<and> rooms_ok (rooms st) (room_seq st)
     \<and> msgs_ok (map ms_num (messages st)) (room_msgs st) (tombstones st) (msg_seq st) \<and> keys_ok st"

interpretation kept: store_inv store_ok
  by unfold_locales (simp add: store_ok_def keys_ok_def)

interpretation config_table: keyed_table fst set_value
  by unfold_locales (simp add: set_value_def)

interpretation bio_table: keyed_table fst set_bio
  by unfold_locales (simp add: set_bio_def)

lemma users_ok_insert: "users_ok us next \<Longrightarrow> users_ok (insert_user (new_user u next) us) (next + 1)"
  by (force simp: users_ok_def insert_user_def unique_key_def list_ex_iff list_all_iff new_user_def)

lemma users_ok_mono: "users_ok us next \<Longrightarrow> next \<le> n \<Longrightarrow> users_ok us n"
  by (auto simp: users_ok_def list_all_iff)

lemma unique_key_map: "(\<And>r. key (f r) = key r) \<Longrightarrow> unique_key key (map f rows) = unique_key key rows"
  by (simp add: unique_key_def comp_def)

lemma users_ok_map:
  assumes "\<And>r. cu_username (f r) = cu_username r" "\<And>r. cu_usernum (f r) = cu_usernum r" "users_ok us next"
  shows "users_ok (map (\<lambda>r. if P r then f r else r) us) next"
  using assms by (auto simp: users_ok_def list_all_iff unique_key_map)


definition known :: "string \<Rightarrow> int \<Rightarrow> store \<Rightarrow> bool" where
  "known u n st \<longleftrightarrow> (\<exists>r. lookup_key cu_username u (users st) = Some r \<and> cu_usernum r = n)"

lemma GetOrAssignUserNum_ok [intro]:
  assumes "store_ok st"
  shows "store_ok (snd (GetOrAssignUserNum u st))"
proof (cases "lookup_key cu_username u (users st)")
  case None
  have "store_ok st'" if "nextval user_seq (\<lambda>s. s\<lparr>user_seq := user_seq s + 1\<rparr>) st = (None, st')" for st'
    using nextval_None [OF that] assms by (simp add: kept.any_faults)
  moreover have "store_ok (snd (ExecP (\<lambda>s. Some (s\<lparr>users := insert_user (new_user u n) (users s)\<rparr>)) st'))"
    if "nextval user_seq (\<lambda>s. s\<lparr>user_seq := user_seq s + 1\<rparr>) st = (Some n, st')" for n st'
  proof -
    from nextval_Some [OF that] have st': "st' = st\<lparr>faults := tl (faults st), user_seq := user_seq st + 1\<rparr>" and n: "n = user_seq st"
      by simp_all
    have "users_ok (users st) (user_seq st)" using assms by (simp add: store_ok_def)
    then show ?thesis using assms users_ok_insert [of "users st" n u] users_ok_mono [of "users st" n "n + 1"]
      by (auto simp: ExecP_def Let_def store_ok_def keys_ok_def st' n)
  qed
  ultimately show ?thesis using assms None
    by (auto simp: GetOrAssignUserNum_def split: option.splits prod.splits)
qed (use assms in \<open>simp add: GetOrAssignUserNum_def\<close>)

lemma nextval_cases:
  obtains (Failed) "nextval cur advance st = (None, st\<lparr>faults := tl (faults st)\<rparr>)"
  | (Given) st' where "nextval cur advance st = (Some (cur st'), advance st')" "st' = st\<lparr>faults := tl (faults st)\<rparr>"
  unfolding nextval_def Let_def by (cases "faults st \<noteq> [] \<and> hd (faults st)") simp_all

text \<open>Whatever a predicate says of the other tables is kept when a user number is assigned.\<close>

lemma GetOrAssignUserNum_keeps [simp]:
  "accounts (snd (GetOrAssignUserNum u st)) = accounts st"
  "rooms (snd (GetOrAssignUserNum u st)) = rooms st"
  "messages (snd (GetOrAssignUserNum u st)) = messages st"
  "room_msgs (snd (GetOrAssignUserNum u st)) = room_msgs st"
  "tombstones (snd (GetOrAssignUserNum u st)) = tombstones st"
  "room_acl (snd (GetOrAssignUserNum u st)) = room_acl st"
  "room_states (snd (GetOrAssignUserNum u st)) = room_states st"
  "cfg (snd (GetOrAssignUserNum u st)) = cfg st"
  "quotas (snd (GetOrAssignUserNum u st)) = quotas st"
  "room_seq (snd (GetOrAssignUserNum u st)) = room_seq st"
  "msg_seq (snd (GetOrAssignUserNum u st)) = msg_seq st"
  by (auto simp: GetOrAssignUserNum_def nextval_def ExecP_def Let_def split: option.splits)

lemma GetOrAssignUserNum_known:
  assumes "GetOrAssignUserNum u st = (n, st')" "n \<noteq> 0"
  shows "known u n st' \<and> u \<in> fst ` set (accounts st)"
  using assms by (auto simp: GetOrAssignUserNum_def known_def split: if_splits option.splits prod.splits)

lemma known_range: "store_ok st \<Longrightarrow> known u n st \<Longrightarrow> 0 < n \<and> n < user_seq st"
  by (auto simp: known_def store_ok_def users_ok_def list_all_iff lookup_key_def find_Some_iff)

lemma known_stable: "known u n st \<Longrightarrow> u \<in> fst ` set (accounts st) \<Longrightarrow> GetOrAssignUserNum u st = (n, st)"
  by (auto simp: GetOrAssignUserNum_def known_def)

lemma lookup_key_in: "lookup_key key k rows = Some r \<Longrightarrow> r \<in> set rows \<and> key r = k"
  by (auto simp: lookup_key_def find_Some_iff)

lemma unique_keyD: "unique_key key rows \<Longrightarrow> r \<in> set rows \<Longrightarrow> q \<in> set rows \<Longrightarrow> key r = key q \<Longrightarrow> r = q"
  by (auto simp: unique_key_def distinct_map inj_on_def)

lemma known_inject:
  assumes "store_ok st" "known u n st" "known v n st"
  shows "u = v"
proof -
  from assms(2,3) obtain r q where "lookup_key cu_username u (users st) = Some r" "cu_usernum r = n"
    "lookup_key cu_username v (users st) = Some q" "cu_usernum q = n"
    by (auto simp: known_def)
  moreover have "unique_key cu_usernum (users st)" using assms(1) by (simp add: store_ok_def users_ok_def)
  ultimately show ?thesis using unique_keyD [of cu_usernum "users st" r q] by (auto dest!: lookup_key_in)
qed

lemma update_user_ok [intro]:
  assumes "store_ok st" "\<And>r. cu_username (f r) = cu_username r" "\<And>r. cu_usernum (f r) = cu_usernum r"
  shows "store_ok (snd (update_user u f st))"
  unfolding update_user_def using assms(1)
  by (rule kept.ExecP_pres) (auto simp: store_ok_def keys_ok_def intro!: users_ok_map assms(2,3))

lemma SetAxLevel_ok: "store_ok st \<Longrightarrow> store_ok (snd (SetAxLevel u ax st))"
  by (auto simp: SetAxLevel_def case_prod_beta)

lemma SetUserFlags_ok: "store_ok st \<Longrightarrow> store_ok (snd (SetUserFlags u fl st))"
  by (auto simp: SetUserFlags_def case_prod_beta)

lemma SetScreenSize_ok: "store_ok st \<Longrightarrow> store_ok (snd (SetScreenSize u w h st))"
  by (auto simp: SetScreenSize_def case_prod_beta)

lemma RecordCall_ok: "store_ok st \<Longrightarrow> store_ok (RecordCall now u st)"
  by (auto simp: RecordCall_def case_prod_beta)

lemma SetConfig_ok: "store_ok st \<Longrightarrow> store_ok (SetConfig name v st)"
  unfolding SetConfig_def
  by (erule kept.ExecP_pres) (auto simp: store_ok_def keys_ok_def intro: config_table.unique_upsert)

lemma SetRegistration_ok: "store_ok st \<Longrightarrow> store_ok (snd (SetRegistration u reg st))"
  by (auto simp: SetRegistration_def Let_def case_prod_beta split: option.splits
      intro!: kept.ExecP_pres SetUserFlags_ok)
    (auto simp: store_ok_def keys_ok_def intro: config_table.unique_upsert)

lemma SetBio_ok: "store_ok st \<Longrightarrow> store_ok (snd (SetBio u bio st))"
  by (auto simp: SetBio_def Let_def case_prod_beta intro!: kept.ExecP_pres)
    (auto simp: store_ok_def keys_ok_def intro: bio_table.unique_upsert)

lemma IsLocalUser_ok: "store_ok st \<Longrightarrow> store_ok (snd (IsLocalUser addr st))"
  by (auto simp: IsLocalUser_def Let_def case_prod_beta)

lemma CreateFloor_ok:
  assumes "store_ok st"
  shows "store_ok (snd (CreateFloor name st))"
proof (cases rule: nextval_cases [of floor_seq "\<lambda>s. s\<lparr>floor_seq := floor_seq s + 1\<rparr>" st])
  case Given
  have "store_ok (st\<lparr>faults := tl (faults st), floor_seq := floor_seq st + 1\<rparr>)"
    using assms by (simp add: store_ok_def keys_ok_def)
  then have "store_ok (snd (ExecP (\<lambda>s. if n \<in> set (map fst (floors s)) then None
      else Some (s\<lparr>floors := floors s @ [(n, name)]\<rparr>)) (st\<lparr>faults := tl (faults st), floor_seq := floor_seq st + 1\<rparr>)))" for n
    by (rule kept.ExecP_pres) (auto simp: store_ok_def keys_ok_def unique_key_def split: if_splits)
  with Given show ?thesis by (simp add: CreateFloor_def case_prod_beta)
qed (use assms in \<open>simp add: CreateFloor_def kept.any_faults\<close>)

lemma RenameFloor_ok: "store_ok st \<Longrightarrow> store_ok (snd (RenameFloor n name st))"
  by (auto simp: RenameFloor_def Let_def case_prod_beta intro!: kept.ExecP_pres)
    (auto simp: store_ok_def keys_ok_def intro: unique_key_map [THEN iffD2])

lemma KillFloor_ok: "store_ok st \<Longrightarrow> store_ok (snd (KillFloor n st))"
  by (auto simp: KillFloor_def Let_def case_prod_beta split: option.splits intro!: kept.ExecP_pres)
    (auto simp: store_ok_def keys_ok_def intro: unique_key_delete)

section \<open>Room names\<close>

definition pad10 :: "int \<Rightarrow> string" where
  "pad10 n = replicate (10 - length (digits_of (nat n))) CHR ''0'' @ digits_of (nat n)"

lemma pad10:
  assumes "0 \<le> n" "n < 10 ^ 10"
  shows "length (pad10 n) = 10" "list_all isdigit (pad10 n)" "digits_val (pad10 n) = nat n"
    "MailboxRoomName n d = pad10 n @ ''.'' @ d" "lpad10 (to_string n) = pad10 n"
proof -
  have len: "length (digits_of (nat n)) \<le> 10"
    using length_digits_of [of "nat n" 10] assms by (simp add: nat_less_iff)
  then show 1: "length (pad10 n) = 10" by (simp add: pad10_def)
  show "list_all isdigit (pad10 n)"
    using digits_of_isdigit by (auto simp: pad10_def list_all_iff isdigit_def)
  show "digits_val (pad10 n) = nat n" by (simp add: pad10_def digits_val_zeros)
  show "MailboxRoomName n d = pad10 n @ ''.'' @ d"
    using assms(1) 1 by (simp add: MailboxRoomName_def Let_def pad10_def abs_of_nonneg)
  show "lpad10 (to_string n) = pad10 n"
    using assms(1) len by (auto simp: lpad10_def to_string_def pad10_def)
qed

lemma MailboxRoomName_inject:
  assumes "0 \<le> m" "m < 10 ^ 10" "0 \<le> n" "n < 10 ^ 10"
  shows "MailboxRoomName m a = MailboxRoomName n b \<longleftrightarrow> m = n \<and> a = b"
  using pad10(1,3,4) [OF assms(1,2)] pad10(1,3,4) [OF assms(3,4)] assms(1,3)
  by (metis append_eq_append_conv eq_nat_nat_iff same_append_eq)

lemma MailboxRoomName_reserved:
  assumes "0 \<le> n" "n < 10 ^ 10" "d \<noteq> []"
  shows "IsReservedRoomName (MailboxRoomName n d)"
  using pad10 [OF assms(1,2)] assms(3) by (cases d) (auto simp: IsReservedRoomName_def nth_append)

lemma rooms_ok_append:
  assumes "rooms_ok rs next" "room_ok next row" "\<not> list_ex (\<lambda>r. rm_num r = rm_num row \<or> rm_name r = rm_name row) rs"
  shows "rooms_ok (rs @ [row]) next"
  using assms by (auto simp: rooms_ok_def unique_key_def list_ex_iff)

lemma rooms_ok_mono: "rooms_ok rs next \<Longrightarrow> next \<le> n \<Longrightarrow> rooms_ok rs n"
  by (auto simp: rooms_ok_def room_ok_def list_all_iff)

interpretation room_alloc: store_inv "\<lambda>s. store_ok s \<and> n < room_seq s" for n
  by unfold_locales (simp add: store_ok_def keys_ok_def)

lemma CreateRoom_ok:
  assumes "store_ok st" "0 \<le> owner"
  shows "store_ok (snd (CreateRoom d floor flags pass owner st))"
proof (cases rule: nextval_cases [of room_seq "\<lambda>s. s\<lparr>room_seq := room_seq s + 1\<rparr>" st])
  case Failed
  then show ?thesis using assms by (simp add: CreateRoom_def kept.any_faults)
next
  case (Given st')
  let ?n = "room_seq st"
  define row where "row = \<lparr>rm_num = ?n, rm_name = room_key owner d, rm_display = d, rm_floor = floor, rm_flags = flags,
    rm_password = pass, rm_listorder = 0, rm_view = 0, rm_info = [], rm_owner = owner, rm_highest = 0\<rparr>"
  have start: "store_ok (st'\<lparr>room_seq := room_seq st' + 1\<rparr>) \<and> ?n < room_seq (st'\<lparr>room_seq := room_seq st' + 1\<rparr>)"
    using assms(1) Given(2) rooms_ok_mono [of "rooms st" ?n "?n + 1"] by (auto simp: store_ok_def keys_ok_def)
  have step: "store_ok s' \<and> ?n < room_seq s'"
    if "store_ok s \<and> ?n < room_seq s" "d \<noteq> []" "\<not> (owner = 0 \<and> IsReservedRoomName d)"
      "(if list_ex (\<lambda>r. rm_num r = ?n \<or> rm_name r = rm_name row) (rooms s) then None
        else Some (s\<lparr>rooms := rooms s @ [row]\<rparr>)) = Some s'" for s s'
  proof -
    from that have "\<not> list_ex (\<lambda>r. rm_num r = rm_num row \<or> rm_name r = rm_name row) (rooms s)"
      and s': "s' = s\<lparr>rooms := rooms s @ [row]\<rparr>"
      by (auto simp: row_def split: if_splits)
    moreover have "room_ok (room_seq s) row"
      using that assms by (simp add: room_ok_def row_def store_ok_def rooms_ok_def)
    moreover have "rooms_ok (rooms s) (room_seq s)" using that(1) by (simp add: store_ok_def)
    ultimately have "rooms_ok (rooms s @ [row]) (room_seq s)" by (intro rooms_ok_append)
    with that(1) s' show ?thesis by (simp add: store_ok_def keys_ok_def)
  qed
  have "store_ok (snd (ExecP (\<lambda>s. if list_ex (\<lambda>r. rm_num r = ?n \<or> rm_name r = rm_name row) (rooms s) then None
      else Some (s\<lparr>rooms := rooms s @ [row]\<rparr>)) (st'\<lparr>room_seq := room_seq st' + 1\<rparr>)))"
    if "d \<noteq> []" "\<not> (owner = 0 \<and> IsReservedRoomName d)"
    by (rule conjunct1, rule room_alloc.ExecP_pres [OF start]) (rule step [OF _ that]; assumption)
  then show ?thesis using assms Given unfolding row_def by (simp add: CreateRoom_def Let_def case_prod_beta)
qed

text \<open>A created room is there, with the owner and display name asked for.\<close>

lemma CreateRoom_created:
  assumes "CreateRoom d floor flags pass owner st = (Inr n, st')"
  shows "\<exists>r \<in> set (rooms st'). rm_num r = n \<and> rm_owner r = owner \<and> rm_display r = d"
  using assms
  by (auto simp: CreateRoom_def ExecP_def Let_def split: if_splits option.splits prod.splits)

lemma rooms_ok_rename:
  assumes "rooms_ok rs next" "old \<in> set rs" "\<not> list_ex (\<lambda>r. rm_num r \<noteq> rm_num old \<and> rm_name r = key) rs"
    and "key = room_key (rm_owner old) d" "\<not> (rm_owner old = 0 \<and> IsReservedRoomName d)"
    and "\<And>r. rm_num (upd r) = rm_num r \<and> rm_name (upd r) = key \<and> rm_display (upd r) = d \<and> rm_owner (upd r) = rm_owner r"
  shows "rooms_ok (map (\<lambda>r. if rm_num r = rm_num old then upd r else r) rs) next"
proof -
  let ?f = "\<lambda>r. if rm_num r = rm_num old then upd r else r"
  have num: "unique_key rm_num rs" "unique_key rm_name rs" and ok: "list_all (room_ok next) rs" "100 \<le> next"
    using assms(1) by (auto simp: rooms_ok_def)
  have same: "r = old" if "r \<in> set rs" "rm_num r = rm_num old" for r
    using unique_keyD [OF num(1)] that assms(2) by blast
  have "unique_key rm_num (map ?f rs)" using num(1) assms(6) by (subst unique_key_map) auto
  moreover have "inj_on (\<lambda>r. rm_name (?f r)) (set rs)"
  proof (rule inj_onI)
    fix r q assume "r \<in> set rs" "q \<in> set rs" "rm_name (?f r) = rm_name (?f q)"
    then show "r = q"
      using same [of r] same [of q] assms(3,6) unique_keyD [OF num(2), of r q]
      by (auto simp: list_ex_iff split: if_splits)
  qed
  then have "unique_key rm_name (map ?f rs)"
    using num(2) by (auto simp: unique_key_def distinct_map comp_def)
  moreover have "room_ok next (?f r)" if "r \<in> set rs" for r
    using that same ok(1) assms(4-6) by (auto simp: list_all_iff room_ok_def)
  then have "list_all (room_ok next) (map ?f rs)" by (simp only: list_all_iff set_map ball_simps) blast
  ultimately show ?thesis using ok(2) by (simp add: rooms_ok_def)
qed

interpretation room_update: store_inv "\<lambda>s. store_ok s \<and> old \<in> set (rooms s)" for old
  by unfold_locales (simp add: store_ok_def keys_ok_def)

lemma UpdateRoom_ok:
  assumes "store_ok st"
  shows "store_ok (snd (UpdateRoom room st))"
proof (cases "GetRoomByNum st (rm_num room)")
  case (Some old)
  then have old: "old \<in> set (rooms st)" "rm_num old = rm_num room"
    by (auto simp: GetRoomByNum_def dest!: lookup_key_in)
  define key where "key = room_key (rm_owner old) (rm_display room)"
  define upd :: "room \<Rightarrow> room" where "upd = (\<lambda>r. r\<lparr>rm_name := key, rm_display := rm_display room, rm_floor := rm_floor room,
    rm_flags := rm_flags room, rm_password := rm_password room, rm_listorder := rm_listorder room,
    rm_view := rm_view room, rm_info := rm_info room\<rparr>)"
  have step: "store_ok s'"
    if "store_ok s \<and> old \<in> set (rooms s)" "\<not> (rm_owner old = 0 \<and> IsReservedRoomName (rm_display room))"
      "(if list_ex (\<lambda>r. rm_num r \<noteq> rm_num room \<and> rm_name r = key) (rooms s) then None
        else Some (s\<lparr>rooms := map (\<lambda>r. if rm_num r = rm_num room then upd r else r) (rooms s)\<rparr>)) = Some s'" for s s'
  proof -
    from that(3) have fresh: "\<not> list_ex (\<lambda>r. rm_num r \<noteq> rm_num old \<and> rm_name r = key) (rooms s)"
      and s': "s' = s\<lparr>rooms := map (\<lambda>r. if rm_num r = rm_num old then upd r else r) (rooms s)\<rparr>"
      using old(2) by (auto split: if_splits)
    have "rooms_ok (map (\<lambda>r. if rm_num r = rm_num old then upd r else r) (rooms s)) (room_seq s)"
      using that(1,2) by (intro rooms_ok_rename [OF _ _ fresh key_def]) (auto simp: upd_def store_ok_def)
    then show ?thesis using that(1) by (simp add: s' store_ok_def keys_ok_def)
  qed
  have "store_ok (snd (ExecP (\<lambda>s. if list_ex (\<lambda>r. rm_num r \<noteq> rm_num room \<and> rm_name r = key) (rooms s) then None
      else Some (s\<lparr>rooms := map (\<lambda>r. if rm_num r = rm_num room then upd r else r) (rooms s)\<rparr>)) st))" (is "store_ok (snd ?r)")
    if "\<not> (rm_owner old = 0 \<and> IsReservedRoomName (rm_display room))"
  proof (cases "fst ?r")
    case True
    have "store_ok st \<and> old \<in> set (rooms st)" using assms old by simp
    then show ?thesis
      by (rule room_update.ExecP_post [OF _ _ True]) (rule step [OF _ that]; assumption)
  qed (use assms in \<open>auto simp: ExecP_def Let_def kept.any_faults split: option.splits if_splits\<close>)
  then show ?thesis using assms Some unfolding upd_def key_def
    by (simp add: UpdateRoom_def Let_def case_prod_beta)
qed (use assms in \<open>simp add: UpdateRoom_def\<close>)

lemma msgs_ok_filter: "msgs_ok ms ps ts n \<Longrightarrow> msgs_ok ms (delete_where P ps) (delete_where Q ts) n"
  by (auto simp: msgs_ok_def delete_where_def list_all_iff intro: unique_key_filter)

lemma msgs_ok_filters:
  "msgs_ok ms ps ts n \<Longrightarrow> msgs_ok ms (delete_where P ps) ts n"
  "msgs_ok ms ps ts n \<Longrightarrow> msgs_ok ms ps (delete_where Q ts) n"
  by (auto simp: msgs_ok_def delete_where_def list_all_iff intro: unique_key_filter)

lemma rooms_ok_filter: "rooms_ok rs n \<Longrightarrow> rooms_ok (delete_where P rs) n"
  by (auto simp: rooms_ok_def delete_where_def list_all_iff intro: unique_key_filter)

lemma KillRoom_ok:
  assumes "store_ok st" "\<And>h s. h \<in> set hooks \<Longrightarrow> store_ok s \<Longrightarrow> store_ok (snd h n s)"
  shows "store_ok (snd (KillRoom hooks n st))"
proof -
  have "store_ok (fold (\<lambda>h s. snd h n s) hooks st)"
    using assms by (induction hooks arbitrary: st) auto
  then show ?thesis using assms(1) unfolding KillRoom_def Let_def case_prod_beta
    by (simp, intro impI)
      (intro kept.ExecP_pres; (assumption | auto simp: store_ok_def keys_ok_def msgs_ok_filters rooms_ok_filter unique_key_delete))
qed

lemma ResolveRoom_ok: "store_ok st \<Longrightarrow> store_ok (snd (ResolveRoom u w st))"
  by (auto simp: ResolveRoom_def case_prod_beta split: option.splits)

lemma FindUserRoom_ok: "store_ok st \<Longrightarrow> store_ok (snd (FindUserRoom u d st))"
  by (auto simp: FindUserRoom_def case_prod_beta)

lemma GetOrAssignUserNum_nonneg: "store_ok st \<Longrightarrow> 0 \<le> fst (GetOrAssignUserNum u st)"
  using GetOrAssignUserNum_known [of u st] known_range [OF GetOrAssignUserNum_ok]
  by (cases "GetOrAssignUserNum u st") (metis fst_conv order.strict_implies_order order_refl snd_conv)

lemma GetOrCreateUserRoom_ok: "store_ok st \<Longrightarrow> store_ok (snd (GetOrCreateUserRoom u d st))"
  using CreateRoom_ok [OF GetOrAssignUserNum_ok] GetOrAssignUserNum_nonneg [of st u]
  by (auto simp: GetOrCreateUserRoom_def case_prod_beta split: option.splits prod.splits sum.splits)

lemma ensure_room_ok: "store_ok st \<Longrightarrow> store_ok (ensure_room u d st)"
  unfolding ensure_room_def case_prod_beta Let_def
  by (auto intro!: kept.ExecP_pres GetOrCreateUserRoom_ok)
    (auto simp: store_ok_def keys_ok_def rooms_ok_def unique_key_map list_all_iff room_ok_def)

lemma EnsureUserRooms_ok: "store_ok st \<Longrightarrow> store_ok (EnsureUserRooms u st)"
proof -
  have "store_ok (fold (ensure_room u) ds s)" if "store_ok s" for ds s
    using that by (induction ds arbitrary: s) (auto intro: ensure_room_ok)
  then show "store_ok st \<Longrightarrow> store_ok (EnsureUserRooms u st)"
    by (auto simp: EnsureUserRooms_def case_prod_beta)
qed

lemma digits_val_less: "list_all isdigit ds \<Longrightarrow> digits_val ds < 10 ^ length ds"
proof (induction ds rule: rev_induct)
  case (snoc d ds)
  then have "digits_val ds < 10 ^ length ds" "byte d - 48 \<le> 9" by (auto simp: isdigit_def)
  then show ?case by (simp add: digits_val_snoc)
qed (simp add: digits_val_def)

lemma MailboxRoomName_long:
  assumes "10 ^ 10 \<le> n"
  shows "isdigit (MailboxRoomName n d ! 10)"
proof -
  let ?ds = "digits_of (nat n)"
  have "list_all isdigit ?ds" using digits_of_isdigit by (auto simp: list_all_iff)
  then have "nat n < 10 ^ length ?ds" using digits_val_less [of ?ds] by simp
  moreover have "10 ^ 10 \<le> nat n" using assms by (simp add: le_nat_iff)
  ultimately have "(10 :: nat) ^ 10 < 10 ^ length ?ds" by linarith
  then have len: "10 < length ?ds" by (rule power_less_imp_less_exp [rotated]) simp
  moreover have "MailboxRoomName n d = take 15 ?ds @ ''.'' @ d"
    using assms len by (simp add: MailboxRoomName_def Let_def)
  ultimately show ?thesis using digits_of_isdigit [OF nth_mem [of 10 ?ds]] by (auto simp: nth_append)
qed

lemma MailboxRoomName_inject':
  assumes "0 \<le> m" "0 \<le> n" "n < 10 ^ 10" "MailboxRoomName m a = MailboxRoomName n b"
  shows "m = n \<and> a = b"
proof (cases "m < 10 ^ 10")
  case True
  then show ?thesis using assms MailboxRoomName_inject by blast
next
  case False
  then have "isdigit (MailboxRoomName n b ! 10)" using MailboxRoomName_long [of m a] assms(4) by simp
  moreover have "MailboxRoomName n b ! 10 = CHR ''.''" using pad10 [OF assms(2,3)] by (simp add: nth_append)
  ultimately show ?thesis by (simp add: isdigit_def)
qed

lemma personal_key_owner:
  assumes "rooms_ok rs next" "r \<in> set rs" "rm_name r = MailboxRoomName n d" "0 < n" "n < 10 ^ 10" "d \<noteq> []"
  shows "rm_owner r = n \<and> rm_display r = d"
proof -
  have r: "0 \<le> rm_owner r" "rm_name r = room_key (rm_owner r) (rm_display r)"
    "\<not> (rm_owner r = 0 \<and> IsReservedRoomName (rm_display r))"
    using assms(1,2) by (auto simp: rooms_ok_def list_all_iff room_ok_def)
  then have "rm_owner r \<noteq> 0"
    using assms(3-6) MailboxRoomName_reserved [of n d] by (auto simp: room_key_def)
  with r assms(3-5) show ?thesis
    using MailboxRoomName_inject' [of "rm_owner r" n "rm_display r" d] by (simp add: room_key_def)
qed

lemma CreateRoom_keeps_users [simp]: "users (snd (CreateRoom d floor flags pass owner st)) = users st"
  by (auto simp: CreateRoom_def nextval_def ExecP_def Let_def split: option.splits)


interpretation short_owners: store_inv "\<lambda>s. store_ok s \<and> list_all (\<lambda>r. rm_owner r < 10 ^ 10) (rooms s)"
  by unfold_locales (simp add: store_ok_def keys_ok_def)

lemma padded_name_id: "room_ok next r \<Longrightarrow> rm_owner r < 10 ^ 10 \<Longrightarrow> padded_name r = r"
  using pad10(4,5) [of "rm_owner r"] by (simp add: padded_name_def room_ok_def room_key_def)

lemma insert_rooms_ok:
  assumes "rooms_ok rs next" "list_all (room_ok next) rows"
  shows "rooms_ok (fold insert_room rows rs) next"
  using assms
proof (induction rows arbitrary: rs)
  case (Cons row rows)
  then have "rooms_ok (insert_room row rs) next"
    using rooms_ok_append [of rs "next" row] by (auto simp: insert_room_def)
  with Cons show ?case by simp
qed simp

lemma seed_rooms_ok: "100 \<le> next \<Longrightarrow> list_all (room_ok next) seed_rooms"
  by (simp add: seed_rooms_def seed_room_def room_ok_def room_key_def IsReservedRoomName_def isdigit_def)

lemma unique_key_inserts: "unique_key key rows \<Longrightarrow> unique_key key (fold (insert_or_ignore key) new rows)"
  by (induction new arbitrary: rows) (auto intro: unique_key_insert)

lemma EnsureCitadelSchema_ok:
  assumes "store_ok st" "list_all (\<lambda>r. rm_owner r < 10 ^ 10) (rooms st)"
  shows "store_ok (EnsureCitadelSchema st)"
proof -
  have sizes: "map ms_num (map (\<lambda>m. if P m then m\<lparr>ms_size := f m\<rparr> else m) ms) = map ms_num ms" for P f and ms :: "msg_row list"
    by simp
  have 1: "store_ok s \<and> list_all (\<lambda>r. rm_owner r < 10 ^ 10) (rooms s) \<Longrightarrow>
      store_ok (s\<lparr>messages := map (\<lambda>m. if P m then m\<lparr>ms_size := f m\<rparr> else m) (messages s)\<rparr>)
      \<and> list_all (\<lambda>r. rm_owner r < 10 ^ 10) (rooms s)" for s P f
    by (simp add: store_ok_def keys_ok_def sizes del: map_map)
  have 2: "map padded_name (rooms s) = rooms s" if "store_ok s \<and> list_all (\<lambda>r. rm_owner r < 10 ^ 10) (rooms s)" for s
    using that padded_name_id by (auto simp: store_ok_def rooms_ok_def list_all_iff intro!: map_idI)
  have 3: "store_ok s \<Longrightarrow> store_ok (s\<lparr>floors := insert_or_ignore fst x (floors s)\<rparr>)" for s x
    by (auto simp: store_ok_def keys_ok_def intro: unique_key_insert)
  have 4: "store_ok s \<Longrightarrow> store_ok (s\<lparr>rooms := fold insert_room seed_rooms (rooms s)\<rparr>)" for s
    using insert_rooms_ok seed_rooms_ok by (auto simp: store_ok_def keys_ok_def rooms_ok_def)
  have 5: "store_ok s \<Longrightarrow> store_ok (s\<lparr>cfg := fold (insert_or_ignore fst) config_seeds (cfg s)\<rparr>)" for s
    by (auto simp: store_ok_def keys_ok_def intro: unique_key_inserts)
  show ?thesis unfolding EnsureCitadelSchema_def Let_def
    apply (rule kept.ExecP_pres)
     apply (rule kept.ExecP_pres)
      apply (rule kept.ExecP_pres)
       apply (rule conjunct1, rule short_owners.ExecP_pres)
        apply (rule short_owners.ExecP_pres)
    using assms 1 2 3 4 5 by (auto split: if_splits)
qed

definition demo_store :: store where
  "demo_store = EnsureCitadelSchema (empty_store [(''ann'', True), (''bob'', True)] [])"

lemma empty_store_ok: "store_ok (empty_store accs fs)"
  by (simp add: store_ok_def empty_store_def users_ok_def rooms_ok_def msgs_ok_def keys_ok_def unique_key_def)

lemma demo_store_ok: "store_ok demo_store"
  unfolding demo_store_def by (rule EnsureCitadelSchema_ok) (simp_all add: empty_store_ok, simp add: empty_store_def)

lemma fresh_rooms: "fold insert_room seed_rooms [] = seed_rooms"
  by (simp add: seed_rooms_def insert_room_def seed_room_def)

lemma fresh_cfg: "fold (insert_or_ignore fst) config_seeds [] = config_seeds"
  by (simp add: config_seeds_def insert_or_ignore_def)

lemma demo_store: "demo_store = (empty_store [(''ann'', True), (''bob'', True)] [])\<lparr>floors := [(0, ''Main Floor'')],
   rooms := seed_rooms, cfg := config_seeds\<rparr>"
  by (simp add: demo_store_def EnsureCitadelSchema_def ExecP_def Let_def empty_store_def fresh_rooms fresh_cfg insert_or_ignore_def)

text \<open>The facts that run the operations on a concrete store.\<close>

lemmas run_store = GetOrAssignUserNum_def lookup_key_def nextval_def ExecP_def Let_def insert_user_def new_user_def
  empty_store_def seed_rooms_def seed_room_def demo_store


end
