(* ===== verification/QM_Access.thy ===== *)
theory QM_Access
  imports QM_Store
begin

unbundle bit_operations_syntax

text \<open>
  Who may see, read and post what: the second part of \<^verbatim>\<open>src/core/src/citadel_store.cpp\<close>. Room statistics
  and the per-user room state (last read, zapped, unlocked), RFC 4314 access lists and effective
  rights, room listings, who may create rooms, and which rooms take mail from outside.
\<close>

section \<open>Room statistics and state\<close>

record room_stats =
  st_total :: int
  st_new_count :: int
  st_highest :: int
  st_last_read :: int

definition no_stats :: room_stats where
  "no_stats = \<lparr>st_total = 0, st_new_count = 0, st_highest = 0, st_last_read = 0\<rparr>"

definition msgs_of :: "store \<Rightarrow> int \<Rightarrow> int list" where
  "msgs_of st n = map snd (filter (\<lambda>p. fst p = n) (room_msgs st))"

definition max0 :: "int list \<Rightarrow> int" where
  "max0 xs = (if xs = [] then 0 else Max (set xs))"

definition last_read_of :: "store \<Rightarrow> string \<Rightarrow> int \<Rightarrow> int" where
  "last_read_of st u n = (case lookup_key state_key (u, n) (room_states st) of None \<Rightarrow> 0 | Some r \<Rightarrow> rs_last_read r)"

definition GetRoomStats :: "store \<Rightarrow> string \<Rightarrow> int \<Rightarrow> room_stats" where
  "GetRoomStats st u n =
     (let last = (if u = [] then 0 else last_read_of st u n) in
      \<lparr>st_total = int (length (msgs_of st n)), st_new_count = int (length (filter (\<lambda>m. m > last) (msgs_of st n))),
       st_highest = max0 (msgs_of st n), st_last_read = last\<rparr>)"

text \<open>The rows of the one query: a row per room and matching state row, as a left join gives them.\<close>

definition bulk_rows :: "store \<Rightarrow> string \<Rightarrow> int list \<Rightarrow> (int \<times> room_stats) list" where
  "bulk_rows st u nums =
     concat (map (\<lambda>r.
       let reads = map rs_last_read (filter (\<lambda>s. rs_username s = u \<and> rs_room s = rm_num r) (room_states st));
           ms = msgs_of st (rm_num r) in
       map (\<lambda>last. (rm_num r, \<lparr>st_total = int (length ms), st_new_count = int (length (filter (\<lambda>m. m > last) ms)),
                               st_highest = max0 ms, st_last_read = last\<rparr>))
           (if reads = [] then [0] else reads))
       (filter (\<lambda>r. rm_num r \<in> set nums) (rooms st)))"

definition RoomStatsBulk :: "store \<Rightarrow> string \<Rightarrow> int list \<Rightarrow> room_stats list" where
  "RoomStatsBulk st u nums =
     (if nums = [] then []
      else map (\<lambda>n. case lookup_key fst n (bulk_rows st u nums) of None \<Rightarrow> no_stats | Some row \<Rightarrow> snd row) nums)"

definition new_state :: "string \<Rightarrow> int \<Rightarrow> room_state" where
  "new_state u n = \<lparr>rs_username = u, rs_room = n, rs_last_read = 0, rs_flags = 0\<rparr>"

definition set_last_read :: "room_state \<Rightarrow> room_state \<Rightarrow> room_state" where
  "set_last_read new old = old\<lparr>rs_last_read := rs_last_read new\<rparr>"

definition SetLastRead :: "string \<Rightarrow> int \<Rightarrow> int \<Rightarrow> store \<Rightarrow> store" where
  "SetLastRead u n msgnum st =
     (if u = [] then st
      else snd (ExecP (\<lambda>s. Some (s\<lparr>room_states := upsert state_key set_last_read
                ((new_state u n)\<lparr>rs_last_read := msgnum\<rparr>) (room_states s)\<rparr>)) st))"

abbreviation (input) "RS_ZAPPED \<equiv> 1 :: int"
abbreviation (input) "RS_UNLOCKED \<equiv> 2 :: int"

definition set_zapped :: "room_state \<Rightarrow> room_state \<Rightarrow> room_state" where
  "set_zapped new old =
     old\<lparr>rs_flags := (if rs_flags new \<noteq> 0 then rs_flags old OR 1 else rs_flags old AND NOT 1)\<rparr>"

definition ZapRoom :: "string \<Rightarrow> int \<Rightarrow> bool \<Rightarrow> store \<Rightarrow> (string + unit) \<times> store" where
  "ZapRoom u n zapped st =
     (if u = [] then (Inl ''not logged in'', st)
      else if zapped \<and> n = kLobbyRoom then (Inl ''you cannot zap the Lobby'', st)
      else let (ok, st) = ExecP (\<lambda>s. Some (s\<lparr>room_states := upsert state_key set_zapped
                ((new_state u n)\<lparr>rs_flags := (if zapped then RS_ZAPPED else 0)\<rparr>) (room_states s)\<rparr>)) st in
        (if ok then Inr () else Inl ''could not update room state'', st))"

definition state_flags :: "store \<Rightarrow> string \<Rightarrow> int \<Rightarrow> int" where
  "state_flags st u n = (case lookup_key state_key (u, n) (room_states st) of None \<Rightarrow> 0 | Some r \<Rightarrow> rs_flags r)"

definition IsZapped :: "store \<Rightarrow> string \<Rightarrow> int \<Rightarrow> bool" where
  "IsZapped st u n = (u \<noteq> [] \<and> has_flag (state_flags st u n) RS_ZAPPED)"

definition RoomUnlocked :: "string \<Rightarrow> room \<Rightarrow> store \<Rightarrow> bool \<times> store" where
  "RoomUnlocked u room st =
     (if \<not> has_flag (rm_flags room) QR_PASSWORDED \<or> rm_password room = [] then (True, st)
      else if u = [] then (False, st)
      else let (n, st) = (if rm_owner room > 0 then GetOrAssignUserNum u st else (0, st)) in
        if rm_owner room > 0 \<and> rm_owner room = n then (True, st)
        else (has_flag (state_flags st u (rm_num room)) RS_UNLOCKED, st))"

definition set_unlocked :: "room_state \<Rightarrow> room_state \<Rightarrow> room_state" where
  "set_unlocked new old = old\<lparr>rs_flags := rs_flags old OR 2\<rparr>"

definition UnlockRoom :: "string \<Rightarrow> room \<Rightarrow> string \<Rightarrow> store \<Rightarrow> bool \<times> store" where
  "UnlockRoom u room pass st =
     (if u = [] then (False, st)
      else if \<not> has_flag (rm_flags room) QR_PASSWORDED \<or> rm_password room = [] then (True, st)
      else if pass \<noteq> rm_password room then (False, st)
      else ExecP (\<lambda>s. Some (s\<lparr>room_states := upsert state_key set_unlocked
             ((new_state u (rm_num room))\<lparr>rs_flags := 2\<rparr>) (room_states s)\<rparr>)) st)"

section \<open>Access lists\<close>

definition kAclRights :: string where
  "kAclRights = ''lrswipkxtea''"

definition UnionRights :: "string \<Rightarrow> string \<Rightarrow> string" where
  "UnionRights a b = filter (\<lambda>c. c \<in> set a \<or> c \<in> set b) kAclRights"

definition StoredRights :: "store \<Rightarrow> int \<Rightarrow> string \<Rightarrow> string" where
  "StoredRights st n identifier =
     (case find (\<lambda>e. ae_room e = n \<and> Lower (ae_identifier e) = Lower identifier) (room_acl st) of
        None \<Rightarrow> [] | Some e \<Rightarrow> ae_rights e)"

definition IsAnyone :: "string \<Rightarrow> bool" where
  "IsAnyone s = (length s = 6 \<and> Lower s = ''anyone'')"

definition derived_rights :: "string \<Rightarrow> room \<Rightarrow> store \<Rightarrow> string \<times> store" where
  "derived_rights u room st =
     (if u = [] \<or> IsAnyone u then ([], st)
      else
       (let (n, st) = GetOrAssignUserNum u st in
        if rm_owner room > 0 \<and> rm_owner room = n \<or> GetAxLevel st u \<ge> kAideAxLevel then (kAclRights, st)
        else if rm_owner room > 0 \<or> has_flag (rm_flags room) QR_PRIVATE then ([], st)
        else let (unlocked, st) = RoomUnlocked u room st in
          if \<not> unlocked then ([], st)
          else (''lrs'' @ (if has_flag (rm_flags room) QR_READONLY then [] else ''wi''), st)))"

definition EffectiveRights :: "string \<Rightarrow> room \<Rightarrow> store \<Rightarrow> string \<times> store" where
  "EffectiveRights u room st =
     (let (derived, st) = derived_rights u room st;
          stored = StoredRights st (rm_num room) ''anyone'';
          stored = (if u = [] \<or> IsAnyone u then stored else UnionRights stored (StoredRights st (rm_num room) u))
      in (UnionRights derived stored, st))"

definition set_rights :: "acl_entry \<Rightarrow> acl_entry \<Rightarrow> acl_entry" where
  "set_rights new old = old\<lparr>ae_rights := ae_rights new\<rparr>"

definition SetRights :: "room \<Rightarrow> string \<Rightarrow> string \<Rightarrow> store \<Rightarrow> (string + unit) \<times> store" where
  "SetRights room identifier rights st =
     (if identifier = [] then (Inl ''an ACL entry needs an identifier'', st)
      else case find (\<lambda>c. c \<notin> set kAclRights \<and> c \<noteq> CHR 0x00) rights of
        Some c \<Rightarrow> (Inl (''unknown right '' @ [CHR 0x27, c, CHR 0x27]), st)
      | None \<Rightarrow>
         if rights = []
         then (Inr (), snd (ExecP (\<lambda>s. Some (s\<lparr>room_acl := delete_where (\<lambda>e. ae_room e = rm_num room
                 \<and> Lower (ae_identifier e) = Lower identifier) (room_acl s)\<rparr>)) st))
         else let (ok, st) = ExecP (\<lambda>s. Some (s\<lparr>room_acl := upsert acl_key set_rights
                   \<lparr>ae_room = rm_num room, ae_identifier = identifier, ae_rights = UnionRights rights []\<rparr> (room_acl s)\<rparr>)) st in
           (if ok then Inr () else Inl ''could not store the access control entry'', st))"

definition ListRights :: "store \<Rightarrow> room \<Rightarrow> (string \<times> string) list" where
  "ListRights st room = map (\<lambda>e. (ae_identifier e, ae_rights e))
     (sort_key ae_identifier (filter (\<lambda>e. ae_room e = rm_num room) (room_acl st)))"

definition CanPost :: "string \<Rightarrow> room \<Rightarrow> store \<Rightarrow> bool \<times> store" where
  "CanPost u room st =
     (let (rights, st) = EffectiveRights u room st
      in ((if u = [] then CHR ''p'' else CHR ''i'') \<in> set rights, st))"

definition CanAdminister :: "string \<Rightarrow> room \<Rightarrow> store \<Rightarrow> bool \<times> store" where
  "CanAdminister u room st =
     (if u = [] then (False, st)
      else let (rights, st) = EffectiveRights u room st in (CHR ''a'' \<in> set rights, st))"

section \<open>Listing rooms\<close>

definition invited :: "store \<Rightarrow> string \<Rightarrow> int \<Rightarrow> bool" where
  "invited st u n = list_ex (\<lambda>e. ae_room e = n \<and> Lower (ae_identifier e) \<in> {Lower u, ''anyone''}
     \<and> CHR ''l'' \<in> set (ae_rights e)) (room_acl st)"

definition listed :: "store \<Rightarrow> string \<Rightarrow> int \<Rightarrow> bool \<Rightarrow> bool \<Rightarrow> int \<Rightarrow> room \<Rightarrow> bool" where
  "listed st u usernum aide want_zapped floor r =
     ((rm_owner r = 0 \<or> rm_owner r = usernum)
      \<and> (aide \<or> \<not> has_flag (rm_flags r) QR_PRIVATE \<or> rm_owner r = usernum \<or> (u \<noteq> [] \<and> invited st u (rm_num r)))
      \<and> (u = [] \<or> list_ex (\<lambda>s. rs_username s = u \<and> rs_room s = rm_num r \<and> has_flag (rs_flags s) 1) (room_states st) = want_zapped)
      \<and> (floor < 0 \<or> rm_floor r = floor))"

definition ListRooms :: "string \<Rightarrow> int \<Rightarrow> string \<Rightarrow> store \<Rightarrow> room list \<times> store" where
  "ListRooms u floor which st =
     (let (usernum, st) = (if u = [] then (0, st) else GetOrAssignUserNum u st);
          aide = (u \<noteq> [] \<and> GetAxLevel st u \<ge> kAideAxLevel);
          want_zapped = (which = ''zapped'') in
      if u = [] \<and> want_zapped then ([], st)
      else
       (let rs = sort_key rm_name (filter (listed st u usernum aide want_zapped floor) (rooms st)) in
        if which \<noteq> ''new'' \<and> which \<noteq> ''old'' then (rs, st)
        else (map fst (filter (\<lambda>(r, s). (which = ''new'') = (st_new_count s > 0))
                (zip rs (RoomStatsBulk st u (map rm_num rs)))), st)))"

section \<open>Creating rooms\<close>

definition granted :: "store \<Rightarrow> string \<Rightarrow> int list" where
  "granted st u = remdups (map ae_room (filter (\<lambda>e. CHR ''k'' \<in> set (ae_rights e)
     \<and> (Lower (ae_identifier e) = Lower u \<or> Lower (ae_identifier e) = ''anyone'')) (room_acl st)))"

definition CreatableFloors :: "string \<Rightarrow> store \<Rightarrow> int list \<times> store" where
  "CreatableFloors u st =
     (if u = [] \<or> IsAnyone u then ([], st)
      else
       (let aide = (GetAxLevel st u \<ge> kAideAxLevel) in
        if \<not> aide \<and> granted st u = [] then ([], st)
        else
         (let gr = granted st u; (rs, st) = ListRooms u (- 1) ''all'' st in
          (sort (remdups (map rm_floor (filter (\<lambda>r. rm_owner r = 0 \<and> (aide \<or> rm_num r \<in> set gr)) rs))), st))))"

definition CanCreateRoomOnFloor :: "string \<Rightarrow> int \<Rightarrow> store \<Rightarrow> bool \<times> store" where
  "CanCreateRoomOnFloor u floor st = (let (fs, st) = CreatableFloors u st in (floor \<in> set fs, st))"

definition RoomCreateAxLevel :: "store \<Rightarrow> int" where
  "RoomCreateAxLevel st =
     (let want = store_GetConfig st ''qm_room_create_axlevel'' [];
          (parsed, rest) = strtoll want in
      if want = [] then kAideAxLevel
      else if rest \<noteq> c_str want \<and> rest = [] \<and> parsed \<ge> 0 \<and> parsed \<le> 6 then parsed
      else kAideAxLevel)"

definition MayCreateRoom :: "string \<Rightarrow> int \<Rightarrow> store \<Rightarrow> bool \<times> store" where
  "MayCreateRoom u floor st =
     (if u = [] then (False, st)
      else if GetAxLevel st u \<ge> RoomCreateAxLevel st then (True, st)
      else CanCreateRoomOnFloor u floor st)"

section \<open>Mail to rooms\<close>

definition ResolveMailRoom :: "string \<Rightarrow> store \<Rightarrow> int \<times> store" where
  "ResolveMailRoom local_part st =
     (if length local_part \<le> 5 then (- 1, st)
      else if map tolower (take 5 local_part) \<noteq> ''room_'' then (- 1, st)
      else
       (let rest = drop 5 local_part;
            (found, st) = ResolveRoom [] rest st;
            (found, st) = (case found of Some r \<Rightarrow> (Some r, st)
               | None \<Rightarrow> ResolveRoom [] (map (\<lambda>c. if c = CHR ''_'' then CHR '' '' else c) rest) st) in
        case found of None \<Rightarrow> (- 1, st)
        | Some room \<Rightarrow>
           if rm_owner room > 0 \<or> has_flag (rm_flags room) (QR_MAILBOX OR QR_PRIVATE OR QR_PASSWORDED) then (- 1, st)
           else let (ok, st) = CanPost [] room st in (if ok then rm_num room else - 1, st)))"

section \<open>Preferences\<close>

definition GetUserPref :: "store \<Rightarrow> string \<Rightarrow> string \<Rightarrow> string \<Rightarrow> string" where
  "GetUserPref st u name dflt =
     (if u = [] then dflt
      else case find (\<lambda>p. Lower (fst (fst p)) = Lower u \<and> snd (fst p) = name) (prefs st) of
        None \<Rightarrow> dflt | Some p \<Rightarrow> snd p)"

definition SetUserPref :: "string \<Rightarrow> string \<Rightarrow> string \<Rightarrow> store \<Rightarrow> bool \<times> store" where
  "SetUserPref u name v st =
     (if u = [] then (False, st)
      else if v = []
      then (True, snd (ExecP (\<lambda>s. Some (s\<lparr>prefs := delete_where (\<lambda>p. Lower (fst (fst p)) = Lower u
              \<and> snd (fst p) = name) (prefs s)\<rparr>)) st))
      else ExecP (\<lambda>s. Some (s\<lparr>prefs := upsert fst set_value ((u, name), v) (prefs s)\<rparr>)) st)"

section \<open>The invariant is kept\<close>

interpretation read_table: keyed_table state_key set_last_read
  by unfold_locales (simp add: state_key_def set_last_read_def)

interpretation zap_table: keyed_table state_key set_zapped
  by unfold_locales (simp add: state_key_def set_zapped_def)

interpretation unlock_table: keyed_table state_key set_unlocked
  by unfold_locales (simp add: state_key_def set_unlocked_def)

interpretation rights_table: keyed_table acl_key set_rights
  by unfold_locales (simp add: acl_key_def set_rights_def)

lemma SetLastRead_ok: "store_ok st \<Longrightarrow> store_ok (SetLastRead u n m st)"
  unfolding SetLastRead_def
  by (auto intro!: kept.ExecP_pres) (auto simp: store_ok_def keys_ok_def intro: read_table.unique_upsert)

lemma ZapRoom_ok: "store_ok st \<Longrightarrow> store_ok (snd (ZapRoom u n z st))"
  unfolding ZapRoom_def case_prod_beta Let_def
  by (auto intro!: kept.ExecP_pres) (auto simp: store_ok_def keys_ok_def intro: zap_table.unique_upsert)

lemma RoomUnlocked_ok: "store_ok st \<Longrightarrow> store_ok (snd (RoomUnlocked u room st))"
  by (auto simp: RoomUnlocked_def Let_def case_prod_beta)

lemma UnlockRoom_ok: "store_ok st \<Longrightarrow> store_ok (snd (UnlockRoom u room pass st))"
  unfolding UnlockRoom_def
  by (auto intro!: kept.ExecP_pres) (auto simp: store_ok_def keys_ok_def intro: unlock_table.unique_upsert)

lemma EffectiveRights_ok: "store_ok st \<Longrightarrow> store_ok (snd (EffectiveRights u room st))"
  by (auto simp: EffectiveRights_def derived_rights_def Let_def case_prod_beta intro!: RoomUnlocked_ok)

lemma SetRights_ok: "store_ok st \<Longrightarrow> store_ok (snd (SetRights room ident rights st))"
  unfolding SetRights_def case_prod_beta Let_def
  by (auto intro!: kept.ExecP_pres split: option.splits)
    (auto simp: store_ok_def keys_ok_def intro: rights_table.unique_upsert unique_key_delete)

lemma CanPost_ok: "store_ok st \<Longrightarrow> store_ok (snd (CanPost u room st))"
  by (simp add: CanPost_def case_prod_beta EffectiveRights_ok)

lemma CanAdminister_ok: "store_ok st \<Longrightarrow> store_ok (snd (CanAdminister u room st))"
  by (simp add: CanAdminister_def case_prod_beta EffectiveRights_ok)

lemma ListRooms_ok: "store_ok st \<Longrightarrow> store_ok (snd (ListRooms u f w st))"
  by (auto simp: ListRooms_def Let_def case_prod_beta)

lemma CreatableFloors_ok: "store_ok st \<Longrightarrow> store_ok (snd (CreatableFloors u st))"
  by (auto simp: CreatableFloors_def Let_def case_prod_beta intro!: ListRooms_ok)

lemma MayCreateRoom_ok: "store_ok st \<Longrightarrow> store_ok (snd (MayCreateRoom u f st))"
  by (auto simp: MayCreateRoom_def CanCreateRoomOnFloor_def Let_def case_prod_beta intro!: CreatableFloors_ok)

lemma ResolveMailRoom_ok: "store_ok st \<Longrightarrow> store_ok (snd (ResolveMailRoom l st))"
  by (auto simp: ResolveMailRoom_def Let_def case_prod_beta intro!: CanPost_ok ResolveRoom_ok split: option.splits)

lemma SetUserPref_ok: "store_ok st \<Longrightarrow> store_ok (snd (SetUserPref u name v st))"
  unfolding SetUserPref_def
  by (auto intro!: kept.ExecP_pres) (auto simp: store_ok_def keys_ok_def)

section \<open>One query for all rooms\<close>

lemma unique_filter_lookup:
  assumes "unique_key key rows"
  shows "filter (\<lambda>r. key r = k) rows = (case lookup_key key k rows of None \<Rightarrow> [] | Some r \<Rightarrow> [r])"
  using assms
  by (induction rows)
    (auto simp: unique_key_def lookup_key_def filter_empty_conv image_iff find_Some_iff split: option.splits)

lemma lookup_map_rows:
  assumes "r \<in> set rows"
  shows "lookup_key fst (key r) (map (\<lambda>r. (key r, f (key r))) rows) = Some (key r, f (key r))"
  using assms by (induction rows) (auto simp: lookup_key_def)

text \<open>The bulk query returns, room by room and in the order asked for, what the three or four
  queries of \<open>GetRoomStats\<close> return for that room. The hypotheses are the invariant of the store
  and that the rooms exist and the user is named, as they are where a listing is filtered.\<close>

theorem RoomStatsBulk_eq:
  assumes "store_ok st" "u \<noteq> []" "list_all (\<lambda>n. GetRoomByNum st n \<noteq> None) nums"
  shows "RoomStatsBulk st u nums = map (GetRoomStats st u) nums"
proof -
  have key: "unique_key state_key (room_states st)"
    using assms(1) by (simp add: store_ok_def keys_ok_def)
  have reads: "map rs_last_read (filter (\<lambda>s. rs_username s = u \<and> rs_room s = n) (room_states st))
      = (case lookup_key state_key (u, n) (room_states st) of None \<Rightarrow> [] | Some r \<Rightarrow> [rs_last_read r])" for n
    using unique_filter_lookup [OF key, of "(u, n)"] by (simp add: state_key_def split: option.splits)
  have "map (\<lambda>last. (n, \<lparr>st_total = int (length (msgs_of st n)), st_new_count = int (length (filter (\<lambda>m. m > last) (msgs_of st n))),
        st_highest = max0 (msgs_of st n), st_last_read = last\<rparr>))
      (if (case lookup_key state_key (u, n) (room_states st) of None \<Rightarrow> [] | Some r \<Rightarrow> [rs_last_read r]) = [] then [0]
       else (case lookup_key state_key (u, n) (room_states st) of None \<Rightarrow> [] | Some r \<Rightarrow> [rs_last_read r]))
      = [(n, GetRoomStats st u n)]" for n
    using assms(2) by (auto simp: GetRoomStats_def last_read_of_def Let_def split: option.splits)
  then have rows: "bulk_rows st u nums = map (\<lambda>r. (rm_num r, GetRoomStats st u (rm_num r))) (filter (\<lambda>r. rm_num r \<in> set nums) (rooms st))"
    by (simp only: bulk_rows_def Let_def reads concat_map_singleton)
  have "lookup_key fst n (bulk_rows st u nums) = Some (n, GetRoomStats st u n)" if n: "n \<in> set nums" for n
  proof -
    obtain r where r: "r \<in> set (rooms st)" "rm_num r = n"
      using assms(3) n lookup_key_in [of rm_num n "rooms st"] by (auto simp: list_all_iff GetRoomByNum_def)
    with n show ?thesis using lookup_map_rows [of r "filter (\<lambda>r. rm_num r \<in> set nums) (rooms st)" rm_num] by (simp add: rows)
  qed
  then show ?thesis by (auto simp: RoomStatsBulk_def)
qed

definition demo_msg :: "int \<Rightarrow> string \<Rightarrow> string \<Rightarrow> msg_row" where
  "demo_msg n euid raw = \<lparr>ms_num = n, ms_euid = euid, ms_author = ''ann'', ms_author_usernum = 1, ms_recipient = [], ms_node = [],
     ms_time = 1000, ms_subject = [], ms_format = 4, ms_references = [], ms_origin_room = [], ms_raw = raw, ms_size = int (length raw)\<rparr>"

definition busy_store :: store where
  "busy_store = demo_store\<lparr>messages := [demo_msg 1 [] ''a'', demo_msg 2 [] ''b''], room_msgs := [(0, 1), (0, 2), (3, 2)],
     room_states := [\<lparr>rs_username = ''ann'', rs_room = 0, rs_last_read = 1, rs_flags = 0\<rparr>], msg_seq := 3\<rparr>"

lemma busy_store_ok: "store_ok busy_store"
  using demo_store_ok
  by (simp add: busy_store_def store_ok_def keys_ok_def msgs_ok_def demo_msg_def demo_store empty_store_def unique_key_def)

theorem RoomStatsBulk_eq_witness:
  "RoomStatsBulk busy_store ''ann'' [3, 0] = map (GetRoomStats busy_store ''ann'') [3, 0]
     \<and> map st_new_count (RoomStatsBulk busy_store ''ann'' [3, 0]) = [1, 1]"
proof -
  have "list_all (\<lambda>n. GetRoomByNum busy_store n \<noteq> None) [3, 0]"
    by (simp add: GetRoomByNum_def busy_store_def run_store)
  then have "RoomStatsBulk busy_store ''ann'' [3, 0] = map (GetRoomStats busy_store ''ann'') [3, 0]"
    by (intro RoomStatsBulk_eq busy_store_ok) simp_all
  moreover have "map st_new_count (map (GetRoomStats busy_store ''ann'') [3, 0]) = [1, 1]"
    by (simp add: GetRoomStats_def last_read_of_def msgs_of_def state_key_def busy_store_def run_store)
  ultimately show ?thesis by simp
qed

section \<open>Rights\<close>

lemma GetAxLevel_assign [simp]: "GetAxLevel (snd (GetOrAssignUserNum u st)) v = GetAxLevel st v"
proof -
  have "find (\<lambda>r. cu_username r = v) (rows @ [new_user u n]) = (case find (\<lambda>r. cu_username r = v) rows of
      Some r \<Rightarrow> Some r | None \<Rightarrow> if u = v then Some (new_user u n) else None)" for rows n
    by (simp add: find_append new_user_def split: option.splits)
  then show ?thesis
    by (auto simp: GetAxLevel_def GetOrAssignUserNum_def lookup_key_def nextval_def ExecP_def Let_def insert_user_def
        new_user_def split: option.splits if_splits)
qed

lemma UnionRights_iff: "c \<in> set (UnionRights a b) \<longleftrightarrow> c \<in> set kAclRights \<and> (c \<in> set a \<or> c \<in> set b)"
  by (auto simp: UnionRights_def)

lemma RoomUnlocked_keeps [simp]: "room_acl (snd (RoomUnlocked u room st)) = room_acl st"
  by (auto simp: RoomUnlocked_def Let_def case_prod_beta)

lemma derived_rights_keeps [simp]: "room_acl (snd (derived_rights u room st)) = room_acl st"
  by (auto simp: derived_rights_def Let_def case_prod_beta)

lemma StoredRights_cong: "room_acl s = room_acl t \<Longrightarrow> StoredRights s = StoredRights t"
  by (intro ext) (simp add: StoredRights_def)

text \<open>The rights of a caller: what is derived from the room, and what the access list adds.\<close>

lemma EffectiveRights_iff:
  "c \<in> set (fst (EffectiveRights u room st)) \<longleftrightarrow> c \<in> set kAclRights \<and>
     (c \<in> set (fst (derived_rights u room st)) \<or> c \<in> set (StoredRights st (rm_num room) ''anyone'')
      \<or> \<not> (u = [] \<or> IsAnyone u) \<and> c \<in> set (StoredRights st (rm_num room) u))"
  by (auto simp: EffectiveRights_def Let_def case_prod_beta UnionRights_iff
      StoredRights_cong [OF derived_rights_keeps, of u room st] split: if_splits)

text \<open>C27. Mail from outside reaches only rooms that were opened to it: the room an address
  \<^verbatim>\<open>room_<name>\<close> resolves to is public, neither a mailbox nor invitation-only nor passworded, and its
  access list grants the post right to anyone.\<close>

theorem ResolveMailRoom_open:
  assumes "ResolveMailRoom local_part st = (n, st')" "n \<noteq> - 1"
  shows "\<exists>r \<in> set (rooms st). rm_num r = n \<and> rm_owner r = 0 \<and> \<not> has_flag (rm_flags r) QR_MAILBOX
    \<and> \<not> has_flag (rm_flags r) QR_PRIVATE \<and> \<not> has_flag (rm_flags r) QR_PASSWORDED
    \<and> CHR ''p'' \<in> set (StoredRights st n ''anyone'')"
proof -
  have split: "has_flag f (QR_MAILBOX OR QR_PRIVATE OR QR_PASSWORDED)
      \<longleftrightarrow> has_flag f QR_MAILBOX \<or> has_flag f QR_PRIVATE \<or> has_flag f QR_PASSWORDED" for f
    unfolding has_flag_def bit.conj_disj_distrib or_eq_0_iff by blast
  have same: "snd (ResolveRoom [] w st) = st" for w
    by (simp add: ResolveRoom_def split: option.splits)
  have found: "r \<in> set (rooms st) \<and> rm_owner r = 0" if "fst (ResolveRoom [] w st) = Some r" for w r
    using that by (auto simp: ResolveRoom_def find_Some_iff split: option.splits)
  have post: "fst (CanPost [] r st) \<longleftrightarrow> CHR ''p'' \<in> set (StoredRights st (rm_num r) ''anyone'')" for r
    by (simp add: CanPost_def case_prod_beta EffectiveRights_iff derived_rights_def kAclRights_def)
  from assms obtain r where "r \<in> set (rooms st)" "rm_owner r = 0"
    "\<not> has_flag (rm_flags r) (QR_MAILBOX OR QR_PRIVATE OR QR_PASSWORDED)" "fst (CanPost [] r st)" "n = rm_num r"
    by (auto simp: ResolveMailRoom_def Let_def case_prod_beta same split: if_splits option.splits dest!: found)
  then show ?thesis using split post by auto
qed

definition open_store :: store where
  "open_store = demo_store\<lparr>room_acl := [\<lparr>ae_room = 0, ae_identifier = ''anyone'', ae_rights = ''lp''\<rparr>]\<rparr>"

theorem ResolveMailRoom_open_witness:
  "\<exists>r \<in> set (rooms open_store). rm_num r = 0 \<and> rm_owner r = 0 \<and> \<not> has_flag (rm_flags r) QR_MAILBOX
     \<and> \<not> has_flag (rm_flags r) QR_PRIVATE \<and> \<not> has_flag (rm_flags r) QR_PASSWORDED
     \<and> CHR ''p'' \<in> set (StoredRights open_store 0 ''anyone'')"
proof -
  have lower: "Lower ''lobby'' = ''lobby''" "Lower ''Lobby'' = ''lobby''" "map tolower ''Room_'' = ''room_''" by code_simp+
  have "ResolveMailRoom ''Room_lobby'' open_store = (0, open_store)"
    using lower
    by (simp add: ResolveMailRoom_def ResolveRoom_def CanPost_def EffectiveRights_def derived_rights_def StoredRights_def
        UnionRights_def kAclRights_def has_flag_def open_store_def run_store)
  from ResolveMailRoom_open [OF this] show ?thesis by simp
qed

lemma flag_set: "has_flag (x OR 2) 2" "has_flag 2 2"
proof -
  have "bit ((x OR 2) AND 2) 1" by (simp add: bit_simps)
  then show "has_flag (x OR 2) 2" by (auto simp: has_flag_def)
qed (simp add: has_flag_def)

text \<open>A passworded room: to a caller who is no aide, has no grant and has not unlocked it, the
  room gives no right at all. Unlocking succeeds only with the room's password, and from then on the
  caller may read; a failed attempt, for a wrong password or a refused write, changes nothing.\<close>

theorem password_gate:
  assumes "u \<noteq> []" "\<not> IsAnyone u" "GetAxLevel st u < kAideAxLevel"
    and "rm_owner room = 0" "\<not> has_flag (rm_flags room) QR_PRIVATE" "has_flag (rm_flags room) QR_PASSWORDED" "rm_password room \<noteq> []"
    and "\<not> has_flag (state_flags st u (rm_num room)) RS_UNLOCKED"
    and "StoredRights st (rm_num room) u = []" "StoredRights st (rm_num room) ''anyone'' = []"
  shows "fst (EffectiveRights u room st) = []
    \<and> (if fst (UnlockRoom u room pass st)
       then pass = rm_password room \<and> CHR ''r'' \<in> set (fst (EffectiveRights u room (snd (UnlockRoom u room pass st))))
       else fst (EffectiveRights u room (snd (UnlockRoom u room pass st))) = [])"
proof -
  have locked: "fst (EffectiveRights u room s) = []"
    if "GetAxLevel s u < kAideAxLevel" "state_flags s u (rm_num room) = state_flags st u (rm_num room)" "room_acl s = room_acl st" for s
  proof -
    have "state_flags (snd (GetOrAssignUserNum u s)) u (rm_num room) = state_flags st u (rm_num room)"
      using that(2) by (simp add: state_flags_def)
    then have "fst (derived_rights u room s) = []"
      using assms(1-8) that(1) by (simp add: derived_rights_def RoomUnlocked_def Let_def case_prod_beta)
    moreover have "StoredRights (snd (derived_rights u room s)) = StoredRights st"
      using that(3) by (intro StoredRights_cong) simp
    ultimately show ?thesis
      using assms(1,2,9,10) by (simp add: EffectiveRights_def Let_def case_prod_beta UnionRights_def)
  qed
  let ?st' = "snd (UnlockRoom u room pass st)"
  have keeps: "GetAxLevel ?st' u = GetAxLevel st u" "room_acl ?st' = room_acl st"
    by (auto simp: UnlockRoom_def ExecP_def GetAxLevel_def Let_def)
  show ?thesis
  proof (cases "fst (UnlockRoom u room pass st)")
    case True
    then have pass: "pass = rm_password room" using assms(1,6,7) by (auto simp: UnlockRoom_def split: if_splits)
    have "room_states ?st' = upsert state_key set_unlocked ((new_state u (rm_num room))\<lparr>rs_flags := 2\<rparr>) (room_states st)"
      using True assms(1,6,7) pass by (auto simp: UnlockRoom_def ExecP_def Let_def split: if_splits)
    then have "has_flag (state_flags ?st' u (rm_num room)) RS_UNLOCKED"
      using flag_set by (auto simp: state_flags_def unlock_table.lookup_upsert new_state_def state_key_def set_unlocked_def
          split: option.splits)
    then have "CHR ''r'' \<in> set (fst (EffectiveRights u room ?st'))"
      using assms(1-6) keeps
      by (auto simp: EffectiveRights_iff kAclRights_def derived_rights_def RoomUnlocked_def state_flags_def Let_def case_prod_beta)
    with True pass show ?thesis using locked [OF assms(3)] by simp
  next
    case False
    then have "room_states ?st' = room_states st"
      using assms(6,7) by (auto simp: UnlockRoom_def ExecP_def Let_def split: if_splits)
    then have "state_flags ?st' u (rm_num room) = state_flags st u (rm_num room)" by (simp add: state_flags_def)
    with False show ?thesis using locked [OF assms(3)] locked [of ?st'] keeps assms(3) by simp
  qed
qed

definition locked_room :: room where
  "locked_room = \<lparr>rm_num = 50, rm_name = ''Vault'', rm_display = ''Vault'', rm_floor = 0, rm_flags = 8, rm_password = ''pw'',
     rm_listorder = 0, rm_view = 0, rm_info = [], rm_owner = 0, rm_highest = 0\<rparr>"

theorem password_gate_witness:
  "fst (EffectiveRights ''ann'' locked_room demo_store) = []
   \<and> CHR ''r'' \<in> set (fst (EffectiveRights ''ann'' locked_room (snd (UnlockRoom ''ann'' locked_room ''pw'' demo_store))))
   \<and> fst (EffectiveRights ''ann'' locked_room (snd (UnlockRoom ''ann'' locked_room ''PW'' demo_store))) = []"
proof -
  have hyps: "\<not> IsAnyone ''ann''" "GetAxLevel demo_store ''ann'' < kAideAxLevel" "rm_owner locked_room = 0"
    "\<not> has_flag (rm_flags locked_room) QR_PRIVATE" "has_flag (rm_flags locked_room) QR_PASSWORDED" "rm_password locked_room \<noteq> []"
    "\<not> has_flag (state_flags demo_store ''ann'' (rm_num locked_room)) RS_UNLOCKED"
    "StoredRights demo_store (rm_num locked_room) ''ann'' = []" "StoredRights demo_store (rm_num locked_room) ''anyone'' = []"
    by (simp_all add: IsAnyone_def GetAxLevel_def locked_room_def has_flag_def state_flags_def StoredRights_def run_store)
  have "fst (UnlockRoom ''ann'' locked_room ''pw'' demo_store)" "\<not> fst (UnlockRoom ''ann'' locked_room ''PW'' demo_store)"
    by (simp_all add: UnlockRoom_def locked_room_def has_flag_def run_store)
  then show ?thesis
    using password_gate [OF _ hyps, of "''pw''"] password_gate [OF _ hyps, of "''PW''"] by auto
qed

lemma StoredRights_has:
  assumes "unique_key (\<lambda>e. (ae_room e, Lower (ae_identifier e))) (room_acl st)"
  shows "c \<in> set (StoredRights st n ident) \<longleftrightarrow>
    list_ex (\<lambda>e. ae_room e = n \<and> Lower (ae_identifier e) = Lower ident \<and> c \<in> set (ae_rights e)) (room_acl st)"
proof -
  have "StoredRights st n ident =
      (case lookup_key (\<lambda>e. (ae_room e, Lower (ae_identifier e))) (n, Lower ident) (room_acl st) of None \<Rightarrow> [] | Some e \<Rightarrow> ae_rights e)"
    by (simp add: StoredRights_def lookup_key_def)
  moreover have "list_ex (\<lambda>e. ae_room e = n \<and> Lower (ae_identifier e) = Lower ident \<and> c \<in> set (ae_rights e)) (room_acl st)
      \<longleftrightarrow> list_ex (\<lambda>e. c \<in> set (ae_rights e)) (filter (\<lambda>e. (ae_room e, Lower (ae_identifier e)) = (n, Lower ident)) (room_acl st))"
    by (auto simp: list_ex_iff)
  ultimately show ?thesis
    unfolding unique_filter_lookup [OF assms] by (simp split: option.splits)
qed



text \<open>A defect: the access list is keyed by the identifier as typed but looked up without regard to
  case, and the first row found wins. Reducing a user's rights under another spelling adds a second
  row, and the rights the operator meant to take away stay in force.\<close>

theorem SetRights_shadowed:
  "\<exists>st1 st2. SetRights (hd seed_rooms) ''Ann'' ''lrswipkxtea'' demo_store = (Inr (), st1)
     \<and> SetRights (hd seed_rooms) ''ann'' ''l'' st1 = (Inr (), st2)
     \<and> ListRights st2 (hd seed_rooms) = [(''Ann'', ''lrswipkxtea''), (''ann'', ''l'')]
     \<and> CHR ''a'' \<in> set (fst (EffectiveRights ''ann'' (hd seed_rooms) st2))"
proof -
  define st1 where "st1 = demo_store\<lparr>room_acl := [\<lparr>ae_room = 0, ae_identifier = ''Ann'', ae_rights = ''lrswipkxtea''\<rparr>]\<rparr>"
  define st2 where "st2 = demo_store\<lparr>room_acl := [\<lparr>ae_room = 0, ae_identifier = ''Ann'', ae_rights = ''lrswipkxtea''\<rparr>,
    \<lparr>ae_room = 0, ae_identifier = ''ann'', ae_rights = ''l''\<rparr>]\<rparr>"
  have 1: "SetRights (hd seed_rooms) ''Ann'' ''lrswipkxtea'' demo_store = (Inr (), st1)"
    by (simp add: SetRights_def kAclRights_def UnionRights_def upsert_def acl_key_def st1_def run_store)
  have 2: "SetRights (hd seed_rooms) ''ann'' ''l'' st1 = (Inr (), st2)"
    by (simp add: SetRights_def kAclRights_def UnionRights_def upsert_def acl_key_def st1_def st2_def run_store)
  have low: "Lower ''Ann'' = ''ann''" "Lower ''ann'' = ''ann''" by code_simp+
  have 3: "CHR ''a'' \<in> set (fst (EffectiveRights ''ann'' (hd seed_rooms) st2))"
    by (simp add: EffectiveRights_iff kAclRights_def StoredRights_def IsAnyone_def low st2_def run_store)
  have "ListRights st2 (hd seed_rooms) = [(''Ann'', ''lrswipkxtea''), (''ann'', ''l'')]"
    by (simp add: ListRights_def st2_def run_store)
  with 1 2 3 show ?thesis by blast
qed

end
