(* ===== verification/QM_Mime.thy ===== *)
theory QM_Mime
  imports QM_MimeCodec
begin

text \<open>
  MIME entities, \<^verbatim>\<open>src/core/src/mime_entity.cpp\<close>: structured header fields, unfolding of header
  blocks, the cut of a multipart body at its boundary, the recursive parse of an entity and the
  numbering of its parts. The parser recurses on parts of its input, so it always ends. The lemmas
  at the end say what it makes of the documents the other components write.
\<close>

section \<open>Header fields\<close>

definition TrimWs :: "string \<Rightarrow> string" where
  "TrimWs s = rev (dropWhile isspace (rev (dropWhile isspace s)))"

record content_type =
  ct_type :: string
  ct_subtype :: string
  ct_params :: "(string \<times> string) list"

definition lookup_header :: "string \<Rightarrow> (string \<times> string) list \<Rightarrow> string" where
  "lookup_header want hs = (case find (\<lambda>h. fst h = want) hs of None \<Rightarrow> [] | Some h \<Rightarrow> snd h)"

definition Param :: "content_type \<Rightarrow> string \<Rightarrow> string" where
  "Param ct name = lookup_header (Lower name) (ct_params ct)"

definition Mime :: "content_type \<Rightarrow> string" where
  "Mime ct = (if ct_type ct = [] then [] else ct_type ct @ ''/'' @ ct_subtype ct)"

abbreviation (input) DQUOTE :: char where "DQUOTE \<equiv> CHR 0x22"
abbreviation (input) BACKSLASH :: char where "BACKSLASH \<equiv> CHR 0x5C"

fun strip_comments :: "nat \<Rightarrow> bool \<Rightarrow> string \<Rightarrow> string" where
  "strip_comments depth in_quote [] = []"
| "strip_comments depth in_quote (c # cs) =
     (if in_quote then
        (if c = BACKSLASH \<and> cs \<noteq> [] then c # hd cs # strip_comments depth True (tl cs)
         else c # strip_comments depth (c \<noteq> DQUOTE) cs)
      else if depth > 0 then
        (if c = BACKSLASH \<and> cs \<noteq> [] then strip_comments depth False (tl cs)
         else strip_comments (if c = CHR ''('' then depth + 1 else if c = CHR '')'' then depth - 1 else depth) False cs)
      else if c = DQUOTE then c # strip_comments depth True cs
      else if c = CHR ''('' then strip_comments (depth + 1) False cs
      else c # strip_comments depth False cs)"

definition StripComments :: "string \<Rightarrow> string" where
  "StripComments s = strip_comments 0 False s"

fun split_semicolons :: "string \<Rightarrow> bool \<Rightarrow> string \<Rightarrow> string list" where
  "split_semicolons cur in_quote [] = [cur]"
| "split_semicolons cur in_quote (c # cs) =
     (if in_quote then
        (if c = BACKSLASH \<and> cs \<noteq> [] then split_semicolons (cur @ [c, hd cs]) True (tl cs)
         else split_semicolons (cur @ [c]) (c \<noteq> DQUOTE) cs)
      else if c = DQUOTE then split_semicolons (cur @ [c]) True cs
      else if c = CHR '';'' then cur # split_semicolons [] False cs
      else split_semicolons (cur @ [c]) False cs)"

definition SplitSemicolons :: "string \<Rightarrow> string list" where
  "SplitSemicolons s = split_semicolons [] False s"

fun unescape :: "string \<Rightarrow> string" where
  "unescape [] = []"
| "unescape (c # cs) = (if c = BACKSLASH \<and> cs \<noteq> [] then hd cs # unescape (tl cs) else c # unescape cs)"

definition Unquote :: "string \<Rightarrow> string" where
  "Unquote text = (let s = TrimWs text in
     if length s \<ge> 2 \<and> hd s = DQUOTE \<and> last s = DQUOTE then unescape (butlast (tl s)) else s)"

definition parse_param :: "string \<Rightarrow> (string \<times> string) list" where
  "parse_param field =
     (let f = TrimWs field in
      case find_idx CHR ''='' f of
        None \<Rightarrow> []
      | Some eq \<Rightarrow> (let name = Lower (TrimWs (take eq f)) in
          if name = [] then [] else [(name, Unquote (drop (eq + 1) f))]))"

definition ParseContentType :: "string \<Rightarrow> content_type" where
  "ParseContentType text =
     (let fields = SplitSemicolons (StripComments text); tok = TrimWs (hd fields);
          (ty, sub) = (case find_idx CHR ''/'' tok of
             Some slash \<Rightarrow> (Lower (TrimWs (take slash tok)), Lower (TrimWs (drop (slash + 1) tok)))
           | None \<Rightarrow> (Lower tok, []))
      in \<lparr>ct_type = ty, ct_subtype = sub, ct_params = concat (map parse_param (tl fields))\<rparr>)"

section \<open>Header and body\<close>

text \<open>\<^verbatim>\<open>s.find(pat)\<close>: what is before the first occurrence and what is after it.\<close>

fun cut_sub :: "string \<Rightarrow> string \<Rightarrow> (string \<times> string) option" where
  "cut_sub pat [] = (if pat = [] then Some ([], []) else None)"
| "cut_sub pat (c # cs) =
     (if take (length pat) (c # cs) = pat then Some ([], drop (length pat) (c # cs))
      else map_option (apfst (Cons c)) (cut_sub pat cs))"

definition SplitHeadersBody :: "string \<Rightarrow> string \<times> string" where
  "SplitHeadersBody raw =
     (case cut_sub (crlf @ crlf) raw of Some p \<Rightarrow> p
      | None \<Rightarrow> (case cut_sub [LF, LF] raw of Some p \<Rightarrow> p | None \<Rightarrow> (raw, [])))"

function unfold_lines :: "string \<Rightarrow> string \<Rightarrow> string list" where
  "unfold_lines cur [] = (if cur = [] then [] else [cur])"
| "unfold_lines cur (c # cs) =
     (if c = CR then unfold_lines cur cs
      else if c = LF then
        (if cs \<noteq> [] \<and> is_blank (hd cs) then unfold_lines (cur @ '' '') (dropWhile is_blank cs)
         else cur # unfold_lines [] cs)
      else unfold_lines (cur @ [c]) cs)"
  by pat_completeness auto
termination
  by (relation "measure (\<lambda>(cur, s). length s)") (auto simp: less_Suc_eq_le length_dropWhile_le)

definition header_of :: "string \<Rightarrow> (string \<times> string) list" where
  "header_of line =
     (case find_idx CHR '':'' line of None \<Rightarrow> []
      | Some colon \<Rightarrow> (let name = TrimWs (take colon line) in
          if name = [] then [] else [(name, TrimWs (drop (colon + 1) line))]))"

definition ParseHeaderBlock :: "string \<Rightarrow> (string \<times> string) list" where
  "ParseHeaderBlock header_block = concat (map header_of (unfold_lines [] header_block))"

definition HeaderValue :: "(string \<times> string) list \<Rightarrow> string \<Rightarrow> string" where
  "HeaderValue headers name = lookup_header (Lower name) (map (apfst Lower) headers)"

section \<open>Multipart bodies\<close>

definition find_sub_from :: "string \<Rightarrow> string \<Rightarrow> nat \<Rightarrow> nat option" where
  "find_sub_from pat s i = map_option (\<lambda>p. i + length (fst p)) (cut_sub pat (drop i s))"

definition line_end :: "string \<Rightarrow> nat \<Rightarrow> nat" where
  "line_end s i = i + length (takeWhile (\<lambda>c. c \<noteq> LF) (drop i s))"

definition is_close_at :: "string \<Rightarrow> nat \<Rightarrow> bool" where
  "is_close_at body after = (after + 1 < length body \<and> body ! after = CHR ''-'' \<and> body ! (after + 1) = CHR ''-'')"

definition content_start :: "string \<Rightarrow> nat \<Rightarrow> nat" where
  "content_start body after =
     (let le = line_end body (if is_close_at body after then after + 2 else after) in
      if le < length body then le + 1 else length body)"

lemma cut_sub_Some: "cut_sub pat s = Some (u, v) \<Longrightarrow> s = u @ pat @ v"
proof (induction pat s arbitrary: u rule: cut_sub.induct)
  case (2 pat c cs)
  show ?case
  proof (cases "take (length pat) (c # cs) = pat")
    case True
    with 2(2) show ?thesis by (metis append_Nil append_take_drop_id cut_sub.simps(2) option.inject prod.inject)
  next
    case False
    then obtain u' where "cut_sub pat cs = Some (u', v)" "u = c # u'" using 2(2) by (auto split: if_splits)
    with 2(1) [OF False] show ?thesis by simp
  qed
qed (simp split: if_splits)

lemma find_sub_from_bound: "find_sub_from pat s i = Some p \<Longrightarrow> i \<le> p \<and> p + length pat \<le> max i (length s)"
proof -
  assume "find_sub_from pat s i = Some p"
  then obtain u v where "cut_sub pat (drop i s) = Some (u, v)" "p = i + length u" by (auto simp: find_sub_from_def)
  with cut_sub_Some [of pat "drop i s" u v] have "length s - i = length u + length pat + length v" by (metis length_append length_drop add.assoc)
  with \<open>p = i + length u\<close> show ?thesis by (auto simp: max_def)
qed

text \<open>The delimiters of a body: where each starts, where the content after it starts, and whether it closes.\<close>

function delimiters :: "string \<Rightarrow> string \<Rightarrow> nat \<Rightarrow> (nat \<times> nat) list" where
  "delimiters dash body i =
     (if dash = [] then []
      else case find_sub_from dash body i of
        None \<Rightarrow> []
      | Some p \<Rightarrow>
         (if \<not> (p = 0 \<or> body ! (p - 1) = LF) then delimiters dash body (p + length dash)
          else let after = p + length dash; start = content_start body after in
            (p, start) # (if is_close_at body after then [] else delimiters dash body start)))"
  by pat_completeness auto
termination
proof (relation "measure (\<lambda>(dash, body, i). Suc (length body) - i)", goal_cases)
  case (2 dash body i p)
  then show ?case using find_sub_from_bound [of dash body i p] by (cases dash) (auto simp: max_def split: if_splits)
next
  case (3 dash body i p after start)
  then show ?case using find_sub_from_bound [of dash body i p]
    by (cases dash) (auto simp: max_def content_start_def line_end_def Let_def split: if_splits)
qed simp

declare delimiters.simps [simp del]

definition trim_eol :: "string \<Rightarrow> string" where
  "trim_eol s = (if s \<noteq> [] \<and> last s = LF then (let t = butlast s in if t \<noteq> [] \<and> last t = CR then butlast t else t) else s)"

text \<open>A part lies between a delimiter and the next; the line end before a delimiter belongs to it.\<close>

fun between :: "string \<Rightarrow> (nat \<times> nat) list \<Rightarrow> string list" where
  "between body ((_, start) # (next_at, s) # ds) =
     trim_eol (substr body start (next_at - start)) # between body ((next_at, s) # ds)"
| "between body _ = []"

definition SplitMultipart :: "string \<Rightarrow> string \<Rightarrow> string list" where
  "SplitMultipart body boundary = between body (delimiters (''--'' @ boundary) body 0)"

section \<open>Entities\<close>

datatype mime_entity = MimeEntity
  (me_headers: "(string \<times> string) list")
  (me_content_type: content_type)
  (me_charset: string)
  (me_encoding: string)
  (me_disposition: string)
  (me_filename: string)
  (me_content_id: string)
  (me_body_raw: string)
  (me_body_decoded: string)
  (me_children: "mime_entity list")

definition IsMultipart :: "mime_entity \<Rightarrow> bool" where
  "IsMultipart ent = (ct_type (me_content_type ent) = ''multipart'')"

text \<open>The fields the parser reads off the headers.\<close>

definition entity_type :: "(string \<times> string) list \<Rightarrow> content_type" where
  "entity_type hs =
     (let ct_raw = HeaderValue hs ''Content-Type''; ct = ParseContentType ct_raw in
      if ct_raw = [] then \<lparr>ct_type = ''text'', ct_subtype = ''plain'', ct_params = []\<rparr>
      else if ct_type ct = [] then ct\<lparr>ct_type := ''text'', ct_subtype := ''plain''\<rparr> else ct)"

definition entity_charset :: "(string \<times> string) list \<Rightarrow> string" where
  "entity_charset hs =
     (if HeaderValue hs ''Content-Type'' = [] then ''us-ascii''
      else let cs = Lower (Param (entity_type hs) ''charset'') in
        if cs = [] \<and> ct_type (entity_type hs) = ''text'' then ''us-ascii'' else cs)"

definition entity_encoding :: "(string \<times> string) list \<Rightarrow> string" where
  "entity_encoding hs = (let cte = TrimWs (HeaderValue hs ''Content-Transfer-Encoding'') in if cte = [] then ''7bit'' else Lower cte)"

definition entity_disposition :: "(string \<times> string) list \<Rightarrow> string \<times> string" where
  "entity_disposition hs =
     (let cd_raw = HeaderValue hs ''Content-Disposition''; cd = ParseContentType cd_raw;
          (disp, filename) = (if cd_raw = [] then ([], []) else (ct_type cd, Param cd ''filename''))
      in (disp, if filename = [] then Param (entity_type hs) ''name'' else filename))"

definition entity_cid :: "(string \<times> string) list \<Rightarrow> string" where
  "entity_cid hs = (let cid = TrimWs (HeaderValue hs ''Content-ID'') in
     if length cid \<ge> 2 \<and> hd cid = CHR ''<'' \<and> last cid = CHR ''>'' then butlast (tl cid) else cid)"

definition entity_of :: "(string \<times> string) list \<Rightarrow> string \<Rightarrow> string \<Rightarrow> mime_entity list \<Rightarrow> mime_entity" where
  "entity_of hs body decoded children =
     MimeEntity hs (entity_type hs) (entity_charset hs) (entity_encoding hs) (fst (entity_disposition hs))
       (snd (entity_disposition hs)) (entity_cid hs) body decoded children"

section \<open>The parser ends\<close>

lemma length_DecodeQpImpl: "length (DecodeQpImpl s u) \<le> length s"
proof (induction "length s" arbitrary: s rule: less_induct)
  case less
  have IH: "length (DecodeQpImpl t u) \<le> length s - k" if "length t + k = length s" "0 < k" for t k
    using less [of t] that by simp
  show ?case
  proof (cases s)
    case (Cons c cs)
    have one: "length (DecodeQpImpl cs u) \<le> length cs" using IH [of cs 1] Cons by simp
    show ?thesis
    proof (cases cs)
      case (Cons d ds)
      show ?thesis
      proof (cases ds)
        case Nil
        with one Cons \<open>s = c # cs\<close> show ?thesis by simp
      next
        case (Cons e r)
        have "length (DecodeQpImpl r u) \<le> length r" "length (DecodeQpImpl ds u) \<le> length ds"
          using IH [of r 3] IH [of ds 2] \<open>s = c # cs\<close> \<open>cs = d # ds\<close> Cons by simp_all
        with one \<open>s = c # cs\<close> \<open>cs = d # ds\<close> Cons show ?thesis by (simp del: DecodeQpImpl.simps) (subst DecodeQpImpl.simps, auto simp del: DecodeQpImpl.simps)
      qed
    qed (use one \<open>s = c # cs\<close> in simp)
  qed simp
qed

lemma length_dec_loop: "length (snd (dec_loop s v b out)) \<le> length out + length s"
proof (induction s arbitrary: v b out)
  case (Cons c s)
  have "length (snd (dec_loop s v b out)) \<le> length out + length (c # s)" for v b using Cons [of v b out] by simp
  moreover have "length (snd (dec_loop s v b (out @ [d]))) \<le> length out + length (c # s)" for v b d using Cons [of v b "out @ [d]"] by simp
  ultimately show ?case by (subst dec_loop.simps) (simp add: Let_def)
qed simp

lemma length_DecodeContentTransferEncoding: "length (DecodeContentTransferEncoding enc body) \<le> length body"
  using length_dec_loop [of body 0 "- 8" "[]"] length_DecodeQpImpl [of body False]
  by (simp add: DecodeContentTransferEncoding_def Let_def DecodeQuotedPrintable_def Base64Decode_def)

lemma length_between: "part \<in> set (between body ds) \<Longrightarrow> length part \<le> length body"
proof (induction body ds rule: between.induct)
  case (1 body d start next_at s ds)
  have trim: "length (trim_eol x) \<le> length x" for x by (simp add: trim_eol_def Let_def)
  have "length (trim_eol (substr body start (next_at - start))) \<le> length body"
    by (rule order_trans [OF trim]) (simp add: substr_def)
  with 1 show ?case by auto
qed auto

lemma length_SplitMultipart: "part \<in> set (SplitMultipart body boundary) \<Longrightarrow> length part \<le> length body"
  unfolding SplitMultipart_def by (rule length_between)

lemma SplitHeadersBody_shorter:
  assumes "SplitHeadersBody raw = (hb, body)" "raw \<noteq> []"
  shows "length body < length raw"
  using assms by (auto simp: SplitHeadersBody_def split: option.splits dest!: cut_sub_Some)

lemma entity_type_Nil: "SplitHeadersBody [] = (hb, body) \<Longrightarrow> ct_type (entity_type (ParseHeaderBlock hb)) = ''text''"
  by (auto simp: SplitHeadersBody_def ParseHeaderBlock_def entity_type_def HeaderValue_def lookup_header_def)

function ParseEntity :: "string \<Rightarrow> mime_entity" where
  "ParseEntity raw =
     (let (header_block, body) = SplitHeadersBody raw;
          hs = ParseHeaderBlock header_block;
          ct = entity_type hs;
          decoded = DecodeContentTransferEncoding (entity_encoding hs) body
      in if ct_type ct = ''multipart'' then
           entity_of hs body []
             (if Param ct ''boundary'' = [] then [] else map ParseEntity (SplitMultipart body (Param ct ''boundary'')))
         else if ct_type ct = ''message'' \<and> ct_subtype ct = ''rfc822'' then entity_of hs body decoded [ParseEntity decoded]
         else entity_of hs body decoded [])"
  by pat_completeness auto
termination
proof (relation "measure length", goal_cases)
  case (2 raw p hb body hs ct decoded part)
  then have "raw \<noteq> []" using entity_type_Nil [of hb body] by (cases raw) auto
  with 2 SplitHeadersBody_shorter [of raw hb body] length_SplitMultipart [of part body "Param ct ''boundary''"] show ?case by simp
next
  case (3 raw p hb body hs ct decoded)
  then have "raw \<noteq> []" using entity_type_Nil [of hb body] by (cases raw) auto
  with 3 SplitHeadersBody_shorter [of raw hb body] length_DecodeContentTransferEncoding [of "entity_encoding hs" body] show ?case by simp
qed simp

declare ParseEntity.simps [simp del]

section \<open>Part numbers\<close>

record mime_part =
  mp_section :: string
  mp_content_type :: string
  mp_charset :: string
  mp_encoding :: string
  mp_filename :: string
  mp_size :: int
  mp_content :: string

definition part_of :: "mime_entity \<Rightarrow> string \<Rightarrow> mime_part" where
  "part_of ent sect =
     (let content = (if IsMultipart ent then [] else me_body_decoded ent) in
      \<lparr>mp_section = sect, mp_content_type = Mime (me_content_type ent), mp_charset = me_charset ent,
       mp_encoding = me_encoding ent, mp_filename = me_filename ent, mp_size = int (length content), mp_content = content\<rparr>)"

function Walk :: "mime_entity \<Rightarrow> string \<Rightarrow> mime_part list" where
  "Walk ent sect =
     part_of ent sect
     # concat (map (\<lambda>(i, child). Walk child (if sect = [] then to_string (int (i + 1)) else sect @ ''.'' @ to_string (int (i + 1))))
         (zip [0..<length (me_children ent)] (me_children ent)))"
  by pat_completeness auto
termination
proof (relation "measure (\<lambda>(ent, sect). size ent)", goal_cases)
  case (2 ent sect p i child)
  then have "child \<in> set (me_children ent)" by (auto dest: set_zip_rightD)
  then have "size child \<le> size_list size (me_children ent)" by (simp add: size_list_estimation')
  with 2 show ?case by (cases ent) simp
qed simp

declare Walk.simps [simp del]

definition FlattenParts :: "mime_entity \<Rightarrow> mime_part list" where
  "FlattenParts root =
     (if me_children root \<noteq> [] then
        concat (map (\<lambda>(i, child). Walk child (to_string (int (i + 1)))) (zip [0..<length (me_children root)] (me_children root)))
      else Walk root ''1'')"

section \<open>Plain header fields\<close>

text \<open>What the parser makes of the headers the server itself writes: one field per line, no folding, no comments.\<close>

definition plain_line :: "string \<Rightarrow> bool" where
  "plain_line l = (l \<noteq> [] \<and> CR \<notin> set l \<and> LF \<notin> set l \<and> \<not> is_blank (hd l))"

fun join_eol :: "string \<Rightarrow> string list \<Rightarrow> string" where
  "join_eol eol [] = []"
| "join_eol eol [l] = l"
| "join_eol eol (l # m # ls) = l @ eol @ join_eol eol (m # ls)"

lemma join_eol_Cons: "join_eol eol (l # ls) = (if ls = [] then l else l @ eol @ join_eol eol ls)"
  by (cases ls) simp_all

lemma join_eol_hd: "list_all plain_line ls \<Longrightarrow> ls \<noteq> [] \<Longrightarrow> join_eol eol ls \<noteq> [] \<and> hd (join_eol eol ls) = hd (hd ls)"
  by (cases ls) (auto simp: join_eol_Cons plain_line_def)

lemma plain_hd: "list_all plain_line ls \<Longrightarrow> ls \<noteq> [] \<Longrightarrow> hd (hd ls) \<noteq> CR \<and> \<not> is_blank (hd (hd ls))"
  by (cases ls; cases "hd ls") (auto simp: plain_line_def)

lemma cut_sub_skip: "p \<notin> set u \<Longrightarrow> cut_sub (p # ps) (u @ s) = map_option (apfst ((@) u)) (cut_sub (p # ps) s)"
proof (cases "cut_sub (p # ps) s")
  case (Some q)
  assume "p \<notin> set u"
  then show ?thesis using Some by (induction u) (auto simp: apfst_def map_prod_def split: prod.splits)
next
  case None
  assume "p \<notin> set u"
  then show ?thesis using None by (induction u) auto
qed

lemma cut_sub_here: "cut_sub pat (pat @ s) = Some ([], s)"
  by (cases pat; cases s) auto

lemma SplitHeadersBody_crlf:
  assumes "list_all plain_line ls" "ls \<noteq> []"
  shows "SplitHeadersBody (join_eol crlf ls @ crlf @ crlf @ body) = (join_eol crlf ls, body)"
proof -
  have "cut_sub (crlf @ crlf) (join_eol crlf ls @ crlf @ crlf @ body) = Some (join_eol crlf ls, body)"
    using assms
  proof (induction ls)
    case (Cons l ls)
    then have l: "CR \<notin> set l" by (simp add: plain_line_def)
    show ?case
    proof (cases "ls = []")
      case True
      then show ?thesis using cut_sub_skip [OF l, of "[LF, CR, LF]"] cut_sub_here [of "crlf @ crlf" body] by simp
    next
      case False
      then have hd: "join_eol crlf ls \<noteq> []" "hd (join_eol crlf ls) \<noteq> CR"
        using Cons.prems join_eol_hd [of ls crlf] plain_hd [of ls] by simp_all
      then obtain x xs where x: "join_eol crlf ls @ crlf @ crlf @ body = x # xs" "x \<noteq> CR" by (cases "join_eol crlf ls") auto
      have IH: "cut_sub (crlf @ crlf) (x # xs) = Some (join_eol crlf ls, body)" using Cons False x(1) by simp
      have "cut_sub (crlf @ crlf) (crlf @ x # xs) = Some (crlf @ join_eol crlf ls, body)"
        using x(2) IH by simp
      moreover have "cut_sub (crlf @ crlf) (l @ crlf @ x # xs) = map_option (apfst ((@) l)) (cut_sub (crlf @ crlf) (crlf @ x # xs))"
        using cut_sub_skip [OF l, of "[LF, CR, LF]" "crlf @ x # xs"] by simp
      ultimately have "cut_sub (crlf @ crlf) (l @ crlf @ x # xs) = Some (l @ crlf @ join_eol crlf ls, body)" by simp
      moreover have "join_eol crlf (l # ls) @ crlf @ crlf @ body = l @ crlf @ x # xs" using False x(1) by (simp add: join_eol_Cons)
      ultimately show ?thesis using False by (simp only: join_eol_Cons if_False)
    qed
  qed simp
  then show ?thesis by (simp add: SplitHeadersBody_def)
qed

lemma unfold_line: "CR \<notin> set l \<Longrightarrow> LF \<notin> set l \<Longrightarrow> unfold_lines cur (l @ s) = unfold_lines (cur @ l) s"
  by (induction l arbitrary: cur) auto

lemma unfold_plain:
  assumes "list_all plain_line ls" "eol = crlf \<or> eol = [LF]"
  shows "unfold_lines [] (join_eol eol ls) = ls"
  using assms(1)
proof (induction ls)
  case (Cons l ls)
  then have l: "CR \<notin> set l" "LF \<notin> set l" "l \<noteq> []" by (auto simp: plain_line_def)
  show ?case
  proof (cases "ls = []")
    case True
    with unfold_line [OF l(1,2), of "[]" "[]"] l(3) show ?thesis by simp
  next
    case False
    then have "join_eol eol ls \<noteq> []" "\<not> is_blank (hd (join_eol eol ls))"
      using Cons.prems join_eol_hd [of ls eol] plain_hd [of ls] by simp_all
    then have "unfold_lines l (eol @ join_eol eol ls) = l # unfold_lines [] (join_eol eol ls)"
      using assms(2) by auto
    with Cons False unfold_line [OF l(1,2), of "[]" "eol @ join_eol eol ls"] show ?thesis
      by (simp add: join_eol_Cons)
  qed
qed simp

lemma ParseHeaderBlock_plain:
  "list_all plain_line ls \<Longrightarrow> eol = crlf \<or> eol = [LF] \<Longrightarrow> ParseHeaderBlock (join_eol eol ls) = concat (map header_of ls)"
  by (simp add: ParseHeaderBlock_def unfold_plain)

lemma TrimWs_plain: "s = [] \<or> \<not> isspace (hd s) \<and> \<not> isspace (last s) \<Longrightarrow> TrimWs s = s"
proof -
  have self: "x = [] \<or> \<not> isspace (hd x) \<Longrightarrow> dropWhile isspace x = x" for x by (cases x) auto
  assume "s = [] \<or> \<not> isspace (hd s) \<and> \<not> isspace (last s)"
  then show ?thesis using self [of s] self [of "rev s"] by (auto simp: TrimWs_def hd_rev)
qed

lemma TrimWs_blank [simp]: "TrimWs (CHR '' '' # s) = TrimWs s"
  by (simp add: TrimWs_def isspace_def)

lemma header_of_field:
  assumes "CHR '':'' \<notin> set name" "TrimWs name = name" "name \<noteq> []"
  shows "header_of (name @ '': '' @ v) = [(name, TrimWs v)]"
proof -
  have "find_idx CHR '':'' (name @ '': '' @ v) = Some (length name)"
    using find_idx_split [OF assms(1), of "CHR '' '' # v"] by simp
  with assms show ?thesis by (simp add: header_of_def)
qed

lemma strip_comments_plain: "DQUOTE \<notin> set s \<Longrightarrow> CHR ''('' \<notin> set s \<Longrightarrow> StripComments s = s"
  unfolding StripComments_def by (induction s) auto

lemma split_semicolons_plain:
  "DQUOTE \<notin> set s \<Longrightarrow> split_semicolons cur False s = (cur @ hd (split_on CHR '';'' s)) # tl (split_on CHR '';'' s)"
  by (induction s arbitrary: cur) (auto split: list.splits)

lemma SplitSemicolons_plain: "DQUOTE \<notin> set s \<Longrightarrow> SplitSemicolons s = split_on CHR '';'' s"
  using split_on_not_Nil [of "CHR '';''" s] unfolding SplitSemicolons_def split_semicolons_plain by simp

text \<open>Header names of the code in lower case.\<close>

lemma lower_names:
  "Lower ''Content-Type'' = ''content-type''" "Lower ''Content-type'' = ''content-type''"
  "Lower ''Content-Transfer-Encoding'' = ''content-transfer-encoding''"
  "Lower ''Content-Disposition'' = ''content-disposition''" "Lower ''Content-disposition'' = ''content-disposition''"
  "Lower ''Content-ID'' = ''content-id''" "Lower ''MIME-Version'' = ''mime-version''" "Lower ''From'' = ''from''"
  "Lower ''Subject'' = ''subject''" "Lower ''Message-ID'' = ''message-id''" "Lower ''8bit'' = ''8bit''" "Lower ''7bit'' = ''7bit''"
  by code_simp+

lemma HeaderValue_Nil [simp]: "HeaderValue [] name = []"
  by (simp add: HeaderValue_def lookup_header_def)

lemma HeaderValue_Cons: "HeaderValue ((n, v) # hs) name = (if Lower n = Lower name then v else HeaderValue hs name)"
  by (simp add: HeaderValue_def lookup_header_def)

lemma identity_encodings: "DecodeContentTransferEncoding ''8bit'' body = body" "DecodeContentTransferEncoding ''7bit'' body = body"
  by (simp_all add: DecodeContentTransferEncoding_def trim_blank_def is_blank_def lower_names)

lemma Walk_leaf: "me_children ent = [] \<Longrightarrow> Walk ent sect = [part_of ent sect]"
  by (subst Walk.simps) simp

lemma FlattenParts_leaf: "me_children ent = [] \<Longrightarrow> FlattenParts ent = [part_of ent ''1'']"
  by (simp add: FlattenParts_def Walk_leaf)

section \<open>Quoted parameters\<close>

lemma strip_comments_plain_app:
  "DQUOTE \<notin> set u \<Longrightarrow> CHR ''('' \<notin> set u \<Longrightarrow> strip_comments 0 False (u @ s) = u @ strip_comments 0 False s"
  by (induction u) auto

lemma strip_comments_quoted:
  "DQUOTE \<notin> set b \<Longrightarrow> BACKSLASH \<notin> set b \<Longrightarrow> strip_comments 0 True (b @ DQUOTE # s) = b @ DQUOTE # strip_comments 0 False s"
  by (induction b) auto

lemma split_semicolons_plain_app:
  "DQUOTE \<notin> set u \<Longrightarrow> CHR '';'' \<notin> set u \<Longrightarrow> split_semicolons cur False (u @ s) = split_semicolons (cur @ u) False s"
  by (induction u arbitrary: cur) auto

lemma split_semicolons_quoted:
  "DQUOTE \<notin> set b \<Longrightarrow> BACKSLASH \<notin> set b \<Longrightarrow>
   split_semicolons cur True (b @ DQUOTE # s) = split_semicolons (cur @ b @ [DQUOTE]) False s"
  by (induction b arbitrary: cur) auto

lemma unescape_plain: "BACKSLASH \<notin> set b \<Longrightarrow> unescape b = b"
  by (induction b rule: unescape.induct) auto

definition quotable :: "string \<Rightarrow> bool" where
  "quotable b = (DQUOTE \<notin> set b \<and> BACKSLASH \<notin> set b \<and> CR \<notin> set b \<and> LF \<notin> set b)"

lemma quoted_param:
  assumes "quotable b" "DQUOTE \<notin> set u" "CHR ''('' \<notin> set u" "CHR '';'' \<notin> set u"
    and "DQUOTE \<notin> set n" "CHR ''('' \<notin> set n" "CHR '';'' \<notin> set n"
  shows "SplitSemicolons (StripComments (u @ CHR '';'' # n @ DQUOTE # b @ [DQUOTE])) = [u, n @ DQUOTE # b @ [DQUOTE]]"
proof -
  have "StripComments (u @ CHR '';'' # n @ DQUOTE # b @ [DQUOTE]) = u @ CHR '';'' # n @ DQUOTE # b @ [DQUOTE]"
    using assms strip_comments_plain_app [of "u @ CHR '';'' # n" "DQUOTE # b @ [DQUOTE]"] strip_comments_quoted [of b "[]"]
    by (simp add: StripComments_def quotable_def)
  then show ?thesis
    using assms split_semicolons_plain_app [of u "[]" "CHR '';'' # n @ DQUOTE # b @ [DQUOTE]"]
      split_semicolons_plain_app [of n "[]" "DQUOTE # b @ [DQUOTE]"] split_semicolons_quoted [of b "n @ [DQUOTE]" "[]"]
    by (simp add: SplitSemicolons_def quotable_def)
qed

lemma Unquote_quoted: "quotable b \<Longrightarrow> Unquote (DQUOTE # b @ [DQUOTE]) = b"
proof -
  assume "quotable b"
  moreover have "TrimWs (DQUOTE # b @ [DQUOTE]) = DQUOTE # b @ [DQUOTE]" by (rule TrimWs_plain) (simp add: isspace_def)
  ultimately show ?thesis by (simp add: Unquote_def unescape_plain quotable_def)
qed

lemma quoted_header:
  assumes "quotable b" "list_all (\<lambda>c. \<not> isspace c \<and> c \<noteq> DQUOTE \<and> c \<noteq> CHR ''('' \<and> c \<noteq> CHR '';'') u" "u \<noteq> []"
    and "list_all (\<lambda>c. \<not> isspace c \<and> c \<noteq> DQUOTE \<and> c \<noteq> CHR ''('' \<and> c \<noteq> CHR '';'' \<and> c \<noteq> CHR ''='') n" "n \<noteq> []" "Lower n = n"
  shows "ct_params (ParseContentType (u @ ''; '' @ n @ ''='' @ DQUOTE # b @ [DQUOTE])) = [(n, b)]"
    and "CHR ''/'' \<notin> set u \<Longrightarrow> ct_type (ParseContentType (u @ ''; '' @ n @ ''='' @ DQUOTE # b @ [DQUOTE])) = Lower u"
    and "u = s @ ''/'' @ t \<Longrightarrow> CHR ''/'' \<notin> set s \<Longrightarrow> ct_type (ParseContentType (u @ ''; '' @ n @ ''='' @ DQUOTE # b @ [DQUOTE])) = Lower s"
proof -
  have fields: "SplitSemicolons (StripComments (u @ ''; '' @ n @ ''='' @ DQUOTE # b @ [DQUOTE])) = [u, '' '' @ n @ ''='' @ DQUOTE # b @ [DQUOTE]]"
    using assms(2,4) quoted_param [OF assms(1), of u "'' '' @ n @ ''=''"] by (force simp: list_all_iff)
  have trim: "TrimWs x = x" if "set x \<subseteq> set u \<union> set n" for x
  proof (rule TrimWs_plain)
    have "c \<in> set u \<union> set n \<Longrightarrow> \<not> isspace c" for c using assms(2,4) by (auto simp: list_all_iff)
    then show "x = [] \<or> \<not> isspace (hd x) \<and> \<not> isspace (last x)"
      using that hd_in_set [of x] last_in_set [of x] by (cases "x = []") blast+
  qed
  have "TrimWs ('' '' @ n @ ''='' @ DQUOTE # b @ [DQUOTE]) = n @ ''='' @ DQUOTE # b @ [DQUOTE]"
    using assms(4,5) by (simp, intro TrimWs_plain) (cases n; simp add: isspace_def)
  moreover have "find_idx CHR ''='' (n @ CHR ''='' # DQUOTE # b @ [DQUOTE]) = Some (length n)"
    using assms(4) by (intro find_idx_split) (auto simp: list_all_iff)
  ultimately have "parse_param ('' '' @ n @ ''='' @ DQUOTE # b @ [DQUOTE]) = [(n, b)]"
    using assms(1,5,6) trim [of n] Unquote_quoted by (simp add: parse_param_def)
  moreover have u: "TrimWs u = u" using trim [of u] by simp
  ultimately show "ct_params (ParseContentType (u @ ''; '' @ n @ ''='' @ DQUOTE # b @ [DQUOTE])) = [(n, b)]"
    unfolding ParseContentType_def fields by (simp add: Let_def split: option.splits)
  show "ct_type (ParseContentType (u @ ''; '' @ n @ ''='' @ DQUOTE # b @ [DQUOTE])) = Lower u" if "CHR ''/'' \<notin> set u"
  proof -
    have "find_idx CHR ''/'' u = None" using that by (simp add: find_idx_None)
    then show ?thesis unfolding ParseContentType_def fields using u by (simp add: Let_def)
  qed
  show "ct_type (ParseContentType (u @ ''; '' @ n @ ''='' @ DQUOTE # b @ [DQUOTE])) = Lower s" if st: "u = s @ ''/'' @ t" "CHR ''/'' \<notin> set s"
  proof -
    have "find_idx CHR ''/'' u = Some (length s)" using find_idx_split [OF st(2), of t] st(1) by simp
    moreover have "TrimWs s = s" using st(1) by (intro trim) auto
    ultimately show ?thesis unfolding ParseContentType_def fields using u st(1) by (simp add: Let_def)
  qed
qed

end
