(* ===== verification/QM_CitMsg.thy ===== *)
theory QM_CitMsg
  imports QM_Store QM_Mime
begin

text \<open>
  How a stored message goes out: \<^verbatim>\<open>src/core/src/citadel_msg.cpp\<close>, the RFC 822 rendering of the native
  formats, the field list of the native protocol, and the wrapper of groupware objects. The date of a message is printed by the C library in
  the local time zone: \<open>date\<close> is an argument. Format 4 is stored as it is served. Line ends of the body
  are made uniform, and rendering a rendered body again changes nothing. What is wrapped as an object
  is read back from the message that carries it.
\<close>

definition AddressLocalPart :: "string \<Rightarrow> string" where
  "AddressLocalPart author = map (\<lambda>c. if isalnum c then tolower c else CHR ''_'') author"

fun hex_of :: "nat \<Rightarrow> string" where
  "hex_of n = (if n < 16 then [''0123456789ABCDEF'' ! n] else hex_of (n div 16) @ [''0123456789ABCDEF'' ! (n mod 16)])"

declare hex_of.simps [simp del]

text \<open>\<^verbatim>\<open>snprintf("%08lX", (unsigned long)t)\<close>.\<close>

definition stamp :: "int \<Rightarrow> string" where
  "stamp t = (let h = hex_of (nat (t mod 2 ^ 64)) in replicate (8 - length h) CHR ''0'' @ h)"

definition MessageId :: "message \<Rightarrow> string \<Rightarrow> string" where
  "MessageId msg node =
     (if CHR ''@'' \<in> set (ms_euid msg) then ''<'' @ ms_euid msg @ ''>''
      else ''<'' @ stamp (ms_time msg) @ ''-'' @ to_string (ms_num msg) @ ''@'' @ node @ ''>'')"

definition hdr :: "string \<Rightarrow> string \<Rightarrow> string" where
  "hdr name v = name @ '': '' @ v @ crlf"

definition bracket :: "string \<Rightarrow> string" where
  "bracket one = (if hd one = CHR ''<'' then one else ''<'' @ one @ ''>'')"

definition render_refs :: "string \<Rightarrow> string" where
  "render_refs refs = join_on CHR '' '' (map bracket (filter (\<lambda>r. r \<noteq> []) (split_on CHR ''|'' refs)))"

text \<open>\<^verbatim>\<open>std::getline\<close>: an empty piece after the last newline is no line.\<close>

definition getlines :: "string \<Rightarrow> string list" where
  "getlines s = (let ls = split_on LF s in if last ls = [] then butlast ls else ls)"

definition strip_cr :: "string \<Rightarrow> string" where
  "strip_cr line = (if line \<noteq> [] \<and> last line = CR then butlast line else line)"

definition render_body :: "string \<Rightarrow> string" where
  "render_body body = concat (map (\<lambda>line. strip_cr line @ crlf) (getlines body))"

definition RenderRfc822 :: "(int \<Rightarrow> string) \<Rightarrow> message \<Rightarrow> string \<Rightarrow> string" where
  "RenderRfc822 date msg node =
     (if ms_format msg = 4 then ms_raw msg
      else
       (if ms_node msg = [] then [] else hdr ''Return-Path'' (ms_node msg))
       @ (if date (ms_time msg) = [] then [] else hdr ''Date'' (date (ms_time msg)))
       @ hdr ''Subject'' (if ms_subject msg = [] then ''(no subject)'' else ms_subject msg)
       @ (if ms_recipient msg = [] then []
          else hdr ''To'' (if CHR ''@'' \<in> set (ms_recipient msg) then ms_recipient msg else ms_recipient msg @ ''@'' @ node))
       @ (if ms_references msg = [] \<or> render_refs (ms_references msg) = [] then []
          else hdr ''References'' (render_refs (ms_references msg)))
       @ hdr ''Message-ID'' (MessageId msg node)
       @ hdr ''From'' ([CHR 0x22] @ ms_author msg @ [CHR 0x22] @ '' <'' @ AddressLocalPart (ms_author msg) @ ''@'' @ node @ ''>'')
       @ crlf @ render_body (ms_raw msg))"

definition WrapObject :: "string \<Rightarrow> string \<Rightarrow> string \<Rightarrow> string \<Rightarrow> string \<Rightarrow> string \<Rightarrow> string" where
  "WrapObject content_type body subject uid author node =
     ''Content-Type: '' @ content_type @ ''; charset=utf-8'' @ crlf
     @ ''MIME-Version: 1.0'' @ crlf
     @ ''Content-Transfer-Encoding: 8bit'' @ crlf
     @ ''From: '' @ author @ ''@'' @ (if node = [] then ''localhost'' else node) @ crlf
     @ ''Subject: '' @ subject @ crlf
     @ (if uid = [] then [] else ''Message-ID: <'' @ uid @ ''>'' @ crlf)
     @ crlf @ body"

definition BodyText :: "message \<Rightarrow> string" where
  "BodyText msg =
     (if ms_format msg \<noteq> 4 then ms_raw msg
      else let root = ParseEntity (ms_raw msg) in
        if \<not> IsMultipart root \<and> ct_type (me_content_type root) = ''text'' then me_body_decoded root
        else let parts = FlattenParts root in
          (case find (\<lambda>p. take 10 (mp_content_type p) = ''text/plain'') parts of
             Some p \<Rightarrow> mp_content p
           | None \<Rightarrow>
              (case find (\<lambda>p. take 5 (mp_content_type p) = ''text/'' \<and> mp_content p \<noteq> []) parts of
                 Some p \<Rightarrow> mp_content p | None \<Rightarrow> [])))"

definition FormatMsg0 :: "message \<Rightarrow> int \<Rightarrow> string list" where
  "FormatMsg0 msg mode =
     (if mode = 2 then []
      else [''type='' @ to_string (ms_format msg),
            ''msgn='' @ (if ms_euid msg = [] then to_string (ms_num msg) else ms_euid msg),
            ''time='' @ to_string (ms_time msg), ''from='' @ ms_author msg]
        @ (if ms_recipient msg = [] then [] else [''rcpt='' @ ms_recipient msg])
        @ (if ms_origin_room msg = [] then [] else [''room='' @ ms_origin_room msg])
        @ (if ms_node msg = [] then [] else [''node='' @ ms_node msg])
        @ (if ms_subject msg = [] then [] else [''subj='' @ ms_subject msg]))
     @ (if mode = 1 then [] else ''text'' # map strip_cr (getlines (BodyText msg)))"

definition ObjectBody :: "message \<Rightarrow> string \<Rightarrow> string" where
  "ObjectBody msg want_type =
     (if ms_format msg \<noteq> 4 then []
      else case find (\<lambda>p. let ty = Lower (mp_content_type p) in
               ty = want_type \<or> want_type = ''text/vcard'' \<and> ty = ''text/x-vcard'') (FlattenParts (ParseEntity (ms_raw msg))) of
             Some p \<Rightarrow> mp_content p | None \<Rightarrow> [])"

section \<open>Line ends\<close>

lemma getlines_append: "LF \<notin> set line \<Longrightarrow> getlines (line @ LF # rest) = line # getlines rest"
  by (auto simp: getlines_def Let_def split_on_append)

lemma getlines_rendered: "list_all (\<lambda>l. LF \<notin> set l) ls \<Longrightarrow> getlines (concat (map (\<lambda>l. l @ crlf) ls)) = map (\<lambda>l. l @ [CR]) ls"
proof (induction ls)
  case Nil
  then show ?case by (simp add: getlines_def)
next
  case (Cons l ls)
  then have "getlines ((l @ [CR]) @ LF # concat (map (\<lambda>l. l @ crlf) ls)) = (l @ [CR]) # getlines (concat (map (\<lambda>l. l @ crlf) ls))"
    by (intro getlines_append) auto
  with Cons show ?case by simp
qed

lemma getlines_free: "l \<in> set (getlines s) \<Longrightarrow> LF \<notin> set l"
  using split_on_free by (auto simp: getlines_def Let_def dest: in_set_butlastD split: if_splits)

lemma render_body_idem: "render_body (render_body s) = render_body s"
proof -
  let ?ls = "map strip_cr (getlines s)"
  have "list_all (\<lambda>l. LF \<notin> set l) ?ls"
    using getlines_free by (auto simp: list_all_iff strip_cr_def dest: in_set_butlastD)
  then have "getlines (concat (map (\<lambda>l. l @ crlf) ?ls)) = map (\<lambda>l. l @ [CR]) ?ls" by (rule getlines_rendered)
  then show ?thesis by (simp add: render_body_def comp_def strip_cr_def)
qed

section \<open>Objects are read back\<close>

definition plain_value :: "string \<Rightarrow> bool" where
  "plain_value s = (CR \<notin> set s \<and> LF \<notin> set s)"

definition type_char :: "char \<Rightarrow> bool" where
  "type_char c = (islower c \<or> isdigit c \<or> c = CHR ''-'')"

lemma type_char:
  "type_char c \<Longrightarrow> tolower c = c \<and> c \<noteq> CHR ''/'' \<and> c \<noteq> DQUOTE \<and> c \<noteq> CHR ''('' \<and> c \<noteq> CHR '';'' \<and> \<not> isspace c \<and> c \<noteq> CR \<and> c \<noteq> LF"
  unfolding type_char_def by (elim disjE) (auto simp: islower_def isdigit_def isspace_def tolower_def)

text \<open>A media type as the code writes them: two lower-case tokens with a slash between them.\<close>

definition media_type :: "string \<Rightarrow> bool" where
  "media_type s = (\<exists>t u. s = t @ ''/'' @ u \<and> t \<noteq> [] \<and> u \<noteq> [] \<and> list_all type_char (t @ u))"

lemma media_type_parse:
  assumes "media_type s"
  shows "ParseContentType (s @ ''; charset=utf-8'') = \<lparr>ct_type = takeWhile (\<lambda>c. c \<noteq> CHR ''/'') s,
      ct_subtype = tl (dropWhile (\<lambda>c. c \<noteq> CHR ''/'') s), ct_params = [(''charset'', ''utf-8'')]\<rparr>"
    and "Lower s = s" "plain_value s" "s \<noteq> []" "takeWhile (\<lambda>c. c \<noteq> CHR ''/'') s @ ''/'' @ tl (dropWhile (\<lambda>c. c \<noteq> CHR ''/'') s) = s"
    "takeWhile (\<lambda>c. c \<noteq> CHR ''/'') s \<noteq> []"
proof -
  obtain t u where s: "s = t @ ''/'' @ u" and tu: "t \<noteq> []" "u \<noteq> []"
    and cs: "list_all type_char (t @ u)" using assms by (auto simp: media_type_def)
  have chars: "type_char c" if "c \<in> set t \<union> set u" for c using cs that by (auto simp: list_all_iff)
  then have low: "Lower t = t" "Lower u = u" using type_char by (auto simp: Lower_def intro!: map_idI)
  have slash: "CHR ''/'' \<notin> set t" "CHR ''/'' \<notin> set u" using chars type_char by blast+
  have free: "c \<in> set s \<Longrightarrow> c \<noteq> DQUOTE \<and> c \<noteq> CHR ''('' \<and> c \<noteq> CHR '';'' \<and> \<not> isspace c \<and> c \<noteq> CR \<and> c \<noteq> LF" for c
    using chars type_char [of c] s by (auto simp: isspace_def)
  have trim: "TrimWs x = x" if "set x \<subseteq> set s" for x
    using that free by (intro TrimWs_plain) (metis hd_in_set last_in_set subsetD)
  have fields: "SplitSemicolons (StripComments (s @ ''; charset=utf-8'')) = [s, '' charset=utf-8'']"
    using free split_on_append [of "CHR '';''" s "''; charset=utf-8''"]
    by (subst strip_comments_plain; (subst SplitSemicolons_plain)?) auto
  have slash_at: "find_idx CHR ''/'' s = Some (length t)" using find_idx_split [OF slash(1), of u] s by simp
  have "parse_param '' charset=utf-8'' = [(''charset'', ''utf-8'')]"
    by (simp add: parse_param_def TrimWs_def isspace_def Lower_def tolower_def Unquote_def)
  moreover have "TrimWs s = s" "TrimWs t = t" "TrimWs u = u" using s by (auto intro!: trim)
  ultimately show "ParseContentType (s @ ''; charset=utf-8'') = \<lparr>ct_type = takeWhile (\<lambda>c. c \<noteq> CHR ''/'') s,
      ct_subtype = tl (dropWhile (\<lambda>c. c \<noteq> CHR ''/'') s), ct_params = [(''charset'', ''utf-8'')]\<rparr>"
    using fields slash_at low s slash by (auto simp add: ParseContentType_def takeWhile_append dropWhile_append)
  show "Lower s = s" using low s by (simp add: Lower_def tolower_def)
  show "plain_value s" using free by (auto simp: plain_value_def)
  show "s \<noteq> []" using s by simp
  show "takeWhile (\<lambda>c. c \<noteq> CHR ''/'') s @ ''/'' @ tl (dropWhile (\<lambda>c. c \<noteq> CHR ''/'') s) = s" "takeWhile (\<lambda>c. c \<noteq> CHR ''/'') s \<noteq> []"
    using s slash tu by (auto simp: takeWhile_append dropWhile_append)
qed

text \<open>The header block of a wrapped object.\<close>

definition object_lines :: "string \<Rightarrow> string \<Rightarrow> string \<Rightarrow> string \<Rightarrow> string \<Rightarrow> string list" where
  "object_lines content_type subject uid author node =
     [''Content-Type'' @ '': '' @ (content_type @ ''; charset=utf-8''), ''MIME-Version'' @ '': '' @ ''1.0'',
      ''Content-Transfer-Encoding'' @ '': '' @ ''8bit'',
      ''From'' @ '': '' @ (author @ ''@'' @ (if node = [] then ''localhost'' else node)), ''Subject'' @ '': '' @ subject]
     @ (if uid = [] then [] else [''Message-ID'' @ '': '' @ (''<'' @ uid @ ''>'')])"

lemma WrapObject_lines:
  "WrapObject ty body subject uid author node = join_eol crlf (object_lines ty subject uid author node) @ crlf @ crlf @ body"
  by (simp add: WrapObject_def object_lines_def)

lemma object_lines_plain:
  assumes "media_type ty" "plain_value subject" "plain_value uid" "plain_value author" "plain_value node"
  shows "list_all plain_line (object_lines ty subject uid author node)"
  using assms media_type_parse(3) [OF assms(1)] by (simp add: object_lines_def plain_line_def plain_value_def is_blank_def)

lemma object_headers:
  assumes "media_type ty" "plain_value subject" "plain_value uid" "plain_value author" "plain_value node"
  shows "ParseHeaderBlock (join_eol crlf (object_lines ty subject uid author node))
    = [(''Content-Type'', ty @ ''; charset=utf-8''), (''MIME-Version'', ''1.0''), (''Content-Transfer-Encoding'', ''8bit''),
       (''From'', TrimWs (author @ ''@'' @ (if node = [] then ''localhost'' else node))), (''Subject'', TrimWs subject)]
      @ (if uid = [] then [] else [(''Message-ID'', TrimWs (''<'' @ uid @ ''>''))])"
proof -
  have name: "TrimWs n = n" if "list_all (\<lambda>c. \<not> isspace c) n" for n
    using that by (intro TrimWs_plain) (metis hd_in_set last_in_set list_all_iff)
  have field: "header_of (n @ '': '' @ v) = [(n, TrimWs v)]"
    if "CHR '':'' \<notin> set n" "list_all (\<lambda>c. \<not> isspace c) n" "n \<noteq> []" for n v
    using header_of_field [OF that(1) name [OF that(2)] that(3)] .
  note fields = field [of "''Content-Type''" "ty @ ''; charset=utf-8''"] field [of "''MIME-Version''" "''1.0''"]
    field [of "''Content-Transfer-Encoding''" "''8bit''"] field [of "''From''"] field [of "''Subject''" subject]
    field [of "''Message-ID''" "''<'' @ uid @ ''>''"]
  have ty: "TrimWs (ty @ ''; charset=utf-8'') = ty @ ''; charset=utf-8''"
  proof (rule TrimWs_plain)
    obtain t u where "ty = t @ ''/'' @ u" "t \<noteq> []" "list_all type_char t"
      using assms(1) by (auto simp: media_type_def)
    then show "ty @ ''; charset=utf-8'' = [] \<or> \<not> isspace (hd (ty @ ''; charset=utf-8'')) \<and> \<not> isspace (last (ty @ ''; charset=utf-8''))"
      using type_char [of "hd t"] by (cases t) (auto simp: isspace_def)
  qed
  show ?thesis
    unfolding ParseHeaderBlock_plain [OF object_lines_plain [OF assms] disjI1 [OF refl]]
    using fields ty name [of "''1.0''"] name [of "''8bit''"]
    by (simp add: object_lines_def isspace_def del: append_Cons append_Nil)
qed

lemma object_entity:
  assumes "media_type ty" "plain_value subject" "plain_value uid" "plain_value author" "plain_value node"
    and "takeWhile (\<lambda>c. c \<noteq> CHR ''/'') ty \<noteq> ''multipart''" "takeWhile (\<lambda>c. c \<noteq> CHR ''/'') ty \<noteq> ''message''"
  shows "\<exists>ent. ParseEntity (WrapObject ty body subject uid author node) = ent \<and> me_children ent = [] \<and> me_body_decoded ent = body
    \<and> \<not> IsMultipart ent \<and> Mime (me_content_type ent) = ty"
proof -
  let ?hs = "ParseHeaderBlock (join_eol crlf (object_lines ty subject uid author node))"
  have split: "SplitHeadersBody (WrapObject ty body subject uid author node) = (join_eol crlf (object_lines ty subject uid author node), body)"
    unfolding WrapObject_lines by (rule SplitHeadersBody_crlf [OF object_lines_plain [OF assms(1-5)]]) (simp add: object_lines_def)
  have "HeaderValue ?hs ''Content-Type'' = ty @ ''; charset=utf-8''" "HeaderValue ?hs ''Content-Transfer-Encoding'' = ''8bit''"
    unfolding object_headers [OF assms(1-5)] by (simp_all add: HeaderValue_Cons lower_names)
  then have ct: "entity_type ?hs = \<lparr>ct_type = takeWhile (\<lambda>c. c \<noteq> CHR ''/'') ty, ct_subtype = tl (dropWhile (\<lambda>c. c \<noteq> CHR ''/'') ty),
      ct_params = [(''charset'', ''utf-8'')]\<rparr>" and enc: "entity_encoding ?hs = ''8bit''"
    using media_type_parse [OF assms(1)] by (simp_all add: entity_type_def entity_encoding_def TrimWs_def isspace_def lower_names)
  with identity_encodings(1) [of body] split ct enc assms(6,7) media_type_parse(5,6) [OF assms(1)] show ?thesis
    by (subst ParseEntity.simps) (simp add: Let_def entity_of_def IsMultipart_def Mime_def)
qed

lemma ObjectBody_wrapped:
  assumes "media_type ty" "takeWhile (\<lambda>c. c \<noteq> CHR ''/'') ty \<noteq> ''multipart''" "takeWhile (\<lambda>c. c \<noteq> CHR ''/'') ty \<noteq> ''message''"
    and "plain_value subject" "plain_value uid" "plain_value author" "plain_value node"
    and "ms_format msg = 4" "ms_raw msg = WrapObject ty body subject uid author node"
  shows "ObjectBody msg ty = body"
proof -
  obtain ent where "ParseEntity (ms_raw msg) = ent" "me_children ent = []" "me_body_decoded ent = body" "\<not> IsMultipart ent"
    "Mime (me_content_type ent) = ty" using object_entity [OF assms(1,4,5,6,7,2,3)] assms(9) by metis
  moreover from this have "FlattenParts ent = [part_of ent ''1'']" by (simp add: FlattenParts_leaf)
  ultimately show ?thesis using media_type_parse(2) [OF assms(1)] assms(8) by (simp add: ObjectBody_def part_of_def)
qed

lemma text_vcard: "media_type ''text/vcard''"
  unfolding media_type_def by (intro exI [of _ "''text''"] exI [of _ "''vcard''"]) (simp add: type_char_def islower_def)

text \<open>A subject with a blank line in it ends the header block early: the rest of the header becomes body.\<close>

lemma WrapObject_subject_injection:
  assumes "ms_format msg = 4" "ms_raw msg = WrapObject ''text/vcard'' ''body'' (''a'' @ crlf @ crlf @ ''b'') [] ''ann'' ''node''"
  shows "ObjectBody msg ''text/vcard'' = ''b'' @ crlf @ crlf @ ''body''"
proof (rule ObjectBody_wrapped [OF text_vcard _ _ _ _ _ _ assms(1)])
  show "ms_raw msg = WrapObject ''text/vcard'' (''b'' @ crlf @ crlf @ ''body'') ''a'' [] ''ann'' ''node''"
    unfolding assms(2) by (simp add: WrapObject_def)
qed (simp_all add: plain_value_def)

text \<open>C30. Groupware objects survive the store: the text wrapped as an object is what is read back from the message
  that carries it, byte for byte, whatever the body holds, as long as the subject, the identifier and the
  author are single lines.\<close>

theorem ObjectBody_WrapObject:
  assumes "media_type ty" "takeWhile (\<lambda>c. c \<noteq> CHR ''/'') ty \<noteq> ''multipart''" "takeWhile (\<lambda>c. c \<noteq> CHR ''/'') ty \<noteq> ''message''"
    and "plain_value subject" "plain_value uid" "plain_value author" "plain_value node"
    and "ms_format msg = 4" "ms_raw msg = WrapObject ty body subject uid author node"
  shows "ObjectBody msg ty = body"
  using assms by (rule ObjectBody_wrapped)

text \<open>A vCard whose body holds a blank line, as an example.\<close>

theorem ObjectBody_WrapObject_witness:
  "ObjectBody \<lparr>ms_num = 7, ms_euid = ''u1'', ms_author = ''ann'', ms_author_usernum = 1, ms_recipient = [], ms_node = [],
      ms_time = 0, ms_subject = ''Ann'', ms_format = 4, ms_references = [], ms_origin_room = [],
      ms_raw = WrapObject ''text/vcard'' (''BEGIN:VCARD'' @ crlf @ crlf @ ''END:VCARD'') ''Ann'' ''u1'' ''ann'' ''node''\<rparr> ''text/vcard''
    = ''BEGIN:VCARD'' @ crlf @ crlf @ ''END:VCARD''"
  by (rule ObjectBody_WrapObject [OF text_vcard]) (simp_all add: plain_value_def)

end
