(* ===== verification/QM_Messages.thy ===== *)
theory QM_Messages
  imports QM_Access QM_CitMsg
begin

unbundle bit_operations_syntax

text \<open>
  Messages in rooms: the last part of \<^verbatim>\<open>src/core/src/citadel_store.cpp\<close> and the storage quotas of
  \<^verbatim>\<open>src/core/src/quota.cpp\<close>, which it calls. A message row may be pointed to from several rooms; removing
  it from a room leaves a tombstone, and the numbers of messages and tombstones come from one
  sequence, so that a single number is a synchronisation token. \<^verbatim>\<open>ROLLBACK\<close> restores the tables but
  not the sequences. The text of an error that DuckDB reports itself is \<open>engine_error\<close>.
\<close>

section \<open>Quotas\<close>

definition blank_limit :: "string \<Rightarrow> quota_limit" where
  "blank_limit u = \<lparr>ql_username = u, ql_limit_bytes = 0, ql_enabled = True, ql_changed_at = 0\<rparr>"

definition quota_EnsureSchema :: "store \<Rightarrow> store" where
  "quota_EnsureSchema st = snd (ExecP (\<lambda>s. Some (s\<lparr>quotas := insert_or_ignore ql_username (blank_limit []) (quotas s)\<rparr>)) st)"

definition LimitFor :: "store \<Rightarrow> string \<Rightarrow> quota_limit" where
  "LimitFor st u =
     (case rev (sort_key ql_username (filter (\<lambda>q. ql_username q = u \<or> ql_username q = []) (quotas st))) of
        [] \<Rightarrow> blank_limit u | q # _ \<Rightarrow> q)"

record quota_info =
  qi_username :: string
  qi_used_bytes :: int
  qi_limit_bytes :: int
  qi_limited :: bool
  qi_over :: bool

definition owned_msgs :: "store \<Rightarrow> int \<Rightarrow> int list" where
  "owned_msgs st n = map snd (filter (\<lambda>p. list_ex (\<lambda>r. rm_num r = fst p \<and> rm_owner r = n) (rooms st)) (room_msgs st))"

definition bytes_of :: "store \<Rightarrow> int \<Rightarrow> int" where
  "bytes_of st n = sum_list (map ms_size (filter (\<lambda>m. ms_size m > 0 \<and> ms_num m \<in> set (owned_msgs st n)) (messages st)))"

definition ComputeUsage :: "string \<Rightarrow> store \<Rightarrow> int \<times> store" where
  "ComputeUsage u st = (let (n, st) = GetOrAssignUserNum u st in (if n \<le> 0 then 0 else bytes_of st n, st))"

definition Compute :: "string \<Rightarrow> bool \<Rightarrow> store \<Rightarrow> quota_info \<times> store" where
  "Compute u always st =
     (let lim = LimitFor st u;
          limit = (if ql_enabled lim then ql_limit_bytes lim else 0) in
      if \<not> limit > 0 \<and> \<not> always
      then (\<lparr>qi_username = u, qi_used_bytes = 0, qi_limit_bytes = limit, qi_limited = False, qi_over = False\<rparr>, st)
      else let (used, st) = ComputeUsage u st in
        (\<lparr>qi_username = u, qi_used_bytes = used, qi_limit_bytes = limit, qi_limited = limit > 0,
          qi_over = (limit > 0 \<and> used \<ge> limit)\<rparr>, st))"

definition Usage :: "string \<Rightarrow> store \<Rightarrow> quota_info \<times> store" where
  "Usage u st = Compute u False st"

definition UsageAlways :: "string \<Rightarrow> store \<Rightarrow> quota_info \<times> store" where
  "UsageAlways u st = Compute u True st"

definition WouldExceed :: "string \<Rightarrow> int \<Rightarrow> store \<Rightarrow> bool \<times> store" where
  "WouldExceed u extra st =
     (let (info, st) = Usage u st in
      (qi_limited info \<and> qi_used_bytes info + (if extra < 0 then 0 else extra) > qi_limit_bytes info, st))"

definition IsOver :: "string \<Rightarrow> store \<Rightarrow> bool \<times> store" where
  "IsOver u st = (let (info, st) = Usage u st in (qi_over info, st))"

definition MessageSize :: "(int \<Rightarrow> string) \<Rightarrow> message \<Rightarrow> string \<Rightarrow> int" where
  "MessageSize date msg node =
     (if ms_format msg = 4 then int (length (ms_raw msg)) else int (length (RenderRfc822 date msg node)))"

definition set_limit :: "quota_limit \<Rightarrow> quota_limit \<Rightarrow> quota_limit" where
  "set_limit new old = old\<lparr>ql_limit_bytes := ql_limit_bytes new, ql_changed_at := ql_changed_at new, ql_enabled := True\<rparr>"

definition next_generation :: "int \<Rightarrow> store \<Rightarrow> int" where
  "next_generation now st = max now (max0 (map ql_changed_at (quotas st)) + 1)"

definition SetQuota :: "int \<Rightarrow> string \<Rightarrow> int \<Rightarrow> store \<Rightarrow> (string + unit) \<times> store" where
  "SetQuota now u limit st =
     (if limit < 0 then (Inl ''a quota cannot be negative'', st)
      else let gen = next_generation now st;
               (ok, st) = ExecP (\<lambda>s. Some (s\<lparr>quotas := upsert ql_username set_limit
                 \<lparr>ql_username = u, ql_limit_bytes = limit, ql_enabled = True, ql_changed_at = gen\<rparr> (quotas s)\<rparr>)) st in
        (if ok then Inr () else Inl ''could not store the quota'', st))"

definition ListQuotas :: "store \<Rightarrow> quota_limit list" where
  "ListQuotas st = sort_key ql_username (quotas st)"

definition LimitGeneration :: "store \<Rightarrow> string \<Rightarrow> int" where
  "LimitGeneration st u = max0 (map ql_changed_at (filter (\<lambda>q. ql_username q = u \<or> ql_username q = []) (quotas st)))"

section \<open>Reading\<close>

definition as_message :: "msg_row \<Rightarrow> message" where
  "as_message m = message.truncate m"

definition LoadMessage :: "store \<Rightarrow> int \<Rightarrow> message option" where
  "LoadMessage st n = map_option as_message (lookup_key ms_num n (messages st))"

definition MessageInRoom :: "store \<Rightarrow> int \<Rightarrow> int \<Rightarrow> bool" where
  "MessageInRoom st room n = ((room, n) \<in> set (room_msgs st))"

definition RoomMessages :: "store \<Rightarrow> int \<Rightarrow> string \<Rightarrow> int \<Rightarrow> int \<Rightarrow> int list" where
  "RoomMessages st room which param last_read =
     (let ms = sort (msgs_of st room) in
      if which = ''new'' then filter (\<lambda>m. m > last_read) ms
      else if which = ''old'' then filter (\<lambda>m. m \<le> last_read) ms
      else if which = ''gt'' then filter (\<lambda>m. m > param) ms
      else if which = ''lt'' then filter (\<lambda>m. m < param) ms
      else if which = ''first'' then take (nat param) ms
      else if which = ''last'' then rev (take (nat param) (rev ms))
      else ms)"

definition FindByEuid :: "store \<Rightarrow> int \<Rightarrow> string \<Rightarrow> int" where
  "FindByEuid st room euid =
     (let ms = map ms_num (filter (\<lambda>m. ms_euid m = euid \<and> (room, ms_num m) \<in> set (room_msgs st)) (messages st)) in
      if euid = [] \<or> ms = [] then - 1 else Max (set ms))"

section \<open>Filing a message\<close>

definition engine_error :: string where
  "engine_error = ''database error''"

definition rollback :: "store \<Rightarrow> store \<Rightarrow> store" where
  "rollback st0 st = st0\<lparr>user_seq := user_seq st, room_seq := room_seq st, floor_seq := floor_seq st, msg_seq := msg_seq st, faults := faults st\<rparr>"

fun check_owners :: "int list \<Rightarrow> store \<Rightarrow> string option \<times> store" where
  "check_owners [] st = (None, st)"
| "check_owners (owner # owners) st =
     (let who = (case find (\<lambda>r. cu_usernum r = owner) (users st) of None \<Rightarrow> [] | Some r \<Rightarrow> cu_username r) in
      if who = [] then check_owners owners st
      else let (over, st) = IsOver who st in
        if over then (Some who, st) else check_owners owners st)"

definition room_owners :: "store \<Rightarrow> int list \<Rightarrow> int list" where
  "room_owners st rs =
     rev (remdups (rev (filter (\<lambda>n. n > 0) (map (\<lambda>n. case GetRoomByNum st n of None \<Rightarrow> 0 | Some r \<Rightarrow> rm_owner r) rs))))"

definition raise_highest :: "int \<Rightarrow> int \<Rightarrow> store \<Rightarrow> store" where
  "raise_highest room n st =
     snd (ExecP (\<lambda>s. Some (s\<lparr>rooms := map (\<lambda>r. if rm_num r = room then r\<lparr>rm_highest := max (rm_highest r) n\<rparr> else r) (rooms s)\<rparr>)) st)"

definition add_pointer :: "int \<Rightarrow> int \<Rightarrow> store \<Rightarrow> bool \<times> store" where
  "add_pointer room n st = ExecP (\<lambda>s. Some (s\<lparr>room_msgs := insert_or_ignore id (room, n) (room_msgs s)\<rparr>)) st"

fun file_in_rooms :: "int list \<Rightarrow> int \<Rightarrow> store \<Rightarrow> bool \<times> store" where
  "file_in_rooms [] n st = (True, st)"
| "file_in_rooms (room # rs) n st =
     (let (ok, st) = add_pointer room n st in
      if \<not> ok then (False, st) else file_in_rooms rs n (raise_highest room n st))"

definition insert_row :: "msg_row \<Rightarrow> store \<Rightarrow> bool \<times> store" where
  "insert_row row st = ExecP (\<lambda>s. if ms_num row \<in> set (map ms_num (messages s)) then None
     else Some (s\<lparr>messages := messages s @ [row]\<rparr>)) st"

definition msg_nextval :: "store \<Rightarrow> int option \<times> store" where
  "msg_nextval = nextval msg_seq (\<lambda>s. s\<lparr>msg_seq := msg_seq s + 1\<rparr>)"

definition stored_row :: "(int \<Rightarrow> string) \<Rightarrow> store \<Rightarrow> message \<Rightarrow> int \<Rightarrow> msg_row" where
  "stored_row date st msg n =
     (let numbered = msg\<lparr>ms_num := n\<rparr> in
      message.extend numbered (msg_row.fields (MessageSize date numbered (store_GetConfig st ''c_nodename'' ''quackcit''))))"

definition quota_gate :: "int list \<Rightarrow> store \<Rightarrow> string option \<times> store" where
  "quota_gate rs st =
     (if store_GetConfig st ''qm_quota_enforce_store'' ''1'' = ''1'' then check_owners (room_owners st rs) st else (None, st))"

definition file_message :: "(int \<Rightarrow> string) \<Rightarrow> message \<Rightarrow> int list \<Rightarrow> store \<Rightarrow> store \<Rightarrow> (string + int) \<times> store" where
  "file_message date msg rs st0 st =
     (case msg_nextval st of
        (None, st) \<Rightarrow> (Inl ''could not allocate message number'', rollback st0 st)
      | (Some n, st) \<Rightarrow>
         (case insert_row (stored_row date st msg n) st of
            (False, st) \<Rightarrow> (Inl ''message insert failed'', rollback st0 st)
          | (True, st) \<Rightarrow>
             (case file_in_rooms rs n st of
                (False, st) \<Rightarrow> (Inl ''room pointer insert failed'', rollback st0 st)
              | (True, st) \<Rightarrow>
                 (case ExecP Some st of
                    (False, st) \<Rightarrow> (Inl engine_error, rollback st0 st)
                  | (True, st) \<Rightarrow> (Inr n, st)))))"

definition InsertMessage :: "(int \<Rightarrow> string) \<Rightarrow> message \<Rightarrow> int list \<Rightarrow> store \<Rightarrow> (string + int) \<times> store" where
  "InsertMessage date msg rs st =
     (case ExecP Some st of
        (False, st) \<Rightarrow> (Inl engine_error, st)
      | (True, st0) \<Rightarrow>
         (case quota_gate rs st0 of
            (Some who, st) \<Rightarrow> (Inl (''mailbox is over its storage quota: '' @ who), rollback st0 st)
          | (None, st) \<Rightarrow> file_message date msg rs st0 st))"

section \<open>Removing and moving\<close>

definition bury :: "int \<Rightarrow> int \<Rightarrow> string \<Rightarrow> int \<Rightarrow> int \<Rightarrow> store \<Rightarrow> store" where
  "bury room sq euid n now st =
     snd (ExecP (\<lambda>s. Some (s\<lparr>tombstones := delete_where (\<lambda>t. tb_room t = room \<and> tb_seq t = sq) (tombstones s)
        @ [\<lparr>tb_room = room, tb_seq = sq, tb_euid = euid, tb_num = n, tb_deleted_at = now\<rparr>]\<rparr>)) st)"

definition drop_pointer :: "int \<Rightarrow> int \<Rightarrow> store \<Rightarrow> bool \<times> store" where
  "drop_pointer room n st = ExecP (\<lambda>s. Some (s\<lparr>room_msgs := delete_where (\<lambda>p. p = (room, n)) (room_msgs s)\<rparr>)) st"

definition Unlink :: "int \<Rightarrow> int \<Rightarrow> int \<Rightarrow> store \<Rightarrow> (string + unit) \<times> store" where
  "Unlink now room n st =
     (let euid = (case lookup_key ms_num n (messages st) of None \<Rightarrow> [] | Some m \<Rightarrow> ms_euid m);
          (ok, st) = drop_pointer room n st in
      if \<not> ok then (Inl ''delete failed'', st)
      else case msg_nextval st of
          (None, st) \<Rightarrow> (Inr (), st)
        | (Some sq, st) \<Rightarrow> (Inr (), bury room sq euid n now st))"

definition DeleteMessage :: "int \<Rightarrow> int \<Rightarrow> int \<Rightarrow> store \<Rightarrow> (string + unit) \<times> store" where
  "DeleteMessage now room n st =
     (if \<not> MessageInRoom st room n then (Inl ''message not found in this room'', st) else Unlink now room n st)"

definition MoveMessage :: "int \<Rightarrow> int \<Rightarrow> int \<Rightarrow> int \<Rightarrow> bool \<Rightarrow> store \<Rightarrow> (string + unit) \<times> store" where
  "MoveMessage now from_room to_room n is_copy st =
     (if \<not> MessageInRoom st from_room n then (Inl ''message not found in this room'', st)
      else if GetRoomByNum st to_room = None then (Inl ''no such target room'', st)
      else if from_room = to_room then (Inr (), st)
      else let (ok, st) = add_pointer to_room n st in
        if \<not> ok then (Inl ''insert failed'', st)
        else let st = raise_highest to_room n st in
          if is_copy then (Inr (), st) else Unlink now from_room n st)"

section \<open>Synchronisation\<close>

record room_change =
  rc_seq :: int
  rc_euid :: string
  rc_num :: int
  rc_deleted :: bool

definition RoomChangeToken :: "store \<Rightarrow> int \<Rightarrow> int" where
  "RoomChangeToken st room = max (max0 (msgs_of st room)) (max0 (map tb_seq (filter (\<lambda>t. tb_room t = room) (tombstones st))))"

definition RoomChangesSince :: "store \<Rightarrow> int \<Rightarrow> int \<Rightarrow> room_change list" where
  "RoomChangesSince st room since = sort_key rc_seq
     (map (\<lambda>m. \<lparr>rc_seq = ms_num m, rc_euid = ms_euid m, rc_num = ms_num m, rc_deleted = False\<rparr>)
        (filter (\<lambda>m. ms_num m > since \<and> (room, ms_num m) \<in> set (room_msgs st)) (messages st))
      @ map (\<lambda>t. \<lparr>rc_seq = tb_seq t, rc_euid = tb_euid t, rc_num = tb_num t, rc_deleted = True\<rparr>)
        (filter (\<lambda>t. tb_room t = room \<and> tb_seq t > since) (tombstones st)))"

definition PruneTombstones :: "int \<Rightarrow> int \<Rightarrow> store \<Rightarrow> store" where
  "PruneTombstones now older st =
     (if older \<le> 0 then st
      else snd (ExecP (\<lambda>s. Some (s\<lparr>tombstones := delete_where (\<lambda>t. tb_deleted_at t < now - older) (tombstones s)\<rparr>)) st))"

definition PruneDavNames :: "store \<Rightarrow> store" where
  "PruneDavNames st =
     snd (ExecP (\<lambda>s. Some (s\<lparr>dav_names := delete_where (\<lambda>d. \<not> list_ex (\<lambda>m. ms_euid m = snd d
        \<and> (fst (fst d), ms_num m) \<in> set (room_msgs s)) (messages s)) (dav_names s)\<rparr>)) st)"

section \<open>Objects, identifiers and flags\<close>

definition IsHistoryEuid :: "string \<Rightarrow> bool" where
  "IsHistoryEuid euid = (length euid \<ge> 9 \<and> Lower (drop (length euid - 9) euid) = ''_history_'')"

definition IsWikiView :: "int \<Rightarrow> bool" where
  "IsWikiView view = (view = 6 \<or> view = 12)"

datatype record_result = Recorded | Unchanged | NoPrevious | RecordError

text \<open>The wiki's \<^verbatim>\<open>RecordRevision\<close> (room, page, new text) is an argument: its patches are not modelled.\<close>

definition UpsertByEuid ::
  "(int \<Rightarrow> string \<Rightarrow> string \<Rightarrow> store \<Rightarrow> record_result \<times> string \<times> store) \<Rightarrow> (int \<Rightarrow> string) \<Rightarrow> int
   \<Rightarrow> message \<Rightarrow> int \<Rightarrow> store \<Rightarrow> (string + int) \<times> store" where
  "UpsertByEuid RecordRevision date now msg room st =
     (if ms_euid msg = [] then (Inl ''a groupware object needs an euid'', st)
      else
       (let old = FindByEuid st room (ms_euid msg);
            wiki = (old \<ge> 0 \<and> \<not> IsHistoryEuid (ms_euid msg)
                    \<and> (case GetRoomByNum st room of None \<Rightarrow> False | Some r \<Rightarrow> IsWikiView (rm_view r)));
            (stop, st) = (if wiki
              then (case RecordRevision room (ms_euid msg) (ms_raw msg) st of
                      (Unchanged, _, st) \<Rightarrow> (Some ''no changes'', st)
                    | (RecordError, err, st) \<Rightarrow> (Some (if err = [] then ''the page history could not be written'' else err), st)
                    | (_, _, st) \<Rightarrow> (None, st))
              else (None, st)) in
        case stop of Some err \<Rightarrow> (Inl err, st)
        | None \<Rightarrow>
         (case InsertMessage date msg [room] st of
            (Inl err, st) \<Rightarrow> (Inl err, st)
          | (Inr created, st) \<Rightarrow>
             (Inr created, if old \<ge> 0 \<and> old \<noteq> created then snd (DeleteMessage now room old st) else st))))"

definition RecordMessageId :: "string \<Rightarrow> int \<Rightarrow> store \<Rightarrow> store" where
  "RecordMessageId msgid n st =
     (if msgid = [] \<or> n \<le> 0 then st
      else snd (ExecP (\<lambda>s. Some (s\<lparr>msgids := upsert fst set_value (msgid, n) (msgids s)\<rparr>)) st))"

definition FindByMessageId :: "store \<Rightarrow> string \<Rightarrow> int" where
  "FindByMessageId st msgid =
     (if msgid = [] then - 1
      else case map_of (msgids st) msgid of None \<Rightarrow> - 1
        | Some n \<Rightarrow> if n \<in> set (map ms_num (messages st)) then n else - 1)"

definition AddMsgFlag :: "int \<Rightarrow> string \<Rightarrow> string \<Rightarrow> store \<Rightarrow> store" where
  "AddMsgFlag n u flag st =
     (if flag = [] then st
      else snd (ExecP (\<lambda>s. Some (s\<lparr>msg_flags := insert_or_ignore id (n, u, flag) (msg_flags s)\<rparr>)) st))"

definition PostAideMessage :: "(int \<Rightarrow> string) \<Rightarrow> int \<Rightarrow> string \<Rightarrow> string \<Rightarrow> store \<Rightarrow> store" where
  "PostAideMessage date now subject body st =
     (if store_GetConfig st ''qm_aide_log'' ''1'' \<noteq> ''1'' then st
      else snd (InsertMessage date
        \<lparr>ms_num = 0, ms_euid = [], ms_author = store_GetConfig st ''c_nodename'' ''quackcit'', ms_author_usernum = 0,
         ms_recipient = [], ms_node = [], ms_time = now, ms_subject = subject, ms_format = 0, ms_references = [],
         ms_origin_room = ''Aide'', ms_raw = body\<rparr> [kAideRoom] st))"

section \<open>What leaves the mail alone\<close>

text \<open>The messages and where they are filed.\<close>

definition mail :: "store \<Rightarrow> (int \<times> int) list \<times> msg_row list" where
  "mail st = (room_msgs st, messages st)"

lemma assign_mail [simp]: "mail (snd (GetOrAssignUserNum u st)) = mail st"
  by (auto simp: mail_def GetOrAssignUserNum_def nextval_def ExecP_def Let_def split: option.splits)

lemma CreateRoom_mail [simp]: "mail (snd (CreateRoom d f fl pass owner st)) = mail st"
  by (auto simp: mail_def CreateRoom_def nextval_def ExecP_def Let_def split: option.splits)

lemma user_room_mail [simp]: "mail (snd (GetOrCreateUserRoom u d st)) = mail st"
proof -
  have "mail r = mail st'" if "CreateRoom d' f fl pass n st' = (x, r)" for d' f fl pass n st' x r
    using CreateRoom_mail [of d' f fl pass n st'] that by simp
  then show ?thesis
    by (auto simp: GetOrCreateUserRoom_def Let_def case_prod_beta split: option.split sum.split prod.split)
qed

lemma mail_room_mail [simp]: "mail (snd (GetOrCreateMailRoom u st)) = mail st"
  by (simp add: GetOrCreateMailRoom_def)

lemma ensure_room_mail [simp]: "mail (ensure_room u d st) = mail st"
proof -
  have "mail (snd (ExecP (\<lambda>s. Some (s\<lparr>rooms := f s\<rparr>)) st')) = mail st'" for f st'
    by (simp add: ExecP_def mail_def Let_def)
  then show ?thesis by (simp add: ensure_room_def Let_def case_prod_beta)
qed

lemma ensure_rooms_mail [simp]: "mail (fold (ensure_room u) ds st) = mail st"
  by (induction ds arbitrary: st) simp_all

lemma EnsureUserRooms_mail [simp]: "mail (EnsureUserRooms u st) = mail st"
  by (simp add: EnsureUserRooms_def Let_def case_prod_beta)

section \<open>What filing a message does\<close>

lemma IsOver_snd: "snd (IsOver u st) = st \<or> snd (IsOver u st) = snd (GetOrAssignUserNum u st)"
  by (simp add: IsOver_def Usage_def Compute_def ComputeUsage_def Let_def case_prod_beta)

lemma IsOver_keeps [simp]:
  "messages (snd (IsOver u st)) = messages st" "room_msgs (snd (IsOver u st)) = room_msgs st"
  "tombstones (snd (IsOver u st)) = tombstones st" "rooms (snd (IsOver u st)) = rooms st"
  "cfg (snd (IsOver u st)) = cfg st" "msg_seq (snd (IsOver u st)) = msg_seq st"
  using IsOver_snd [of u st] by auto

lemma check_owners_keeps [simp]:
  "messages (snd (check_owners os st)) = messages st \<and> room_msgs (snd (check_owners os st)) = room_msgs st
   \<and> tombstones (snd (check_owners os st)) = tombstones st \<and> rooms (snd (check_owners os st)) = rooms st
   \<and> cfg (snd (check_owners os st)) = cfg st \<and> msg_seq (snd (check_owners os st)) = msg_seq st"
  by (induction os arbitrary: st) (auto simp: Let_def case_prod_beta)

lemma insert_or_ignore_set: "set (insert_or_ignore id x xs) = insert x (set xs)"
  by (auto simp: insert_or_ignore_def list_ex_iff)

lemma raise_highest_keeps [simp]:
  "messages (raise_highest r n st) = messages st" "room_msgs (raise_highest r n st) = room_msgs st"
  "tombstones (raise_highest r n st) = tombstones st" "msg_seq (raise_highest r n st) = msg_seq st"
  by (auto simp: raise_highest_def ExecP_def Let_def)

lemma add_pointer_keeps [simp]:
  "messages (snd (add_pointer r n st)) = messages st" "tombstones (snd (add_pointer r n st)) = tombstones st"
  "msg_seq (snd (add_pointer r n st)) = msg_seq st"
  by (auto simp: add_pointer_def ExecP_def Let_def)

lemma add_pointer_set:
  "set (room_msgs (snd (add_pointer r n st))) = (if fst (add_pointer r n st) then insert (r, n) (set (room_msgs st)) else set (room_msgs st))"
  by (auto simp: add_pointer_def ExecP_def Let_def insert_or_ignore_set)

lemma file_in_rooms_keeps [simp]:
  "messages (snd (file_in_rooms rs n st)) = messages st \<and> tombstones (snd (file_in_rooms rs n st)) = tombstones st
    \<and> msg_seq (snd (file_in_rooms rs n st)) = msg_seq st"
  by (induction rs arbitrary: st) (auto simp: Let_def case_prod_beta)

lemma file_in_rooms_set:
  "fst (file_in_rooms rs n st) \<Longrightarrow> set (room_msgs (snd (file_in_rooms rs n st))) = set (room_msgs st) \<union> (\<lambda>r. (r, n)) ` set rs"
  by (induction rs arbitrary: st)
    (auto simp: Let_def case_prod_beta add_pointer_set split: if_splits)

lemma insert_row_keeps [simp]:
  "room_msgs (snd (insert_row row st)) = room_msgs st" "tombstones (snd (insert_row row st)) = tombstones st"
  "msg_seq (snd (insert_row row st)) = msg_seq st"
  by (auto simp: insert_row_def ExecP_def Let_def)

lemma insert_row_messages:
  "fst (insert_row row st) \<Longrightarrow> messages (snd (insert_row row st)) = messages st @ [row] \<and> ms_num row \<notin> ms_num ` set (messages st)"
  by (auto simp: insert_row_def ExecP_def Let_def split: if_splits)

lemma rollback_faults [simp]: "rollback (st\<lparr>faults := fs\<rparr>) = rollback st"
  by (intro ext) (simp add: rollback_def)

lemma ExecP_Some: "ExecP Some st = (ok, st') \<Longrightarrow> st' = st\<lparr>faults := tl (faults st)\<rparr>"
  by (auto simp: ExecP_def Let_def split: if_splits)

lemma msg_nextval_Some:
  "msg_nextval st = (Some n, st') \<Longrightarrow> n = msg_seq st \<and> st' = st\<lparr>faults := tl (faults st), msg_seq := msg_seq st + 1\<rparr>"
  by (auto simp: msg_nextval_def dest: nextval_Some)

text \<open>The course of a call: it fails with the tables rolled back, or goes through every step.\<close>

lemma msg_nextval_cases:
  obtains (Failed) "msg_nextval st = (None, st\<lparr>faults := tl (faults st)\<rparr>)"
  | (Given) "msg_nextval st = (Some (msg_seq st), st\<lparr>faults := tl (faults st), msg_seq := msg_seq st + 1\<rparr>)"
proof (cases "faults st \<noteq> [] \<and> hd (faults st)")
  case True
  show ?thesis by (rule Failed) (simp add: msg_nextval_def nextval_def True)
next
  case False
  show ?thesis by (rule Given) (unfold msg_nextval_def nextval_def Let_def if_not_P [OF False], simp)
qed

lemma rollback_twice [simp]: "rollback st (rollback st x) = rollback st x"
  by (simp add: rollback_def)

lemma file_message_cases:
  assumes "file_message date msg rs st0 st = (res, st')"
  obtains (Failed) e where "res = Inl e" "st' = rollback st0 st'"
  | (Filed) st1 fs where "res = Inr (msg_seq st)" "st1 = st\<lparr>faults := tl (faults st), msg_seq := msg_seq st + 1\<rparr>"
      "fst (insert_row (stored_row date st1 msg (msg_seq st)) st1)"
      "fst (file_in_rooms rs (msg_seq st) (snd (insert_row (stored_row date st1 msg (msg_seq st)) st1)))"
      "st' = (snd (file_in_rooms rs (msg_seq st) (snd (insert_row (stored_row date st1 msg (msg_seq st)) st1))))\<lparr>faults := fs\<rparr>"
proof -
  show thesis
  proof (cases rule: msg_nextval_cases [of st])
    case 1: Failed
    show thesis using assms by (intro Failed) (auto simp: file_message_def 1)
  next
    case 2: Given
    let ?n = "msg_seq st"
    define st1 where "st1 = st\<lparr>faults := tl (faults st), msg_seq := ?n + 1\<rparr>"
    obtain ok2 st2 where ins: "insert_row (stored_row date st1 msg ?n) st1 = (ok2, st2)" by fastforce
    obtain ok3 st3 where files: "file_in_rooms rs ?n st2 = (ok3, st3)" by fastforce
    obtain ok4 st4 where commit: "ExecP Some st3 = (ok4, st4)" by fastforce
    have st4: "st4 = st3\<lparr>faults := tl (faults st3)\<rparr>" using commit by (rule ExecP_Some)
    have res: "(res, st') = (if ok2 \<and> ok3 \<and> ok4 then (Inr ?n, st4)
        else (Inl (if \<not> ok2 then ''message insert failed'' else if \<not> ok3 then ''room pointer insert failed'' else engine_error),
              rollback st0 (if \<not> ok2 then st2 else if \<not> ok3 then st3 else st4)))"
      using assms unfolding file_message_def 2 st1_def [symmetric] by (simp add: ins files commit split: bool.splits)
    show thesis
    proof (cases "ok2 \<and> ok3 \<and> ok4")
      case True
      then show thesis using res st4 ins files by (intro Filed [OF _ st1_def]) simp_all
    next
      case False
      note res = res [unfolded if_not_P [OF False] prod.inject]
      show thesis by (rule Failed, rule conjunct1 [OF res]) (simp only: conjunct2 [OF res] rollback_twice)
    qed
  qed
qed

lemma quota_gate_keeps [simp]:
  "messages (snd (quota_gate rs st)) = messages st \<and> room_msgs (snd (quota_gate rs st)) = room_msgs st
   \<and> tombstones (snd (quota_gate rs st)) = tombstones st \<and> rooms (snd (quota_gate rs st)) = rooms st
   \<and> cfg (snd (quota_gate rs st)) = cfg st \<and> msg_seq (snd (quota_gate rs st)) = msg_seq st"
  by (simp add: quota_gate_def)

lemma InsertMessage_cases:
  assumes "InsertMessage date msg rs st = (res, st')"
  obtains (Failed) e where "res = Inl e" "st' = rollback st st'"
  | (Filed) st0 st1 fs where "st0 = snd (quota_gate rs (st\<lparr>faults := tl (faults st)\<rparr>))"
      "st1 = st0\<lparr>faults := tl (faults st0), msg_seq := msg_seq st + 1\<rparr>" "res = Inr (msg_seq st)"
      "fst (insert_row (stored_row date st1 msg (msg_seq st)) st1)"
      "fst (file_in_rooms rs (msg_seq st) (snd (insert_row (stored_row date st1 msg (msg_seq st)) st1)))"
      "st' = (snd (file_in_rooms rs (msg_seq st) (snd (insert_row (stored_row date st1 msg (msg_seq st)) st1))))\<lparr>faults := fs\<rparr>"
proof -
  let ?stf = "st\<lparr>faults := tl (faults st)\<rparr>"
  obtain over st0 where gate: "quota_gate rs ?stf = (over, st0)" by fastforce
  consider "res = Inl engine_error" "st' = ?stf" | who where "over = Some who" "\<exists>e. res = Inl e" "st' = rollback st st0"
    | "over = None" "file_message date msg rs ?stf st0 = (res, st')"
    using assms gate ExecP_Some [of st]
    by (cases "ExecP Some st"; cases over) (auto simp: InsertMessage_def split: bool.splits)
  then show thesis
  proof cases
    case 1
    then show thesis using Failed by (simp add: rollback_def)
  next
    case 2
    then show thesis using Failed by auto
  next
    case 3
    have seq: "msg_seq st0 = msg_seq st" using quota_gate_keeps [of rs ?stf] gate by simp
    from 3(2) show thesis
    proof (cases rule: file_message_cases)
      case Failed': Failed
      then show thesis using Failed by simp
    next
      case Filed': (Filed st1 fs)
      then show thesis using Filed [of st0 st1 fs] seq gate by simp
    qed
  qed
qed

lemma stored_row [simp]:
  "ms_num (stored_row date st msg n) = n" "as_message (stored_row date st msg n) = msg\<lparr>ms_num := n\<rparr>"
  by (simp_all add: stored_row_def Let_def message.defs msg_row.defs as_message_def)

lemma InsertMessage_filed:
  assumes "InsertMessage date msg rs st = (Inr n, st')"
  shows "n = msg_seq st \<and> msg_seq st' = msg_seq st + 1 \<and> n \<notin> ms_num ` set (messages st)
    \<and> (\<exists>row. messages st' = messages st @ [row] \<and> ms_num row = n \<and> as_message row = msg\<lparr>ms_num := n\<rparr>)
    \<and> tombstones st' = tombstones st \<and> set (room_msgs st') = set (room_msgs st) \<union> (\<lambda>r. (r, n)) ` set rs"
  using assms
proof (cases rule: InsertMessage_cases)
  case (Filed st0 st1 fs)
  let ?st2 = "snd (insert_row (stored_row date st1 msg (msg_seq st)) st1)"
  have same: "messages st1 = messages st" "room_msgs st1 = room_msgs st" "tombstones st1 = tombstones st" "msg_seq st1 = msg_seq st + 1"
    using Filed(1,2) by simp_all
  then have "messages ?st2 = messages st @ [stored_row date st1 msg (msg_seq st)]" "msg_seq st \<notin> ms_num ` set (messages st)"
    using insert_row_messages [OF Filed(4)] by simp_all
  then show ?thesis
    using Filed(3,6) file_in_rooms_set [OF Filed(5)] same by simp
qed simp

text \<open>C3. Filing a message is atomic whichever statements fail: an error leaves every table as it
  was, only sequence values are used up; success adds exactly one message, under a number no message
  had, readable as it was given, and puts exactly that message into exactly the rooms named.\<close>

theorem InsertMessage_atomic:
  "case InsertMessage date msg rs st of
     (Inl e, st') \<Rightarrow> st' = rollback st st'
   | (Inr n, st') \<Rightarrow> LoadMessage st n = None \<and> LoadMessage st' = (LoadMessage st)(n \<mapsto> msg\<lparr>ms_num := n\<rparr>)
       \<and> (\<forall>r m. MessageInRoom st' r m = (MessageInRoom st r m \<or> r \<in> set rs \<and> m = n)) \<and> tombstones st' = tombstones st"
proof (cases "InsertMessage date msg rs st")
  case (Pair res st')
  show ?thesis
  proof (cases res)
    case (Inl e)
    from Pair show ?thesis by (cases rule: InsertMessage_cases) (simp_all add: Pair Inl)
  next
    case (Inr n)
    note filed = InsertMessage_filed [OF Pair [unfolded Inr]]
    then obtain row where row: "messages st' = messages st @ [row]" "ms_num row = n" "as_message row = msg\<lparr>ms_num := n\<rparr>" by blast
    have none: "find (\<lambda>m. ms_num m = n) (messages st) = None" using filed by (force simp: find_None_iff)
    then have "LoadMessage st' = (LoadMessage st)(n \<mapsto> msg\<lparr>ms_num := n\<rparr>)"
      using row by (intro ext) (auto simp: LoadMessage_def lookup_key_def find_append split: option.splits)
    then show ?thesis using filed none by (auto simp: Pair Inr MessageInRoom_def LoadMessage_def lookup_key_def)
  qed
qed

section \<open>The invariant is kept\<close>

definition later :: "store \<Rightarrow> store \<Rightarrow> bool" where
  "later st0 s \<longleftrightarrow> user_seq st0 \<le> user_seq s \<and> room_seq st0 \<le> room_seq s \<and> msg_seq st0 \<le> msg_seq s"

interpretation ok_later: store_inv "\<lambda>s. store_ok s \<and> later st0 s" for st0
  by unfold_locales (simp add: kept.any_faults later_def)

lemma msgs_ok_mono: "msgs_ok ns ps ts next \<Longrightarrow> next \<le> n \<Longrightarrow> msgs_ok ns ps ts n"
  by (auto simp: msgs_ok_def list_all_iff)

lemma rollback_ok: "store_ok st0 \<Longrightarrow> later st0 st \<Longrightarrow> store_ok (rollback st0 st)"
  using users_ok_mono rooms_ok_mono msgs_ok_mono by (auto simp: store_ok_def keys_ok_def rollback_def later_def)

lemma GetOrAssignUserNum_later: "later st0 st \<Longrightarrow> later st0 (snd (GetOrAssignUserNum u st))"
  by (auto simp: later_def GetOrAssignUserNum_def nextval_def ExecP_def Let_def split: option.splits)

lemma IsOver_ok: "store_ok st \<and> later st0 st \<Longrightarrow> store_ok (snd (IsOver u st)) \<and> later st0 (snd (IsOver u st))"
  using IsOver_snd [of u st] GetOrAssignUserNum_ok [of st u] GetOrAssignUserNum_later [of st0 st u] by auto

lemma check_owners_ok:
  "store_ok st \<and> later st0 st \<Longrightarrow> store_ok (snd (check_owners os st)) \<and> later st0 (snd (check_owners os st))"
proof (induction os arbitrary: st)
  case (Cons owner os)
  then show ?case using IsOver_ok [of st st0] by (simp add: Let_def case_prod_beta)
qed simp

lemma quota_gate_ok: "store_ok st \<and> later st0 st \<Longrightarrow> store_ok (snd (quota_gate rs st)) \<and> later st0 (snd (quota_gate rs st))"
  using check_owners_ok [of st st0 "room_owners st rs"] by (simp add: quota_gate_def)

lemma raise_highest_ok: "store_ok st \<Longrightarrow> store_ok (raise_highest room n st)"
  unfolding raise_highest_def
  by (erule kept.ExecP_pres)
    (auto simp: store_ok_def keys_ok_def rooms_ok_def unique_key_map list_all_iff room_ok_def)

lemma add_pointer_ok:
  assumes "store_ok st" "n \<in> set (map ms_num (messages st))"
  shows "store_ok (snd (add_pointer room n st))"
proof -
  have "distinct (insert_or_ignore id (room, n) ps)" if "distinct ps" for ps
    using that by (auto simp: insert_or_ignore_def list_ex_iff)
  then have "msgs_ok ns (insert_or_ignore id (room, n) ps) ts q" if "msgs_ok ns ps ts q" "n \<in> set ns" for ns ps ts q
    using that unfolding msgs_ok_def list_all_iff insert_or_ignore_set by auto
  then show ?thesis using assms by (auto simp: add_pointer_def ExecP_def Let_def store_ok_def keys_ok_def)
qed

lemma file_in_rooms_ok:
  "store_ok st \<Longrightarrow> n \<in> set (map ms_num (messages st)) \<Longrightarrow> store_ok (snd (file_in_rooms rs n st))"
  by (induction rs arbitrary: st) (auto simp: Let_def case_prod_beta add_pointer_ok raise_highest_ok)

lemma msgs_ok_new:
  assumes "msgs_ok ns ps ts n"
  shows "msgs_ok (ns @ [n]) ps ts (n + 1)"
  using assms by (fastforce simp: msgs_ok_def list_all_iff)

lemma insert_row_ok:
  assumes "store_ok (st\<lparr>msg_seq := n\<rparr>)" "msg_seq st = n + 1" "ms_num row = n"
  shows "store_ok (snd (insert_row row st))"
  using assms msgs_ok_new [of "map ms_num (messages st)" "room_msgs st" "tombstones st" n]
    msgs_ok_mono [of "map ms_num (messages st)" "room_msgs st" "tombstones st" n "n + 1"]
  by (auto simp: insert_row_def ExecP_def Let_def store_ok_def keys_ok_def)

lemma later_steps [simp]:
  "later st0 (st\<lparr>faults := fs\<rparr>) = later st0 st"
  "later st0 (rollback st1 st) = later st0 st"
  "later st0 (snd (ExecP Some st)) = later st0 st"
  "later st0 (snd (insert_row row st)) = later st0 st"
  "later st0 (snd (add_pointer r n st)) = later st0 st"
  "later st0 (raise_highest r n st) = later st0 st"
  by (simp_all add: later_def rollback_def insert_row_def add_pointer_def raise_highest_def ExecP_def Let_def split: option.splits)

lemma file_in_rooms_later [simp]: "later st0 (snd (file_in_rooms rs n st)) = later st0 st"
  by (induction rs arbitrary: st) (auto simp: Let_def case_prod_beta)

lemma msg_nextval_later: "later st0 st \<Longrightarrow> later st0 (snd (msg_nextval st))"
  by (cases rule: msg_nextval_cases [of st]) (simp_all add: later_def)

lemma file_message_later:
  assumes "later st0 st"
  shows "later st0 (snd (file_message date msg rs st1 st))"
proof -
  obtain v st2 where "msg_nextval st = (v, st2)" by fastforce
  with msg_nextval_later [OF assms] have "later st0 st2" and v: "msg_nextval st = (v, st2)" by auto
  then have "later st0 (snd (insert_row row st2))" "later st0 (snd (file_in_rooms rs n (snd (insert_row row st2))))"
    "later st0 (snd (ExecP Some (snd (file_in_rooms rs n (snd (insert_row row st2))))))" for row n
    by simp_all
  then show ?thesis using \<open>later st0 st2\<close>
    by (auto simp: file_message_def v case_prod_beta' case_bool_if split: option.splits)
qed

lemma InsertMessage_later: "store_ok st \<Longrightarrow> later st (snd (InsertMessage date msg rs st))"
proof -
  assume ok: "store_ok st"
  let ?stf = "st\<lparr>faults := tl (faults st)\<rparr>"
  have "later st (snd (quota_gate rs ?stf))"
    using quota_gate_ok [of ?stf st rs] ok by (simp add: kept.any_faults later_def)
  then have "later st (snd (case quota_gate rs ?stf of (Some who, s) \<Rightarrow> (Inl (e who), rollback ?stf s)
      | (None, s) \<Rightarrow> file_message date msg rs ?stf s))" for e :: "string \<Rightarrow> string"
    using file_message_later [of st "snd (quota_gate rs ?stf)" date msg rs ?stf]
    by (cases "quota_gate rs ?stf") (auto split: option.splits)
  then show ?thesis using ExecP_Some [of st]
    by (cases "ExecP Some st") (auto simp: InsertMessage_def later_def split: bool.splits)
qed

lemma InsertMessage_ok:
  assumes "store_ok st"
  shows "store_ok (snd (InsertMessage date msg rs st))"
proof -
  obtain res st' where run: "InsertMessage date msg rs st = (res, st')" by fastforce
  then have "store_ok st'"
  proof (cases rule: InsertMessage_cases)
    case (Filed st0 st1 fs)
    have "store_ok (st\<lparr>faults := tl (faults st)\<rparr>) \<and> later st (st\<lparr>faults := tl (faults st)\<rparr>)"
      using assms by (simp add: kept.any_faults later_def)
    then have "store_ok st0" using quota_gate_ok Filed(1) by blast
    moreover have "msg_seq st0 = msg_seq st" using Filed(1) by simp
    ultimately have "store_ok (st1\<lparr>msg_seq := msg_seq st\<rparr>)" using Filed(2) by (simp add: store_ok_def keys_ok_def)
    then have "store_ok (snd (insert_row (stored_row date st1 msg (msg_seq st)) st1))"
      using Filed(2) by (intro insert_row_ok) simp_all
    then show ?thesis
      using Filed(6) insert_row_messages [OF Filed(4)] by (simp add: kept.any_faults file_in_rooms_ok)
  next
    case (Failed e)
    have "later st st'" using InsertMessage_later [OF assms, of date msg rs] run by simp
    then show ?thesis by (subst Failed(2)) (rule rollback_ok [OF assms])
  qed
  then show ?thesis by (simp add: run)
qed

lemma msgs_ok_bury:
  assumes "msgs_ok ns ps ts (tb_seq t)"
  shows "msgs_ok ns ps (delete_where P ts @ [t]) (tb_seq t + 1)"
  using assms unique_key_delete [of tb_seq ts P]
  by (fastforce simp: msgs_ok_def list_all_iff delete_where_def unique_key_def)

lemma drop_pointer_ok: "store_ok st \<Longrightarrow> store_ok (snd (drop_pointer room n st))"
  unfolding drop_pointer_def
  by (erule kept.ExecP_pres) (auto simp: store_ok_def keys_ok_def msgs_ok_filters)

lemma bury_ok:
  assumes "store_ok (st\<lparr>msg_seq := sq\<rparr>)" "msg_seq st = sq + 1"
  shows "store_ok (bury room sq euid n now st)"
  using assms msgs_ok_bury [of "map ms_num (messages st)" "room_msgs st" "tombstones st"
      "\<lparr>tb_room = room, tb_seq = sq, tb_euid = euid, tb_num = n, tb_deleted_at = now\<rparr>"]
    msgs_ok_mono [of "map ms_num (messages st)" "room_msgs st" "tombstones st" sq "sq + 1"]
  by (auto simp: bury_def ExecP_def Let_def store_ok_def keys_ok_def)

lemma Unlink_ok:
  assumes "store_ok st"
  shows "store_ok (snd (Unlink now room n st))"
proof -
  let ?st1 = "snd (drop_pointer room n st)"
  have ok: "store_ok ?st1" using assms by (rule drop_pointer_ok)
  then have "store_ok (bury room (msg_seq ?st1) euid n now (?st1\<lparr>faults := fs, msg_seq := msg_seq ?st1 + 1\<rparr>))" for euid fs
    by (intro bury_ok) (simp_all add: store_ok_def keys_ok_def)
  then show ?thesis using ok
    by (cases rule: msg_nextval_cases [of ?st1]) (simp_all add: Unlink_def Let_def case_prod_beta kept.any_faults)
qed

lemma DeleteMessage_ok: "store_ok st \<Longrightarrow> store_ok (snd (DeleteMessage now room n st))"
  by (simp add: DeleteMessage_def Unlink_ok)

lemma in_room_exists: "store_ok st \<Longrightarrow> MessageInRoom st room n \<Longrightarrow> n \<in> set (map ms_num (messages st))"
  by (force simp: MessageInRoom_def store_ok_def msgs_ok_def list_all_iff)

lemma MoveMessage_ok: "store_ok st \<Longrightarrow> store_ok (snd (MoveMessage now a b n cp st))"
  using in_room_exists [of st a n]
  by (auto simp: MoveMessage_def Let_def case_prod_beta intro!: Unlink_ok raise_highest_ok add_pointer_ok)

lemma PruneTombstones_ok: "store_ok st \<Longrightarrow> store_ok (PruneTombstones now older st)"
  unfolding PruneTombstones_def
  by (auto intro!: kept.ExecP_pres) (auto simp: store_ok_def keys_ok_def msgs_ok_filters)

lemma PruneDavNames_ok: "store_ok st \<Longrightarrow> store_ok (PruneDavNames st)"
  unfolding PruneDavNames_def by (erule kept.ExecP_pres) (auto simp: store_ok_def keys_ok_def)

lemma RecordMessageId_ok: "store_ok st \<Longrightarrow> store_ok (RecordMessageId i n st)"
  unfolding RecordMessageId_def
  by (auto intro!: kept.ExecP_pres) (auto simp: store_ok_def keys_ok_def intro: config_table.unique_upsert)

lemma AddMsgFlag_ok: "store_ok st \<Longrightarrow> store_ok (AddMsgFlag n u f st)"
  unfolding AddMsgFlag_def by (auto intro!: kept.ExecP_pres) (auto simp: store_ok_def keys_ok_def)

lemma PostAideMessage_ok: "store_ok st \<Longrightarrow> store_ok (PostAideMessage date now s b st)"
  by (simp add: PostAideMessage_def InsertMessage_ok)

lemma UpsertByEuid_ok:
  assumes "store_ok st" "\<And>r e x s. store_ok s \<Longrightarrow> store_ok (snd (snd (rec r e x s)))"
  shows "store_ok (snd (UpsertByEuid rec date now msg room st))"
proof -
  have "store_ok (snd (case InsertMessage date msg [room] s of (Inl err, st) \<Rightarrow> (Inl err, st)
      | (Inr created, st) \<Rightarrow> (Inr created, if P created then snd (DeleteMessage now room old st) else st)))"
    if "store_ok s" for s P old
    using InsertMessage_ok [OF that, of date msg "[room]"] DeleteMessage_ok
    by (cases "InsertMessage date msg [room] s") (auto split: sum.splits)
  moreover have "store_ok (snd (case rec room (ms_euid msg) (ms_raw msg) st of
                      (Unchanged, _, st) \<Rightarrow> (Some ''no changes'', st)
                    | (RecordError, err, st) \<Rightarrow> (Some (if err = [] then ''the page history could not be written'' else err), st)
                    | (_, _, st) \<Rightarrow> (None, st)))"
    using assms(2) [OF assms(1), of room "ms_euid msg" "ms_raw msg"]
    by (cases "rec room (ms_euid msg) (ms_raw msg) st") (auto split: record_result.splits)
  ultimately show ?thesis using assms(1)
    by (simp add: UpsertByEuid_def Let_def case_prod_beta split: option.splits)
qed

interpretation quota_table: keyed_table ql_username set_limit
  by unfold_locales (simp add: set_limit_def)

lemma quota_EnsureSchema_ok: "store_ok st \<Longrightarrow> store_ok (quota_EnsureSchema st)"
  unfolding quota_EnsureSchema_def
  by (erule kept.ExecP_pres) (auto simp: store_ok_def keys_ok_def intro: unique_key_insert)

lemma SetQuota_ok: "store_ok st \<Longrightarrow> store_ok (snd (SetQuota now u l st))"
  unfolding SetQuota_def Let_def case_prod_beta
  by (auto intro!: kept.ExecP_pres) (auto simp: store_ok_def keys_ok_def intro: quota_table.unique_upsert)

section \<open>Synchronisation is complete\<close>

text \<open>A client's copy of a room is a set of message numbers; it replays the changes in order.\<close>

definition replay :: "room_change list \<Rightarrow> int set \<Rightarrow> int set" where
  "replay cs S = fold (\<lambda>c S. if rc_deleted c then S - {rc_num c} else insert (rc_num c) S) cs S"

lemma replay_sets:
  assumes "rc_num ` {c \<in> set cs. rc_deleted c} \<inter> rc_num ` {c \<in> set cs. \<not> rc_deleted c} = {}"
  shows "replay cs S = (S - rc_num ` {c \<in> set cs. rc_deleted c}) \<union> rc_num ` {c \<in> set cs. \<not> rc_deleted c}"
  using assms
proof (induction cs arbitrary: S)
  case (Cons c cs)
  have "rc_num ` {c \<in> set cs. rc_deleted c} \<inter> rc_num ` {c \<in> set cs. \<not> rc_deleted c} = {}"
    using Cons.prems by (auto simp: disjoint_iff)
  from Cons.IH [OF this] Cons.prems show ?case
    by (auto simp: replay_def)
qed (simp add: replay_def)

text \<open>The life of a store while no statement fails: messages are filed, removed, and moved or copied
  between rooms, but not into the room that is watched.\<close>

inductive room_run :: "int \<Rightarrow> store \<Rightarrow> store \<Rightarrow> bool" for room st0 where
  start: "room_run room st0 st0"
| filed: "room_run room st0 st \<Longrightarrow> room_run room st0 (snd (InsertMessage date msg rs st))"
| removed: "room_run room st0 st \<Longrightarrow> room_run room st0 (snd (DeleteMessage now r n st))"
| moved: "room_run room st0 st \<Longrightarrow> b \<noteq> room \<Longrightarrow> room_run room st0 (snd (MoveMessage now a b n cp st))"

definition synced :: "int \<Rightarrow> store \<Rightarrow> store \<Rightarrow> bool" where
  "synced room st0 st \<longleftrightarrow> store_ok st \<and> faults st = [] \<and> msg_seq st0 \<le> msg_seq st
     \<and> (\<forall>m. (room, m) \<in> set (room_msgs st) \<and> m < msg_seq st0 \<longrightarrow> (room, m) \<in> set (room_msgs st0))
     \<and> (\<forall>m. (room, m) \<in> set (room_msgs st0) \<and> (room, m) \<notin> set (room_msgs st) \<longrightarrow>
          (\<exists>t \<in> set (tombstones st). tb_room t = room \<and> tb_num t = m \<and> msg_seq st0 \<le> tb_seq t))
     \<and> (\<forall>t \<in> set (tombstones st). tb_room t = room \<and> msg_seq st0 \<le> tb_seq t \<longrightarrow>
          (room, tb_num t) \<notin> set (room_msgs st) \<and> tb_num t < msg_seq st)
     \<and> (\<forall>t \<in> set (tombstones st). tb_room t = room \<and> tb_seq t < msg_seq st0 \<longrightarrow> t \<in> set (tombstones st0))"

lemma no_faults_upd: "faults st = [] \<Longrightarrow> st\<lparr>faults := []\<rparr> = st"
  by (cases st) simp

lemma ExecP_no_faults: "faults st = [] \<Longrightarrow> ExecP f st = (case f st of None \<Rightarrow> (False, st) | Some s \<Rightarrow> (True, s))"
  by (simp add: ExecP_def no_faults_upd)

lemma Unlink_no_faults:
  assumes "faults st = []" "store_ok st"
  obtains t where "tb_room t = r" "tb_num t = n" "tb_seq t = msg_seq st"
    "set (tombstones (snd (Unlink now r n st))) = insert t (set (tombstones st))"
    "set (room_msgs (snd (Unlink now r n st))) = set (room_msgs st) - {(r, n)}"
    "msg_seq (snd (Unlink now r n st)) = msg_seq st + 1" "faults (snd (Unlink now r n st)) = []"
proof -
  define t where "t = \<lparr>tb_room = r, tb_seq = msg_seq st,
    tb_euid = (case lookup_key ms_num n (messages st) of None \<Rightarrow> [] | Some m \<Rightarrow> ms_euid m), tb_num = n, tb_deleted_at = now\<rparr>"
  have old: "set (delete_where (\<lambda>t. tb_room t = r \<and> tb_seq t = msg_seq st) (tombstones st)) = set (tombstones st)"
    using assms(2) by (auto simp: delete_where_def store_ok_def msgs_ok_def list_all_iff)
  have run: "snd (Unlink now r n st) = st\<lparr>room_msgs := delete_where (\<lambda>p. p = (r, n)) (room_msgs st),
      msg_seq := msg_seq st + 1, tombstones := delete_where (\<lambda>t. tb_room t = r \<and> tb_seq t = msg_seq st) (tombstones st) @ [t]\<rparr>"
    using assms(1) by (simp add: Unlink_def drop_pointer_def bury_def msg_nextval_def nextval_def ExecP_no_faults Let_def t_def)
  show ?thesis
    by (rule that [of t]) (simp_all add: run assms(1) old, simp_all add: t_def delete_where_def, auto)
qed

lemma synced_Unlink:
  assumes "synced room st0 st" "MessageInRoom st r n"
  shows "synced room st0 (snd (Unlink now r n st))"
proof -
  have ok: "store_ok st" "faults st = []" using assms(1) by (simp_all add: synced_def)
  have n: "n < msg_seq st" using in_room_exists [OF ok(1) assms(2)] ok(1) by (auto simp: store_ok_def msgs_ok_def list_all_iff)
  have ok': "store_ok (snd (Unlink now r n st))" by (rule Unlink_ok [OF ok(1)])
  obtain t where t: "tb_room t = r" "tb_num t = n" "tb_seq t = msg_seq st"
    and ts: "set (tombstones (snd (Unlink now r n st))) = insert t (set (tombstones st))"
    and ps: "set (room_msgs (snd (Unlink now r n st))) = set (room_msgs st) - {(r, n)}"
    and rest: "msg_seq (snd (Unlink now r n st)) = msg_seq st + 1" "faults (snd (Unlink now r n st)) = []"
    by (rule Unlink_no_faults [OF ok(2,1)])
  show ?thesis
    using assms(1) n t ok' unfolding synced_def ts ps rest by (auto 4 3)
qed

lemma assign_no_faults: "faults st = [] \<Longrightarrow> faults (snd (GetOrAssignUserNum u st)) = []"
  by (auto simp: GetOrAssignUserNum_def nextval_def ExecP_def Let_def split: option.splits)

lemma quota_gate_no_faults: "faults st = [] \<Longrightarrow> faults (snd (quota_gate rs st)) = []"
proof -
  have "faults (snd (check_owners os st)) = []" if "faults st = []" for os st
    using that
  proof (induction os arbitrary: st)
    case (Cons owner os)
    have "faults (snd (IsOver u st)) = []" for u
      using IsOver_snd [of u st] assign_no_faults [OF Cons.prems] Cons.prems by auto
    with Cons show ?case by (simp add: Let_def case_prod_beta)
  qed simp
  then show "faults st = [] \<Longrightarrow> faults (snd (quota_gate rs st)) = []" by (simp add: quota_gate_def)
qed

lemma file_in_rooms_no_faults: "faults st = [] \<Longrightarrow> faults (snd (file_in_rooms rs n st)) = [] \<and> fst (file_in_rooms rs n st)"
  by (induction rs arbitrary: st)
    (auto simp: Let_def case_prod_beta add_pointer_def raise_highest_def ExecP_no_faults)

lemma InsertMessage_no_faults: "faults st = [] \<Longrightarrow> faults (snd (InsertMessage date msg rs st)) = []"
proof -
  assume none: "faults st = []"
  then have gate: "faults (snd (quota_gate rs st)) = []" by (rule quota_gate_no_faults)
  have "faults (snd (file_message date msg rs st0 s)) = []" if "faults s = []" for s st0
  proof (cases rule: msg_nextval_cases [of s])
    case Given
    let ?s1 = "s\<lparr>faults := tl (faults s), msg_seq := msg_seq s + 1\<rparr>"
    let ?row = "stored_row date ?s1 msg (msg_seq s)"
    obtain ok2 s2 where ins: "insert_row ?row ?s1 = (ok2, s2)" by fastforce
    then have s2: "faults s2 = []" using that by (auto simp: insert_row_def ExecP_def Let_def split: if_splits)
    obtain ok3 s3 where files: "file_in_rooms rs (msg_seq s) s2 = (ok3, s3)" by fastforce
    with file_in_rooms_no_faults [OF s2, of rs "msg_seq s"] have "ok3" "faults s3 = []" by simp_all
    then show ?thesis using s2
      by (cases ok2) (simp_all add: file_message_def Given ins files rollback_def ExecP_no_faults)
  qed (simp add: file_message_def rollback_def that)
  with gate none show ?thesis
    by (cases "quota_gate rs st") (auto simp: InsertMessage_def ExecP_no_faults rollback_def split: option.splits)
qed

lemma synced_insert:
  assumes "synced room st0 st"
  shows "synced room st0 (snd (InsertMessage date msg rs st))"
proof -
  have ok: "store_ok st" "faults st = []" using assms by (simp_all add: synced_def)
  obtain res st' where run: "InsertMessage date msg rs st = (res, st')" by fastforce
  have ok': "store_ok st'" "faults st' = []" "later st st'"
    using InsertMessage_ok [OF ok(1), of date msg rs] InsertMessage_no_faults [OF ok(2), of date msg rs]
      InsertMessage_later [OF ok(1), of date msg rs] run by simp_all
  show ?thesis
  proof (cases res)
    case (Inl e)
    with run have "st' = rollback st st'" by (cases rule: InsertMessage_cases) simp_all
    then have "room_msgs st' = room_msgs (rollback st st')" "tombstones st' = tombstones (rollback st st')" by simp_all
    then have "room_msgs st' = room_msgs st" "tombstones st' = tombstones st" by (simp_all add: rollback_def)
    then show ?thesis using assms ok' by (auto simp: synced_def run later_def)
  next
    case (Inr n)
    have "n = msg_seq st" "msg_seq st' = msg_seq st + 1" "tombstones st' = tombstones st"
      "set (room_msgs st') = set (room_msgs st) \<union> (\<lambda>r. (r, n)) ` set rs"
      using InsertMessage_filed [OF run [unfolded Inr]] by simp_all
    then show ?thesis using assms ok' unfolding synced_def by (auto simp: run)
  qed
qed

lemma synced_other_room:
  assumes "synced room st0 st" "b \<noteq> room" "store_ok st'" "faults st' = []" "msg_seq st' = msg_seq st"
    "tombstones st' = tombstones st" "set (room_msgs st') = insert (b, n) (set (room_msgs st))"
  shows "synced room st0 st'"
  using assms unfolding synced_def by auto

lemma synced_move:
  assumes "synced room st0 st" "b \<noteq> room"
  shows "synced room st0 (snd (MoveMessage now a b n cp st))"
proof -
  have ok: "store_ok st" "faults st = []" using assms(1) by (simp_all add: synced_def)
  show ?thesis
  proof (cases "MessageInRoom st a n \<and> GetRoomByNum st b \<noteq> None \<and> a \<noteq> b")
    case True
    let ?s = "raise_highest b n (snd (add_pointer b n st))"
    have added: "fst (add_pointer b n st)" using ok(2) by (simp add: add_pointer_def ExecP_no_faults)
    have "store_ok ?s" using True in_room_exists [OF ok(1)] by (blast intro: raise_highest_ok add_pointer_ok ok(1))
    moreover have "faults ?s = []" using ok(2) by (simp add: raise_highest_def add_pointer_def ExecP_no_faults)
    ultimately have s: "synced room st0 ?s"
      using assms(2) added by (intro synced_other_room [OF assms(1)]) (simp_all add: add_pointer_set)
    moreover have "MessageInRoom ?s a n" using True added by (simp add: MessageInRoom_def add_pointer_set)
    ultimately have "synced room st0 (snd (Unlink now a n ?s))" by (rule synced_Unlink)
    with s True added show ?thesis by (auto simp: MoveMessage_def Let_def case_prod_beta)
  qed (use assms(1) in \<open>auto simp: MoveMessage_def\<close>)
qed

lemma room_run_synced:
  assumes "room_run room st0 st" "store_ok st0" "faults st0 = []"
  shows "synced room st0 st"
  using assms
proof (induction rule: room_run.induct)
  case start
  then show ?case by (auto simp: synced_def store_ok_def msgs_ok_def list_all_iff)
next
  case (removed st now r n)
  then show ?case by (auto simp: DeleteMessage_def intro: synced_Unlink)
qed (auto intro: synced_insert synced_move)

lemma max0_less: "(\<And>x. x \<in> set xs \<Longrightarrow> x < n) \<Longrightarrow> 0 < n \<Longrightarrow> max0 xs < n"
  by (auto simp: max0_def)

lemma max0_upper: "x \<in> set xs \<Longrightarrow> x \<le> max0 xs"
  by (auto simp: max0_def intro: Max_ge)

lemma changes_deleted:
  "rc_num ` {c \<in> set (RoomChangesSince st room since). rc_deleted c} = tb_num ` {t \<in> set (tombstones st). tb_room t = room \<and> since < tb_seq t}"
  by (force simp: RoomChangesSince_def)

lemma in_room_less: "store_ok st \<Longrightarrow> (room, m) \<in> set (room_msgs st) \<Longrightarrow> m < msg_seq st"
  using in_room_exists [of st room m] by (auto simp: MessageInRoom_def store_ok_def msgs_ok_def list_all_iff)

lemma in_room: "m \<in> set (msgs_of st room) \<longleftrightarrow> (room, m) \<in> set (room_msgs st)"
  by (force simp: msgs_of_def)

lemma changes_added:
  assumes "store_ok st"
  shows "rc_num ` {c \<in> set (RoomChangesSince st room since). \<not> rc_deleted c} = {m \<in> set (msgs_of st room). since < m}"
proof -
  have "rc_num ` {c \<in> set (RoomChangesSince st room since). \<not> rc_deleted c}
      = ms_num ` {m \<in> set (messages st). since < ms_num m \<and> (room, ms_num m) \<in> set (room_msgs st)}"
    by (force simp: RoomChangesSince_def)
  also have "\<dots> = {m \<in> set (msgs_of st room). since < m}"
    using in_room_exists [OF assms, of room] by (auto simp: in_room MessageInRoom_def)
  finally show ?thesis .
qed


definition demo_mail :: message where
  "demo_mail = \<lparr>ms_num = 0, ms_euid = [], ms_author = ''ann'', ms_author_usernum = 1, ms_recipient = [], ms_node = [],
     ms_time = 1000, ms_subject = [], ms_format = 4, ms_references = [], ms_origin_room = [], ms_raw = ''c''\<rparr>"

definition later_store :: store where
  "later_store = snd (DeleteMessage 9 0 1 (snd (InsertMessage (\<lambda>_. []) demo_mail [0] busy_store)))"

lemmas run_messages = InsertMessage_def file_message_def quota_gate_def room_owners_def msg_nextval_def insert_row_def
  add_pointer_def raise_highest_def stored_row_def insert_or_ignore_def Unlink_def DeleteMessage_def MessageInRoom_def
  drop_pointer_def bury_def delete_where_def GetRoomByNum_def store_GetConfig_def config_seeds_def MessageSize_def
  message.defs msg_row.defs busy_store_def demo_msg_def demo_mail_def run_store

lemma later_store_rooms: "room_msgs later_store = [(0, 2), (3, 2), (0, 3)]"
  by (simp add: later_store_def run_messages)



section \<open>Quota enforcement\<close>

definition user_limit :: "store \<Rightarrow> string \<Rightarrow> int" where
  "user_limit st u = (if ql_enabled (LimitFor st u) then ql_limit_bytes (LimitFor st u) else 0)"

definition owner_name :: "store \<Rightarrow> int \<Rightarrow> string" where
  "owner_name st n = (case find (\<lambda>r. cu_usernum r = n) (users st) of None \<Rightarrow> [] | Some r \<Rightarrow> cu_username r)"

definition at_limit :: "store \<Rightarrow> int \<Rightarrow> bool" where
  "at_limit st n \<longleftrightarrow> 0 < user_limit st (owner_name st n) \<and> user_limit st (owner_name st n) \<le> bytes_of st n"

definition real_owner :: "store \<Rightarrow> int \<Rightarrow> bool" where
  "real_owner st n \<longleftrightarrow> owner_name st n \<noteq> [] \<and> owner_name st n \<in> fst ` set (accounts st) \<and> known (owner_name st n) n st"

lemma IsOver_real:
  assumes "store_ok st" "real_owner st n"
  shows "IsOver (owner_name st n) st = (at_limit st n, st)"
proof -
  have "GetOrAssignUserNum (owner_name st n) st = (n, st)" "0 < n"
    using assms known_stable known_range by (auto simp: real_owner_def)
  then show ?thesis
    by (simp add: IsOver_def Usage_def Compute_def ComputeUsage_def at_limit_def user_limit_def Let_def)
qed

lemma check_owners_real:
  assumes "store_ok st" "list_all (real_owner st) os"
  shows "snd (check_owners os st) = st \<and> (fst (check_owners os st) = None) = list_all (\<lambda>n. \<not> at_limit st n) os"
  using assms(2)
proof (induction os)
  case (Cons n os)
  then have "real_owner st n" "owner_name st n \<noteq> []" by (auto simp: real_owner_def)
  with Cons IsOver_real [OF assms(1), of n] show ?case
    by (simp add: owner_name_def [symmetric] Let_def)
qed simp

lemma file_message_succeeds:
  assumes "store_ok st" "faults st = []"
  shows "\<exists>n st'. file_message date msg rs st0 st = (Inr n, st')"
proof (cases rule: msg_nextval_cases [of st])
  case Failed
  then show ?thesis using assms(2) by (simp add: msg_nextval_def nextval_def)
next
  case Given
  let ?s1 = "st\<lparr>faults := tl (faults st), msg_seq := msg_seq st + 1\<rparr>"
  let ?row = "stored_row date ?s1 msg (msg_seq st)"
  have "msg_seq st \<notin> set (map ms_num (messages st))"
    using assms(1) by (force simp: store_ok_def msgs_ok_def list_all_iff)
  then obtain s2 where ins: "insert_row ?row ?s1 = (True, s2)" and s2: "faults s2 = []"
    using assms(2) by (auto simp: insert_row_def ExecP_no_faults)
  obtain ok3 s3 where files: "file_in_rooms rs (msg_seq st) s2 = (ok3, s3)" by fastforce
  with file_in_rooms_no_faults [OF s2, of rs "msg_seq st"] have "ok3" "faults s3 = []" by simp_all
  then show ?thesis by (simp add: file_message_def Given ins files ExecP_no_faults)
qed

text \<open>The store enforces quotas: with enforcement on and no statement failing, a message is
  refused exactly when some owner of the rooms it goes to already keeps as many bytes as the limit
  allows or more. Sitting exactly on the limit is enough, so such a user cannot even replace an
  object, although the code means to allow that.\<close>

theorem InsertMessage_quota:
  assumes "store_ok st" "faults st = []" "store_GetConfig st ''qm_quota_enforce_store'' ''1'' = ''1''"
    and "list_all (real_owner st) (room_owners st rs)"
  shows "(\<exists>n st'. InsertMessage date msg rs st = (Inr n, st')) = list_all (\<lambda>n. \<not> at_limit st n) (room_owners st rs)"
proof -
  have "snd (quota_gate rs st) = st" "(fst (quota_gate rs st) = None) = list_all (\<lambda>n. \<not> at_limit st n) (room_owners st rs)"
    using check_owners_real [OF assms(1,4)] assms(3) by (simp_all add: quota_gate_def)
  moreover have "InsertMessage date msg rs st = (case quota_gate rs st of
      (Some who, s) \<Rightarrow> (Inl (''mailbox is over its storage quota: '' @ who), rollback st s) | (None, s) \<Rightarrow> file_message date msg rs st s)"
    using assms(2) by (simp add: InsertMessage_def ExecP_no_faults)
  ultimately show ?thesis
    using file_message_succeeds [OF assms(1,2), of date msg rs st]
    by (cases "quota_gate rs st") (auto split: option.splits)
qed

definition full_store :: store where
  "full_store = (snd (GetOrCreateUserRoom ''ann'' ''Mail'' demo_store))\<lparr>messages := [demo_msg 1 [] ''12345''],
     room_msgs := [(100, 1)], tombstones := [], msg_seq := 2, quotas := [(blank_limit [])\<lparr>ql_limit_bytes := 5\<rparr>]\<rparr>"

lemma full_store_ok: "store_ok full_store"
  using GetOrCreateUserRoom_ok [OF demo_store_ok, of "''ann''" "''Mail''"]
  by (simp add: full_store_def store_ok_def keys_ok_def msgs_ok_def unique_key_def demo_msg_def blank_limit_def)

lemma full_store_tables:
  "users full_store = [new_user ''ann'' 1]" "accounts full_store = [(''ann'', True), (''bob'', True)]" "faults full_store = []"
  "cfg full_store = config_seeds" "map (\<lambda>r. (rm_num r, rm_owner r)) (rooms full_store) = [(0, 0), (1, 0), (2, 0), (3, 0), (100, 1)]"
  "quotas full_store = [(blank_limit [])\<lparr>ql_limit_bytes := 5\<rparr>]"
  by (simp_all add: full_store_def GetOrCreateUserRoom_def CreateRoom_def IsReservedRoomName_def room_key_def MailboxRoomName_def
      digits_of.simps run_store)

lemma full_store_msgs: "messages full_store = [demo_msg 1 [] ''12345'']" "room_msgs full_store = [(100, 1)]"
  by (simp_all add: full_store_def)

theorem InsertMessage_quota_witness:
  "bytes_of full_store 1 = 5 \<and> user_limit full_store ''ann'' = 5
     \<and> \<not> (\<exists>n st'. InsertMessage (\<lambda>_. []) demo_mail [100] full_store = (Inr n, st'))"
proof -
  have "\<exists>r0 r1 r2 r3 r. rooms full_store = [r0, r1, r2, r3, r] \<and> rm_num r0 = 0 \<and> rm_num r1 = 1 \<and> rm_num r2 = 2 \<and> rm_num r3 = 3
      \<and> rm_num r = 100 \<and> rm_owner r = 1"
    using full_store_tables(5) by (auto simp: map_eq_Cons_conv)
  then have owners: "room_owners full_store [100] = [1]"
    and owned: "list_ex (\<lambda>r. rm_num r = 100 \<and> rm_owner r = 1) (rooms full_store)"
    by (auto simp: room_owners_def GetRoomByNum_def lookup_key_def)
  have bytes: "bytes_of full_store 1 = 5"
    using owned full_store_msgs by (simp add: bytes_of_def owned_msgs_def demo_msg_def)
  have limit: "user_limit full_store ''ann'' = 5"
    by (simp add: user_limit_def LimitFor_def full_store_tables blank_limit_def)
  have name: "owner_name full_store 1 = ''ann''" by (simp add: owner_name_def full_store_tables new_user_def)
  then have real: "real_owner full_store 1"
    by (simp add: real_owner_def full_store_tables known_def lookup_key_def new_user_def)
  have "at_limit full_store 1" by (simp add: at_limit_def name limit bytes)
  moreover have "store_GetConfig full_store ''qm_quota_enforce_store'' ''1'' = ''1''"
    by (simp add: store_GetConfig_def full_store_tables config_seeds_def)
  ultimately have "\<not> (\<exists>n st'. InsertMessage (\<lambda>_. []) demo_mail [100] full_store = (Inr n, st'))"
    using InsertMessage_quota [OF full_store_ok full_store_tables(3), of "[100]" "\<lambda>_. []" demo_mail] real by (simp add: owners)
  with bytes limit show ?thesis by simp
qed

lemma sorted_last:
  fixes f :: "'r \<Rightarrow> 'o :: linorder"
  assumes "r \<in> set rows" "list_all (\<lambda>q. f q \<le> f r) rows"
  shows "\<exists>q qs. rev (sort_key f rows) = q # qs \<and> q \<in> set rows \<and> f q = f r"
proof -
  obtain q qs where rev: "rev (sort_key f rows) = q # qs"
    using assms(1) by (metis empty_iff list.exhaust list.set(1) rev_is_Nil_conv set_sort)
  then have s: "sort_key f rows = rev qs @ [q]" by (metis rev.simps(2) rev_rev_ident)
  then have q: "q \<in> set rows" by (metis in_set_conv_decomp set_sort)
  have "r \<in> set (rev qs @ [q])" using assms(1) s by (metis set_sort)
  moreover have "sorted (map f (rev qs @ [q]))" using s by (metis sorted_sort_key)
  ultimately have "f r \<le> f q" by (auto simp: sorted_append)
  moreover have "f q \<le> f r" using q assms(2) by (simp add: list_all_iff)
  ultimately show ?thesis using rev q by auto
qed

text \<open>Setting a quota takes effect and is noticed: the user's limit is the number given, and the
  generation a client polls for that user strictly increases, also for several changes within one
  second of the clock.\<close>

theorem SetQuota_generation:
  assumes "store_ok st" "0 < now" "SetQuota now u limit st = (Inr (), st')"
  shows "user_limit st' u = limit \<and> LimitGeneration st u < LimitGeneration st' u"
proof -
  let ?gen = "next_generation now st"
  let ?row = "\<lparr>ql_username = u, ql_limit_bytes = limit, ql_enabled = True, ql_changed_at = ?gen\<rparr>"
  have q: "quotas st' = upsert ql_username set_limit ?row (quotas st)"
    using assms(3) by (auto simp: SetQuota_def ExecP_def Let_def next_generation_def split: if_splits)
  have uniq: "unique_key ql_username (quotas st')"
    unfolding q using assms(1) by (intro quota_table.unique_upsert) (simp add: store_ok_def keys_ok_def)
  have "lookup_key ql_username u (quotas st') \<noteq> None"
    by (simp add: q quota_table.lookup_upsert)
  then obtain r where r: "lookup_key ql_username u (quotas st') = Some r" by blast
  then have "r = (case lookup_key ql_username u (quotas st) of None \<Rightarrow> ?row | Some old \<Rightarrow> set_limit ?row old)"
    by (simp add: q quota_table.lookup_upsert)
  then have "ql_limit_bytes r = limit" "ql_enabled r" "ql_changed_at r = ?gen"
    by (simp_all add: set_limit_def split: option.splits)
  moreover have "r \<in> set (quotas st')" "ql_username r = u" using lookup_key_in [OF r] by simp_all
  ultimately have new: "r \<in> set (quotas st')" "ql_username r = u" "ql_limit_bytes r = limit" "ql_enabled r" "ql_changed_at r = ?gen"
    by blast+
  let ?sub = "\<lambda>st. filter (\<lambda>q. ql_username q = u \<or> ql_username q = []) (quotas st)"
  have "r \<in> set (?sub st')" "list_all (\<lambda>q. ql_username q \<le> ql_username r) (?sub st')"
    using new(1,2) by (auto simp: list_all_iff)
  from sorted_last [OF this] obtain x xs where "rev (sort_key ql_username (?sub st')) = x # xs" "x \<in> set (?sub st')" "ql_username x = ql_username r"
    by blast
  then have "LimitFor st' u = r"
    using unique_keyD [OF uniq, of x r] new(1) by (simp add: LimitFor_def)
  then have "user_limit st' u = limit" using new by (simp add: user_limit_def)
  moreover have "?gen \<le> LimitGeneration st' u"
    using max0_upper [of ?gen "map ql_changed_at (?sub st')"] new by (force simp: LimitGeneration_def)
  moreover have "LimitGeneration st u < ?gen"
  proof -
    have "max0 (map ql_changed_at (?sub st)) < ?gen"
      using max0_upper [of _ "map ql_changed_at (quotas st)"] assms(2)
      by (intro max0_less) (force simp: next_generation_def)+
    then show ?thesis by (simp add: LimitGeneration_def)
  qed
  ultimately show ?thesis by simp
qed

theorem SetQuota_generation_witness:
  "\<exists>st'. SetQuota 5 ''ann'' 700 full_store = (Inr (), st') \<and> user_limit st' ''ann'' = 700
     \<and> LimitGeneration full_store ''ann'' < LimitGeneration st' ''ann''"
proof -
  have "fst (SetQuota 5 ''ann'' 700 full_store) = Inr ()"
    by (simp add: SetQuota_def ExecP_no_faults full_store_tables)
  then show ?thesis
    using SetQuota_generation [OF full_store_ok, of 5 "''ann''" 700] by (cases "SetQuota 5 ''ann'' 700 full_store") simp
qed

end
