(* ===== verification/QM_Myers.thy ===== *)
theory QM_Myers
  imports QM_Prelude
begin

text \<open>
  The edit script search of \<^verbatim>\<open>src/core/src/diff.cpp\<close> (\<^verbatim>\<open>MyersScript\<close>): the O(ND) algorithm with its
  trace, over lines that are only ever compared. The array \<^verbatim>\<open>v\<close> is a function on diagonals: index
  \<^verbatim>\<open>off + k\<close> is diagonal \<open>k\<close>, and as \<^verbatim>\<open>off\<close> is \<^verbatim>\<open>max_d + 1\<close> every index read or written is in range.
  The theory shows that the script it finds turns one text into the other, that it is a shortest
  one, and that it reports failure only when every script is longer than the budget.
\<close>

section \<open>The algorithm\<close>

datatype edit = Keep nat | Del nat | Ins nat

text \<open>The run of equal lines after an edit.\<close>

function snake :: "'a list \<Rightarrow> 'a list \<Rightarrow> int \<Rightarrow> int \<Rightarrow> int" where
  "snake a b x y =
     (if x < int (length a) \<and> y < int (length b) \<and> a ! nat x = b ! nat y then snake a b (x + 1) (y + 1) else x)"
  by pat_completeness auto
termination by (relation "measure (\<lambda>(a, b, x, y). nat (int (length a) - x))") auto

declare snake.simps [simp del]

text \<open>Whether diagonal \<open>k\<close> is entered from the one above it, by an insertion.\<close>

definition comes_down :: "(int \<Rightarrow> int) \<Rightarrow> int \<Rightarrow> int \<Rightarrow> bool" where
  "comes_down v d k = (k = - d \<or> (k \<noteq> d \<and> v (k - 1) < v (k + 1)))"

definition step_x :: "(int \<Rightarrow> int) \<Rightarrow> int \<Rightarrow> int \<Rightarrow> int" where
  "step_x v d k = (if comes_down v d k then v (k + 1) else v (k - 1) + 1)"

function diag_loop :: "'a list \<Rightarrow> 'a list \<Rightarrow> int \<Rightarrow> int \<Rightarrow> (int \<Rightarrow> int) \<Rightarrow> bool \<times> (int \<Rightarrow> int)" where
  "diag_loop a b d k v =
     (if k > d then (False, v)
      else
       (let x0 = step_x v d k; x = snake a b x0 (x0 - k); v = v(k := x) in
        if x \<ge> int (length a) \<and> x - k \<ge> int (length b) then (True, v) else diag_loop a b d (k + 2) v))"
  by pat_completeness auto
termination by (relation "measure (\<lambda>(a, b, d, k, v). nat (d - k + 1))") auto

function search :: "'a list \<Rightarrow> 'a list \<Rightarrow> nat \<Rightarrow> nat \<Rightarrow> (int \<Rightarrow> int) \<Rightarrow> (int \<Rightarrow> int) list \<Rightarrow> (nat \<times> (int \<Rightarrow> int) list) option" where
  "search a b max_d d v trace =
     (if d > max_d then None
      else
       (let trace = trace @ [v]; (found, v) = diag_loop a b (int d) (- int d) v in
        if found then Some (d, trace) else search a b max_d (d + 1) v trace))"
  by pat_completeness auto
termination by (relation "measure (\<lambda>(a, b, max_d, d, v, trace). max_d + 1 - d)") auto

declare diag_loop.simps [simp del] search.simps [simp del]

text \<open>The walk back. The script is collected in reverse and turned round at the end.\<close>

function keeps_back :: "int \<Rightarrow> int \<Rightarrow> int \<Rightarrow> int \<Rightarrow> edit list \<Rightarrow> int \<times> int \<times> edit list" where
  "keeps_back px py x y acc =
     (if x > px \<and> y > py then keeps_back px py (x - 1) (y - 1) (acc @ [Keep (nat (x - 1))]) else (x, y, acc))"
  by pat_completeness auto
termination by (relation "measure (\<lambda>(px, py, x, y, rev). nat (x - px))") auto

declare keeps_back.simps [simp del]

fun walk_back :: "(int \<Rightarrow> int) list \<Rightarrow> nat \<Rightarrow> int \<Rightarrow> int \<Rightarrow> edit list \<Rightarrow> edit list" where
  "walk_back trace 0 x y acc = snd (snd (keeps_back 0 0 x y acc))"
| "walk_back trace (Suc d) x y acc =
     (let vp = trace ! Suc d;
          k = x - y;
          prev_k = (if comes_down vp (int (Suc d)) k then k + 1 else k - 1);
          prev_x = vp prev_k;
          prev_y = prev_x - prev_k;
          (x, y, acc) = keeps_back prev_x prev_y x y acc;
          acc = (if prev_k = k + 1 then acc @ [Ins (nat (y - 1))] else acc @ [Del (nat (x - 1))])
      in walk_back trace d prev_x prev_y acc)"

definition MyersScript :: "'a list \<Rightarrow> 'a list \<Rightarrow> nat \<Rightarrow> edit list option" where
  "MyersScript a b budget =
     (case search a b (min budget (length a + length b)) 0 (\<lambda>_. 0) [] of
        None \<Rightarrow> None
      | Some (d, trace) \<Rightarrow> Some (rev (walk_back trace d (int (length a)) (int (length b)) [])))"

section \<open>Edit scripts\<close>

text \<open>\<open>edits a b x y s\<close>: the script \<open>s\<close> turns the rest of \<open>a\<close> from \<open>x\<close> into the rest of \<open>b\<close> from \<open>y\<close>.\<close>

fun edits :: "'a list \<Rightarrow> 'a list \<Rightarrow> nat \<Rightarrow> nat \<Rightarrow> edit list \<Rightarrow> bool" where
  "edits a b x y [] = (x = length a \<and> y = length b)"
| "edits a b x y (Keep i # s) = (i = x \<and> x < length a \<and> y < length b \<and> a ! x = b ! y \<and> edits a b (x + 1) (y + 1) s)"
| "edits a b x y (Del i # s) = (i = x \<and> x < length a \<and> edits a b (x + 1) y s)"
| "edits a b x y (Ins j # s) = (j = y \<and> y < length b \<and> edits a b x (y + 1) s)"

definition is_keep :: "edit \<Rightarrow> bool" where
  "is_keep e = (case e of Keep _ \<Rightarrow> True | _ \<Rightarrow> False)"

lemma is_keep_simps [simp]: "is_keep (Keep i)" "\<not> is_keep (Del i)" "\<not> is_keep (Ins i)"
  by (simp_all add: is_keep_def)

definition cost :: "edit list \<Rightarrow> nat" where
  "cost s = length (filter (\<lambda>e. \<not> is_keep e) s)"

lemma cost_simps [simp]: "cost [] = 0" "cost (e # s) = (if is_keep e then cost s else Suc (cost s))" "cost (s @ t) = cost s + cost t"
  "cost (rev s) = cost s"
  by (simp_all add: cost_def flip: rev_filter)

section \<open>The frontier\<close>

text \<open>\<open>front a b d k\<close> is what the search holds for diagonal \<open>k\<close> after round \<open>d\<close>.\<close>

fun front :: "'a list \<Rightarrow> 'a list \<Rightarrow> nat \<Rightarrow> int \<Rightarrow> int" where
  "front a b 0 k = snake a b 0 0"
| "front a b (Suc d) k = (let x0 = step_x (front a b d) (int (Suc d)) k in snake a b x0 (x0 - k))"

definition on_front :: "nat \<Rightarrow> int \<Rightarrow> bool" where
  "on_front d k = (\<bar>k\<bar> \<le> int d \<and> even (k - int d))"

text \<open>\<open>done_at a b d k\<close> is the test that ends the search.\<close>

definition done_at :: "'a list \<Rightarrow> 'a list \<Rightarrow> nat \<Rightarrow> int \<Rightarrow> bool" where
  "done_at a b d k = (front a b d k \<ge> int (length a) \<and> front a b d k - k \<ge> int (length b))"

lemma on_front_0 [simp]: "on_front 0 k \<longleftrightarrow> k = 0"
  by (auto simp: on_front_def)

lemma on_front_Suc_down: "on_front (Suc d) k \<Longrightarrow> comes_down v (int (Suc d)) k \<Longrightarrow> on_front d (k + 1)"
  by (auto simp: on_front_def comes_down_def) presburger+

lemma on_front_Suc_right: "on_front (Suc d) k \<Longrightarrow> \<not> comes_down v (int (Suc d)) k \<Longrightarrow> on_front d (k - 1)"
  by (auto simp: on_front_def comes_down_def) presburger+

lemma on_front_moves: "on_front d k \<Longrightarrow> on_front (Suc d) (k + 1)" "on_front d k \<Longrightarrow> on_front (Suc d) (k - 1)"
  by (auto simp: on_front_def)

section \<open>What a snake does\<close>

lemma snake_ge: "x \<le> snake a b x y"
proof (induction a b x y rule: snake.induct)
  case (1 a b x y)
  then show ?case by (subst snake.simps) auto
qed

lemma snake_out: "int (length a) \<le> x \<or> int (length b) \<le> y \<Longrightarrow> snake a b x y = x"
  by (subst snake.simps) auto

lemma snake_le: "x \<le> int (length a) \<Longrightarrow> y \<le> int (length b) \<Longrightarrow> snake a b x y \<le> int (length a) \<and> snake a b x y - x + y \<le> int (length b)"
proof (induction a b x y rule: snake.induct)
  case (1 a b x y)
  then show ?case by (subst (1 2) snake.simps) auto
qed

lemma snake_equal:
  "x \<le> i \<Longrightarrow> i < snake a b x y \<Longrightarrow> i < int (length a) \<and> i - x + y < int (length b) \<and> a ! nat i = b ! nat (i - x + y)"
proof (induction a b x y arbitrary: i rule: snake.induct)
  case (1 a b x y)
  show ?case
  proof (cases "i = x")
    case True
    then show ?thesis using 1(3) by (subst (asm) snake.simps) (auto split: if_splits)
  next
    case False
    then have "x < int (length a) \<and> y < int (length b) \<and> a ! nat x = b ! nat y" "i < snake a b (x + 1) (y + 1)"
      using 1(2,3) by (subst (asm) snake.simps; auto split: if_splits)+
    with 1(1) [of i] False 1(2) show ?thesis by (simp add: algebra_simps)
  qed
qed

lemma snake_stuck:
  "\<not> (snake a b x y < int (length a) \<and> snake a b x y - x + y < int (length b) \<and> a ! nat (snake a b x y) = b ! nat (snake a b x y - x + y))"
proof (induction a b x y rule: snake.induct)
  case (1 a b x y)
  show ?case
  proof (cases "x < int (length a) \<and> y < int (length b) \<and> a ! nat x = b ! nat y")
    case True
    then have "snake a b x y = snake a b (x + 1) (y + 1)" by (subst snake.simps) simp
    with 1 [OF True] show ?thesis by (simp add: algebra_simps)
  next
    case False
    then have "snake a b x y = x" by (subst snake.simps) (simp only: if_False)
    with False show ?thesis by simp
  qed
qed

section \<open>How the frontier moves\<close>

lemma front_Suc: "front a b (Suc d) k = snake a b (step_x (front a b d) (int (Suc d)) k) (step_x (front a b d) (int (Suc d)) k - k)"
  by (simp add: Let_def)

declare front.simps(2) [simp del]

lemma front_moves:
  assumes "on_front d k"
  shows "front a b d k + 1 \<le> front a b (Suc d) (k + 1)" and "front a b d k \<le> front a b (Suc d) (k - 1)"
proof -
  have "front a b d k + 1 \<le> step_x (front a b d) (int (Suc d)) (k + 1)" "front a b d k \<le> step_x (front a b d) (int (Suc d)) (k - 1)"
    using assms by (auto simp: step_x_def comes_down_def on_front_def)
  then show "front a b d k + 1 \<le> front a b (Suc d) (k + 1)" "front a b d k \<le> front a b (Suc d) (k - 1)"
    unfolding front_Suc using snake_ge order_trans by blast+
qed

lemma front_step:
  obtains (down) "comes_down (front a b d) (int (Suc d)) k" "step_x (front a b d) (int (Suc d)) k = front a b d (k + 1)"
  | (right) "\<not> comes_down (front a b d) (int (Suc d)) k" "step_x (front a b d) (int (Suc d)) k = front a b d (k - 1) + 1"
  by (cases "comes_down (front a b d) (int (Suc d)) k") (simp_all add: step_x_def)

lemma front_bounds: "on_front d k \<Longrightarrow> 0 \<le> front a b d k \<and> k \<le> front a b d k"
proof (induction d arbitrary: k)
  case 0
  then show ?case using snake_ge [of 0 a b 0] by simp
next
  case (Suc d)
  have "0 \<le> step_x (front a b d) (int (Suc d)) k \<and> k \<le> step_x (front a b d) (int (Suc d)) k"
  proof (cases rule: front_step [of a b d k])
    case down
    with Suc.IH [OF on_front_Suc_down [OF Suc.prems down(1)]] show ?thesis by auto
  next
    case right
    with Suc.IH [OF on_front_Suc_right [OF Suc.prems right(1)]] show ?thesis by auto
  qed
  then show ?case unfolding front_Suc using snake_ge order_trans by blast
qed

text \<open>A point beyond the end of \<open>a\<close> (or of \<open>b\<close>) casts a shadow on the round before.\<close>

lemma shadow_right:
  "on_front d k \<Longrightarrow> int (length a) < front a b d k \<Longrightarrow>
   \<exists>d'. d = Suc d' \<and> on_front d' (k - 1) \<and> front a b d k - 1 \<le> front a b d' (k - 1)"
proof (induction d arbitrary: k)
  case 0
  then show ?case using snake_le [of 0 a 0 b] by simp
next
  case (Suc d)
  let ?x0 = "step_x (front a b d) (int (Suc d)) k"
  have same: "front a b (Suc d) k = ?x0"
    using Suc.prems(2) snake_equal [of ?x0 "front a b (Suc d) k - 1" a b "?x0 - k"] snake_ge [of ?x0 a b "?x0 - k"]
    unfolding front_Suc by force
  show ?case
  proof (cases rule: front_step [of a b d k])
    case down
    have on: "on_front d (k + 1)" by (rule on_front_Suc_down [OF Suc.prems(1) down(1)])
    from Suc.IH [OF this] down(2) same Suc.prems(2)
    obtain d' where "d = Suc d'" "on_front d' k" "?x0 - 1 \<le> front a b d' k" by auto
    with front_moves(2) [of d' k a b] on_front_moves(2) [of d' k] same show ?thesis by auto
  next
    case right
    with on_front_Suc_right [OF Suc.prems(1) right(1)] same show ?thesis by auto
  qed
qed

lemma shadow_down:
  "on_front d k \<Longrightarrow> int (length b) < front a b d k - k \<Longrightarrow>
   \<exists>d'. d = Suc d' \<and> on_front d' (k + 1) \<and> front a b d k \<le> front a b d' (k + 1)"
proof (induction d arbitrary: k)
  case 0
  then show ?case using snake_le [of 0 a 0 b] by simp
next
  case (Suc d)
  let ?x0 = "step_x (front a b d) (int (Suc d)) k"
  have same: "front a b (Suc d) k = ?x0"
    using Suc.prems(2) snake_equal [of ?x0 "front a b (Suc d) k - 1" a b "?x0 - k"] snake_ge [of ?x0 a b "?x0 - k"]
    unfolding front_Suc by force
  show ?case
  proof (cases rule: front_step [of a b d k])
    case down
    with on_front_Suc_down [OF Suc.prems(1) down(1)] same show ?thesis by auto
  next
    case right
    have on: "on_front d (k - 1)" by (rule on_front_Suc_right [OF Suc.prems(1) right(1)])
    from Suc.IH [OF this] right(2) same Suc.prems(2)
    obtain d' where "d = Suc d'" "on_front d' k" "?x0 - 1 \<le> front a b d' k" by auto
    with front_moves(1) [of d' k a b] on_front_moves(1) [of d' k] same show ?thesis by auto
  qed
qed

lemma done_exact:
  assumes "on_front d k" "done_at a b d k" and "\<And>d' j. d' < d \<Longrightarrow> on_front d' j \<Longrightarrow> \<not> done_at a b d' j"
  shows "front a b d k = int (length a) \<and> k = int (length a) - int (length b)"
proof -
  have "\<not> int (length a) < front a b d k"
  proof
    assume "int (length a) < front a b d k"
    from shadow_right [OF assms(1) this]
    obtain d' where "d' < d" "on_front d' (k - 1)" "front a b d k - 1 \<le> front a b d' (k - 1)" by blast
    with assms(2,3) \<open>int (length a) < front a b d k\<close> show False by (force simp: done_at_def)
  qed
  moreover have "\<not> int (length b) < front a b d k - k"
  proof
    assume "int (length b) < front a b d k - k"
    from shadow_down [OF assms(1) this]
    obtain d' where "d' < d" "on_front d' (k + 1)" "front a b d k \<le> front a b d' (k + 1)" by blast
    with assms(2,3) \<open>int (length b) < front a b d k - k\<close> show False by (force simp: done_at_def)
  qed
  ultimately show ?thesis using assms(2) by (auto simp: done_at_def)
qed

section \<open>The search computes the frontier\<close>

text \<open>\<open>entry a b d v\<close>: the array holds what round \<open>d\<close> reads.\<close>

fun entry :: "'a list \<Rightarrow> 'a list \<Rightarrow> nat \<Rightarrow> (int \<Rightarrow> int) \<Rightarrow> bool" where
  "entry a b 0 v = (v 1 = 0)"
| "entry a b (Suc d) v = (\<forall>j. on_front d j \<longrightarrow> v j = front a b d j)"

lemma entry_cong: "on_front d k \<Longrightarrow> entry a b d v \<Longrightarrow> entry a b d (v(k := x))"
  by (cases d) (auto simp: on_front_def)

lemma entry_comes_down:
  assumes "entry a b (Suc d) v" "on_front (Suc d) k"
  shows "comes_down v (int (Suc d)) k = comes_down (front a b d) (int (Suc d)) k"
proof (cases "\<bar>k\<bar> = int (Suc d)")
  case False
  then have "\<bar>k\<bar> < int (Suc d)" using assms(2) by (simp add: on_front_def)
  moreover have "k \<noteq> int d" "k \<noteq> - int d" using assms(2) by (auto simp: on_front_def)
  ultimately have "\<bar>k + 1\<bar> \<le> int d" "\<bar>k - 1\<bar> \<le> int d" by linarith+
  then have "on_front d (k + 1)" "on_front d (k - 1)" using assms(2) by (auto simp: on_front_def)
  with assms(1) show ?thesis by (simp add: comes_down_def)
qed (auto simp: comes_down_def)

lemma entry_step:
  assumes "entry a b d v" "on_front d k"
  shows "snake a b (step_x v (int d) k) (step_x v (int d) k - k) = front a b d k"
proof (cases d)
  case 0
  with assms show ?thesis by (simp add: step_x_def comes_down_def)
next
  case (Suc d')
  have "step_x v (int d) k = step_x (front a b d') (int d) k"
    using assms Suc entry_comes_down [of a b d' v k] on_front_Suc_down [of d' k] on_front_Suc_right [of d' k]
    by (simp add: step_x_def)
  then show ?thesis using Suc by (simp only: front_Suc)
qed

lemma diag_loop_spec:
  assumes "entry a b d v" "even (k - int d)" "- int d \<le> k" "\<And>j. on_front d j \<Longrightarrow> j < k \<Longrightarrow> v j = front a b d j \<and> \<not> done_at a b d j"
    and "diag_loop a b (int d) k v = (found, v')"
  shows "if found then \<exists>j. on_front d j \<and> done_at a b d j else entry a b (Suc d) v' \<and> (\<forall>j. on_front d j \<longrightarrow> \<not> done_at a b d j)"
  using assms
proof (induction a b "int d" k v arbitrary: found v' rule: diag_loop.induct)
  case (1 a b k v)
  show ?case
  proof (cases "int d < k")
    case True
    then have "found = False" "v' = v" using 1(6) by (subst (asm) diag_loop.simps; simp)+
    with True 1(5) show ?thesis by (auto simp: on_front_def)
  next
    case False
    have on: "on_front d k" using False 1(3,4) by (auto simp: on_front_def)
    let ?v = "v(k := front a b d k)"
    have step: "snake a b (step_x v (int d) k) (step_x v (int d) k - k) = front a b d k"
      using entry_step [OF 1(2) on] .
    show ?thesis
    proof (cases "done_at a b d k")
      case True
      then have "found" using 1(6) False by (subst (asm) diag_loop.simps) (simp add: Let_def step done_at_def)
      with True on show ?thesis by auto
    next
      case not_done: False
      then have rest: "diag_loop a b (int d) (k + 2) ?v = (found, v')"
        using 1(6) False by (subst (asm) diag_loop.simps) (auto simp: Let_def step done_at_def)
      have prev: "?v j = front a b d j \<and> \<not> done_at a b d j" if "on_front d j" "j < k + 2" for j
      proof (cases "j = k")
        case False
        moreover have "j \<noteq> k + 1" using that(1) on by (auto simp: on_front_def)
        ultimately show ?thesis using 1(5) [of j] that by auto
      qed (simp add: not_done)
      show ?thesis
      proof (rule 1(1) [OF False refl refl refl, unfolded step, OF _ _ _ _ prev rest])
        show "\<not> (int (length a) \<le> front a b d k \<and> int (length b) \<le> front a b d k - k)"
          using not_done by (simp add: done_at_def)
      qed (use 1(2-4) on in \<open>auto simp: entry_cong\<close>)
    qed
  qed
qed

lemma search_spec:
  assumes "entry a b d v" "length tr = d" "\<And>i. i < d \<Longrightarrow> entry a b i (tr ! i)"
    and "\<And>i j. i < d \<Longrightarrow> on_front i j \<Longrightarrow> \<not> done_at a b i j"
  shows "case search a b max_d d v tr of
      None \<Rightarrow> (\<forall>i j. i \<le> max_d \<longrightarrow> on_front i j \<longrightarrow> \<not> done_at a b i j)
    | Some (D, tr') \<Rightarrow> D \<le> max_d \<and> (\<forall>i \<le> D. entry a b i (tr' ! i)) \<and> (\<exists>j. on_front D j \<and> done_at a b D j)
        \<and> (\<forall>i j. i < D \<longrightarrow> on_front i j \<longrightarrow> \<not> done_at a b i j)"
  using assms
proof (induction a b max_d d v tr rule: search.induct)
  case (1 a b max_d d v tr)
  show ?case
  proof (cases "d > max_d")
    case True
    then have "search a b max_d d v tr = None" by (subst search.simps) simp
    with True 1(5) show ?thesis by auto
  next
    case False
    obtain found v' where loop: "diag_loop a b (int d) (- int d) v = (found, v')" by fastforce
    have spec: "if found then \<exists>j. on_front d j \<and> done_at a b d j
        else entry a b (Suc d) v' \<and> (\<forall>j. on_front d j \<longrightarrow> \<not> done_at a b d j)"
      by (rule diag_loop_spec [OF 1(2) _ _ _ loop]) (auto simp: on_front_def)
    have tr: "entry a b i ((tr @ [v]) ! i)" if "i \<le> d" for i
      using that 1(2,3,4) by (cases "i = d") (auto simp: nth_append)
    show ?thesis
    proof (cases found)
      case True
      then have "search a b max_d d v tr = Some (d, tr @ [v])" using False loop by (subst search.simps) simp
      with True spec 1(5) False tr show ?thesis by simp
    next
      case not_found: False
      then have "search a b max_d d v tr = search a b max_d (d + 1) v' (tr @ [v])"
        using False loop by (subst search.simps) simp
      moreover have "\<not> done_at a b i j" if "i < d + 1" "on_front i j" for i j
        using that 1(5) spec not_found by (cases "i = d") auto
      ultimately show ?thesis
        using 1(1) [OF False refl loop [symmetric] _ not_found] spec not_found 1(3) tr by simp
    qed
  qed
qed

section \<open>The walk back gives a script\<close>

lemma keeps_back_spec:
  assumes "px \<le> x0" "py \<le> y0" "x0 = px \<or> y0 = py" "0 \<le> x0" "0 \<le> y0" "x0 \<le> x" "y = y0 + (x - x0)"
    and "\<And>i. x0 \<le> i \<Longrightarrow> i < x \<Longrightarrow> i < int (length a) \<and> y0 + (i - x0) < int (length b) \<and> a ! nat i = b ! nat (y0 + (i - x0))"
    and "edits a b (nat x) (nat y) (rev acc)"
  shows "\<exists>acc'. keeps_back px py x y acc = (x0, y0, acc') \<and> edits a b (nat x0) (nat y0) (rev acc') \<and> cost acc' = cost acc"
  using assms
proof (induction px py x y acc rule: keeps_back.induct)
  case (1 px py x y acc)
  show ?case
  proof (cases "x = x0")
    case True
    then show ?thesis using 1(4,8,10) by (subst keeps_back.simps) auto
  next
    case False
    then have lt: "px < x \<and> py < y" "x0 \<le> x - 1" using 1(2,3,7,8) by auto
    have "y0 + (x - 1 - x0) = y - 1" using 1(8) by simp
    with 1(9) [of "x - 1"] lt have eq: "x - 1 < int (length a) \<and> y - 1 < int (length b) \<and> a ! nat (x - 1) = b ! nat (y - 1)"
      by simp
    have suc: "nat (x - 1) + 1 = nat x" "nat (y - 1) + 1 = nat y" using lt 1(5,6,8) by auto
    have "edits a b (nat (x - 1)) (nat (y - 1)) (rev (acc @ [Keep (nat (x - 1))]))"
      using eq 1(10) lt 1(5,6,8) suc by (auto simp: nat_less_iff)
    from 1(1) [OF lt(1) 1(2-6) lt(2) _ _ this] 1(8,9)
    obtain acc' where "keeps_back px py (x - 1) (y - 1) (acc @ [Keep (nat (x - 1))]) = (x0, y0, acc')"
      "edits a b (nat x0) (nat y0) (rev acc')" "cost acc' = cost acc" by auto
    with lt(1) show ?thesis by (subst keeps_back.simps) auto
  qed
qed

lemma walk_back_spec:
  assumes "\<And>i. i \<le> d \<Longrightarrow> entry a b i (tr ! i)" "on_front d k" "x = front a b d k" "y = x - k"
    and "x \<le> int (length a)" "y \<le> int (length b)" "edits a b (nat x) (nat y) (rev acc)"
  shows "edits a b 0 0 (rev (walk_back tr d x y acc)) \<and> cost (walk_back tr d x y acc) = cost acc + d"
  using assms
proof (induction d arbitrary: k x y acc)
  case 0
  have "\<exists>acc'. keeps_back 0 0 x y acc = (0, 0, acc') \<and> edits a b (nat 0) (nat 0) (rev acc') \<and> cost acc' = cost acc"
    by (rule keeps_back_spec) (use 0 snake_equal [of 0 _ a b 0] snake_ge [of 0 a b 0] in auto)
  then show ?case by auto
next
  case (Suc d)
  let ?vp = "tr ! Suc d"
  let ?x0 = "step_x (front a b d) (int (Suc d)) k"
  let ?prev_k = "if comes_down ?vp (int (Suc d)) k then k + 1 else k - 1"
  have ent: "entry a b (Suc d) ?vp" using Suc.prems(1) by blast
  note dir = entry_comes_down [OF ent Suc.prems(2)]
  have on: "on_front d ?prev_k"
    using on_front_Suc_down [OF Suc.prems(2)] on_front_Suc_right [OF Suc.prems(2)] by auto
  then have prev_x: "?vp ?prev_k = front a b d ?prev_k" using ent by simp
  note bnd = front_bounds [OF on, of a b]
  have x0: "?x0 = (if comes_down ?vp (int (Suc d)) k then front a b d ?prev_k else front a b d ?prev_k + 1)"
    unfolding step_x_def dir by simp
  have x: "x = snake a b ?x0 (?x0 - k)" using Suc.prems(3) by (simp only: front_Suc)
  have le: "?x0 \<le> x" using x snake_ge by metis
  have "\<exists>acc'. keeps_back (front a b d ?prev_k) (front a b d ?prev_k - ?prev_k) x y acc = (?x0, ?x0 - k, acc')
      \<and> edits a b (nat ?x0) (nat (?x0 - k)) (rev acc') \<and> cost acc' = cost acc"
    by (rule keeps_back_spec)
      (use x0 bnd le Suc.prems(4,7) snake_equal [of ?x0 _ a b "?x0 - k"] x in \<open>auto simp: algebra_simps\<close>)
  then obtain acc' where keeps: "keeps_back (front a b d ?prev_k) (front a b d ?prev_k - ?prev_k) x y acc = (?x0, ?x0 - k, acc')"
    and acc': "edits a b (nat ?x0) (nat (?x0 - k)) (rev acc')" "cost acc' = cost acc" by blast
  let ?e = "if comes_down ?vp (int (Suc d)) k then Ins (nat (?x0 - k - 1)) else Del (nat (?x0 - 1))"
  have walk: "walk_back tr (Suc d) x y acc
      = walk_back tr d (front a b d ?prev_k) (front a b d ?prev_k - ?prev_k) (acc' @ [?e])"
    using keeps Suc.prems(4) prev_x by (simp add: Let_def)
  have "nat (?x0 - k - 1) + 1 = nat (?x0 - k) \<and> nat (?x0 - k - 1) < length b \<and> nat (?x0 - k - 1) = nat (front a b d ?prev_k - ?prev_k)
      \<and> ?x0 = front a b d ?prev_k" if "comes_down ?vp (int (Suc d)) k"
    using that x0 bnd le Suc.prems(4,6) by auto
  moreover have "nat (?x0 - 1) + 1 = nat ?x0 \<and> nat (?x0 - 1) < length a \<and> nat (?x0 - 1) = nat (front a b d ?prev_k)
      \<and> ?x0 - k = front a b d ?prev_k - ?prev_k" if "\<not> comes_down ?vp (int (Suc d)) k"
    using that x0 bnd le Suc.prems(5) by auto
  ultimately have "edits a b (nat (front a b d ?prev_k)) (nat (front a b d ?prev_k - ?prev_k)) (rev (acc' @ [?e]))"
    using acc'(1) by (cases "comes_down ?vp (int (Suc d)) k") (auto simp: algebra_simps simp del: of_nat_Suc)
  with Suc.IH [OF _ on refl refl _ _ this] Suc.prems(1,4,5,6) le x0 acc'(2)
  show ?case unfolding walk by (auto split: if_splits)
qed

section \<open>The script is a shortest one\<close>

lemma front_stuck:
  assumes "on_front d k" "front a b d k < int (length a)" "front a b d k - k < int (length b)"
  shows "a ! nat (front a b d k) \<noteq> b ! nat (front a b d k - k)"
proof (cases d)
  case 0
  then show ?thesis using assms snake_stuck [of a b 0 0] by simp
next
  case (Suc d')
  have "step_x (front a b d') (int (Suc d')) k - k = step_x (front a b d') (int (Suc d')) k - k" ..
  with assms(2,3) snake_stuck [of a b "step_x (front a b d') (int (Suc d')) k" "step_x (front a b d') (int (Suc d')) k - k"]
  show ?thesis unfolding Suc front_Suc by (simp add: algebra_simps)
qed

lemma front_optimal:
  "edits a b x y s \<Longrightarrow> on_front d (int x - int y) \<Longrightarrow> int x \<le> front a b d (int x - int y) \<Longrightarrow>
   on_front (d + cost s) (int (length a) - int (length b)) \<and> done_at a b (d + cost s) (int (length a) - int (length b))"
proof (induction s arbitrary: d x y)
  case Nil
  then show ?case by (simp add: done_at_def)
next
  case (Cons e s)
  show ?case
  proof (cases e)
    case (Keep i)
    have "int x \<noteq> front a b d (int x - int y)"
    proof
      assume "int x = front a b d (int x - int y)"
      then have "nat (front a b d (int x - int y)) = x" "nat (front a b d (int x - int y) - (int x - int y)) = y"
        "front a b d (int x - int y) < int (length a)" "front a b d (int x - int y) - (int x - int y) < int (length b)"
        using Cons.prems(1) Keep by simp_all
      with front_stuck [OF Cons.prems(2), of a b] Cons.prems(1) Keep show False by simp
    qed
    with Cons.IH [of "x + 1" "y + 1" d] Cons.prems Keep show ?thesis by simp
  next
    case (Del i)
    have "on_front (Suc d) (int (x + 1) - int y)" "int (x + 1) \<le> front a b (Suc d) (int (x + 1) - int y)"
      using on_front_moves(1) [OF Cons.prems(2)] front_moves(1) [OF Cons.prems(2), of a b] Cons.prems(3)
      by (simp_all add: algebra_simps)
    with Cons.IH [of "x + 1" y "Suc d"] Cons.prems(1) Del show ?thesis by simp
  next
    case (Ins j)
    have "on_front (Suc d) (int x - int (y + 1))" "int x \<le> front a b (Suc d) (int x - int (y + 1))"
      using on_front_moves(2) [OF Cons.prems(2)] front_moves(2) [OF Cons.prems(2), of a b] Cons.prems(3)
      by (simp_all add: algebra_simps)
    with Cons.IH [of x "y + 1" "Suc d"] Cons.prems(1) Ins show ?thesis by simp
  qed
qed

lemma edits_cost: "edits a b x y s \<Longrightarrow> x \<le> length a \<and> y \<le> length b \<and> cost s \<le> (length a - x) + (length b - y)"
proof (induction s arbitrary: x y)
  case (Cons e s)
  then show ?case by (cases e) force+
qed simp

lemma script_done:
  assumes "edits a b 0 0 s"
  shows "on_front (cost s) (int (length a) - int (length b)) \<and> done_at a b (cost s) (int (length a) - int (length b))"
  using front_optimal [OF assms, of 0] snake_ge [of 0 a b 0] by simp

lemma MyersScript_spec:
  "case MyersScript a b budget of
     None \<Rightarrow> \<not> (\<exists>s. edits a b 0 0 s \<and> cost s \<le> budget)
   | Some s \<Rightarrow> edits a b 0 0 s \<and> cost s \<le> budget \<and> \<not> (\<exists>s'. edits a b 0 0 s' \<and> cost s' < cost s)"
proof -
  let ?max = "min budget (length a + length b)"
  have spec: "case search a b ?max 0 (\<lambda>_. 0) [] of
      None \<Rightarrow> (\<forall>i j. i \<le> ?max \<longrightarrow> on_front i j \<longrightarrow> \<not> done_at a b i j)
    | Some (D, tr') \<Rightarrow> D \<le> ?max \<and> (\<forall>i \<le> D. entry a b i (tr' ! i)) \<and> (\<exists>j. on_front D j \<and> done_at a b D j)
        \<and> (\<forall>i j. i < D \<longrightarrow> on_front i j \<longrightarrow> \<not> done_at a b i j)"
    by (rule search_spec) auto
  show ?thesis
  proof (cases "search a b ?max 0 (\<lambda>_. 0) []")
    case None
    have "\<not> cost s \<le> budget" if "edits a b 0 0 s" for s
    proof
      assume "cost s \<le> budget"
      then have "cost s \<le> ?max" using edits_cost [OF that] by simp
      with spec None script_done [OF that] show False by auto
    qed
    with None show ?thesis by (auto simp: MyersScript_def)
  next
    case (Some p)
    then obtain D tr where p: "search a b ?max 0 (\<lambda>_. 0) [] = Some (D, tr)" by (cases p) auto
    with spec obtain j where D: "D \<le> ?max" "\<And>i. i \<le> D \<Longrightarrow> entry a b i (tr ! i)" "on_front D j" "done_at a b D j"
      "\<And>i j. i < D \<Longrightarrow> on_front i j \<Longrightarrow> \<not> done_at a b i j" by (simp only: option.case prod.case) blast
    from done_exact [OF D(3,4,5)] have j: "front a b D j = int (length a)" "j = int (length a) - int (length b)" by auto
    let ?s = "rev (walk_back tr D (int (length a)) (int (length b)) [])"
    have "int (length b) = int (length a) - j" using j(2) by simp
    from walk_back_spec [OF D(2,3) j(1) [symmetric] this order_refl order_refl, of "[]"]
    have ok: "edits a b 0 0 ?s \<and> cost ?s = D" by simp
    have "\<not> (\<exists>s'. edits a b 0 0 s' \<and> cost s' < D)"
      using script_done [of a b] D(5) by blast
    moreover have "MyersScript a b budget = Some ?s" by (simp add: MyersScript_def p)
    ultimately show ?thesis using ok D(1) by (simp only: option.case) simp
  qed
qed

text \<open>C12. The edit script search is correct and optimal: a script it returns turns the one text into the
  other, stays within the budget, and no script does so with fewer insertions and deletions; it gives up
  only when no script within the budget exists.\<close>

theorem MyersScript_shortest:
  "case MyersScript a b budget of
     None \<Rightarrow> \<not> (\<exists>s. edits a b 0 0 s \<and> cost s \<le> budget)
   | Some s \<Rightarrow> edits a b 0 0 s \<and> cost s \<le> budget \<and> \<not> (\<exists>s'. edits a b 0 0 s' \<and> cost s' < cost s)"
  by (rule MyersScript_spec)

end
