(* ===== verification/QM_Diff.thy ===== *)
theory QM_Diff
  imports QM_Myers
begin

text \<open>
  Unified diffs, \<^verbatim>\<open>src/core/src/diff.cpp\<close>: splitting a text into lines, the emitter \<open>Unified\<close> on top of
  the script search of \<open>QM_Myers\<close>, the patch parser and \<open>Apply\<close>. Wiki pages keep their history as a
  chain of such patches, so the theorem that matters is that applying an emitted patch gives back the
  text it was made for, whatever the two texts, the context and the bounds are.
\<close>

section \<open>Lines\<close>

record text_lines =
  tl_lines :: "string list"
  tl_final_newline :: bool

definition Split :: "string \<Rightarrow> text_lines" where
  "Split s =
     (if s = [] then \<lparr>tl_lines = [], tl_final_newline = True\<rparr>
      else let ps = split_on LF s in
        if last ps = [] then \<lparr>tl_lines = butlast ps, tl_final_newline = True\<rparr>
        else \<lparr>tl_lines = ps, tl_final_newline = False\<rparr>)"

definition no_newline_key :: string where
  "no_newline_key = LF # CHR 0x01 # ''no-final-newline''"

definition Keys :: "text_lines \<Rightarrow> string list" where
  "Keys l = (let k = tl_lines l in
     if k \<noteq> [] \<and> \<not> tl_final_newline l then butlast k @ [last k @ no_newline_key] else k)"

fun join_lines :: "string list \<Rightarrow> bool \<Rightarrow> string" where
  "join_lines [] fin = []"
| "join_lines (l # ls) fin = l @ (if ls \<noteq> [] \<or> fin then [LF] else []) @ join_lines ls fin"

definition Join_text :: "text_lines \<Rightarrow> string" where
  "Join_text l = join_lines (tl_lines l) (tl_final_newline l)"

section \<open>The emitter\<close>

definition Num :: "nat \<Rightarrow> string" where
  "Num n = digits_of n"

definition HunkHeader :: "nat \<Rightarrow> nat \<Rightarrow> nat \<Rightarrow> nat \<Rightarrow> string" where
  "HunkHeader a_start a_count b_start b_count =
     ''@@ -'' @ Num (if a_count = 0 then a_start else a_start + 1)
     @ (if a_count \<noteq> 1 then '','' @ Num a_count else [])
     @ '' +'' @ Num (if b_count = 0 then b_start else b_start + 1)
     @ (if b_count \<noteq> 1 then '','' @ Num b_count else [])
     @ '' @@'' @ [LF]"

definition kNoNewlineText :: string where
  "kNoNewlineText = [CHR 0x5C] @ '' No newline at end of file''"

definition EmitLine :: "char \<Rightarrow> string \<Rightarrow> bool \<Rightarrow> bool \<Rightarrow> string" where
  "EmitLine tag line last_of_side side_final_newline =
     tag # line @ [LF] @ (if last_of_side \<and> \<not> side_final_newline then kNoNewlineText @ [LF] else [])"

fun emit_edit :: "text_lines \<Rightarrow> text_lines \<Rightarrow> edit \<Rightarrow> string" where
  "emit_edit a b (Keep i) =
     EmitLine CHR '' '' (tl_lines a ! i) (i + 1 = length (tl_lines a)) (tl_final_newline a \<and> tl_final_newline b)"
| "emit_edit a b (Del i) = EmitLine CHR ''-'' (tl_lines a ! i) (i + 1 = length (tl_lines a)) (tl_final_newline a)"
| "emit_edit a b (Ins j) = EmitLine CHR ''+'' (tl_lines b ! j) (j + 1 = length (tl_lines b)) (tl_final_newline b)"

definition WholeFileDiff :: "text_lines \<Rightarrow> text_lines \<Rightarrow> string" where
  "WholeFileDiff a b =
     HunkHeader 0 (length (tl_lines a)) 0 (length (tl_lines b))
     @ concat (map (emit_edit a b \<circ> Del) [0..<length (tl_lines a)])
     @ concat (map (emit_edit a b \<circ> Ins) [0..<length (tl_lines b)])"

fun common_prefix :: "'a list \<Rightarrow> 'a list \<Rightarrow> nat" where
  "common_prefix (x # xs) (y # ys) = (if x = y then Suc (common_prefix xs ys) else 0)"
| "common_prefix _ _ = 0"

fun shift :: "nat \<Rightarrow> edit \<Rightarrow> edit" where
  "shift h (Keep i) = Keep (i + h)"
| "shift h (Del i) = Del (i + h)"
| "shift h (Ins i) = Ins (i + h)"

fun in_a :: "edit \<Rightarrow> bool" where
  "in_a (Ins _) = False" | "in_a _ = True"

fun in_b :: "edit \<Rightarrow> bool" where
  "in_b (Del _) = False" | "in_b _ = True"

definition count_a :: "edit list \<Rightarrow> nat" where
  "count_a es = length (filter in_a es)"

definition count_b :: "edit list \<Rightarrow> nat" where
  "count_b es = length (filter in_b es)"

definition emit_hunk :: "text_lines \<Rightarrow> text_lines \<Rightarrow> edit list \<Rightarrow> nat \<Rightarrow> nat \<Rightarrow> string" where
  "emit_hunk a b full begin_at end_at =
     (let lead = take begin_at full; inside = drop begin_at (take end_at full) in
      HunkHeader (count_a lead) (count_a inside) (count_b lead) (count_b inside)
      @ concat (map (emit_edit a b) inside))"

fun run_end :: "nat \<Rightarrow> nat \<Rightarrow> nat list \<Rightarrow> nat \<times> nat list" where
  "run_end ctx last_at [] = (last_at, [])"
| "run_end ctx last_at (c # cs) = (if c \<le> last_at + 2 * ctx + 1 then run_end ctx c cs else (last_at, c # cs))"

lemma run_end_shorter: "length (snd (run_end ctx l cs)) \<le> length cs"
  by (induction cs arbitrary: l) (auto intro: le_SucI)

function hunks :: "nat \<Rightarrow> text_lines \<Rightarrow> text_lines \<Rightarrow> edit list \<Rightarrow> nat list \<Rightarrow> string" where
  "hunks ctx a b full [] = []"
| "hunks ctx a b full (first # cs) =
     (let (last_at, rest) = run_end ctx first cs;
          begin_at = (if first > ctx then first - ctx else 0);
          end_at = min (length full) (last_at + ctx + 1)
      in emit_hunk a b full begin_at end_at @ hunks ctx a b full rest)"
  by pat_completeness auto
termination
  by (relation "measure (\<lambda>(ctx, a, b, full, cs). length cs)") (auto, metis run_end_shorter less_Suc_eq_le snd_conv)

definition full_script :: "nat \<Rightarrow> nat \<Rightarrow> nat \<Rightarrow> edit list \<Rightarrow> edit list" where
  "full_script head tail len_a script =
     map Keep [0..<head] @ map (shift head) script @ map (\<lambda>i. Keep (len_a - tail + i)) [0..<tail]"

definition Unified :: "string \<Rightarrow> string \<Rightarrow> int \<Rightarrow> nat \<Rightarrow> nat \<Rightarrow> string" where
  "Unified from_text to_text ctxlen max_lines max_edits =
     (if from_text = to_text then []
      else
       (let ctx = nat (if ctxlen < 0 then 0 else ctxlen); a = Split from_text; b = Split to_text in
        if length (tl_lines a) > max_lines \<or> length (tl_lines b) > max_lines then WholeFileDiff a b
        else
         (let ka = Keys a; kb = Keys b;
              head = common_prefix ka kb;
              tail = common_prefix (rev (drop head ka)) (rev (drop head kb));
              mid_a = take (length ka - head - tail) (drop head ka);
              mid_b = take (length kb - head - tail) (drop head kb)
          in case MyersScript mid_a mid_b max_edits of
               None \<Rightarrow> WholeFileDiff a b
             | Some script \<Rightarrow>
                (let full = full_script head tail (length (tl_lines a)) script;
                     changed = filter (\<lambda>i. \<not> is_keep (full ! i)) [0..<length full]
                 in hunks ctx a b full changed))))"

section \<open>The patcher\<close>

text \<open>The digits of a line number, given up on when the value passes \<open>2 ^ 40\<close>.\<close>

fun scan_number :: "nat \<Rightarrow> string \<Rightarrow> (nat \<times> string) option" where
  "scan_number val [] = Some (val, [])"
| "scan_number val (c # cs) =
     (if isdigit c then (if val > 2 ^ 40 then None else scan_number (val * 10 + (byte c - 48)) cs)
      else Some (val, c # cs))"

definition number :: "string \<Rightarrow> (nat \<times> string) option" where
  "number s = (if s = [] \<or> \<not> isdigit (hd s) then None else scan_number 0 s)"

definition opt_count :: "string \<Rightarrow> (nat \<times> string) option" where
  "opt_count s = (if s \<noteq> [] \<and> hd s = CHR '','' then number (tl s) else Some (1, s))"

definition ParseHunk :: "string \<Rightarrow> (nat \<times> nat \<times> nat \<times> nat) option" where
  "ParseHunk line =
     (if take 4 line \<noteq> ''@@ -'' then None
      else case number (drop 4 line) of None \<Rightarrow> None
      | Some (a_start, s) \<Rightarrow>
         (case opt_count s of None \<Rightarrow> None
          | Some (a_count, s) \<Rightarrow>
             (if take 2 s \<noteq> '' +'' then None
              else case number (drop 2 s) of None \<Rightarrow> None
              | Some (b_start, s) \<Rightarrow>
                 (case opt_count s of None \<Rightarrow> None
                  | Some (b_count, s) \<Rightarrow>
                     (if take 3 s = '' @@'' then Some (a_start, a_count, b_start, b_count) else None)))))"

record patch_state =
  ps_src_at :: nat
  ps_result :: "string list"
  ps_no_newline :: bool

definition take_src :: "text_lines \<Rightarrow> patch_state \<Rightarrow> patch_state" where
  "take_src s st = \<lparr>ps_src_at = ps_src_at st + 1, ps_result = ps_result st @ [tl_lines s ! ps_src_at st],
     ps_no_newline = (ps_src_at st + 1 = length (tl_lines s) \<and> \<not> tl_final_newline s)\<rparr>"

function take_until :: "text_lines \<Rightarrow> nat \<Rightarrow> patch_state \<Rightarrow> patch_state" where
  "take_until s want st = (if ps_src_at st < want then take_until s want (take_src s st) else st)"
  by pat_completeness auto
termination by (relation "measure (\<lambda>(s, want, st). want - ps_src_at st)") (auto simp: take_src_def)

declare take_until.simps [simp del]

definition marker_next :: "string list \<Rightarrow> bool" where
  "marker_next ls = (ls \<noteq> [] \<and> hd ls = kNoNewlineText)"

definition mismatch :: "string \<Rightarrow> patch_state \<Rightarrow> string" where
  "mismatch what st = what @ '' does not match at line '' @ Num (ps_src_at st + 1)"

fun hunk_lines :: "text_lines \<Rightarrow> nat \<Rightarrow> nat \<Rightarrow> string list \<Rightarrow> nat \<Rightarrow> nat \<Rightarrow> patch_state \<Rightarrow> string + (string list \<times> patch_state)" where
  "hunk_lines s a_count b_count [] consumed produced st =
     (if consumed \<noteq> a_count \<or> produced \<noteq> b_count then Inl ''hunk is truncated'' else Inr ([], st))"
| "hunk_lines s a_count b_count (pl # rest) consumed produced st =
     (if \<not> (consumed < a_count \<or> produced < b_count)
      then (if consumed \<noteq> a_count \<or> produced \<noteq> b_count then Inl ''hunk is truncated'' else Inr (pl # rest, st))
      else if pl = kNoNewlineText then hunk_lines s a_count b_count rest consumed produced st
      else
       (let here = (ps_src_at st < length (tl_lines s)); src = tl_lines s ! ps_src_at st; more = marker_next rest in
        if pl = [] then
          (if consumed \<ge> a_count \<or> \<not> here \<or> src \<noteq> [] then Inl (mismatch ''context'' st)
           else hunk_lines s a_count b_count rest (consumed + 1) (produced + 1) ((take_src s st)\<lparr>ps_no_newline := more\<rparr>))
        else if hd pl = CHR '' '' then
          (if \<not> here \<or> src \<noteq> tl pl then Inl (mismatch ''context'' st)
           else hunk_lines s a_count b_count rest (consumed + 1) (produced + 1) ((take_src s st)\<lparr>ps_no_newline := more\<rparr>))
        else if hd pl = CHR ''-'' then
          (if \<not> here \<or> src \<noteq> tl pl then Inl (mismatch ''removed line'' st)
           else hunk_lines s a_count b_count rest (consumed + 1) produced (st\<lparr>ps_src_at := ps_src_at st + 1\<rparr>))
        else if hd pl = CHR ''+'' then
          hunk_lines s a_count b_count rest consumed (produced + 1)
            (st\<lparr>ps_result := ps_result st @ [tl pl], ps_no_newline := more\<rparr>)
        else Inl (''unrecognised patch line: '' @ take 60 pl)))"

lemma hunk_lines_shorter: "hunk_lines s m n ls c p st = Inr (rest, st') \<Longrightarrow> length rest \<le> length ls"
proof (induction ls arbitrary: c p st)
  case (Cons pl ls)
  from Cons.prems show ?case by (auto simp: Let_def split: if_splits dest: Cons.IH)
qed (simp split: if_splits)

text \<open>A line lead the first hunk is skipped whatever it is; the code names the usual file headers first
  and then skips everything else as well.\<close>

function apply_loop :: "text_lines \<Rightarrow> string list \<Rightarrow> bool \<Rightarrow> patch_state \<Rightarrow> string + patch_state" where
  "apply_loop s [] saw_hunk st = Inr st"
| "apply_loop s (line # rest) saw_hunk st =
     (if line = [] \<or> line = kNoNewlineText then apply_loop s rest saw_hunk st
      else case ParseHunk line of
        None \<Rightarrow> (if \<not> saw_hunk then apply_loop s rest saw_hunk st else Inl (''unexpected line in patch: '' @ take 60 line))
      | Some (a_start, a_count, b_start, b_count) \<Rightarrow>
         (let want = (if a_count = 0 then a_start else if a_start > 0 then a_start - 1 else 0) in
          if want < ps_src_at st then Inl ''patch hunks are out of order''
          else if want > length (tl_lines s) then Inl ''patch applies past the end of the text''
          else case hunk_lines s a_count b_count rest 0 0 (take_until s want st) of
                 Inl e \<Rightarrow> Inl e
               | Inr (rest', st) \<Rightarrow> apply_loop s rest' True st))"
  by pat_completeness auto
termination
  by (relation "measure (\<lambda>(s, ls, saw, st). length ls)") (auto dest: hunk_lines_shorter simp: less_Suc_eq_le)

definition Apply :: "string \<Rightarrow> string \<Rightarrow> string + string" where
  "Apply src patch =
     (let s = Split src; p = Split patch in
      case apply_loop s (tl_lines p) False \<lparr>ps_src_at = 0, ps_result = [], ps_no_newline = \<not> tl_final_newline s\<rparr> of
        Inl e \<Rightarrow> Inl e
      | Inr st \<Rightarrow>
         (let st = take_until s (length (tl_lines s)) st in
          Inr (Join_text \<lparr>tl_lines = ps_result st,
             tl_final_newline = (if ps_result st = [] then True else \<not> ps_no_newline st)\<rparr>)))"

section \<open>Lines are put together again\<close>

definition lines_ok :: "text_lines \<Rightarrow> bool" where
  "lines_ok l = (list_all (\<lambda>x. LF \<notin> set x) (tl_lines l) \<and> (tl_lines l = [] \<longrightarrow> tl_final_newline l)
     \<and> (\<not> tl_final_newline l \<longrightarrow> last (tl_lines l) \<noteq> []))"

lemma join_lines_join_on: "ls \<noteq> [] \<Longrightarrow> join_lines ls fin = join_on LF (ls @ (if fin then [[]] else []))"
proof (induction ls)
  case (Cons l ls)
  then show ?case by (cases "ls = []") (auto simp: join_on_Cons)
qed simp

lemma Join_Split: "Join_text (Split s) = s"
proof (cases "s = []")
  case False
  let ?ps = "split_on LF s"
  have whole: "join_on LF (butlast ?ps @ [last ?ps]) = s" by (simp only: append_butlast_last_id split_on_not_Nil join_split not_False_eq_True)
  show ?thesis
  proof (cases "last ?ps = []")
    case True
    then have "butlast ?ps \<noteq> []" using whole False by auto
    with True False whole show ?thesis by (simp add: Join_text_def Split_def join_lines_join_on)
  qed (simp add: False Join_text_def Split_def join_lines_join_on)
qed (simp add: Join_text_def Split_def)

lemma lines_ok_Split: "lines_ok (Split s)"
proof (cases "s = []")
  case False
  have "list_all (\<lambda>x. LF \<notin> set x) (split_on LF s)" using split_on_free by (auto simp: list_all_iff)
  with False show ?thesis by (auto simp: lines_ok_def Split_def Let_def list_all_iff dest: in_set_butlastD)
qed (simp add: lines_ok_def Split_def)

lemma Split_lines:
  assumes "list_all (\<lambda>x. LF \<notin> set x) ls"
  shows "Split (concat (map (\<lambda>l. l @ [LF]) ls)) = \<lparr>tl_lines = ls, tl_final_newline = True\<rparr>"
proof (cases "ls = []")
  case False
  have "concat (map (\<lambda>l. l @ [LF]) ls) = join_on LF (ls @ [[]])"
    using False
  proof (induction ls)
    case (Cons l ls)
    then show ?case by (cases "ls = []") (auto simp: join_on_Cons)
  qed simp
  moreover have "split_on LF (join_on LF (ls @ [[]])) = ls @ [[]]" using assms by (intro split_join) auto
  moreover have "concat (map (\<lambda>l. l @ [LF]) ls) \<noteq> []" using False by (cases ls) auto
  ultimately show ?thesis by (simp add: Split_def)
qed (simp add: Split_def)

lemma length_Keys [simp]: "length (Keys l) = length (tl_lines l)"
  by (simp add: Keys_def Let_def)

lemma Keys_nth:
  "i < length (tl_lines l) \<Longrightarrow>
   Keys l ! i = tl_lines l ! i @ (if i + 1 = length (tl_lines l) \<and> \<not> tl_final_newline l then no_newline_key else [])"
  by (auto simp: Keys_def Let_def nth_append nth_butlast last_conv_nth less_Suc_eq dest: less_imp_Suc_add)

text \<open>Equal keys mean equal lines, and that both or neither end their text without a newline.\<close>

lemma Keys_eq:
  assumes "lines_ok a" "lines_ok b" "x < length (tl_lines a)" "y < length (tl_lines b)" "Keys a ! x = Keys b ! y"
  shows "tl_lines a ! x = tl_lines b ! y"
    and "(x + 1 = length (tl_lines a) \<and> \<not> tl_final_newline a) = (y + 1 = length (tl_lines b) \<and> \<not> tl_final_newline b)"
proof -
  have free: "LF \<notin> set (tl_lines a ! x)" "LF \<notin> set (tl_lines b ! y)" using assms(1-4) by (auto simp: lines_ok_def list_all_length)
  let ?p = "x + 1 = length (tl_lines a) \<and> \<not> tl_final_newline a" and ?q = "y + 1 = length (tl_lines b) \<and> \<not> tl_final_newline b"
  have eq: "tl_lines a ! x @ (if ?p then no_newline_key else []) = tl_lines b ! y @ (if ?q then no_newline_key else [])"
    using assms(3-5) by (simp only: Keys_nth)
  have LF: "LF \<in> set no_newline_key" by (simp add: no_newline_key_def)
  have "LF \<in> set (tl_lines a ! x @ (if ?p then no_newline_key else [])) \<longleftrightarrow> ?p"
    using free(1) LF by simp
  moreover have "LF \<in> set (tl_lines b ! y @ (if ?q then no_newline_key else [])) \<longleftrightarrow> ?q"
    using free(2) LF by simp
  ultimately show pq: "?p = ?q" unfolding eq by blast
  from eq show "tl_lines a ! x = tl_lines b ! y" unfolding pq by simp
qed

lemma Keys_inject:
  assumes "lines_ok a" "lines_ok b" "Keys a = Keys b"
  shows "a = b"
proof -
  have len: "length (tl_lines a) = length (tl_lines b)" using assms(3) length_Keys by metis
  have "tl_lines a = tl_lines b"
  proof (rule nth_equalityI [OF len])
    fix i assume i: "i < length (tl_lines a)"
    with len have "i < length (tl_lines b)" by simp
    from Keys_eq(1) [OF assms(1,2) i this] assms(3) show "tl_lines a ! i = tl_lines b ! i" by simp
  qed
  moreover have "tl_final_newline a = tl_final_newline b"
  proof (cases "tl_lines a = []")
    case True
    then show ?thesis using assms(1,2) len by (auto simp: lines_ok_def)
  next
    case False
    then have "length (tl_lines a) - 1 < length (tl_lines a)" "length (tl_lines a) - 1 + 1 = length (tl_lines a)" by auto
    with Keys_eq(2) [OF assms(1,2), of "length (tl_lines a) - 1" "length (tl_lines a) - 1"] assms(3) len
    show ?thesis by simp
  qed
  ultimately show ?thesis by simp
qed

section \<open>Hunk headers are read back\<close>

lemma scan_number_digits:
  assumes "list_all isdigit ds" "s = [] \<or> \<not> isdigit (hd s)" "foldl (\<lambda>n d. 10 * n + (byte d - 48)) val ds \<le> 2 ^ 40"
  shows "scan_number val (ds @ s) = Some (foldl (\<lambda>n d. 10 * n + (byte d - 48)) val ds, s)"
  using assms
proof (induction ds arbitrary: val)
  case Nil
  then show ?case by (cases s) auto
next
  case (Cons d ds)
  have mono: "n \<le> foldl (\<lambda>n d. 10 * n + (byte d - 48)) n ds" for n :: nat
    by (induction ds arbitrary: n) (simp, metis (no_types, lifting) foldl_Cons add_leD1 le_add1 mult_2 order_trans mult_le_mono1 one_le_numeral mult_1)
  have "val \<le> 2 ^ 40" using Cons.prems(3) mono [of "10 * val + (byte d - 48)"] by simp
  with Cons show ?case by (simp add: mult.commute)
qed

lemma number_Num:
  assumes "n \<le> 2 ^ 40" "s = [] \<or> \<not> isdigit (hd s)"
  shows "number (Num n @ s) = Some (n, s)"
proof -
  have digits: "list_all isdigit (digits_of n)" using digits_of_isdigit by (auto simp: list_all_iff)
  moreover have "digits_of n \<noteq> []" by simp
  ultimately have "isdigit (hd (digits_of n @ s))" by (cases "digits_of n") auto
  moreover have "foldl (\<lambda>n d. 10 * n + (byte d - 48)) 0 (digits_of n) = n"
    using digits_val_digits_of [of n] by (simp only: digits_val_def)
  ultimately show ?thesis
    using scan_number_digits [OF digits assms(2), of 0] assms(1) by (simp add: number_def Num_def)
qed

definition header_line :: "nat \<Rightarrow> nat \<Rightarrow> nat \<Rightarrow> nat \<Rightarrow> string" where
  "header_line a_start a_count b_start b_count = butlast (HunkHeader a_start a_count b_start b_count)"

lemma HunkHeader_line: "HunkHeader m n p q = header_line m n p q @ [LF]"
  by (simp add: header_line_def HunkHeader_def butlast_append)

lemma opt_count_Num:
  assumes "n \<le> 2 ^ 40" "s \<noteq> []" "\<not> isdigit (hd s)" "hd s \<noteq> CHR '',''"
  shows "opt_count ((if n \<noteq> 1 then '','' @ Num n else []) @ s) = Some (n, s)"
  using assms number_Num [of n s] by (cases s) (auto simp: opt_count_def)

lemma ParseHunk_header:
  assumes "a_start < 2 ^ 40" "a_count < 2 ^ 40" "b_start < 2 ^ 40" "b_count < 2 ^ 40"
  shows "ParseHunk (header_line a_start a_count b_start b_count)
    = Some (if a_count = 0 then a_start else a_start + 1, a_count, if b_count = 0 then b_start else b_start + 1, b_count)"
proof -
  let ?cb = "(if b_count \<noteq> 1 then '','' @ Num b_count else []) @ '' @@''"
  let ?ca = "(if a_count \<noteq> 1 then '','' @ Num a_count else []) @ '' +'' @ Num (if b_count = 0 then b_start else b_start + 1) @ ?cb"
  have line: "header_line a_start a_count b_start b_count = ''@@ -'' @ Num (if a_count = 0 then a_start else a_start + 1) @ ?ca"
    by (simp add: header_line_def HunkHeader_def butlast_append)
  have "number (Num (if a_count = 0 then a_start else a_start + 1) @ ?ca) = Some (if a_count = 0 then a_start else a_start + 1, ?ca)"
    using assms by (intro number_Num) (auto simp: isdigit_def)
  moreover have "opt_count ?ca = Some (a_count, '' +'' @ Num (if b_count = 0 then b_start else b_start + 1) @ ?cb)"
    using assms by (intro opt_count_Num) (auto simp: isdigit_def)
  moreover have "number (Num (if b_count = 0 then b_start else b_start + 1) @ ?cb) = Some (if b_count = 0 then b_start else b_start + 1, ?cb)"
    using assms by (intro number_Num) (auto simp: isdigit_def)
  moreover have "opt_count ?cb = Some (b_count, '' @@'')"
    using assms by (intro opt_count_Num) (auto simp: isdigit_def)
  ultimately show ?thesis unfolding ParseHunk_def line by simp
qed

section \<open>The lines of a patch\<close>

definition tagged :: "char \<Rightarrow> string \<Rightarrow> bool \<Rightarrow> string list" where
  "tagged tag line marked = (tag # line) # (if marked then [kNoNewlineText] else [])"

fun edit_lines :: "text_lines \<Rightarrow> text_lines \<Rightarrow> edit \<Rightarrow> string list" where
  "edit_lines a b (Keep i) = tagged CHR '' '' (tl_lines a ! i) (i + 1 = length (tl_lines a) \<and> \<not> (tl_final_newline a \<and> tl_final_newline b))"
| "edit_lines a b (Del i) = tagged CHR ''-'' (tl_lines a ! i) (i + 1 = length (tl_lines a) \<and> \<not> tl_final_newline a)"
| "edit_lines a b (Ins j) = tagged CHR ''+'' (tl_lines b ! j) (j + 1 = length (tl_lines b) \<and> \<not> tl_final_newline b)"

abbreviation with_newlines :: "string list \<Rightarrow> string" where
  "with_newlines ls \<equiv> concat (map (\<lambda>l. l @ [LF]) ls)"

lemma emit_edit_lines: "emit_edit a b e = with_newlines (edit_lines a b e)"
  by (cases e) (simp_all add: EmitLine_def tagged_def)

lemma emit_edits_lines: "concat (map (emit_edit a b) es) = with_newlines (concat (map (edit_lines a b) es))"
  by (induction es) (simp_all add: emit_edit_lines)

definition hunk_of :: "text_lines \<Rightarrow> text_lines \<Rightarrow> nat \<Rightarrow> nat \<Rightarrow> edit list \<Rightarrow> string list" where
  "hunk_of a b x y inside = header_line x (count_a inside) y (count_b inside) # concat (map (edit_lines a b) inside)"

function hunks_of :: "nat \<Rightarrow> text_lines \<Rightarrow> text_lines \<Rightarrow> edit list \<Rightarrow> nat list \<Rightarrow> string list" where
  "hunks_of ctx a b full [] = []"
| "hunks_of ctx a b full (first # cs) =
     (let (last_at, rest) = run_end ctx first cs;
          begin_at = (if first > ctx then first - ctx else 0);
          end_at = min (length full) (last_at + ctx + 1)
      in hunk_of a b (count_a (take begin_at full)) (count_b (take begin_at full)) (drop begin_at (take end_at full))
         @ hunks_of ctx a b full rest)"
  by pat_completeness auto
termination
  by (relation "measure (\<lambda>(ctx, a, b, full, cs). length cs)") (auto, metis run_end_shorter less_Suc_eq_le snd_conv)

lemma hunks_hunks_of: "hunks ctx a b full cs = with_newlines (hunks_of ctx a b full cs)"
proof (induction ctx a b full cs rule: hunks.induct)
  case (2 ctx a b full first cs)
  obtain l rest where "run_end ctx first cs = (l, rest)" by fastforce
  with 2 show ?case by (simp add: Let_def emit_hunk_def hunk_of_def HunkHeader_line emit_edits_lines)
qed simp

text \<open>No line of a patch holds a newline.\<close>

lemma kNoNewline_free: "LF \<notin> set kNoNewlineText"
  by (simp add: kNoNewlineText_def)

lemma Num_free: "LF \<notin> set (Num n)"
  using digits_of_isdigit [of LF n] by (auto simp: Num_def isdigit_def)

lemma header_line_free: "LF \<notin> set (header_line m n p q)"
  using Num_free by (auto simp: header_line_def HunkHeader_def butlast_append)

lemma edit_lines_free:
  assumes "lines_ok a" "lines_ok b" "edits ka kb x y (es @ rest)"
    and "length ka = length (tl_lines a)" "length kb = length (tl_lines b)"
  shows "list_all (\<lambda>l. LF \<notin> set l) (concat (map (edit_lines a b) es))"
  using assms(3)
proof (induction es arbitrary: x y)
  case (Cons e es)
  have free: "i < length (tl_lines a) \<Longrightarrow> LF \<notin> set (tl_lines a ! i)" "i < length (tl_lines b) \<Longrightarrow> LF \<notin> set (tl_lines b ! i)" for i
    using assms(1,2) by (auto simp: lines_ok_def list_all_length)
  show ?case using Cons free assms(4,5) kNoNewline_free by (cases e) (auto simp: tagged_def)
qed simp

section \<open>Positions in a script\<close>

lemma count_simps [simp]:
  "count_a [] = 0" "count_b [] = 0" "count_a (e # es) = (if in_a e then Suc (count_a es) else count_a es)"
  "count_b (e # es) = (if in_b e then Suc (count_b es) else count_b es)"
  "count_a (es @ fs) = count_a es + count_a fs" "count_b (es @ fs) = count_b es + count_b fs"
  by (simp_all add: count_a_def count_b_def)

lemma edits_after: "edits a b x y (s @ t) \<Longrightarrow> edits a b (x + count_a s) (y + count_b s) t"
proof (induction s arbitrary: x y)
  case (Cons e s)
  show ?case
  proof (cases e)
    case (Keep i)
    with Cons.IH [of "x + 1" "y + 1"] Cons.prems show ?thesis by simp
  next
    case (Del i)
    with Cons.IH [of "x + 1" y] Cons.prems show ?thesis by simp
  next
    case (Ins i)
    with Cons.IH [of x "y + 1"] Cons.prems show ?thesis by simp
  qed
qed simp

lemma edits_drop: "edits a b x y s \<Longrightarrow> edits a b (x + count_a (take p s)) (y + count_b (take p s)) (drop p s)"
  using edits_after [of a b x y "take p s" "drop p s"] by simp

lemma count_keeps: "list_all is_keep es \<Longrightarrow> count_a es = length es \<and> count_b es = length es"
proof (induction es)
  case (Cons e es)
  then show ?case by (cases e) auto
qed simp

section \<open>Applying one hunk\<close>

definition patched :: "text_lines \<Rightarrow> text_lines \<Rightarrow> nat \<Rightarrow> nat \<Rightarrow> patch_state \<Rightarrow> bool" where
  "patched a b x y st = (ps_src_at st = x \<and> ps_result st = take y (tl_lines b)
     \<and> (0 < y \<longrightarrow> y = length (tl_lines b) \<longrightarrow> ps_no_newline st = (\<not> tl_final_newline b)))"

lemma patched_take_src:
  assumes "lines_ok a" "lines_ok b" "x < length (tl_lines a)" "y < length (tl_lines b)" "Keys a ! x = Keys b ! y" "patched a b x y st"
  shows "patched a b (Suc x) (Suc y) (take_src a st)"
  using assms Keys_eq [OF assms(1-5)] by (auto simp: patched_def take_src_def take_Suc_conv_app_nth)

lemma take_until_keeps:
  assumes "lines_ok a" "lines_ok b"
  shows "edits (Keys a) (Keys b) x y (es @ rest) \<Longrightarrow> list_all is_keep es \<Longrightarrow> patched a b x y st \<Longrightarrow>
    patched a b (x + length es) (y + length es) (take_until a (x + length es) st)"
proof (induction es arbitrary: x y st)
  case Nil
  then have "take_until a (x + length []) st = st" by (subst take_until.simps) (auto simp: patched_def)
  with Nil show ?case by simp
next
  case (Cons e es)
  then obtain i where "e = Keep i" by (cases e) auto
  with Cons.prems have e: "x < length (tl_lines a)" "y < length (tl_lines b)" "Keys a ! x = Keys b ! y"
    "edits (Keys a) (Keys b) (Suc x) (Suc y) (es @ rest)" by auto
  have "patched a b (Suc x) (Suc y) (take_src a st)" by (rule patched_take_src [OF assms e(1-3) Cons.prems(3)])
  from Cons.IH [OF e(4) _ this] Cons.prems(2) have "patched a b (x + length (e # es)) (y + length (e # es)) (take_until a (x + length (e # es)) (take_src a st))"
    by simp
  moreover have "take_until a (x + length (e # es)) st = take_until a (x + length (e # es)) (take_src a st)"
    using Cons.prems(3) by (subst take_until.simps) (simp add: patched_def)
  ultimately show ?case by simp
qed

definition marked :: "text_lines \<Rightarrow> text_lines \<Rightarrow> edit \<Rightarrow> string list" where
  "marked a b e = tl (edit_lines a b e)"

lemma marked_cases: "marked a b e = [] \<or> marked a b e = [kNoNewlineText]"
  by (cases e) (auto simp: marked_def tagged_def)

lemma edit_lines_Cons: "edit_lines a b e = hd (edit_lines a b e) # marked a b e"
  by (cases e) (auto simp: marked_def tagged_def)

lemma one_edit:
  assumes "lines_ok a" "lines_ok b" "edits (Keys a) (Keys b) x y (e # es)" "patched a b x y st"
    and "in_a e \<longrightarrow> c < a_count" "in_b e \<longrightarrow> p < b_count" "marker_next ls = (marked a b e \<noteq> [])"
  shows "\<exists>st'. hunk_lines a a_count b_count (hd (edit_lines a b e) # ls) c p st
      = hunk_lines a a_count b_count ls (c + count_a [e]) (p + count_b [e]) st'
    \<and> patched a b (x + count_a [e]) (y + count_b [e]) st'"
proof (cases e)
  case (Keep i)
  then have e: "i = x" "x < length (tl_lines a)" "y < length (tl_lines b)" "Keys a ! x = Keys b ! y" using assms(3) by auto
  note eq = Keys_eq [OF assms(1,2) e(2-4)]
  let ?st = "(take_src a st)\<lparr>ps_no_newline := marker_next ls\<rparr>"
  have "patched a b (Suc x) (Suc y) ?st"
    using patched_take_src [OF assms(1,2) e(2-4) assms(4)] assms(7) eq(2) Keep e(1)
    by (auto simp: patched_def marked_def tagged_def)
  moreover have "hunk_lines a a_count b_count (hd (edit_lines a b e) # ls) c p st = hunk_lines a a_count b_count ls (c + 1) (p + 1) ?st"
    using assms(4,5,6) Keep e by (simp add: tagged_def kNoNewlineText_def patched_def)
  ultimately show ?thesis using Keep by auto
next
  case (Del i)
  then have e: "i = x" "x < length (tl_lines a)" using assms(3) by auto
  let ?st = "st\<lparr>ps_src_at := ps_src_at st + 1\<rparr>"
  have "patched a b (Suc x) y ?st" using assms(4) by (auto simp: patched_def)
  moreover have "hunk_lines a a_count b_count (hd (edit_lines a b e) # ls) c p st = hunk_lines a a_count b_count ls (c + 1) p ?st"
    using assms(4,5) Del e by (simp add: tagged_def kNoNewlineText_def patched_def)
  ultimately show ?thesis using Del by auto
next
  case (Ins i)
  then have e: "i = y" "y < length (tl_lines b)" using assms(3) by auto
  let ?st = "st\<lparr>ps_result := ps_result st @ [tl_lines b ! y], ps_no_newline := marker_next ls\<rparr>"
  have "patched a b x (Suc y) ?st"
    using assms(4,7) Ins e by (auto simp: patched_def marked_def tagged_def take_Suc_conv_app_nth)
  moreover have "hunk_lines a a_count b_count (hd (edit_lines a b e) # ls) c p st = hunk_lines a a_count b_count ls c (p + 1) ?st"
    using assms(6) Ins e by (simp add: tagged_def kNoNewlineText_def)
  ultimately show ?thesis using Ins by auto
qed

lemma hunk_lines_end: "hunk_lines s c p ls c p st = Inr (ls, st)"
  by (cases ls) simp_all

lemma hunk_lines_marker:
  "c < m \<or> p < n \<Longrightarrow> hunk_lines s m n (kNoNewlineText # ls) c p st = hunk_lines s m n ls c p st"
  by auto

declare hunk_lines.simps(2) [simp del]

lemma not_marker_edits: "\<not> marker_next ls \<Longrightarrow> \<not> marker_next (concat (map (edit_lines a b) es) @ ls)"
proof (cases es)
  case (Cons e es')
  then show ?thesis by (cases e) (auto simp: marker_next_def tagged_def kNoNewlineText_def)
qed simp

lemma hunk_body:
  assumes "lines_ok a" "lines_ok b" "\<not> marker_next ls"
  shows "edits (Keys a) (Keys b) x y (es @ rest) \<Longrightarrow> patched a b x y st \<Longrightarrow> c + count_a es = a_count \<Longrightarrow> p + count_b es = b_count \<Longrightarrow>
    \<exists>m st'. hunk_lines a a_count b_count (concat (map (edit_lines a b) es) @ ls) c p st = Inr (m @ ls, st')
      \<and> (m = [] \<or> m = [kNoNewlineText]) \<and> patched a b (x + count_a es) (y + count_b es) st'"
proof (induction es arbitrary: x y st c p)
  case Nil
  then show ?case using hunk_lines_end [of a c p ls st] by auto
next
  case (Cons e es)
  let ?R = "concat (map (edit_lines a b) es) @ ls"
  have mark: "marker_next (marked a b e @ ?R) = (marked a b e \<noteq> [])"
    using marked_cases [of a b e] not_marker_edits [OF assms(3), of a b es] by (auto simp: marker_next_def)
  have "edits (Keys a) (Keys b) x y (e # es @ rest)" using Cons.prems(1) by simp
  from one_edit [OF assms(1,2) this Cons.prems(2) _ _ mark, of c a_count p b_count] Cons.prems(3,4)
  obtain st1 where st1: "hunk_lines a a_count b_count (hd (edit_lines a b e) # marked a b e @ ?R) c p st
      = hunk_lines a a_count b_count (marked a b e @ ?R) (c + count_a [e]) (p + count_b [e]) st1"
    "patched a b (x + count_a [e]) (y + count_b [e]) st1"
    by (auto split: if_splits)
  have lines: "concat (map (edit_lines a b) (e # es)) @ ls = hd (edit_lines a b e) # marked a b e @ ?R"
    using edit_lines_Cons [of a b e] by (metis append.assoc append_Cons concat.simps(2) list.simps(9))
  show ?case
  proof (cases "es = []")
    case True
    then have "a_count = c + count_a [e]" "b_count = p + count_b [e]" using Cons.prems(3,4) by (simp_all split: if_splits)
    then have "hunk_lines a a_count b_count (marked a b e @ ls) (c + count_a [e]) (p + count_b [e]) st1 = Inr (marked a b e @ ls, st1)"
      by (simp only: hunk_lines_end)
    then have "hunk_lines a a_count b_count (concat (map (edit_lines a b) (e # es)) @ ls) c p st = Inr (marked a b e @ ls, st1)"
      using st1(1) True unfolding lines by simp
    with st1(2) True marked_cases [of a b e] show ?thesis by blast
  next
    case False
    then have "0 < count_a es \<or> 0 < count_b es" by (cases es; cases "hd es") auto
    then have "c + count_a [e] < a_count \<or> p + count_b [e] < b_count" using Cons.prems(3,4) by auto
    then have "hunk_lines a a_count b_count (marked a b e @ ?R) (c + count_a [e]) (p + count_b [e]) st1
        = hunk_lines a a_count b_count ?R (c + count_a [e]) (p + count_b [e]) st1"
      using marked_cases [of a b e] hunk_lines_marker by auto
    moreover have "edits (Keys a) (Keys b) (x + count_a [e]) (y + count_b [e]) (es @ rest)"
      using edits_after [of "Keys a" "Keys b" x y "[e]" "es @ rest"] Cons.prems(1) by (simp only: append_Cons append_Nil)
    moreover have "c + count_a [e] + count_a es = a_count" "p + count_b [e] + count_b es = b_count" using Cons.prems(3,4) by auto
    ultimately obtain m st' where "hunk_lines a a_count b_count (concat (map (edit_lines a b) (e # es)) @ ls) c p st = Inr (m @ ls, st')"
      "m = [] \<or> m = [kNoNewlineText]" "patched a b (x + count_a [e] + count_a es) (y + count_b [e] + count_b es) st'"
      using Cons.IH [OF _ st1(2)] st1(1) unfolding lines by metis
    moreover have "x + count_a [e] + count_a es = x + count_a (e # es)" "y + count_b [e] + count_b es = y + count_b (e # es)" by auto
    ultimately show ?thesis by metis
  qed
qed

section \<open>Applying all hunks\<close>

lemma apply_marker: "m = [] \<or> m = [kNoNewlineText] \<Longrightarrow> apply_loop s (m @ ls) saw st = apply_loop s ls saw st"
  by auto

lemma header_line_not_marker: "header_line m n p q \<noteq> [] \<and> header_line m n p q \<noteq> kNoNewlineText"
  by (simp add: header_line_def HunkHeader_def butlast_append kNoNewlineText_def)

text \<open>A hunk with the unchanged lines before it.\<close>

lemma apply_hunk:
  assumes ok: "lines_ok a" "lines_ok b" and small: "length (tl_lines a) < 2 ^ 40" "length (tl_lines b) < 2 ^ 40"
    and script: "edits (Keys a) (Keys b) x y (gap @ inside @ rest)" "list_all is_keep gap"
    and st: "patched a b x y st" and ls: "\<not> marker_next ls"
  shows "\<exists>st'. apply_loop a (hunk_of a b (x + length gap) (y + length gap) inside @ ls) saw st = apply_loop a ls True st'
    \<and> patched a b (x + length gap + count_a inside) (y + length gap + count_b inside) st'"
proof -
  let ?x = "x + length gap" and ?y = "y + length gap"
  have inside: "edits (Keys a) (Keys b) ?x ?y (inside @ rest)"
    using edits_after [OF script(1)] count_keeps [OF script(2)] by simp
  have bounds: "?x + count_a inside \<le> length (tl_lines a)" "?y + count_b inside \<le> length (tl_lines b)"
    using edits_cost [OF edits_after [OF inside]] by auto
  have header: "ParseHunk (header_line ?x (count_a inside) ?y (count_b inside))
      = Some (if count_a inside = 0 then ?x else ?x + 1, count_a inside, if count_b inside = 0 then ?y else ?y + 1, count_b inside)"
    using bounds small by (intro ParseHunk_header) auto
  have gap: "patched a b ?x ?y (take_until a ?x st)" by (rule take_until_keeps [OF ok script st])
  from hunk_body [OF ok ls inside gap add_0 add_0] obtain m st' where
    body: "hunk_lines a (count_a inside) (count_b inside) (concat (map (edit_lines a b) inside) @ ls) 0 0 (take_until a ?x st) = Inr (m @ ls, st')"
    "m = [] \<or> m = [kNoNewlineText]" "patched a b (?x + count_a inside) (?y + count_b inside) st'" by blast
  have "ps_src_at st = x" using st by (simp add: patched_def)
  then have "apply_loop a (hunk_of a b ?x ?y inside @ ls) saw st = apply_loop a (m @ ls) True st'"
    using body(1) bounds header_line_not_marker [of ?x "count_a inside" ?y "count_b inside"] header
    by (cases "count_a inside = 0") (simp_all add: hunk_of_def Let_def)
  with body(2,3) apply_marker show ?thesis by metis
qed

lemma run_end_spec:
  "run_end ctx l cs = (l', rest) \<Longrightarrow> sorted_wrt (<) (l # cs) \<Longrightarrow>
   l \<le> l' \<and> (\<exists>us. cs = us @ rest \<and> list_all (\<lambda>c. c \<le> l') us \<and> l' \<in> set (l # us)) \<and> list_all (\<lambda>c. l' + 2 * ctx + 1 < c) rest"
proof (induction ctx l cs rule: run_end.induct)
  case (2 ctx l c cs)
  show ?case
  proof (cases "c \<le> l + 2 * ctx + 1")
    case True
    with 2 obtain us where "c \<le> l'" "cs = us @ rest" "list_all (\<lambda>c. c \<le> l') us" "l' \<in> set (c # us)"
      "list_all (\<lambda>c. l' + 2 * ctx + 1 < c) rest" by (auto simp: less_imp_le)
    moreover have "l < c" using 2(3) by simp
    ultimately show ?thesis by (intro conjI exI [of _ "c # us"]) auto
  next
    case False
    with 2(2) have "l' = l" "rest = c # cs" by simp_all
    with 2(3) False show ?thesis by (auto simp: list_all_iff not_le intro: less_trans)
  qed
qed auto

lemma count_between:
  assumes "p \<le> q" "list_all is_keep (drop p (take q s))" "q \<le> length s"
  shows "count_a (take q s) = count_a (take p s) + (q - p)" "count_b (take q s) = count_b (take p s) + (q - p)"
proof -
  have "take q s = take p s @ drop p (take q s)" using assms(1) by (metis append_take_drop_id min_absorb1 take_take)
  moreover have "length (drop p (take q s)) = q - p" using assms(3) by simp
  ultimately show "count_a (take q s) = count_a (take p s) + (q - p)" "count_b (take q s) = count_b (take p s) + (q - p)"
    using count_keeps [OF assms(2)] by (metis count_simps(5), metis count_simps(6))
qed

definition changes_from :: "edit list \<Rightarrow> nat \<Rightarrow> nat list \<Rightarrow> bool" where
  "changes_from s p cs = (sorted_wrt (<) cs \<and> (\<forall>i. i \<in> set cs \<longleftrightarrow> p \<le> i \<and> i < length s \<and> \<not> is_keep (s ! i)))"

lemma changes_from_gap: "changes_from s p cs \<Longrightarrow> \<forall>c \<in> set cs. q \<le> c \<Longrightarrow> list_all is_keep (drop p (take q s))"
proof -
  assume cs: "changes_from s p cs" "\<forall>c \<in> set cs. q \<le> c"
  have "is_keep (s ! i)" if "p \<le> i" "i < q" "i < length s" for i
    using cs that unfolding changes_from_def by (meson not_le)
  then show ?thesis by (cases "p \<le> length (take q s)") (auto simp: list_all_length)
qed

lemma not_marker_hunks: "\<not> marker_next (hunks_of ctx a b full cs)"
proof (cases cs)
  case (Cons c cs')
  obtain l rest where "run_end ctx c cs' = (l, rest)" by fastforce
  with Cons header_line_not_marker show ?thesis by (auto simp: marker_next_def hunk_of_def Let_def)
qed (simp add: marker_next_def)

lemma apply_hunks:
  assumes ok: "lines_ok a" "lines_ok b" and small: "length (tl_lines a) < 2 ^ 40" "length (tl_lines b) < 2 ^ 40"
    and full: "edits (Keys a) (Keys b) 0 0 full"
  shows "changes_from full p cs \<Longrightarrow> p \<le> length full \<Longrightarrow> cs = [] \<or> p = 0 \<or> p + ctx \<le> hd cs \<Longrightarrow>
    patched a b (count_a (take p full)) (count_b (take p full)) st \<Longrightarrow>
    \<exists>q st'. apply_loop a (hunks_of ctx a b full cs) saw st = Inr st' \<and> q \<le> length full \<and> list_all is_keep (drop q full)
      \<and> patched a b (count_a (take q full)) (count_b (take q full)) st'"
proof (induction "length cs" arbitrary: cs p st saw rule: less_induct)
  case (less cs')
  show ?case
  proof (cases cs')
  case Nil
  then have "list_all is_keep (drop p full)" using less.prems(1) changes_from_gap [of full p "[]" "length full"] by simp
  with Nil less.prems show ?thesis by auto
next
  case (Cons c cs)
  note prems = less.prems [unfolded Cons]
  obtain l rest where run: "run_end ctx c cs = (l, rest)" by fastforce
  have sorted: "sorted_wrt (<) (c # cs)" and mem: "\<And>i. i \<in> set (c # cs) \<longleftrightarrow> p \<le> i \<and> i < length full \<and> \<not> is_keep (full ! i)"
    using prems(1) unfolding changes_from_def by blast+
  from run_end_spec [OF run sorted] obtain us where
    us: "c \<le> l" "cs = us @ rest" "list_all (\<lambda>c. c \<le> l) us" "l \<in> set (c # us)" "list_all (\<lambda>c. l + 2 * ctx + 1 < c) rest" by blast
  let ?b_at = "if c > ctx then c - ctx else 0" and ?e_at = "min (length full) (l + ctx + 1)"
  have l: "l < length full" using us(2,4) mem [of l] by auto
  have c: "p \<le> c" "c < length full" using mem [of c] by auto
  have p: "p \<le> ?b_at" using prems(3) c by auto
  have be: "?b_at \<le> ?e_at" using us(1) l by auto
  let ?gap = "drop p (take ?b_at full)" and ?inside = "drop ?b_at (take ?e_at full)"
  have gap: "list_all is_keep ?gap"
    by (rule changes_from_gap [OF prems(1)]) (use sorted in auto)
  have len_gap: "length ?gap = ?b_at - p" using c by auto
  have parts: "drop p full = ?gap @ ?inside @ drop ?e_at full"
  proof -
    have "drop p full = ?gap @ drop ?b_at full"
      using p by (metis append_take_drop_id drop_drop drop_take le_add_diff_inverse2)
    moreover have "drop ?b_at full = ?inside @ drop ?e_at full"
      using be by (metis append_take_drop_id drop_drop drop_take le_add_diff_inverse2)
    ultimately show ?thesis by simp
  qed
  have at_begin: "count_a (take ?b_at full) = count_a (take p full) + length ?gap"
    "count_b (take ?b_at full) = count_b (take p full) + length ?gap"
    using count_between [OF p gap] c len_gap by auto
  have "take ?e_at full = take ?b_at full @ ?inside" using be by (metis append_take_drop_id min_absorb1 take_take)
  then have at_end: "count_a (take ?e_at full) = count_a (take ?b_at full) + count_a ?inside"
    "count_b (take ?e_at full) = count_b (take ?b_at full) + count_b ?inside"
    by (metis count_simps(5), metis count_simps(6))
  have script: "edits (Keys a) (Keys b) (count_a (take p full)) (count_b (take p full)) (?gap @ ?inside @ drop ?e_at full)"
    using edits_drop [OF full, of p] unfolding parts by simp
  from apply_hunk [OF ok small script gap prems(4) not_marker_hunks [of ctx a b full rest], of saw]
  obtain st' where st': "apply_loop a (hunk_of a b (count_a (take ?b_at full)) (count_b (take ?b_at full)) ?inside @ hunks_of ctx a b full rest) saw st
      = apply_loop a (hunks_of ctx a b full rest) True st'"
    "patched a b (count_a (take ?e_at full)) (count_b (take ?e_at full)) st'"
    unfolding at_begin at_end by blast
  have later: "\<forall>c \<in> set rest. ?e_at + ctx \<le> c" using us(5) by (auto simp: list_all_iff)
  have "changes_from full ?e_at rest"
    unfolding changes_from_def
  proof (intro conjI allI)
    show "sorted_wrt (<) rest" using sorted us(2) by (simp add: sorted_wrt_append)
    fix i
    show "i \<in> set rest \<longleftrightarrow> ?e_at \<le> i \<and> i < length full \<and> \<not> is_keep (full ! i)"
      using mem [of i] us(1-3) later p be by (auto simp: list_all_iff)
  qed
  moreover have "length rest < length cs'" using us(2) Cons by simp
  ultimately obtain q st'' where "apply_loop a (hunks_of ctx a b full rest) True st' = Inr st''" "q \<le> length full"
    "list_all is_keep (drop q full)" "patched a b (count_a (take q full)) (count_b (take q full)) st''"
    using less.hyps [of rest ?e_at st' True] st'(2) later by (cases rest) auto
  with st'(1) run Cons show ?thesis by (auto simp: Let_def)
  qed
qed

section \<open>The script of a whole text\<close>

lemma edits_keeps:
  assumes "\<And>i. i < n \<Longrightarrow> a ! (x + i) = b ! (y + i)" "x + n \<le> length a" "y + n \<le> length b"
  shows "edits a b (x + n) (y + n) rest \<Longrightarrow> edits a b x y (map (\<lambda>i. Keep (x + i)) [0..<n] @ rest)"
  using assms
proof (induction n arbitrary: rest)
  case (Suc n)
  then have "edits a b (x + n) (y + n) (Keep (x + n) # rest)" by simp
  with Suc show ?case by simp
qed simp

lemma edits_frame:
  assumes "edits u v x y s" "length pre = h" "length pre' = h" "edits (pre @ u @ suf) (pre' @ v @ suf) (h + length u) (h + length v) rest"
  shows "edits (pre @ u @ suf) (pre' @ v @ suf) (x + h) (y + h) (map (shift h) s @ rest)"
  using assms(1)
proof (induction s arbitrary: x y)
  case Nil
  with assms(4) show ?case by (simp add: add.commute)
next
  case (Cons e s)
  show ?case
  proof (cases e)
    case (Keep i)
    with Cons.IH [of "x + 1" "y + 1"] Cons.prems assms(2,3) show ?thesis by (auto simp: nth_append add.commute)
  next
    case (Del i)
    with Cons.IH [of "x + 1" y] Cons.prems assms(2,3) show ?thesis by (auto simp: nth_append add.commute)
  next
    case (Ins i)
    with Cons.IH [of x "y + 1"] Cons.prems assms(2,3) show ?thesis by (auto simp: nth_append add.commute)
  qed
qed

lemma common_prefix_take:
  "common_prefix xs ys \<le> length xs \<and> common_prefix xs ys \<le> length ys \<and> take (common_prefix xs ys) xs = take (common_prefix xs ys) ys"
  by (induction xs ys rule: common_prefix.induct) auto

lemma cut_common:
  assumes "h = common_prefix ka kb" "t = common_prefix (rev (drop h ka)) (rev (drop h kb))"
  obtains pre suf where "ka = pre @ take (length ka - h - t) (drop h ka) @ suf" "kb = pre @ take (length kb - h - t) (drop h kb) @ suf"
    "length pre = h" "length suf = t"
proof -
  let ?pre = "take h ka" and ?suf = "rev (take t (rev (drop h ka)))"
  have h: "h \<le> length ka" "h \<le> length kb" "take h ka = take h kb" using common_prefix_take [of ka kb] assms(1) by auto
  have t: "t \<le> length ka - h" "t \<le> length kb - h" "take t (rev (drop h ka)) = take t (rev (drop h kb))"
    using common_prefix_take [of "rev (drop h ka)" "rev (drop h kb)"] assms(2) by auto
  have split: "drop h k = take (length k - h - t) (drop h k) @ rev (take t (rev (drop h k)))" if "t \<le> length k - h" for k :: "'a list"
  proof -
    have "rev (take t (rev (drop h k))) = drop (length k - h - t) (drop h k)"
      using that by (simp only: take_rev rev_rev_ident length_drop)
    then show ?thesis by (simp only: append_take_drop_id)
  qed
  show ?thesis
  proof (rule that)
    show "ka = ?pre @ take (length ka - h - t) (drop h ka) @ ?suf" using split [OF t(1)] by (metis append_take_drop_id)
    show "kb = ?pre @ take (length kb - h - t) (drop h kb) @ ?suf" using split [OF t(2)] h(3) t(3) by (metis append_take_drop_id)
  qed (use h t in auto)
qed

lemma full_script_edits:
  assumes "h = common_prefix ka kb" "t = common_prefix (rev (drop h ka)) (rev (drop h kb))"
    and "edits (take (length ka - h - t) (drop h ka)) (take (length kb - h - t) (drop h kb)) 0 0 script"
  shows "edits ka kb 0 0 (full_script h t (length ka) script)"
proof -
  obtain pre suf where cut: "ka = pre @ take (length ka - h - t) (drop h ka) @ suf" "kb = pre @ take (length kb - h - t) (drop h kb) @ suf"
    "length pre = h" "length suf = t" by (rule cut_common [OF assms(1,2)])
  let ?u = "take (length ka - h - t) (drop h ka)" and ?v = "take (length kb - h - t) (drop h kb)"
  have len: "length ka = h + length ?u + t" "length kb = h + length ?v + t" using cut by (metis append.assoc length_append)+
  have "edits ka kb (h + length ?u) (h + length ?v) (map (\<lambda>i. Keep (h + length ?u + i)) [0..<t] @ [])"
  proof (rule edits_keeps)
    fix i assume "i < t"
    then show "ka ! (h + length ?u + i) = kb ! (h + length ?v + i)"
      using cut by (metis (no_types, lifting) append.assoc length_append nth_append_length_plus)
  qed (use len in auto)
  then have tail: "edits (pre @ ?u @ suf) (pre @ ?v @ suf) (h + length ?u) (h + length ?v) (map (\<lambda>i. Keep (length ka - t + i)) [0..<t])"
    using cut(1,2) len by simp
  from edits_frame [OF assms(3) cut(3) cut(3) tail]
  have "edits ka kb (0 + h) (0 + h) (map (shift h) script @ map (\<lambda>i. Keep (length ka - t + i)) [0..<t])"
    using cut(1,2) by simp
  then have "edits ka kb 0 0 (map (\<lambda>i. Keep (0 + i)) [0..<h] @ map (shift h) script @ map (\<lambda>i. Keep (length ka - t + i)) [0..<t])"
    by (intro edits_keeps) (use common_prefix_take [of ka kb] assms(1) in \<open>auto, metis nth_take\<close>)
  then show ?thesis by (simp add: full_script_def)
qed

section \<open>The round trip\<close>

lemma patched_all:
  assumes "lines_ok b" "patched a b x (length (tl_lines b)) st"
  shows "Join_text \<lparr>tl_lines = ps_result st, tl_final_newline = (if ps_result st = [] then True else \<not> ps_no_newline st)\<rparr> = Join_text b"
  using assms by (cases b) (auto simp: patched_def lines_ok_def)

lemma apply_rest:
  assumes ok: "lines_ok a" "lines_ok b" and full: "edits (Keys a) (Keys b) 0 0 full" and "list_all is_keep (drop q full)"
    and "patched a b (count_a (take q full)) (count_b (take q full)) st"
  shows "patched a b (length (tl_lines a)) (length (tl_lines b)) (take_until a (length (tl_lines a)) st)"
proof -
  have rest: "edits (Keys a) (Keys b) (count_a (take q full)) (count_b (take q full)) (drop q full @ [])"
    using edits_drop [OF full, of q] by simp
  from take_until_keeps [OF ok rest assms(4,5)] edits_after [OF rest] count_keeps [OF assms(4)]
  show ?thesis by simp
qed

lemma start_state: "patched a b 0 0 \<lparr>ps_src_at = 0, ps_result = [], ps_no_newline = n\<rparr>"
  by (simp add: patched_def)

lemma Apply_lines:
  assumes "list_all (\<lambda>l. LF \<notin> set l) ls" "lines_ok (Split to_text)"
    and "apply_loop (Split src) ls False \<lparr>ps_src_at = 0, ps_result = [], ps_no_newline = \<not> tl_final_newline (Split src)\<rparr> = Inr st"
    and "patched (Split src) (Split to_text) x (length (tl_lines (Split to_text))) (take_until (Split src) (length (tl_lines (Split src))) st)"
  shows "Apply src (with_newlines ls) = Inr to_text"
  using assms(3) patched_all [OF assms(2,4)] Split_lines [OF assms(1)] Join_Split [of to_text] by (simp add: Apply_def Let_def)

lemma hunks_of_free:
  assumes "lines_ok a" "lines_ok b" "edits (Keys a) (Keys b) 0 0 full"
  shows "list_all (\<lambda>l. LF \<notin> set l) (hunks_of ctx a b full cs)"
proof (induction "length cs" arbitrary: cs rule: less_induct)
  case less
  show ?case
  proof (cases cs)
    case (Cons c cs')
    obtain l rest where run: "run_end ctx c cs' = (l, rest)" by fastforce
    let ?b_at = "if c > ctx then c - ctx else 0" and ?e_at = "min (length full) (l + ctx + 1)"
    have "length rest < length cs" using run_end_shorter [of ctx c cs'] run Cons by simp
    from less [OF this] have later: "list_all (\<lambda>l. LF \<notin> set l) (hunks_of ctx a b full rest)" by this
    have "drop ?b_at full = drop ?b_at (take ?e_at full) @ drop (?e_at - ?b_at) (drop ?b_at full)"
      by (simp only: drop_take append_take_drop_id)
    then have "edits (Keys a) (Keys b) (count_a (take ?b_at full)) (count_b (take ?b_at full))
        (drop ?b_at (take ?e_at full) @ drop (?e_at - ?b_at) (drop ?b_at full))"
      using edits_drop [OF assms(3), of ?b_at] by simp
    from edit_lines_free [OF assms(1,2) this] have "list_all (\<lambda>l. LF \<notin> set l) (concat (map (edit_lines a b) (drop ?b_at (take ?e_at full))))"
      by simp
    with later run Cons header_line_free show ?thesis by (simp add: Let_def hunk_of_def)
  qed simp
qed

lemma Apply_hunks:
  assumes a: "a = Split from_text" and b: "b = Split to_text" and full: "edits (Keys a) (Keys b) 0 0 full"
    and small: "length (tl_lines a) < 2 ^ 40" "length (tl_lines b) < 2 ^ 40"
    and cs: "cs = filter (\<lambda>i. \<not> is_keep (full ! i)) [0..<length full]"
  shows "Apply from_text (hunks ctx a b full cs) = Inr to_text"
proof -
  have ok: "lines_ok a" "lines_ok b" unfolding a b by (rule lines_ok_Split)+
  have "changes_from full 0 cs" unfolding changes_from_def cs
    by (intro conjI sorted_wrt_filter) (auto simp: sorted_wrt_upt)
  from apply_hunks [OF ok small full this, of ctx _ False] start_state [of a b]
  obtain q st where "apply_loop a (hunks_of ctx a b full cs) False \<lparr>ps_src_at = 0, ps_result = [], ps_no_newline = \<not> tl_final_newline a\<rparr> = Inr st"
    and keep: "list_all is_keep (drop q full)" "patched a b (count_a (take q full)) (count_b (take q full)) st" by fastforce
  moreover have "patched a b (length (tl_lines a)) (length (tl_lines b)) (take_until a (length (tl_lines a)) st)"
    by (rule apply_rest [OF ok full keep])
  ultimately show ?thesis
    unfolding hunks_hunks_of using Apply_lines [OF hunks_of_free [OF ok full]] ok a b by blast
qed

lemma WholeFileDiff_script:
  "edits ka kb x y (map Del [x..<length ka] @ map Ins [y..<length kb]) \<longleftrightarrow> x \<le> length ka \<and> y \<le> length kb"
proof (induction "length ka - x" arbitrary: x)
  case 0
  have ins: "edits ka kb (length ka) y (map Ins [y..<length kb]) \<longleftrightarrow> y \<le> length kb" for y
    by (induction "length kb - y" arbitrary: y) (auto simp: upt_rec)
  from 0 show ?case
    using ins by (cases "x = length ka") (auto dest: edits_cost)
next
  case (Suc n)
  then show ?case by (simp add: upt_rec [of x]) (metis Suc_diff_Suc Suc_leI diff_Suc_Suc zero_less_Suc zero_less_diff le_eq_less_or_eq nat.inject)
qed

lemma Apply_WholeFileDiff:
  assumes a: "a = Split from_text" and b: "b = Split to_text"
    and small: "length (tl_lines a) < 2 ^ 40" "length (tl_lines b) < 2 ^ 40"
  shows "Apply from_text (WholeFileDiff a b) = Inr to_text"
proof -
  let ?full = "map Del [0..<length (tl_lines a)] @ map Ins [0..<length (tl_lines b)]"
  have ok: "lines_ok a" "lines_ok b" unfolding a b by (rule lines_ok_Split)+
  have full: "edits (Keys a) (Keys b) 0 0 ([] @ ?full @ [])" using WholeFileDiff_script [of "Keys a" "Keys b" 0 0] by simp
  have counts: "count_a ?full = length (tl_lines a)" "count_b ?full = length (tl_lines b)"
    by (simp_all add: count_a_def count_b_def filter_map comp_def)
  have lines: "WholeFileDiff a b = with_newlines (hunk_of a b 0 0 ?full)"
    using counts emit_edits_lines [of a b ?full] by (simp add: WholeFileDiff_def hunk_of_def HunkHeader_line)
  have free: "list_all (\<lambda>l. LF \<notin> set l) (hunk_of a b 0 0 ?full)"
    using edit_lines_free [OF ok, of "Keys a" "Keys b" 0 0 ?full "[]"] full header_line_free by (simp add: hunk_of_def)
  from apply_hunk [OF ok small full _ start_state, of "[]" False] obtain st where
    st: "apply_loop a (hunk_of a b 0 0 ?full) False \<lparr>ps_src_at = 0, ps_result = [], ps_no_newline = \<not> tl_final_newline a\<rparr> = Inr st"
    "patched a b (length (tl_lines a)) (length (tl_lines b)) st" using counts by (auto simp: marker_next_def)
  moreover have "take_until a (length (tl_lines a)) st = st" using st(2) by (subst take_until.simps) (simp add: patched_def)
  ultimately show ?thesis unfolding lines using Apply_lines [OF free] ok a b by metis
qed

lemma Apply_empty: "Apply s [] = Inr s"
proof -
  have "patched (Split s) (Split s) 0 0 \<lparr>ps_src_at = 0, ps_result = [], ps_no_newline = \<not> tl_final_newline (Split s)\<rparr>"
    by (rule start_state)
  moreover have "edits (Keys (Split s)) (Keys (Split s)) 0 0 (map (\<lambda>i. Keep (0 + i)) [0..<length (tl_lines (Split s))] @ [])"
    by (intro edits_keeps) auto
  ultimately have "patched (Split s) (Split s) (length (tl_lines (Split s))) (length (tl_lines (Split s)))
      (take_until (Split s) (length (tl_lines (Split s))) \<lparr>ps_src_at = 0, ps_result = [], ps_no_newline = \<not> tl_final_newline (Split s)\<rparr>)"
    using take_until_keeps [OF lines_ok_Split lines_ok_Split] by (fastforce simp: list_all_iff)
  from Apply_lines [OF _ lines_ok_Split _ this, of "[]"] show ?thesis by simp
qed

lemma Apply_Unified_any:
  assumes small: "length (tl_lines (Split from_text)) < 2 ^ 40" "length (tl_lines (Split to_text)) < 2 ^ 40"
  shows "Apply from_text (Unified from_text to_text ctxlen max_lines max_edits) = Inr to_text"
proof (cases "from_text = to_text")
  case True
  then show ?thesis by (simp add: Unified_def Apply_empty)
next
  case False
  let ?a = "Split from_text" and ?b = "Split to_text"
  let ?h = "common_prefix (Keys ?a) (Keys ?b)"
  let ?t = "common_prefix (rev (drop ?h (Keys ?a))) (rev (drop ?h (Keys ?b)))"
  let ?u = "take (length (Keys ?a) - ?h - ?t) (drop ?h (Keys ?a))" and ?v = "take (length (Keys ?b) - ?h - ?t) (drop ?h (Keys ?b))"
  have whole: "Apply from_text (WholeFileDiff ?a ?b) = Inr to_text" by (rule Apply_WholeFileDiff [OF refl refl small])
  show ?thesis
  proof (cases "length (tl_lines ?a) > max_lines \<or> length (tl_lines ?b) > max_lines \<or> MyersScript ?u ?v max_edits = None")
    case True
    with whole False show ?thesis by (auto simp: Unified_def Let_def)
  next
    case fits: False
    then obtain script where script: "MyersScript ?u ?v max_edits = Some script" by blast
    with MyersScript_spec [of ?u ?v max_edits] have "edits ?u ?v 0 0 script" by simp
    from full_script_edits [OF refl refl this]
    have "edits (Keys ?a) (Keys ?b) 0 0 (full_script ?h ?t (length (tl_lines ?a)) script)" by simp
    from Apply_hunks [OF refl refl this small refl] fits False script show ?thesis by (simp add: Unified_def Let_def)
  qed
qed

text \<open>C10. Patches are exact: whatever two texts, context and bounds, the patch \<open>Unified\<close> emits for them applies
  to the first and gives the second back byte for byte, a missing final newline included, and it is
  empty only when the texts are equal. (Line numbers above \<open>2 ^ 40\<close> are refused by the parser.)\<close>

theorem Apply_Unified:
  assumes "length (tl_lines (Split from_text)) < 2 ^ 40" "length (tl_lines (Split to_text)) < 2 ^ 40"
  shows "Apply from_text (Unified from_text to_text ctxlen max_lines max_edits) = Inr to_text
    \<and> (Unified from_text to_text ctxlen max_lines max_edits = [] \<longleftrightarrow> from_text = to_text)"
proof -
  have "Apply from_text (Unified from_text to_text ctxlen max_lines max_edits) = Inr to_text"
    by (rule Apply_Unified_any [OF assms])
  moreover have "Unified from_text from_text ctxlen max_lines max_edits = []" by (simp add: Unified_def)
  ultimately show ?thesis using Apply_empty [of from_text] by (metis sum.inject(2))
qed

theorem Apply_Unified_witness:
  "Apply ''one, two'' (Unified ''one, two'' (''one'' @ [LF] @ ''two'' @ [LF]) 3 20000 2000) = Inr (''one'' @ [LF] @ ''two'' @ [LF])"
  using Apply_Unified [of "''one, two''" "''one'' @ [LF] @ ''two'' @ [LF]" 3 20000 2000] by (simp add: Split_def)

end
