(* ===== verification/QM_Wiki.thy ===== *)
theory QM_Wiki
  imports QM_Messages QM_Diff
begin

text \<open>
  Wiki pages and their history: \<^verbatim>\<open>src/core/src/wiki.cpp\<close>. A page is a message whose euid is its name; its
  history is a second message, a multipart entity with one patch per revision, newest first, each of
  which takes the newer text back to the older one. The name of a part is a memo in base64 that
  tells which revision the patch leads to. The random boundary of a new history is an argument, as are the
  clock and the printed date. \<open>Upsert\<close> is the store's replacement of an object with this recorder in it.
\<close>

section \<open>Memos and names\<close>

record revision =
  rv_rev :: int
  rv_time :: int
  rv_author :: string
  rv_diff :: string

abbreviation (input) NUL :: char where "NUL \<equiv> CHR 0x00"
abbreviation (input) BAR :: char where "BAR \<equiv> CHR ''|''"

definition ParseMemo :: "string \<Rightarrow> (int \<times> int \<times> string) option" where
  "ParseMemo decoded =
     (let memo = rev (dropWhile (\<lambda>c. c = NUL) (rev decoded)) in
      case split_on BAR memo of
        rv # others \<Rightarrow>
          (if others = [] \<or> rv = [] \<or> list_ex (\<lambda>c. \<not> isdigit c) rv then None
           else case others of
             ts # author # _ \<Rightarrow>
               Some (fst (strtoll rv), if ts \<noteq> [] \<and> list_all isdigit ts then fst (strtoll ts) else 0, author)
           | _ \<Rightarrow> Some (fst (strtoll rv), 0, []))
      | [] \<Rightarrow> None)"

definition EncodeMemo :: "int \<Rightarrow> int \<Rightarrow> string \<Rightarrow> string" where
  "EncodeMemo rv timestamp author = Base64Encode (to_string rv @ ''|'' @ to_string timestamp @ ''|'' @ author @ ''|'' @ [NUL])"

definition BoundaryOf :: "string \<Rightarrow> string" where
  "BoundaryOf raw =
     (let limit = (case cut_sub [LF, LF] raw of None \<Rightarrow> length raw | Some (head, _) \<Rightarrow> length head);
          head = Lower (take limit raw) in
      case find_sub_from ''content-type:'' head 0 of None \<Rightarrow> []
      | Some ct \<Rightarrow>
         (case find_sub_from ''boundary'' head ct of None \<Rightarrow> []
          | Some b \<Rightarrow>
             (case find_from CHR ''='' head b of None \<Rightarrow> []
              | Some eq \<Rightarrow>
                  takeWhile (\<lambda>c. c \<noteq> DQUOTE \<and> c \<noteq> CHR '';'' \<and> c \<noteq> LF \<and> c \<noteq> CR)
                    (dropWhile (\<lambda>c. c = CHR '' '' \<or> c = DQUOTE) (drop (eq + 1) (take limit raw))))))"

definition NormalizeName :: "string \<Rightarrow> string" where
  "NormalizeName name =
     (let out = map (\<lambda>c. if byte c < 0x20 \<or> byte c > 0x7F then CHR ''_'' else tolower c) name;
          out = rev (dropWhile (\<lambda>c. c = CHR '' '') (rev (dropWhile (\<lambda>c. c = CHR '' '') out)))
      in if out = [] then ''home'' else out)"

definition HistoryEuid :: "string \<Rightarrow> string" where
  "HistoryEuid page_euid = page_euid @ ''_HISTORY_''"

section \<open>Reading a history\<close>

definition kMaxRevisions :: nat where
  "kMaxRevisions = 2000"

definition revision_of :: "mime_entity \<Rightarrow> revision list" where
  "revision_of child =
     (if me_filename child = [] then []
      else case Base64Decode (me_filename child) of
        (False, _) \<Rightarrow> []
      | (True, decoded) \<Rightarrow>
         (case ParseMemo decoded of None \<Rightarrow> []
          | Some (rv, ts, author) \<Rightarrow>
             [\<lparr>rv_rev = rv, rv_time = ts, rv_author = author,
               rv_diff = (if me_body_decoded child = [] then me_body_raw child else me_body_decoded child)\<rparr>]))"

definition parse_history :: "string \<Rightarrow> revision list" where
  "parse_history raw = take kMaxRevisions (concat (map revision_of (me_children (ParseEntity raw))))"

definition History :: "store \<Rightarrow> int \<Rightarrow> string \<Rightarrow> revision list" where
  "History st room page_euid =
     (let n = FindByEuid st room (HistoryEuid page_euid) in
      if n \<le> 0 then []
      else case LoadMessage st n of None \<Rightarrow> []
        | Some msg \<Rightarrow> if ms_raw msg = [] then [] else parse_history (ms_raw msg))"

fun walk_revisions :: "string \<Rightarrow> revision list \<Rightarrow> int \<Rightarrow> string + string" where
  "walk_revisions raw [] rv = Inl (''There is no revision '' @ to_string rv @ '' of that page.'')"
| "walk_revisions raw (r # rs) rv =
     (case Apply raw (rv_diff r) of
        Inl e \<Rightarrow> Inl (''Revision '' @ to_string rv @ '' could not be reconstructed: '' @ e)
      | Inr older \<Rightarrow> if rv_rev r = rv then Inr older else walk_revisions older rs rv)"

definition RevisionRaw :: "store \<Rightarrow> int \<Rightarrow> string \<Rightarrow> int \<Rightarrow> string + string" where
  "RevisionRaw st room page_euid rv =
     (let current = FindByEuid st room page_euid in
      if current \<le> 0 then Inl ''There is no page by that name.''
      else case LoadMessage st current of
        None \<Rightarrow> Inl ''The page could not be read.''
      | Some msg \<Rightarrow>
          if rv = 0 \<or> rv = current then Inr (ms_raw msg)
          else walk_revisions (ms_raw msg) (History st room page_euid) rv)"

section \<open>Writing it\<close>

definition kPreamble :: string where
  "kPreamble = ''This is a Citadel wiki history encoded as multipart MIME.'' @ [LF]
     @ ''Each part is comprised of a diff script representing one change set.'' @ [LF]"

definition page_patch :: "string \<Rightarrow> string \<Rightarrow> string" where
  "page_patch new_raw old_raw = Unified new_raw old_raw 3 20000 2000"

text \<open>The boundary and the tail a history goes on with: from the first delimiter on, or a new one's end.\<close>

definition history_tail :: "string \<Rightarrow> string \<Rightarrow> string \<times> string" where
  "history_tail fresh old_history =
     (let boundary = BoundaryOf old_history;
          tail = (if boundary = [] then []
                  else case (cut_sub (''--'' @ boundary) old_history, cut_sub (''--'' @ boundary @ ''--'') old_history) of
                    (Some (before_it, _), Some _) \<Rightarrow> drop (length before_it) old_history
                  | _ \<Rightarrow> [])
      in if tail = [] then (fresh, ''--'' @ fresh @ ''--'' @ [LF]) else (boundary, tail))"

definition history_body :: "string \<Rightarrow> string \<Rightarrow> string \<Rightarrow> string \<Rightarrow> string" where
  "history_body boundary memo patch tail =
     ''Content-type: multipart/mixed; boundary='' @ [DQUOTE] @ boundary @ [DQUOTE, LF, LF] @ kPreamble @ [LF]
     @ ''--'' @ boundary @ [LF] @ ''Content-type: text/x-diff'' @ [LF]
     @ ''Content-disposition: attachment; filename='' @ [DQUOTE] @ memo @ [DQUOTE, LF] @ [LF]
     @ patch @ (if patch \<noteq> [] \<and> last patch \<noteq> LF then [LF] else []) @ tail"

definition history_msg :: "int \<Rightarrow> string \<Rightarrow> string \<Rightarrow> message" where
  "history_msg now hist_euid body =
     \<lparr>ms_num = 0, ms_euid = hist_euid, ms_author = ''Citadel'', ms_author_usernum = 0, ms_recipient = [], ms_node = [],
      ms_time = now, ms_subject = hist_euid, ms_format = 4, ms_references = [], ms_origin_room = [], ms_raw = body\<rparr>"

text \<open>The code reaches itself through the store, which asks for a revision again; for a history it does not,
  so what stands for the inner call does not matter (\<open>RecordRevision_recursive\<close>).\<close>

definition never_called :: "int \<Rightarrow> string \<Rightarrow> string \<Rightarrow> store \<Rightarrow> record_result \<times> string \<times> store" where
  "never_called room page raw st = (NoPrevious, [], st)"

definition RecordRevision ::
  "string \<Rightarrow> (int \<Rightarrow> string) \<Rightarrow> int \<Rightarrow> int \<Rightarrow> string \<Rightarrow> string \<Rightarrow> store \<Rightarrow> record_result \<times> string \<times> store" where
  "RecordRevision fresh date now room page_euid new_raw st =
     (if page_euid = [] \<or> IsHistoryEuid page_euid then (NoPrevious, [], st)
      else
       (let old_num = FindByEuid st room page_euid in
        if old_num \<le> 0 then (NoPrevious, [], st)
        else case LoadMessage st old_num of
          None \<Rightarrow> (NoPrevious, [], st)
        | Some old_msg \<Rightarrow>
           (if ms_raw old_msg = new_raw then (Unchanged, [], st)
            else
             (let patch = page_patch new_raw (ms_raw old_msg) in
              if patch = [] then (Unchanged, [], st)
              else
               (let hist_num = FindByEuid st room (HistoryEuid page_euid);
                    old_history = (if hist_num > 0 then (case LoadMessage st hist_num of None \<Rightarrow> [] | Some h \<Rightarrow> ms_raw h) else []);
                    (boundary, tail) = history_tail fresh old_history;
                    body = history_body boundary (EncodeMemo old_num (ms_time old_msg) (ms_author old_msg)) patch tail
                in case UpsertByEuid never_called date now (history_msg now (HistoryEuid page_euid) body) room st of
                     (Inl e, st) \<Rightarrow> (RecordError, if e = [] then ''The page history could not be written.'' else e, st)
                   | (Inr _, st) \<Rightarrow> (Recorded, [], st))))))"

definition Upsert :: "string \<Rightarrow> (int \<Rightarrow> string) \<Rightarrow> int \<Rightarrow> message \<Rightarrow> int \<Rightarrow> store \<Rightarrow> (string + int) \<times> store" where
  "Upsert fresh date now msg room st = UpsertByEuid (RecordRevision fresh date now) date now msg room st"

section \<open>Listing and deleting\<close>

record page_entry =
  pg_euid :: string
  pg_title :: string
  pg_num :: int
  pg_time :: int
  pg_author :: string

definition page_of :: "msg_row \<Rightarrow> page_entry" where
  "page_of m = \<lparr>pg_euid = ms_euid m, pg_title = (if ms_subject m = [] then ms_euid m else ms_subject m),
     pg_num = ms_num m, pg_time = ms_time m, pg_author = ms_author m\<rparr>"

definition ListPages :: "store \<Rightarrow> int \<Rightarrow> page_entry list" where
  "ListPages st room =
     map page_of (filter (\<lambda>m. \<not> IsHistoryEuid (ms_euid m))
       (sort_key (\<lambda>m. Lower (ms_euid m))
         (filter (\<lambda>m. (room, ms_num m) \<in> set (room_msgs st) \<and> ms_euid m \<noteq> []) (messages st))))"

definition DeletePage :: "int \<Rightarrow> int \<Rightarrow> string \<Rightarrow> store \<Rightarrow> (string + unit) \<times> store" where
  "DeletePage now room page_euid st =
     (let n = FindByEuid st room page_euid in
      if n \<le> 0 then (Inl ''There is no page by that name.'', st)
      else case DeleteMessage now room n st of
        (Inl e, st) \<Rightarrow> (Inl e, st)
      | (Inr _, st) \<Rightarrow>
         (let hist = FindByEuid st room (HistoryEuid page_euid) in
          (Inr (), if hist > 0 then snd (DeleteMessage now room hist st) else st)))"

section \<open>Where a pattern occurs\<close>

lemma cut_sub_occurs: "cut_sub pat (u @ pat @ v) \<noteq> None"
proof (induction u)
  case Nil
  then show ?case using cut_sub_here [of pat v] by simp
qed auto

lemma cut_sub_None: "cut_sub pat s = None \<longleftrightarrow> (\<forall>u v. s \<noteq> u @ pat @ v)"
proof (cases "cut_sub pat s")
  case None
  then show ?thesis using cut_sub_occurs [of pat] by metis
next
  case (Some p)
  then show ?thesis using cut_sub_Some [of pat s] by (cases p) auto
qed

text \<open>A text with a separator that the pattern lacks, too soon for the pattern to fit before it.\<close>

lemma cut_sub_short:
  assumes "d \<notin> set pat" "length u < length pat"
  shows "cut_sub pat (u @ d # s) = map_option (apfst ((@) (u @ [d]))) (cut_sub pat s)"
  using assms(2)
proof (induction u)
  case Nil
  have "take (length pat) (d # s) \<noteq> pat" using assms(1) Nil by (cases pat) auto
  then show ?case by (cases "cut_sub pat s") (auto simp: apfst_def map_prod_def)
next
  case (Cons c u)
  have "d \<in> set (take (length pat) ((c # u) @ d # s))"
    using Cons.prems by (cases pat) (simp_all add: take_append take_Cons')
  with assms(1) have "take (length pat) (c # u @ d # s) \<noteq> pat" by (metis append_Cons)
  with Cons show ?case by (cases "cut_sub pat s") (auto simp: apfst_def map_prod_def)
qed

fun lf_cr :: "string \<Rightarrow> bool" where
  "lf_cr (c # d # s) = (c = LF \<and> d = CR \<or> lf_cr (d # s))"
| "lf_cr _ = False"

lemma lf_cr_occurs: "lf_cr (u @ LF # CR # v)"
proof (induction u)
  case (Cons c u)
  then show ?case by (cases u) auto
qed simp

lemma lf_cr_line: "LF \<notin> set l \<Longrightarrow> lf_cr (l @ LF # s) = (lf_cr s \<or> s \<noteq> [] \<and> hd s = CR)"
proof (induction l)
  case Nil
  then show ?case by (cases s) auto
next
  case (Cons c l)
  then show ?case by (cases l) auto
qed

definition line_start_ok :: "string \<Rightarrow> bool" where
  "line_start_ok l = (LF \<notin> set l \<and> (l = [] \<or> hd l \<noteq> CR))"

lemma with_newlines_lf_cr:
  "list_all line_start_ok ls \<Longrightarrow> \<not> lf_cr (with_newlines ls) \<and> (ls = [] \<or> hd (with_newlines ls) \<noteq> CR)"
proof (induction ls)
  case (Cons l ls)
  then have l: "LF \<notin> set l" "l = [] \<or> hd l \<noteq> CR" by (auto simp: line_start_ok_def)
  have "\<not> lf_cr (l @ LF # with_newlines ls)" using Cons lf_cr_line [OF l(1), of "with_newlines ls"] by auto
  moreover have "hd (l @ LF # with_newlines ls) \<noteq> CR" using l by (cases l) auto
  ultimately show ?case by simp
qed simp

lemma SplitHeadersBody_lf:
  assumes "list_all plain_line ls" "ls \<noteq> []" "\<not> lf_cr (join_eol [LF] ls @ LF # LF # body)"
  shows "SplitHeadersBody (join_eol [LF] ls @ LF # LF # body) = (join_eol [LF] ls, body)"
proof -
  have "cut_sub (crlf @ crlf) (join_eol [LF] ls @ LF # LF # body) = None"
    using assms(3) lf_cr_occurs by (auto simp: cut_sub_None) (metis append.assoc append_Cons append_Nil)
  moreover have "cut_sub [LF, LF] (join_eol [LF] ls @ LF # LF # body) = Some (join_eol [LF] ls, body)"
    using assms(1,2)
  proof (induction ls)
    case (Cons l ls)
    then have l: "LF \<notin> set l" by (simp add: plain_line_def)
    note skip = cut_sub_skip [OF l, of "[LF]"]
    show ?case
    proof (cases "ls = []")
      case True
      then show ?thesis using skip [of "LF # LF # body"] by simp
    next
      case False
      then obtain m ms where ms: "ls = m # ms" "m \<noteq> []" "hd m \<noteq> LF"
        using Cons.prems by (cases ls) (auto simp: plain_line_def, metis hd_in_set)
      then obtain x xs where x: "join_eol [LF] ls @ LF # LF # body = x # xs" "x \<noteq> LF"
        by (cases m; cases ms) auto
      with Cons False skip [of "LF # x # xs"] show ?thesis by (simp add: join_eol_Cons)
    qed
  qed simp
  ultimately show ?thesis by (simp add: SplitHeadersBody_def)
qed

section \<open>The delimiters of a text of lines\<close>

lemma cut_sub_first: "cut_sub pat s = Some (u, v) \<Longrightarrow> r < length u \<Longrightarrow> take (length pat) (drop r s) \<noteq> pat"
proof (induction pat s arbitrary: u r rule: cut_sub.induct)
  case (2 pat c cs)
  show ?case
  proof (cases "take (length pat) (c # cs) = pat")
    case False
    with 2(2) obtain u' where "cut_sub pat cs = Some (u', v)" "u = c # u'" by (auto split: if_splits)
    with 2(1) [OF False this(1)] 2(3) False show ?thesis by (cases r) auto
  qed (use 2 in simp)
qed (simp split: if_splits)

lemma find_sub_from_first:
  assumes "take (length pat) (drop q s) = pat" "i \<le> q" "q \<le> length s"
  obtains p where "find_sub_from pat s i = Some p" "i \<le> p" "p \<le> q" "take (length pat) (drop p s) = pat"
proof -
  have "drop i s = take (q - i) (drop i s) @ pat @ drop (length pat) (drop q s)"
    using assms by (metis append_take_drop_id drop_drop le_add_diff_inverse2)
  then obtain u v where uv: "cut_sub pat (drop i s) = Some (u, v)"
    using cut_sub_occurs [of pat "take (q - i) (drop i s)" "drop (length pat) (drop q s)"]
    by (cases "cut_sub pat (drop i s)") auto
  have "\<not> q - i < length u"
    using cut_sub_first [OF uv, of "q - i"] assms by (auto simp: add.commute)
  moreover have "drop (i + length u) s = pat @ v"
    using cut_sub_Some [OF uv] by (metis add.commute append_eq_conv_conj drop_drop)
  then have "take (length pat) (drop (i + length u) s) = pat" by simp
  moreover have "i + length u \<le> q" using calculation(1) assms(2) by linarith
  ultimately show thesis using that [of "i + length u"] uv by (simp add: find_sub_from_def)
qed

definition at_delim :: "string \<Rightarrow> string \<Rightarrow> nat \<Rightarrow> bool" where
  "at_delim dash body p = ((p = 0 \<or> body ! (p - 1) = LF) \<and> take (length dash) (drop p body) = dash)"

lemma delimiters_next:
  assumes "LF \<notin> set dash" "dash \<noteq> []" "at_delim dash body q" "q < length body"
    and "i \<le> q" "\<And>p. i \<le> p \<Longrightarrow> p < q \<Longrightarrow> \<not> at_delim dash body p"
  shows "delimiters dash body i = (q, content_start body (q + length dash))
    # (if is_close_at body (q + length dash) then [] else delimiters dash body (content_start body (q + length dash)))"
  using assms(5,6)
proof (induction "q - i" arbitrary: i rule: less_induct)
  case less
  have q: "take (length dash) (drop q body) = dash" "q = 0 \<or> body ! (q - 1) = LF" using assms(3) by (auto simp: at_delim_def)
  from find_sub_from_first [OF q(1) less.prems(1)] assms(4) obtain p where
    p: "find_sub_from dash body i = Some p" "i \<le> p" "p \<le> q" "take (length dash) (drop p body) = dash" by auto
  show ?case
  proof (cases "p = q")
    case True
    then show ?thesis using assms(2) p(1) q(2) by (subst delimiters.simps) (simp add: Let_def)
  next
    case False
    then have "p < q" using p(3) by simp
    with less.prems(2) [OF p(2)] p(4) have mid: "\<not> (p = 0 \<or> body ! (p - 1) = LF)" by (auto simp: at_delim_def)
    have le: "p + length dash \<le> q"
    proof (rule ccontr)
      assume "\<not> p + length dash \<le> q"
      then have k: "q - 1 - p < length dash" using \<open>p < q\<close> by linarith
      have "dash ! (q - 1 - p) = take (length dash) (drop p body) ! (q - 1 - p)" by (simp add: p(4))
      also have "\<dots> = body ! (q - 1)" using k \<open>p < q\<close> assms(4) by simp
      also have "\<dots> = LF" using q(2) \<open>p < q\<close> by auto
      finally show False using assms(1) k by (metis nth_mem)
    qed
    have "0 < length dash" using assms(2) by simp
    then have "delimiters dash body (p + length dash) = (q, content_start body (q + length dash))
        # (if is_close_at body (q + length dash) then [] else delimiters dash body (content_start body (q + length dash)))"
      using le p(2) less.prems(2) \<open>p < q\<close> by (intro less.hyps) (linarith | simp)+
    then show ?thesis using assms(2) p(1) mid by (subst delimiters.simps) simp
  qed
qed

lemma take_line: "LF \<notin> set dash \<Longrightarrow> take (length dash) (l @ LF # s) = dash \<Longrightarrow> take (length dash) l = dash"
proof -
  assume *: "LF \<notin> set dash" "take (length dash) (l @ LF # s) = dash"
  have "length dash \<le> length l"
  proof (rule ccontr)
    assume "\<not> length dash \<le> length l"
    then have "LF \<in> set (take (length dash) (l @ LF # s))" by (cases "length dash - length l") auto
    with * show False by simp
  qed
  with *(2) show ?thesis by simp
qed

lemma at_delim_line:
  assumes "LF \<notin> set dash"
  shows "list_all (\<lambda>l. LF \<notin> set l) ls \<Longrightarrow> at_delim dash (with_newlines (pre @ ls @ post)) p \<Longrightarrow>
    length (with_newlines pre) \<le> p \<Longrightarrow> p < length (with_newlines (pre @ ls)) \<Longrightarrow> \<exists>l \<in> set ls. take (length dash) l = dash"
proof (induction ls arbitrary: pre)
  case (Cons l ls)
  let ?P = "length (with_newlines pre)"
  show ?case
  proof (cases "length (with_newlines (pre @ [l])) \<le> p")
    case True
    then show ?thesis using Cons.IH [of "pre @ [l]"] Cons.prems by auto
  next
    case False
    then obtain k where k: "p = ?P + k" "k \<le> length l"
      using Cons.prems(3) that [of "p - ?P"] by simp
    have body: "with_newlines (pre @ (l # ls) @ post) = with_newlines pre @ l @ LF # with_newlines (ls @ post)" by simp
    show ?thesis
    proof (cases k)
      case 0
      then have "take (length dash) (l @ LF # with_newlines (ls @ post)) = dash"
        using Cons.prems(2) k unfolding at_delim_def body by simp
      then show ?thesis using take_line [OF assms] by auto
    next
      case (Suc j)
      then have "(with_newlines pre @ l @ LF # with_newlines (ls @ post)) ! (p - 1) = l ! j"
        using k by (simp add: nth_append)
      then have "l ! j = LF" using Cons.prems(2) Suc k unfolding at_delim_def body by simp
      moreover have "j < length l" using k(2) Suc by simp
      ultimately show ?thesis using Cons.prems(1) by (auto simp: in_set_conv_nth)
    qed
  qed
qed simp

text \<open>From a line on, the next delimiter is the next line that starts with the dashes and the boundary.\<close>

lemma delimiters_lines:
  assumes "LF \<notin> set dash" "dash \<noteq> []" "list_all (\<lambda>l. LF \<notin> set l \<and> take (length dash) l \<noteq> dash) ls"
  shows "delimiters dash (with_newlines (pre @ ls @ (dash @ x) # post)) (length (with_newlines pre)) =
    (let body = with_newlines (pre @ ls @ (dash @ x) # post); q = length (with_newlines (pre @ ls)); start = content_start body (q + length dash)
     in (q, start) # (if is_close_at body (q + length dash) then [] else delimiters dash body start))"
proof -
  let ?body = "with_newlines (pre @ ls @ (dash @ x) # post)" and ?q = "length (with_newlines (pre @ ls))"
  have body: "?body = with_newlines (pre @ ls) @ dash @ x @ LF # with_newlines post" by simp
  have tail: "drop (length u) (u @ v) = v" for u v :: string by simp
  have "at_delim dash ?body ?q"
  proof -
    have "?q = 0 \<or> ?body ! (?q - 1) = LF"
    proof (cases "pre @ ls" rule: rev_cases)
      case (snoc ys y)
      then have "?q - 1 = length (with_newlines ys @ y)" "?body = (with_newlines ys @ y) @ LF # dash @ x @ LF # with_newlines post"
        unfolding body snoc by simp_all
      then show ?thesis by (simp only: nth_append_length) simp
    qed simp
    moreover have "drop ?q ?body = dash @ x @ LF # with_newlines post" unfolding body by (rule tail)
    ultimately show ?thesis by (simp add: at_delim_def)
  qed
  moreover have "?q < length ?body" unfolding body using assms(2) by simp
  moreover have "length (with_newlines pre) \<le> ?q" by simp
  moreover have "\<not> at_delim dash ?body p" if "length (with_newlines pre) \<le> p" "p < ?q" for p
    using at_delim_line [OF assms(1), of ls pre "(dash @ x) # post" p] assms(3) that by (auto simp: list_all_iff)
  ultimately show ?thesis unfolding Let_def by (intro delimiters_next [OF assms(1,2)])
qed

lemma open_delimiter:
  "\<not> is_close_at (u @ dash @ LF # s) (length u + length dash)"
  "content_start (u @ dash @ LF # s) (length u + length dash) = length (u @ dash @ [LF])"
proof -
  have at: "(u @ dash @ LF # s) ! (length u + length dash) = LF" by (metis append.assoc length_append nth_append_length)
  then show "\<not> is_close_at (u @ dash @ LF # s) (length u + length dash)" by (simp add: is_close_at_def)
  moreover have "drop (length u + length dash) (u @ dash @ LF # s) = LF # s" by simp
  ultimately show "content_start (u @ dash @ LF # s) (length u + length dash) = length (u @ dash @ [LF])"
    by (simp add: content_start_def line_end_def Let_def)
qed

lemma close_delimiter: "is_close_at (u @ dash @ CHR ''-'' # CHR ''-'' # s) (length u + length dash)"
proof -
  have "(u @ dash @ CHR ''-'' # CHR ''-'' # s) ! (length u + length dash) = CHR ''-''"
    "(u @ dash @ CHR ''-'' # CHR ''-'' # s) ! (length u + length dash + 1) = CHR ''-''"
    by (simp_all add: nth_append)
  then show ?thesis by (simp add: is_close_at_def)
qed

section \<open>The text of a history\<close>

definition boundary_ok :: "string \<Rightarrow> bool" where
  "boundary_ok b = (b \<noteq> [] \<and> list_all (\<lambda>c. isalnum c \<or> c = CHR ''-'') b)"

definition boundary_line :: "string \<Rightarrow> string" where
  "boundary_line b = ''Content-type: multipart/mixed; boundary='' @ DQUOTE # b @ [DQUOTE]"

definition memo_line :: "string \<Rightarrow> string" where
  "memo_line memo = ''Content-disposition: attachment; filename='' @ DQUOTE # memo @ [DQUOTE]"

definition preamble_lines :: "string list" where
  "preamble_lines = [''This is a Citadel wiki history encoded as multipart MIME.'',
     ''Each part is comprised of a diff script representing one change set.'', []]"

definition part_lines :: "string \<times> string list \<Rightarrow> string list" where
  "part_lines part = ''Content-type: text/x-diff'' # memo_line (fst part) # [] # snd part"

definition body_lines :: "string \<Rightarrow> (string \<times> string list) list \<Rightarrow> string list" where
  "body_lines b parts = concat (map (\<lambda>p. (''--'' @ b) # part_lines p) parts) @ [''--'' @ b @ ''--'']"

definition history_text :: "string \<Rightarrow> (string \<times> string list) list \<Rightarrow> string" where
  "history_text b parts = boundary_line b @ [LF, LF] @ with_newlines (preamble_lines @ body_lines b parts)"

text \<open>What a patch may hold for its part to be found again: no line that a boundary starts.\<close>

definition patch_line_ok :: "string \<Rightarrow> string \<Rightarrow> bool" where
  "patch_line_ok b l = (line_start_ok l \<and> take (length b + 2) l \<noteq> ''--'' @ b)"

definition part_ok :: "string \<Rightarrow> string \<times> string list \<Rightarrow> bool" where
  "part_ok b part = (quotable (fst part) \<and> fst part \<noteq> [] \<and> snd part \<noteq> [] \<and> list_all (patch_line_ok b) (snd part)
     \<and> last (snd part) \<noteq> [])"

lemma history_body_text:
  "pls \<noteq> [] \<Longrightarrow> history_body b memo (with_newlines pls) (with_newlines (body_lines b parts)) = history_text b ((memo, pls) # parts)"
proof -
  assume "pls \<noteq> []"
  then have "with_newlines pls \<noteq> []" "last (with_newlines pls) = LF" by (cases pls rule: rev_cases; simp)+
  then show ?thesis
    by (simp add: history_body_def history_text_def body_lines_def part_lines_def boundary_line_def memo_line_def
        preamble_lines_def kPreamble_def)
qed

text \<open>The parts between the delimiters.\<close>

lemma take_dash: "take (length (''--'' @ b)) l \<noteq> ''--'' @ b \<longleftrightarrow> take (length b + 2) l \<noteq> ''--'' @ b"
  by simp

lemma part_lines_ok: "part_ok b part \<Longrightarrow> list_all (\<lambda>l. LF \<notin> set l \<and> take (length (''--'' @ b)) l \<noteq> ''--'' @ b) (part_lines part)"
  by (auto simp: part_ok_def part_lines_def memo_line_def quotable_def patch_line_ok_def line_start_ok_def list_all_iff)

lemma boundary_no_LF: "boundary_ok b \<Longrightarrow> LF \<notin> set (''--'' @ b)"
  by (auto simp: boundary_ok_def list_all_iff isalnum_def isdigit_def isupper_def islower_def)

lemma between_parts:
  assumes "boundary_ok b"
  shows "list_all (\<lambda>l. LF \<notin> set l \<and> take (length (''--'' @ b)) l \<noteq> ''--'' @ b) content \<Longrightarrow> list_all (part_ok b) parts \<Longrightarrow>
    body = with_newlines (pre @ content @ body_lines b parts) \<Longrightarrow>
    between body ((q, length (with_newlines pre)) # delimiters (''--'' @ b) body (length (with_newlines pre)))
      = map (\<lambda>ls. trim_eol (with_newlines ls)) (content # map part_lines parts)"
proof (induction parts arbitrary: pre content q)
  case Nil
  have body: "body = with_newlines (pre @ content @ ((''--'' @ b) @ ''--'') # [])" using Nil.prems(3) by (simp add: body_lines_def)
  have "delimiters (''--'' @ b) body (length (with_newlines pre)) =
      (let q = length (with_newlines (pre @ content)); start = content_start body (q + length (''--'' @ b))
       in (q, start) # (if is_close_at body (q + length (''--'' @ b)) then [] else delimiters (''--'' @ b) body start))"
    using delimiters_lines [OF boundary_no_LF [OF assms] _ Nil.prems(1), of pre "''--''" "[]"]
    unfolding body [symmetric] by (simp add: Let_def)
  moreover have "is_close_at body (length (with_newlines (pre @ content)) + length (''--'' @ b))"
    using close_delimiter [of "with_newlines (pre @ content)" "''--'' @ b" "[LF]"] unfolding body by simp
  moreover have "substr body (length (with_newlines pre)) (length (with_newlines (pre @ content)) - length (with_newlines pre)) = with_newlines content"
    unfolding body by (simp add: substr_def)
  ultimately show ?case by (simp add: Let_def)
next
  case (Cons p parts)
  let ?next = "length (with_newlines (pre @ content))"
  have body: "body = with_newlines (pre @ content @ ((''--'' @ b) @ []) # part_lines p @ body_lines b parts)"
    using Cons.prems(3) by (simp add: body_lines_def)
  have split: "body = with_newlines (pre @ content) @ (''--'' @ b) @ LF # with_newlines (part_lines p @ body_lines b parts)"
    unfolding body by simp
  have "delimiters (''--'' @ b) body (length (with_newlines pre)) =
      (let start = content_start body (?next + length (''--'' @ b))
       in (?next, start) # (if is_close_at body (?next + length (''--'' @ b)) then [] else delimiters (''--'' @ b) body start))"
    using delimiters_lines [OF boundary_no_LF [OF assms] _ Cons.prems(1), of pre "[]" "part_lines p @ body_lines b parts"]
    unfolding body [symmetric] by (simp add: Let_def)
  moreover have "\<not> is_close_at body (?next + length (''--'' @ b))"
    unfolding split by (rule open_delimiter(1))
  moreover have "content_start body (?next + length (''--'' @ b)) = length (with_newlines (pre @ content @ [''--'' @ b]))"
    unfolding split open_delimiter(2) by simp
  ultimately have "delimiters (''--'' @ b) body (length (with_newlines pre)) =
      (?next, length (with_newlines (pre @ content @ [''--'' @ b])))
      # delimiters (''--'' @ b) body (length (with_newlines (pre @ content @ [''--'' @ b])))"
    by (simp only: Let_def if_False)
  moreover have "substr body (length (with_newlines pre)) (?next - length (with_newlines pre)) = with_newlines content"
    unfolding body by (simp add: substr_def)
  moreover have "between body ((?next, length (with_newlines (pre @ content @ [''--'' @ b])))
      # delimiters (''--'' @ b) body (length (with_newlines (pre @ content @ [''--'' @ b]))))
      = map (\<lambda>ls. trim_eol (with_newlines ls)) (part_lines p # map part_lines parts)"
    using Cons.prems body by (intro Cons.IH [OF part_lines_ok]) simp_all
  ultimately show ?case by simp
qed

section \<open>Histories are read back\<close>

lemma history_lines_start: "boundary_ok b \<Longrightarrow> list_all (part_ok b) parts \<Longrightarrow> list_all line_start_ok (preamble_lines @ body_lines b parts)"
proof -
  assume *: "boundary_ok b" "list_all (part_ok b) parts"
  have "LF \<notin> set b" using boundary_no_LF [OF *(1)] by simp
  moreover have "part_ok b p \<Longrightarrow> list_all line_start_ok (part_lines p)" for p
    by (auto simp: part_ok_def part_lines_def memo_line_def quotable_def patch_line_ok_def line_start_ok_def list_all_iff)
  ultimately show ?thesis using *(2)
    by (auto simp: body_lines_def preamble_lines_def line_start_ok_def list_all_iff)
qed

lemma quotable_boundary: "boundary_ok b \<Longrightarrow> quotable b"
proof -
  assume b: "boundary_ok b"
  have "isalnum c \<or> c = CHR ''-'' \<Longrightarrow> c \<noteq> DQUOTE \<and> c \<noteq> BACKSLASH \<and> c \<noteq> CR \<and> c \<noteq> LF" for c
    by (elim disjE) (auto simp: isalnum_def isdigit_def isupper_def islower_def)
  with b show ?thesis by (auto simp: boundary_ok_def quotable_def list_all_iff)
qed

lemma ParseContentType_boundary:
  assumes "quotable b"
  shows "ct_type (ParseContentType (''multipart/mixed; boundary='' @ DQUOTE # b @ [DQUOTE])) = ''multipart''"
    "Param (ParseContentType (''multipart/mixed; boundary='' @ DQUOTE # b @ [DQUOTE])) ''boundary'' = b"
proof -
  have low: "Lower ''boundary'' = ''boundary''" "Lower ''multipart'' = ''multipart''" by code_simp+
  have whole: "''multipart/mixed; boundary='' @ DQUOTE # b @ [DQUOTE] = ''multipart/mixed'' @ ''; '' @ ''boundary'' @ ''='' @ DQUOTE # b @ [DQUOTE]"
    by simp
  have "ct_type (ParseContentType (''multipart/mixed; boundary='' @ DQUOTE # b @ [DQUOTE])) = Lower ''multipart''"
    unfolding whole by (rule quoted_header(3) [OF assms, of _ _ _ "''mixed''"]) (simp_all add: isspace_def low)
  then show "ct_type (ParseContentType (''multipart/mixed; boundary='' @ DQUOTE # b @ [DQUOTE])) = ''multipart''"
    unfolding low .
  have "ct_params (ParseContentType (''multipart/mixed; boundary='' @ DQUOTE # b @ [DQUOTE])) = [(''boundary'', b)]"
    unfolding whole by (rule quoted_header(1) [OF assms]) (simp_all add: isspace_def low)
  then show "Param (ParseContentType (''multipart/mixed; boundary='' @ DQUOTE # b @ [DQUOTE])) ''boundary'' = b"
    by (simp add: Param_def lookup_header_def low)
qed

lemma ParseContentType_filename:
  assumes "quotable m"
  shows "Param (ParseContentType (''attachment; filename='' @ DQUOTE # m @ [DQUOTE])) ''filename'' = m"
proof -
  have low: "Lower ''filename'' = ''filename''" by code_simp
  have whole: "''attachment; filename='' @ DQUOTE # m @ [DQUOTE] = ''attachment'' @ ''; '' @ ''filename'' @ ''='' @ DQUOTE # m @ [DQUOTE]"
    by simp
  have "ct_params (ParseContentType (''attachment; filename='' @ DQUOTE # m @ [DQUOTE])) = [(''filename'', m)]"
    unfolding whole by (rule quoted_header(1) [OF assms]) (simp_all add: isspace_def low)
  then show ?thesis by (simp add: Param_def lookup_header_def low)
qed

lemma header_of_quoted:
  assumes "CHR '':'' \<notin> set name" "TrimWs name = name" "name \<noteq> []" "v \<noteq> []" "\<not> isspace (hd v)"
  shows "header_of (name @ '': '' @ v @ DQUOTE # b @ [DQUOTE]) = [(name, v @ DQUOTE # b @ [DQUOTE])]"
proof -
  have "TrimWs (v @ DQUOTE # b @ [DQUOTE]) = v @ DQUOTE # b @ [DQUOTE]"
    using assms(4,5) by (intro TrimWs_plain) (simp add: isspace_def)
  with header_of_field [OF assms(1-3)] show ?thesis by simp
qed

lemma header_words: "TrimWs ''Content-type'' = ''Content-type''" "TrimWs ''Content-disposition'' = ''Content-disposition''"
  "TrimWs ''text/x-diff'' = ''text/x-diff''"
  by (simp_all add: TrimWs_def isspace_def)

lemma history_children:
  assumes "boundary_ok b" "list_all (part_ok b) parts"
  shows "me_children (ParseEntity (history_text b parts)) = map (\<lambda>p. ParseEntity (trim_eol (with_newlines (part_lines p)))) parts"
proof -
  let ?body = "with_newlines (preamble_lines @ body_lines b parts)"
  let ?v = "''multipart/mixed; boundary='' @ DQUOTE # b @ [DQUOTE]"
  have q: "quotable b" using assms(1) by (rule quotable_boundary)
  have line: "boundary_line b = ''Content-type'' @ '': '' @ ?v" by (simp add: boundary_line_def)
  have plain: "list_all plain_line [boundary_line b]"
    using q by (simp add: boundary_line_def plain_line_def quotable_def is_blank_def)
  have whole: "history_text b parts = join_eol [LF] [boundary_line b] @ LF # LF # ?body" by (simp add: history_text_def)
  have "list_all line_start_ok ([boundary_line b, []] @ preamble_lines @ body_lines b parts)"
    using history_lines_start [OF assms] q by (simp add: line_start_ok_def boundary_line_def quotable_def)
  from with_newlines_lf_cr [OF this] have "\<not> lf_cr (join_eol [LF] [boundary_line b] @ LF # LF # ?body)" by simp
  from SplitHeadersBody_lf [OF plain _ this] have split: "SplitHeadersBody (history_text b parts) = (boundary_line b, ?body)"
    unfolding whole by simp
  have "header_of (boundary_line b) = [(''Content-type'', ?v)]"
    unfolding line using header_of_quoted [of "''Content-type''" "''multipart/mixed; boundary=''" b] header_words by (simp add: isspace_def)
  then have hs: "ParseHeaderBlock (boundary_line b) = [(''Content-type'', ?v)]"
    using ParseHeaderBlock_plain [OF plain disjI2 [OF refl]] by simp
  have ct: "entity_type [(''Content-type'', ?v)] = ParseContentType ?v"
    using ParseContentType_boundary [OF q] by (simp add: entity_type_def HeaderValue_Cons lower_names Let_def del: append_Cons)
  have sm: "SplitMultipart ?body b = map (\<lambda>p. trim_eol (with_newlines (part_lines p))) parts"
  proof -
    have pre: "list_all (\<lambda>l. LF \<notin> set l \<and> take (length (''--'' @ b)) l \<noteq> ''--'' @ b) preamble_lines" by (simp add: preamble_lines_def)
    have "between ?body ((0, 0) # delimiters (''--'' @ b) ?body 0)
        = map (\<lambda>ls. trim_eol (with_newlines ls)) (preamble_lines # map part_lines parts)"
      using between_parts [OF assms(1) pre assms(2), of ?body "[]" 0] by simp
    moreover have "tl (between ?body (d # ds)) = between ?body ds" for d ds by (cases d; cases ds) auto
    ultimately show ?thesis unfolding SplitMultipart_def by (metis (no_types, lifting) list.map_comp list.sel(3) list.simps(9) comp_def map_eq_conv)
  qed
  have b: "b \<noteq> []" using assms(1) by (simp add: boundary_ok_def)
  show ?thesis
    using ParseContentType_boundary [OF q] b sm
    by (subst ParseEntity.simps) (simp add: split hs ct Let_def entity_of_def comp_def del: append_Cons)
qed

text \<open>One part: its name is the memo, and its text the patch without the last line end, which the parser takes
  for the delimiter's, a carriage return before it included.\<close>

lemma trim_eol_line: "trim_eol (x @ [LF]) = (if x \<noteq> [] \<and> last x = CR then butlast x else x)"
  by (simp add: trim_eol_def)

lemma trim_eol_block:
  assumes "y \<noteq> []"
  shows "trim_eol (with_newlines (l # m # [] # ys @ [y])) = join_eol [LF] [l, m] @ LF # LF # trim_eol (with_newlines (ys @ [y]))"
proof -
  have whole: "with_newlines (l # m # [] # ys @ [y]) = (join_eol [LF] [l, m] @ LF # LF # with_newlines ys @ y) @ [LF]"
    "with_newlines (ys @ [y]) = (with_newlines ys @ y) @ [LF]" by simp_all
  show ?thesis unfolding whole trim_eol_line using assms by (simp add: butlast_append)
qed

lemma part_text:
  assumes "part_ok b part"
  shows "trim_eol (with_newlines (part_lines part))
    = join_eol [LF] [''Content-type: text/x-diff'', memo_line (fst part)] @ LF # LF # trim_eol (with_newlines (snd part))"
    and "trim_eol (with_newlines (snd part)) \<noteq> []"
proof -
  obtain ys y where y: "snd part = ys @ [y]" "y \<noteq> []" using assms by (metis append_butlast_last_id part_ok_def)
  show "trim_eol (with_newlines (part_lines part))
    = join_eol [LF] [''Content-type: text/x-diff'', memo_line (fst part)] @ LF # LF # trim_eol (with_newlines (snd part))"
    unfolding part_lines_def y(1) by (rule trim_eol_block [OF y(2)])
  have "hd y \<noteq> CR" using assms y by (simp add: part_ok_def patch_line_ok_def line_start_ok_def)
  then have "butlast (with_newlines ys @ y) = [] \<longrightarrow> last y \<noteq> CR" using y(2) by (cases y) (simp_all add: butlast_append)
  moreover have "with_newlines (snd part) = (with_newlines ys @ y) @ [LF]" using y(1) by simp
  ultimately show "trim_eol (with_newlines (snd part)) \<noteq> []" using y(2) by (simp only: trim_eol_line) auto
qed

lemma part_entity:
  assumes "part_ok b part"
  shows "me_filename (ParseEntity (trim_eol (with_newlines (part_lines part)))) = fst part
    \<and> me_body_decoded (ParseEntity (trim_eol (with_newlines (part_lines part)))) = trim_eol (with_newlines (snd part))"
proof -
  let ?raw = "trim_eol (with_newlines (part_lines part))" and ?body = "trim_eol (with_newlines (snd part))"
  let ?ls = "[''Content-type: text/x-diff'', memo_line (fst part)]"
  have q: "quotable (fst part)" using assms by (simp add: part_ok_def)
  have plain: "list_all plain_line ?ls" using q by (simp add: memo_line_def plain_line_def quotable_def is_blank_def)
  have start: "list_all line_start_ok (part_lines part)"
    using assms by (auto simp: part_ok_def part_lines_def memo_line_def quotable_def patch_line_ok_def line_start_ok_def list_all_iff)
  have "take (length (trim_eol x)) x = trim_eol x" for x by (simp add: trim_eol_def Let_def butlast_conv_take)
  then have "\<exists>v. x = trim_eol x @ v" for x by (metis append_take_drop_id)
  then obtain v where "with_newlines (part_lines part) = (join_eol [LF] ?ls @ LF # LF # ?body) @ v"
    unfolding part_text(1) [OF assms, symmetric] by blast
  moreover have "lf_cr u \<Longrightarrow> lf_cr (u @ v)" for u v by (induction u rule: lf_cr.induct) (auto split: list.splits)
  ultimately have "\<not> lf_cr (join_eol [LF] ?ls @ LF # LF # ?body)" using with_newlines_lf_cr [OF start] by metis
  from SplitHeadersBody_lf [OF plain _ this] have split: "SplitHeadersBody ?raw = (join_eol [LF] ?ls, ?body)"
    unfolding part_text(1) [OF assms] by simp
  have memo: "memo_line (fst part) = ''Content-disposition'' @ '': '' @ ''attachment; filename='' @ DQUOTE # fst part @ [DQUOTE]"
    by (simp add: memo_line_def)
  have "header_of (memo_line (fst part)) = [(''Content-disposition'', ''attachment; filename='' @ DQUOTE # fst part @ [DQUOTE])]"
    unfolding memo using header_of_quoted [of "''Content-disposition''" "''attachment; filename=''" "fst part"] header_words
    by (simp add: isspace_def)
  moreover have "header_of ''Content-type: text/x-diff'' = [(''Content-type'', ''text/x-diff'')]"
    using header_of_field [of "''Content-type''" "''text/x-diff''"] header_words by simp
  ultimately have hs: "ParseHeaderBlock (join_eol [LF] ?ls) = [(''Content-type'', ''text/x-diff''),
      (''Content-disposition'', ''attachment; filename='' @ DQUOTE # fst part @ [DQUOTE])]" (is "_ = ?hs")
    using ParseHeaderBlock_plain [OF plain disjI2 [OF refl]] by simp
  have "ParseContentType ''text/x-diff'' = \<lparr>ct_type = ''text'', ct_subtype = ''x-diff'', ct_params = []\<rparr>" by code_simp
  then have ct: "entity_type ?hs = \<lparr>ct_type = ''text'', ct_subtype = ''x-diff'', ct_params = []\<rparr>"
    by (simp add: entity_type_def HeaderValue_Cons lower_names)
  have enc: "entity_encoding ?hs = ''7bit''"
    by (simp add: entity_encoding_def HeaderValue_Cons lower_names TrimWs_def)
  have "snd (entity_disposition ?hs) = fst part"
    using assms ParseContentType_filename [OF q]
    by (simp add: entity_disposition_def HeaderValue_Cons lower_names Let_def part_ok_def)
  moreover have "ParseEntity ?raw = entity_of ?hs ?body ?body []"
    unfolding ParseEntity.simps [of ?raw] split Let_def prod.case hs ct enc identity_encodings by simp
  ultimately show ?thesis by (simp add: entity_of_def)
qed

text \<open>The memo of a part.\<close>

lemma b64_quotable: "list_all b64_char s \<Longrightarrow> quotable s"
proof -
  assume s: "list_all b64_char s"
  have "\<not> b64_char DQUOTE" "\<not> b64_char BACKSLASH" "\<not> b64_char CR" "\<not> b64_char LF" by code_simp+
  with s show ?thesis unfolding quotable_def list_all_iff by blast
qed

lemma EncodeMemo_quotable: "quotable (EncodeMemo n t author)"
  unfolding EncodeMemo_def by (rule b64_quotable) (simp add: list_all_iff b64.encode_alphabet)

lemma EncodeMemo_not_Nil: "EncodeMemo n t author \<noteq> []"
  using b64.decode_encode [of "to_string n @ ''|'' @ to_string t @ ''|'' @ author @ ''|'' @ [NUL]"]
  by (auto simp: EncodeMemo_def Base64Decode_def)

lemma ParseMemo_encoded:
  assumes "0 < n" "n < 2 ^ 63"
  shows "\<exists>t' a. ParseMemo (to_string n @ ''|'' @ to_string t @ ''|'' @ author @ ''|'' @ [NUL]) = Some (n, t', a)"
proof -
  let ?rest = "to_string t @ ''|'' @ author"
  have num: "to_string n = digits_of (nat n)" using assms(1) by (simp add: to_string_def)
  have digit: "isdigit c \<Longrightarrow> c \<noteq> BAR" for c by (auto simp: isdigit_def)
  have bar: "BAR \<notin> set (to_string i)" for i using digits_of_isdigit [of BAR] digit [of BAR] by (auto simp: to_string_def)
  have memo: "rev (dropWhile (\<lambda>c. c = NUL) (rev (to_string n @ ''|'' @ to_string t @ ''|'' @ author @ ''|'' @ [NUL])))
      = to_string n @ BAR # to_string t @ BAR # author @ [BAR]" by simp
  have "split_on BAR (to_string n @ BAR # to_string t @ BAR # author @ [BAR]) = to_string n # to_string t # split_on BAR (author @ [BAR])"
    using split_on_append [OF bar [of n], of "BAR # to_string t @ BAR # author @ [BAR]"]
      split_on_append [OF bar [of t], of "BAR # author @ [BAR]"] by simp
  moreover obtain a as where "split_on BAR (author @ [BAR]) = a # as" by (metis list.exhaust split_on_not_Nil)
  moreover have "\<not> list_ex (\<lambda>c. \<not> isdigit c) (to_string n)" "to_string n \<noteq> []"
    unfolding num using digits_of_isdigit by (auto simp: list_ex_iff)
  moreover have "fst (strtoll (to_string n)) = n" using strtoll_to_string [of n "[]"] assms by simp
  ultimately show ?thesis unfolding ParseMemo_def memo by simp
qed

text \<open>A history's revisions are its parts.\<close>

definition memo_number :: "string \<Rightarrow> int \<Rightarrow> bool" where
  "memo_number memo n = (\<exists>t author. memo = EncodeMemo n t author \<and> 0 < n \<and> n < 2 ^ 63)"

text \<open>What a part tells: its revision and its patch, which loses its last line end.\<close>

definition tells :: "int \<times> string list \<Rightarrow> revision \<Rightarrow> bool" where
  "tells np r = (rv_rev r = fst np \<and> rv_diff r = trim_eol (with_newlines (snd np)))"

lemma revision_of_part:
  assumes "part_ok b (memo, pls)" "memo_number memo n"
  shows "\<exists>r. revision_of (ParseEntity (trim_eol (with_newlines (part_lines (memo, pls))))) = [r] \<and> tells (n, pls) r"
proof -
  obtain t author where memo: "memo = EncodeMemo n t author" "0 < n" "n < 2 ^ 63" using assms(2) by (auto simp: memo_number_def)
  from ParseMemo_encoded [OF memo(2,3), of t author] obtain t' a where
    "ParseMemo (to_string n @ ''|'' @ to_string t @ ''|'' @ author @ ''|'' @ [NUL]) = Some (n, t', a)" by blast
  moreover have "Base64Decode memo = (True, to_string n @ ''|'' @ to_string t @ ''|'' @ author @ ''|'' @ [NUL])"
    unfolding memo(1) EncodeMemo_def by (rule b64.decode_encode)
  ultimately show ?thesis
    using part_entity [OF assms(1)] part_text(2) [OF assms(1)] EncodeMemo_not_Nil [of n t author] memo(1)
    by (simp add: revision_of_def tells_def)
qed

lemma parse_history_text:
  assumes "boundary_ok b" "list_all2 (\<lambda>(memo, pls) (n, pls'). part_ok b (memo, pls) \<and> memo_number memo n \<and> pls' = pls) parts nps"
  shows "\<exists>rs. parse_history (history_text b parts) = take kMaxRevisions rs \<and> list_all2 tells nps rs"
proof -
  have "list_all (part_ok b) parts" using assms(2) by (induction rule: list_all2_induct) auto
  from history_children [OF assms(1) this]
  have "parse_history (history_text b parts)
      = take kMaxRevisions (concat (map (\<lambda>p. revision_of (ParseEntity (trim_eol (with_newlines (part_lines p))))) parts))"
    by (simp add: parse_history_def comp_def)
  moreover have "list_all2 tells nps (concat (map (\<lambda>p. revision_of (ParseEntity (trim_eol (with_newlines (part_lines p))))) parts))"
    using assms(2)
  proof (induction rule: list_all2_induct)
    case (Cons p parts np nps)
    then obtain memo pls n where "p = (memo, pls)" "np = (n, pls)" "part_ok b (memo, pls)" "memo_number memo n"
      by (auto split: prod.splits)
    with revision_of_part [of b memo pls n] Cons show ?case by auto
  qed simp
  ultimately show ?thesis by blast
qed

section \<open>Histories go on\<close>

lemma BoundaryOf_history:
  assumes "boundary_ok b"
  shows "BoundaryOf (history_text b parts) = b"
proof -
  let ?rest = "with_newlines (preamble_lines @ body_lines b parts)"
  have LF: "LF \<notin> set (boundary_line b)" using quotable_boundary [OF assms] by (simp add: boundary_line_def quotable_def)
  have cut: "cut_sub [LF, LF] (history_text b parts) = Some (boundary_line b, ?rest)"
    using cut_sub_skip [OF LF, of "[LF]" "[LF, LF] @ ?rest"] cut_sub_here [of "[LF, LF]" ?rest] by (simp add: history_text_def)
  have head: "take (length (boundary_line b)) (history_text b parts) = boundary_line b" by (simp add: history_text_def)
  have low: "Lower (boundary_line b) = ''content-type: multipart/mixed; boundary='' @ DQUOTE # Lower b @ [DQUOTE]"
  proof -
    have "Lower ''Content-type: multipart/mixed; boundary='' = ''content-type: multipart/mixed; boundary=''" by code_simp
    moreover have "Lower (DQUOTE # b @ [DQUOTE]) = DQUOTE # Lower b @ [DQUOTE]" by (simp add: Lower_def tolower_def)
    ultimately show ?thesis unfolding boundary_line_def by (metis Lower_append)
  qed
  have ct: "find_sub_from ''content-type:'' (Lower (boundary_line b)) 0 = Some 0" unfolding low by (simp add: find_sub_from_def)
  have bd: "find_sub_from ''boundary'' (Lower (boundary_line b)) 0 = Some 31" unfolding low by (simp add: find_sub_from_def)
  have eq: "find_from CHR ''='' (Lower (boundary_line b)) 31 = Some 39" unfolding low by (simp add: find_from_def)
  have "takeWhile (\<lambda>c. c \<noteq> DQUOTE \<and> c \<noteq> CHR '';'' \<and> c \<noteq> LF \<and> c \<noteq> CR) (b @ [DQUOTE]) = b"
    "dropWhile (\<lambda>c. c = CHR '' '' \<or> c = DQUOTE) (b @ [DQUOTE]) = b @ [DQUOTE]"
  proof -
    have c: "isalnum c \<or> c = CHR ''-'' \<Longrightarrow> c \<noteq> DQUOTE \<and> c \<noteq> CHR '';'' \<and> c \<noteq> LF \<and> c \<noteq> CR \<and> c \<noteq> CHR '' ''" for c
      by (elim disjE) (auto simp: isalnum_def isdigit_def isupper_def islower_def)
    then show "takeWhile (\<lambda>c. c \<noteq> DQUOTE \<and> c \<noteq> CHR '';'' \<and> c \<noteq> LF \<and> c \<noteq> CR) (b @ [DQUOTE]) = b"
      using assms by (auto simp: boundary_ok_def list_all_iff takeWhile_append2)
    show "dropWhile (\<lambda>c. c = CHR '' '' \<or> c = DQUOTE) (b @ [DQUOTE]) = b @ [DQUOTE]"
      using assms c [of "hd b"] by (cases b) (auto simp: boundary_ok_def)
  qed
  moreover have "drop 40 (boundary_line b) = DQUOTE # b @ [DQUOTE]" by (simp add: boundary_line_def)
  ultimately show ?thesis
    unfolding BoundaryOf_def Let_def cut option.case prod.case head ct bd eq by simp
qed

lemma history_tail_text:
  assumes "boundary_ok b"
  shows "history_tail fresh (history_text b parts) = (b, with_newlines (body_lines b parts))"
proof -
  let ?pre = "[LF, LF] @ with_newlines preamble_lines"
  obtain s where tail: "with_newlines (body_lines b parts) = (''--'' @ b) @ s"
    by (cases parts) (auto simp: body_lines_def)
  have text_eq: "history_text b parts = ''Content-type: multipart/mixed; boundary='' @ DQUOTE # b @ DQUOTE # ?pre @ (''--'' @ b) @ s"
    using tail by (simp add: history_text_def boundary_line_def)
  have b: "DQUOTE \<notin> set b" using quotable_boundary [OF assms] by (simp add: quotable_def)
  have "CHR ''-'' \<notin> set ?pre" by (simp add: preamble_lines_def)
  then have "cut_sub (''--'' @ b) (?pre @ (''--'' @ b) @ s) = Some (?pre, s)"
    using cut_sub_skip [of "CHR ''-''" ?pre "CHR ''-'' # b" "(''--'' @ b) @ s"] cut_sub_here [of "''--'' @ b" s] by simp
  then have "cut_sub (''--'' @ b) (b @ DQUOTE # ?pre @ (''--'' @ b) @ s) = Some (b @ DQUOTE # ?pre, s)"
    using b cut_sub_short [of DQUOTE "''--'' @ b" b "?pre @ (''--'' @ b) @ s"] by simp
  then have first: "cut_sub (''--'' @ b) (history_text b parts) = Some (boundary_line b @ ?pre, s)"
    unfolding text_eq by (simp add: boundary_line_def)
  have "history_text b parts = (boundary_line b @ ?pre @ concat (map (\<lambda>p. with_newlines ((''--'' @ b) # part_lines p)) parts)) @ (''--'' @ b @ ''--'') @ [LF]"
    by (simp add: history_text_def body_lines_def, induction parts) simp_all
  then have "cut_sub (''--'' @ b @ ''--'') (history_text b parts) \<noteq> None" by (metis cut_sub_occurs)
  moreover have "drop (length (boundary_line b @ ?pre)) (history_text b parts) = with_newlines (body_lines b parts)"
    unfolding history_text_def by simp
  moreover have "b \<noteq> []" using assms by (simp add: boundary_ok_def)
  moreover have "with_newlines (body_lines b parts) \<noteq> []" by (simp add: body_lines_def)
  ultimately show ?thesis
    using BoundaryOf_history [OF assms, of parts] first by (auto simp: history_tail_def Let_def split: option.splits)
qed

lemma history_tail_Nil: "history_tail fresh [] = (fresh, with_newlines (body_lines fresh []))"
  by (simp add: history_tail_def BoundaryOf_def find_sub_from_def body_lines_def)

section \<open>The lines of a page's patch\<close>

lemma edits_index:
  "edits ka kb x y es \<Longrightarrow> e \<in> set es \<Longrightarrow> (case e of Keep i \<Rightarrow> i < length ka | Del i \<Rightarrow> i < length ka | Ins j \<Rightarrow> j < length kb)"
proof (induction es arbitrary: x y)
  case (Cons d es)
  then show ?case by (cases d) auto
qed simp

lemma hunks_of_all:
  assumes "\<And>m n p q. P (header_line m n p q)" "\<And>e. e \<in> set full \<Longrightarrow> list_all P (edit_lines a b e)"
  shows "list_all P (hunks_of ctx a b full cs)"
proof (induction cs rule: length_induct)
  case (1 cs)
  show ?case
  proof (cases cs)
    case (Cons c rest)
    obtain l cs' where run: "run_end ctx c rest = (l, cs')" by fastforce
    then have "length cs' < length cs" using run_end_shorter [of ctx c rest] Cons by simp
    then have "list_all P (hunks_of ctx a b full cs')" using 1 by blast
    moreover have "list_all P (concat (map (edit_lines a b) (drop m (take n full))))" for m n
      using assms(2) by (auto simp: list_all_iff dest!: in_set_dropD in_set_takeD)
    ultimately show ?thesis using assms(1) run Cons by (simp add: hunk_of_def Let_def)
  qed simp
qed

lemma Unified_hunks:
  assumes "from_text \<noteq> to_text"
  shows "\<exists>full hs. edits (Keys (Split from_text)) (Keys (Split to_text)) 0 0 full
    \<and> Unified from_text to_text ctxlen max_lines max_edits = with_newlines hs
    \<and> (\<forall>P. (\<forall>m n p q. P (header_line m n p q)) \<longrightarrow> (\<forall>e \<in> set full. list_all P (edit_lines (Split from_text) (Split to_text) e)) \<longrightarrow> list_all P hs)"
proof -
  let ?a = "Split from_text" and ?b = "Split to_text"
  let ?h = "common_prefix (Keys ?a) (Keys ?b)"
  let ?t = "common_prefix (rev (drop ?h (Keys ?a))) (rev (drop ?h (Keys ?b)))"
  let ?u = "take (length (Keys ?a) - ?h - ?t) (drop ?h (Keys ?a))" and ?v = "take (length (Keys ?b) - ?h - ?t) (drop ?h (Keys ?b))"
  show ?thesis
  proof (cases "length (tl_lines ?a) > max_lines \<or> length (tl_lines ?b) > max_lines \<or> MyersScript ?u ?v max_edits = None")
    case True
    let ?full = "map Del [0..<length (tl_lines ?a)] @ map Ins [0..<length (tl_lines ?b)]"
    have "Unified from_text to_text ctxlen max_lines max_edits = WholeFileDiff ?a ?b" using True assms by (auto simp: Unified_def Let_def)
    moreover have "edits (Keys ?a) (Keys ?b) 0 0 ?full" using WholeFileDiff_script [of "Keys ?a" "Keys ?b" 0 0] by simp
    moreover have "count_a ?full = length (tl_lines ?a)" "count_b ?full = length (tl_lines ?b)"
      by (simp_all add: count_a_def count_b_def filter_map comp_def)
    then have "WholeFileDiff ?a ?b = with_newlines (hunk_of ?a ?b 0 0 ?full)"
      using emit_edits_lines [of ?a ?b ?full] by (simp add: WholeFileDiff_def hunk_of_def HunkHeader_line)
    moreover have "list_all P (hunk_of ?a ?b 0 0 ?full)"
      if "\<forall>m n p q. P (header_line m n p q)" "\<forall>e \<in> set ?full. list_all P (edit_lines ?a ?b e)" for P
    proof -
      have "list_all P (concat (map (edit_lines ?a ?b) ?full))" using that(2) by (simp only: list_all_iff set_concat set_map) blast
      then show ?thesis using that(1) by (simp add: hunk_of_def)
    qed
    ultimately show ?thesis by (intro exI [of _ ?full] exI [of _ "hunk_of ?a ?b 0 0 ?full"]) simp
  next
    case fits: False
    then obtain script where script: "MyersScript ?u ?v max_edits = Some script" by blast
    let ?full = "full_script ?h ?t (length (tl_lines ?a)) script"
    from script MyersScript_spec [of ?u ?v max_edits] have "edits ?u ?v 0 0 script" by simp
    from full_script_edits [OF refl refl this] have "edits (Keys ?a) (Keys ?b) 0 0 ?full" by simp
    moreover obtain ctx cs where "Unified from_text to_text ctxlen max_lines max_edits = with_newlines (hunks_of ctx ?a ?b ?full cs)"
      using fits script assms by (simp add: Unified_def Let_def hunks_hunks_of)
    ultimately show ?thesis using hunks_of_all by metis
  qed
qed

definition patch_shape :: "string list \<Rightarrow> string \<Rightarrow> bool" where
  "patch_shape ls l = (LF \<notin> set l \<and> l \<noteq> [] \<and> (hd l \<in> {CHR ''@'', CHR '' '', CHR ''+'', BACKSLASH} \<or> hd l = CHR ''-'' \<and> tl l \<in> set ls))"

lemma Unified_shape:
  "\<exists>hs. Unified from_text to_text ctxlen max_lines max_edits = with_newlines hs \<and> list_all (patch_shape (tl_lines (Split from_text))) hs"
proof (cases "from_text = to_text")
  case True
  then show ?thesis by (intro exI [of _ "[]"]) (simp add: Unified_def)
next
  case False
  let ?a = "Split from_text" and ?b = "Split to_text"
  from Unified_hunks [OF False] obtain full hs where
    full: "edits (Keys ?a) (Keys ?b) 0 0 full" and hs: "Unified from_text to_text ctxlen max_lines max_edits = with_newlines hs"
    and all: "\<And>P. (\<forall>m n p q. P (header_line m n p q)) \<Longrightarrow> (\<forall>e \<in> set full. list_all P (edit_lines ?a ?b e)) \<Longrightarrow> list_all P hs"
    by blast
  have free: "l \<in> set (tl_lines (Split t)) \<Longrightarrow> LF \<notin> set l" for l t using lines_ok_Split [of t] by (auto simp: lines_ok_def list_all_iff)
  have head: "patch_shape ls (header_line m n p q)" for ls m n p q
    using header_line_free by (simp add: patch_shape_def) (simp add: header_line_def HunkHeader_def butlast_append)
  have marker: "patch_shape ls kNoNewlineText" for ls by (simp add: patch_shape_def kNoNewlineText_def)
  have line: "list_all (patch_shape (tl_lines ?a)) (edit_lines ?a ?b e)" if "e \<in> set full" for e
  proof -
    have tag: "patch_shape (tl_lines ?a) (c # l)" if "LF \<notin> set l" "c = CHR '' '' \<or> c = CHR ''+'' \<or> c = CHR ''-'' \<and> l \<in> set (tl_lines ?a)" for c l
      using that by (auto simp: patch_shape_def)
    have tagged: "list_all (patch_shape (tl_lines ?a)) (tagged c l m)" if "patch_shape (tl_lines ?a) (c # l)" for c l m
      using that marker by (simp add: tagged_def)
    show ?thesis using edits_index [OF full that] by (cases e) (auto intro!: tagged tag dest: free [OF nth_mem])
  qed
  show ?thesis using all [of "patch_shape (tl_lines ?a)"] head line hs by blast
qed

lemma Apply_trimmed:
  assumes "hs \<noteq> []" "list_all (\<lambda>l. LF \<notin> set l) hs" "last hs \<noteq> []" "last (last hs) \<noteq> CR"
  shows "Apply src (trim_eol (with_newlines hs)) = Apply src (with_newlines hs)"
proof -
  have join: "with_newlines hs = join_on LF hs @ [LF]"
    using assms(1)
  proof (induction hs)
    case (Cons h hs)
    then show ?case by (cases "hs = []") (auto simp: join_on_Cons)
  qed simp
  have "join_on LF hs \<noteq> [] \<and> last (join_on LF hs) = last (last hs)"
    using assms(1,3)
  proof (induction hs)
    case (Cons h hs)
    then show ?case by (cases "hs = []") (auto simp: join_on_Cons)
  qed simp
  moreover have "split_on LF (join_on LF hs) = hs" using assms(1,2) by (rule split_join)
  ultimately have "trim_eol (with_newlines hs) = join_on LF hs" "tl_lines (Split (join_on LF hs)) = hs"
    using assms(3,4) unfolding join trim_eol_line by (simp_all add: Split_def Let_def)
  then show ?thesis using Split_lines [OF assms(2)] by (simp add: Apply_def)
qed

section \<open>Replacing an object in the store\<close>

definition holders :: "store \<Rightarrow> int \<Rightarrow> string \<Rightarrow> int set" where
  "holders st room e = {ms_num m |m. m \<in> set (messages st) \<and> ms_euid m = e \<and> (room, ms_num m) \<in> set (room_msgs st)}"

lemma FindByEuid_holders: "FindByEuid st room e = (if e = [] \<or> holders st room e = {} then - 1 else Max (holders st room e))"
proof -
  let ?ms = "map ms_num (filter (\<lambda>m. ms_euid m = e \<and> (room, ms_num m) \<in> set (room_msgs st)) (messages st))"
  have ms: "set ?ms = holders st room e" by (auto simp: holders_def)
  have "?ms = [] \<longleftrightarrow> set ?ms = {}" by (rule set_empty [symmetric])
  then have "?ms = [] \<longleftrightarrow> holders st room e = {}" unfolding ms .
  then show ?thesis using ms unfolding FindByEuid_def Let_def by (simp only:)
qed

lemma finite_holders: "finite (holders st room e)"
proof -
  have "holders st room e \<subseteq> ms_num ` set (messages st)" by (auto simp: holders_def)
  then show ?thesis by (rule finite_subset) simp
qed

lemma FindByEuid_in: "FindByEuid st room e \<ge> 0 \<Longrightarrow> FindByEuid st room e \<in> holders st room e \<and> e \<noteq> []"
  using Max_in [OF finite_holders, of st room e] by (auto simp: FindByEuid_holders split: if_splits)

lemma holders_range: "store_ok st \<Longrightarrow> n \<in> holders st room e \<Longrightarrow> 0 < n \<and> n < msg_seq st"
  by (auto simp: holders_def store_ok_def msgs_ok_def list_all_iff)

lemma unlink_steps:
  "messages (snd (drop_pointer room n st)) = messages st"
  "room_msgs (snd (drop_pointer room n st)) \<in> {room_msgs st, delete_where (\<lambda>p. p = (room, n)) (room_msgs st)}"
  "messages (snd (msg_nextval st)) = messages st" "room_msgs (snd (msg_nextval st)) = room_msgs st"
  "messages (bury room sq euid n now st) = messages st" "room_msgs (bury room sq euid n now st) = room_msgs st"
  by (simp_all add: drop_pointer_def msg_nextval_def nextval_def bury_def ExecP_def Let_def)

lemma Unlink_tables:
  "messages (snd (Unlink now room n st)) = messages st
   \<and> room_msgs (snd (Unlink now room n st)) \<in> {room_msgs st, delete_where (\<lambda>p. p = (room, n)) (room_msgs st)}"
proof -
  obtain ok st1 where d: "drop_pointer room n st = (ok, st1)" by fastforce
  obtain sq st2 where v: "msg_nextval st1 = (sq, st2)" by fastforce
  have "messages st1 = messages st" "room_msgs st1 \<in> {room_msgs st, delete_where (\<lambda>p. p = (room, n)) (room_msgs st)}"
    "messages st2 = messages st1" "room_msgs st2 = room_msgs st1"
    using unlink_steps(1,2) [of room n st] unlink_steps(3,4) [of st1] d v by simp_all
  then show ?thesis by (cases ok; cases sq) (simp_all add: Unlink_def Let_def d v unlink_steps)
qed

lemma DeleteMessage_tables:
  "messages (snd (DeleteMessage now room n st)) = messages st"
  "(room', k) \<in> set (room_msgs (snd (DeleteMessage now room n st))) \<Longrightarrow> (room', k) \<in> set (room_msgs st)"
  "(room', k) \<in> set (room_msgs st) \<Longrightarrow> k \<noteq> n \<Longrightarrow> (room', k) \<in> set (room_msgs (snd (DeleteMessage now room n st)))"
  using Unlink_tables [of now room n st]
  by (cases "MessageInRoom st room n"; auto simp: DeleteMessage_def delete_where_def)+

text \<open>An object is inserted and its previous version unlinked, whether or not the unlinking succeeds.\<close>

lemma replaced:
  assumes ok: "store_ok st" and run: "InsertMessage date msg [room] st = (Inr n, s)" and euid: "ms_euid msg \<noteq> []"
    and st': "st' = (if FindByEuid st room (ms_euid msg) \<ge> 0 \<and> FindByEuid st room (ms_euid msg) \<noteq> n
      then snd (DeleteMessage now room (FindByEuid st room (ms_euid msg)) s) else s)"
  shows "store_ok st'" "n = msg_seq st" "FindByEuid st' room (ms_euid msg) = n" "LoadMessage st' n = Some (msg\<lparr>ms_num := n\<rparr>)"
    "e \<noteq> ms_euid msg \<Longrightarrow> FindByEuid st' room e = FindByEuid st room e" "k \<noteq> n \<Longrightarrow> LoadMessage st' k = LoadMessage st k"
proof -
  let ?old = "FindByEuid st room (ms_euid msg)"
  from InsertMessage_filed [OF run] obtain row where n: "n = msg_seq st" and row: "messages s = messages st @ [row]" "ms_num row = n"
      "as_message row = msg\<lparr>ms_num := n\<rparr>" and ps: "set (room_msgs s) = insert (room, n) (set (room_msgs st))" by auto
  have ok_s: "store_ok s" using InsertMessage_ok [OF ok, of date msg "[room]"] run by simp
  then show ok': "store_ok st'" unfolding st' using DeleteMessage_ok by auto
  show "n = msg_seq st" by (rule n)
  have msgs: "messages st' = messages st @ [row]" using st' row(1) DeleteMessage_tables(1) by simp
  have euid_row: "ms_euid row = ms_euid msg" using arg_cong [OF row(3), of ms_euid] by (simp add: as_message_def message.defs)
  have ptrs: "(room, k) \<in> set (room_msgs st') \<longleftrightarrow> (room, k) \<in> set (room_msgs s)" if "\<not> (?old \<ge> 0 \<and> k = ?old) \<or> k = n" for k
    using st' that DeleteMessage_tables(2,3) [where n = ?old and st = s and k = k] by auto
  have fresh: "ms_num m < n" if "m \<in> set (messages st)" for m using ok that n by (auto simp: store_ok_def msgs_ok_def list_all_iff)
  have "n \<in> holders st' room (ms_euid msg)"
    using msgs row(2) euid_row ptrs [of n] ps by (auto simp: holders_def)
  moreover have "k \<le> n" if "k \<in> holders st' room (ms_euid msg)" for k
    using that msgs row(2) fresh by (fastforce simp: holders_def)
  ultimately show "FindByEuid st' room (ms_euid msg) = n"
    using euid Max_eqI [OF finite_holders, of st' room "ms_euid msg" n] by (auto simp: FindByEuid_holders)
  have no_row: "find (\<lambda>m. ms_num m = n) (messages st) = None" using fresh by (fastforce simp: find_None_iff)
  then show "LoadMessage st' n = Some (msg\<lparr>ms_num := n\<rparr>)"
    using row(2,3) by (simp add: LoadMessage_def lookup_key_def msgs find_append)
  show "LoadMessage st' k = LoadMessage st k" if "k \<noteq> n"
    using that row(2) by (simp add: LoadMessage_def lookup_key_def msgs find_append split: option.splits)
  show "FindByEuid st' room e = FindByEuid st room e" if e: "e \<noteq> ms_euid msg"
  proof -
    have uniq: "m = m'" if "m \<in> set (messages st)" "m' \<in> set (messages st)" "ms_num m = ms_num m'" for m m'
      using ok that by (auto simp: store_ok_def msgs_ok_def distinct_map inj_on_def)
    have old: "ms_num m \<noteq> ?old" if m: "m \<in> set (messages st)" "ms_euid m = e" "?old \<ge> 0" for m
    proof
      assume eq: "ms_num m = ?old"
      have "?old \<in> holders st room (ms_euid msg)" using FindByEuid_in [OF m(3)] by (rule conjunct1)
      then obtain m' where m': "m' \<in> set (messages st)" "ms_num m' = ?old" "ms_euid m' = ms_euid msg"
        unfolding holders_def by auto
      have "m = m'" by (rule uniq [OF m(1) m'(1)]) (simp only: eq m'(2))
      then show False using m(2) m'(3) e by metis
    qed
    have "(room, ms_num m) \<in> set (room_msgs st') \<longleftrightarrow> (room, ms_num m) \<in> set (room_msgs st)" if "m \<in> set (messages st)" "ms_euid m = e" for m
      using ptrs [of "ms_num m"] old [OF that] fresh [OF that(1)] ps by auto
    then have "holders st' room e = holders st room e"
      using msgs euid_row e unfolding holders_def by fastforce
    then show ?thesis by (simp add: FindByEuid_holders)
  qed
qed

section \<open>Saving a page\<close>

lemma IsHistoryEuid_HistoryEuid: "IsHistoryEuid (HistoryEuid page)"
proof -
  have "Lower ''_HISTORY_'' = ''_history_''" by code_simp
  then show ?thesis by (simp add: IsHistoryEuid_def HistoryEuid_def)
qed

lemma HistoryEuid_other [simp]: "HistoryEuid page \<noteq> page" "HistoryEuid page \<noteq> []"
  by (simp_all add: HistoryEuid_def)

text \<open>For a history the store does not ask for a revision, so the inner recorder is never run.\<close>

lemma RecordRevision_recursive:
  "UpsertByEuid rec date now (history_msg now (HistoryEuid page) body) room st
    = UpsertByEuid never_called date now (history_msg now (HistoryEuid page) body) room st"
  using IsHistoryEuid_HistoryEuid [of page] by (simp add: UpsertByEuid_def history_msg_def Let_def)

definition wiki_parts :: "string \<Rightarrow> (string \<times> string list) list \<Rightarrow> (int \<times> string list) list \<Rightarrow> bool" where
  "wiki_parts b parts nps = list_all2 (\<lambda>(memo, pls) (n, pls'). part_ok b (memo, pls) \<and> memo_number memo n \<and> pls' = pls) parts nps"

text \<open>The history of a page as this code writes it: \<open>nps\<close> are the revisions it leads to, with their patches.\<close>

definition stored_history :: "store \<Rightarrow> int \<Rightarrow> string \<Rightarrow> string \<Rightarrow> (int \<times> string list) list \<Rightarrow> bool" where
  "stored_history st room page b nps =
     (let h = FindByEuid st room (HistoryEuid page) in
      if h > 0 then (\<exists>msg parts. LoadMessage st h = Some msg \<and> ms_raw msg = history_text b parts \<and> wiki_parts b parts nps)
      else nps = [])"

lemma History_stored:
  assumes "boundary_ok b" "stored_history st room page b nps"
  shows "\<exists>rs. History st room page = take kMaxRevisions rs \<and> list_all2 tells nps rs"
proof (cases "FindByEuid st room (HistoryEuid page) > 0")
  case True
  then obtain msg parts where "LoadMessage st (FindByEuid st room (HistoryEuid page)) = Some msg"
    "ms_raw msg = history_text b parts" "wiki_parts b parts nps" using assms(2) by (auto simp: stored_history_def Let_def)
  moreover from this have "ms_raw msg \<noteq> []" by (simp add: history_text_def boundary_line_def)
  ultimately show ?thesis
    using parse_history_text [OF assms(1), of parts nps] True by (simp add: History_def wiki_parts_def)
next
  case False
  then show ?thesis using assms(2) by (simp add: stored_history_def Let_def History_def)
qed

lemma walk_tells:
  "list_all2 tells nps rs \<Longrightarrow> list_all2 tells nps rs' \<Longrightarrow> walk_revisions raw rs rv = walk_revisions raw rs' rv"
proof (induction nps arbitrary: rs rs' raw)
  case (Cons np nps)
  then obtain r rt r' rt' where "rs = r # rt" "rs' = r' # rt'" by (auto simp: list_all2_Cons1)
  with Cons show ?case by (auto simp: tells_def split: sum.splits)
qed simp

text \<open>What a history needs of the text it is to record: no line starts with a dash and the boundary.\<close>

definition no_boundary :: "string \<Rightarrow> string \<Rightarrow> bool" where
  "no_boundary b new_raw = list_all (\<lambda>l. take (length b + 1) l \<noteq> ''-'' @ b) (tl_lines (Split new_raw))"

definition ends_crlf :: "string \<Rightarrow> bool" where
  "ends_crlf s = (drop (length s - 2) s = crlf)"

lemma ends_crlf_lines: "hs \<noteq> [] \<Longrightarrow> last hs \<noteq> [] \<Longrightarrow> last (last hs) = CR \<Longrightarrow> ends_crlf (with_newlines hs)"
proof -
  assume "hs \<noteq> []" "last hs \<noteq> []" "last (last hs) = CR"
  then obtain ys z where "hs = ys @ [z @ [CR]]" by (metis append_butlast_last_id)
  then have "with_newlines hs = (with_newlines ys @ z) @ crlf" by simp
  then show ?thesis by (simp add: ends_crlf_def)
qed

lemma page_patch_part:
  assumes "no_boundary b new_raw" "page_patch new_raw old_raw \<noteq> []" "quotable memo" "memo \<noteq> []"
  shows "\<exists>hs. page_patch new_raw old_raw = with_newlines hs \<and> part_ok b (memo, hs)"
proof -
  obtain hs where hs: "page_patch new_raw old_raw = with_newlines hs" "list_all (patch_shape (tl_lines (Split new_raw))) hs"
    using Unified_shape [of new_raw old_raw 3 20000 2000] by (auto simp: page_patch_def)
  then obtain ys y where y: "hs = ys @ [y]" using assms(2) by (cases hs rule: rev_cases) auto
  have "patch_line_ok b l" if "l \<in> set hs" for l
  proof -
    have shape: "patch_shape (tl_lines (Split new_raw)) l" using hs(2) that by (simp add: list_all_iff)
    have "take (length b + 2) l \<noteq> ''--'' @ b"
    proof
      assume "take (length b + 2) l = ''--'' @ b"
      then have "hd l = CHR ''-''" "take (length b + 1) (tl l) = ''-'' @ b" by (cases l; simp)+
      with shape assms(1) show False by (auto simp: patch_shape_def no_boundary_def list_all_iff)
    qed
    with shape show ?thesis by (auto simp: patch_line_ok_def line_start_ok_def patch_shape_def)
  qed
  moreover have "y \<noteq> []" using hs(2) y by (simp add: patch_shape_def)
  ultimately have "part_ok b (memo, hs)" using y assms(3,4) by (auto simp: part_ok_def list_all_iff)
  with hs(1) show ?thesis by blast
qed

text \<open>One revision recorded: the store afterwards, and the history in it.\<close>

lemma RecordRevision_recorded:
  assumes ok: "store_ok st" "msg_seq st < 2 ^ 63" and page: "page \<noteq> []" "\<not> IsHistoryEuid page"
    and b: "boundary_ok b" "stored_history st room page b nps" "0 < FindByEuid st room (HistoryEuid page) \<or> b = fresh"
    and old: "LoadMessage st (FindByEuid st room page) = Some old_msg" "0 < FindByEuid st room page"
    and safe: "no_boundary b new_raw"
    and run: "RecordRevision fresh date now room page new_raw st = (Recorded, err, st1)"
  shows "store_ok st1" "msg_seq st < msg_seq st1" "FindByEuid st1 room page = FindByEuid st room page"
    "LoadMessage st1 (FindByEuid st room page) = Some old_msg"
    "\<exists>hs. page_patch new_raw (ms_raw old_msg) = with_newlines hs \<and> hs \<noteq> [] \<and> list_all (\<lambda>l. LF \<notin> set l) hs \<and> last hs \<noteq> []
       \<and> stored_history st1 room page b ((FindByEuid st room page, hs) # nps)"
    "0 < FindByEuid st1 room (HistoryEuid page)"
proof -
  let ?old = "FindByEuid st room page" and ?hist = "FindByEuid st room (HistoryEuid page)"
  let ?patch = "page_patch new_raw (ms_raw old_msg)"
  let ?memo = "EncodeMemo ?old (ms_time old_msg) (ms_author old_msg)"
  let ?text = "if ?hist > 0 then (case LoadMessage st ?hist of None \<Rightarrow> [] | Some h \<Rightarrow> ms_raw h) else []"
  obtain parts where parts: "wiki_parts b parts nps" "history_tail fresh ?text = (b, with_newlines (body_lines b parts))"
  proof (cases "?hist > 0")
    case True
    then obtain msg parts where "LoadMessage st ?hist = Some msg" "ms_raw msg = history_text b parts" "wiki_parts b parts nps"
      using b(2) by (auto simp: stored_history_def Let_def)
    with True that [of parts] history_tail_text [OF b(1), of fresh parts] show ?thesis by simp
  next
    case False
    with b(2,3) that [of "[]"] history_tail_Nil [of fresh] show ?thesis by (simp add: stored_history_def Let_def wiki_parts_def)
  qed
  let ?body = "history_body b ?memo ?patch (with_newlines (body_lines b parts))"
  let ?hmsg = "history_msg now (HistoryEuid page) ?body"
  have differ: "ms_raw old_msg \<noteq> new_raw" and patch: "?patch \<noteq> []"
    and filed: "\<exists>h. UpsertByEuid never_called date now ?hmsg room st = (Inr h, st1)"
    using run page old parts(2)
    by (auto simp: RecordRevision_def Let_def split: if_splits sum.splits prod.splits)
  obtain h where h: "UpsertByEuid never_called date now ?hmsg room st = (Inr h, st1)" using filed by blast
  have euid: "ms_euid ?hmsg = HistoryEuid page" by (simp add: history_msg_def)
  obtain s where ins: "InsertMessage date ?hmsg [room] st = (Inr h, s)"
    and st1: "st1 = (if ?hist \<ge> 0 \<and> ?hist \<noteq> h then snd (DeleteMessage now room ?hist s) else s)"
    using h IsHistoryEuid_HistoryEuid [of page]
    by (auto simp: UpsertByEuid_def Let_def euid split: sum.splits prod.splits)
  note r = replaced [OF ok(1) ins, unfolded euid, OF _ st1, simplified]
  have lt: "?old < msg_seq st" using FindByEuid_in [of st room page] holders_range [OF ok(1), of ?old room page] old(2) by simp
  show "store_ok st1" by (rule r(1))
  show "FindByEuid st1 room page = ?old" using r(5) [of page] HistoryEuid_other(1) [of page] by metis
  show "LoadMessage st1 ?old = Some old_msg" using r(2,6) lt old(1) by simp
  have "0 < msg_seq st" using ok(1) by (simp add: store_ok_def msgs_ok_def)
  then show pos: "0 < FindByEuid st1 room (HistoryEuid page)" using r(2,3) by simp
  have "h \<in> holders st1 room (HistoryEuid page)" using FindByEuid_in [of st1 room "HistoryEuid page"] pos r(3) by simp
  then show "msg_seq st < msg_seq st1" using holders_range [OF r(1)] r(2) by blast
  obtain hs where hs: "?patch = with_newlines hs" "part_ok b (?memo, hs)"
    using page_patch_part [OF safe patch EncodeMemo_quotable EncodeMemo_not_Nil] by blast
  have "memo_number ?memo ?old" using old(2) lt ok(2) unfolding memo_number_def by (intro exI conjI refl) simp_all
  then have "wiki_parts b ((?memo, hs) # parts) ((?old, hs) # nps)" using parts(1) hs(2) by (simp add: wiki_parts_def)
  moreover have "hs \<noteq> []" using hs(2) by (simp add: part_ok_def)
  then have "ms_raw ?hmsg = history_text b ((?memo, hs) # parts)"
    using history_body_text by (simp add: history_msg_def hs(1))
  ultimately have "stored_history st1 room page b ((?old, hs) # nps)"
    using r(3,4) pos by (auto simp: stored_history_def Let_def)
  then show "\<exists>hs. ?patch = with_newlines hs \<and> hs \<noteq> [] \<and> list_all (\<lambda>l. LF \<notin> set l) hs \<and> last hs \<noteq> []
       \<and> stored_history st1 room page b ((?old, hs) # nps)"
    using hs by (intro exI [of _ hs]) (auto simp: part_ok_def patch_line_ok_def line_start_ok_def list_all_iff)
qed

text \<open>The save itself.\<close>

lemma RevisionRaw_back:
  assumes b: "boundary_ok b" "stored_history st room page b nps" "stored_history st' room page b ((old, hs) # nps)"
    and before_it: "FindByEuid st room page = old" "0 < old" "LoadMessage st old = Some old_msg"
    and after: "FindByEuid st' room page = n" "0 < n" "LoadMessage st' n = Some new_msg"
    and hs: "page_patch (ms_raw new_msg) (ms_raw old_msg) = with_newlines hs" "hs \<noteq> []" "list_all (\<lambda>l. LF \<notin> set l) hs" "last hs \<noteq> []"
      "\<not> ends_crlf (page_patch (ms_raw new_msg) (ms_raw old_msg))"
    and small: "length (tl_lines (Split (ms_raw new_msg))) < 2 ^ 40" "length (tl_lines (Split (ms_raw old_msg))) < 2 ^ 40"
    and few: "length nps < kMaxRevisions" and rv: "rv \<noteq> 0" "rv \<noteq> n" and was: "RevisionRaw st room page rv = Inr x"
  shows "RevisionRaw st' room page rv = Inr x"
proof -
  obtain rs where rs: "History st room page = take kMaxRevisions rs" "list_all2 tells nps rs" using History_stored [OF b(1,2)] by blast
  obtain r rs' where rs': "History st' room page = take kMaxRevisions (r # rs')" "tells (old, hs) r" "list_all2 tells nps rs'"
    using History_stored [OF b(1,3)] by (auto simp: list_all2_Cons1)
  have "length rs = length nps" "length rs' = length nps" using list_all2_lengthD [OF rs(2)] list_all2_lengthD [OF rs'(3)] by simp_all
  then have hist: "History st room page = rs" "History st' room page = r # rs'" using rs(1) rs'(1) few by simp_all
  have "last (last hs) \<noteq> CR" using ends_crlf_lines [OF hs(2,4)] hs(1,5) by auto
  then have "Apply (ms_raw new_msg) (rv_diff r) = Inr (ms_raw old_msg)"
    using rs'(2) Apply_trimmed [OF hs(2-4)] Apply_Unified_any [OF small, of 3 20000 2000] hs(1)
    by (simp add: tells_def page_patch_def)
  moreover have "rv_rev r = old" using rs'(2) by (simp add: tells_def)
  ultimately have "RevisionRaw st' room page rv = (if old = rv then Inr (ms_raw old_msg) else walk_revisions (ms_raw old_msg) rs' rv)"
    using after rv hist(2) by (simp add: RevisionRaw_def Let_def)
  moreover have "RevisionRaw st room page rv = (if rv = old then Inr (ms_raw old_msg) else walk_revisions (ms_raw old_msg) rs rv)"
    using before_it rv hist(1) by (simp add: RevisionRaw_def Let_def)
  ultimately show ?thesis using was walk_tells [OF rs(2) rs'(3)] by (auto split: if_splits)
qed

lemma Upsert_save:
  assumes ok: "store_ok st" "msg_seq st < 2 ^ 63"
    and wiki: "GetRoomByNum st room = Some r" "IsWikiView (rm_view r)" "\<not> IsHistoryEuid (ms_euid msg)"
    and old: "LoadMessage st (FindByEuid st room (ms_euid msg)) = Some old_msg"
    and b: "boundary_ok b" "stored_history st room (ms_euid msg) b nps" "0 < FindByEuid st room (HistoryEuid (ms_euid msg)) \<or> b = fresh"
    and safe: "no_boundary b (ms_raw msg)"
    and run: "Upsert fresh date now msg room st = (Inr n, st')"
  shows "store_ok st'" "0 < FindByEuid st room (ms_euid msg)" "FindByEuid st' room (ms_euid msg) = n" "0 < n"
    "LoadMessage st' n = Some (msg\<lparr>ms_num := n\<rparr>)"
    "\<exists>hs. page_patch (ms_raw msg) (ms_raw old_msg) = with_newlines hs \<and> hs \<noteq> [] \<and> list_all (\<lambda>l. LF \<notin> set l) hs \<and> last hs \<noteq> []
       \<and> stored_history st' room (ms_euid msg) b ((FindByEuid st room (ms_euid msg), hs) # nps)"
proof -
  let ?page = "ms_euid msg" and ?old = "FindByEuid st room (ms_euid msg)"
  have page: "?page \<noteq> []" using run by (auto simp: Upsert_def UpsertByEuid_def)
  have "\<exists>m \<in> set (messages st). ms_num m = ?old" using old by (auto simp: LoadMessage_def lookup_key_def find_Some_iff)
  then show pos: "0 < ?old" using ok(1) by (auto simp: store_ok_def msgs_ok_def list_all_iff)
  obtain res err st1 where rec: "RecordRevision fresh date now room ?page (ms_raw msg) st = (res, err, st1)" by (cases "RecordRevision fresh date now room ?page (ms_raw msg) st")
  then have res: "res \<noteq> NoPrevious" using page wiki(3) pos old
    by (auto simp: RecordRevision_def Let_def split: if_splits sum.splits prod.splits)
  then have recd: "res = Recorded" and ins': "\<exists>s. InsertMessage date msg [room] st1 = (Inr n, s)
      \<and> st' = (if ?old \<ge> 0 \<and> ?old \<noteq> n then snd (DeleteMessage now room ?old s) else s)"
    using run rec pos wiki page
    by (cases res; auto simp: Upsert_def UpsertByEuid_def Let_def split: sum.splits prod.splits if_splits)+
  note rr = RecordRevision_recorded [OF ok page wiki(3) b old pos safe rec [unfolded recd]]
  obtain s where ins: "InsertMessage date msg [room] st1 = (Inr n, s)"
    and st': "st' = (if FindByEuid st1 room ?page \<ge> 0 \<and> FindByEuid st1 room ?page \<noteq> n
      then snd (DeleteMessage now room (FindByEuid st1 room ?page) s) else s)" using ins' rr(3) by auto
  note r = replaced [OF rr(1) ins page st']
  show "store_ok st'" by (rule r(1))
  show "FindByEuid st' room ?page = n" by (rule r(3))
  show "LoadMessage st' n = Some (msg\<lparr>ms_num := n\<rparr>)" by (rule r(4))
  show "0 < n" using r(2) rr(2) ok(1) by (simp add: store_ok_def msgs_ok_def)
  have hist: "FindByEuid st' room (HistoryEuid ?page) = FindByEuid st1 room (HistoryEuid ?page)" by (rule r(5)) (rule HistoryEuid_other)
  have "FindByEuid st1 room (HistoryEuid ?page) \<in> holders st1 room (HistoryEuid ?page)" using rr(6) FindByEuid_in by simp
  then have "FindByEuid st1 room (HistoryEuid ?page) < msg_seq st1" using holders_range [OF rr(1)] by blast
  then have "FindByEuid st1 room (HistoryEuid ?page) \<noteq> n" using r(2) by simp
  then have "stored_history st' room ?page b x = stored_history st1 room ?page b x" for x
    using r(6) hist by (simp add: stored_history_def Let_def)
  with rr(5) show "\<exists>hs. page_patch (ms_raw msg) (ms_raw old_msg) = with_newlines hs \<and> hs \<noteq> [] \<and> list_all (\<lambda>l. LF \<notin> set l) hs \<and> last hs \<noteq> []
       \<and> stored_history st' room ?page b ((?old, hs) # nps)" by simp
qed

text \<open>C9. Saving a wiki page loses no revision. However the store goes about it, when the save succeeds the new text is the current
  revision, and every revision that could be reconstructed before is reconstructed to the same text after it, the
  replaced one included, and the history stays in the shape that lets the next save go on. (The boundary is
  the history's own, or fresh, and no line of the new text starts with a dash and it; the patch does not end in a carriage
  return; a history is read to a depth of 2000.)\<close>

theorem Upsert_keeps_revisions:
  assumes "store_ok st" "msg_seq st < 2 ^ 63"
    and "GetRoomByNum st room = Some r" "IsWikiView (rm_view r)" "\<not> IsHistoryEuid (ms_euid msg)"
    and "LoadMessage st (FindByEuid st room (ms_euid msg)) = Some old_msg"
    and "boundary_ok b" "stored_history st room (ms_euid msg) b nps" "0 < FindByEuid st room (HistoryEuid (ms_euid msg)) \<or> b = fresh"
    and "no_boundary b (ms_raw msg)" "\<not> ends_crlf (page_patch (ms_raw msg) (ms_raw old_msg))" "length nps < kMaxRevisions"
    and "length (tl_lines (Split (ms_raw msg))) < 2 ^ 40" "length (tl_lines (Split (ms_raw old_msg))) < 2 ^ 40"
    and "Upsert fresh date now msg room st = (Inr n, st')"
  shows "RevisionRaw st' room (ms_euid msg) 0 = Inr (ms_raw msg)
    \<and> (\<forall>rv x. rv \<noteq> 0 \<and> rv \<noteq> n \<and> RevisionRaw st room (ms_euid msg) rv = Inr x \<longrightarrow> RevisionRaw st' room (ms_euid msg) rv = Inr x)
    \<and> (\<exists>hs. stored_history st' room (ms_euid msg) b ((FindByEuid st room (ms_euid msg), hs) # nps))"
proof -
  note s = Upsert_save [OF assms(1-10,15)]
  obtain hs where hs: "page_patch (ms_raw msg) (ms_raw old_msg) = with_newlines hs" "hs \<noteq> []" "list_all (\<lambda>l. LF \<notin> set l) hs" "last hs \<noteq> []"
    "stored_history st' room (ms_euid msg) b ((FindByEuid st room (ms_euid msg), hs) # nps)" using s(6) by blast
  have "RevisionRaw st' room (ms_euid msg) 0 = Inr (ms_raw msg)" using s(3,4,5) by (simp add: RevisionRaw_def)
  moreover have "RevisionRaw st' room (ms_euid msg) rv = Inr x"
    if "rv \<noteq> 0" "rv \<noteq> n" "RevisionRaw st room (ms_euid msg) rv = Inr x" for rv x
    using hs assms(11-14) by (intro RevisionRaw_back [OF assms(7,8) hs(5) refl s(2) assms(6) s(3,4,5) _ _ _ _ _ _ _ _ that]) simp_all
  ultimately show ?thesis using hs(5) by blast
qed

text \<open>A page edited for the first time.\<close>

definition wiki_store :: "string \<Rightarrow> store" where
  "wiki_store raw = demo_store\<lparr>rooms := map (\<lambda>r. r\<lparr>rm_view := 6\<rparr>) seed_rooms, messages := [demo_msg 1 ''home'' raw],
     room_msgs := [(0, 1)], msg_seq := 2\<rparr>"

definition page_msg :: "string \<Rightarrow> message" where
  "page_msg raw = demo_mail\<lparr>ms_euid := ''home'', ms_raw := raw\<rparr>"

lemma wiki_store_ok: "store_ok (wiki_store raw)"
proof -
  have "rooms_ok (map (\<lambda>r. r\<lparr>rm_view := 6\<rparr>) seed_rooms) (room_seq demo_store)"
    using demo_store_ok by (simp add: store_ok_def demo_store rooms_ok_def seed_rooms_def seed_room_def unique_key_def room_ok_def)
  then show ?thesis using demo_store_ok
    by (simp add: wiki_store_def store_ok_def keys_ok_def msgs_ok_def demo_msg_def demo_store empty_store_def unique_key_def)
qed

lemma demo_msg_raw [simp]: "ms_raw (as_message (demo_msg n e raw)) = raw"
  by (simp add: as_message_def demo_msg_def message.defs)

lemma wiki_store_page:
  "FindByEuid (wiki_store raw) 0 ''home'' = 1" "FindByEuid (wiki_store raw) 0 (HistoryEuid ''home'') = - 1"
  "LoadMessage (wiki_store raw) 1 = Some (as_message (demo_msg 1 ''home'' raw))"
  "\<exists>r. GetRoomByNum (wiki_store raw) 0 = Some r \<and> IsWikiView (rm_view r)"
  by (simp_all add: FindByEuid_def wiki_store_def demo_msg_def HistoryEuid_def LoadMessage_def lookup_key_def GetRoomByNum_def
      seed_rooms_def seed_room_def IsWikiView_def)

lemma wiki_save:
  assumes "new_raw \<noteq> raw" "page_patch new_raw raw \<noteq> []"
  shows "\<exists>st'. Upsert fresh (\<lambda>_. []) 9 (page_msg new_raw) 0 (wiki_store raw) = (Inr 3, st')"
proof -
  have "\<not> IsHistoryEuid ''home''" "IsHistoryEuid ''home_HISTORY_''" by code_simp+
  then have "fst (Upsert fresh (\<lambda>_. []) 9 (page_msg new_raw) 0 (wiki_store raw)) = Inr 3"
    using assms
    by (simp add: Upsert_def UpsertByEuid_def RecordRevision_def FindByEuid_def LoadMessage_def as_message_def page_msg_def wiki_store_def
        HistoryEuid_def history_tail_Nil history_msg_def IsWikiView_def run_messages)
  then show ?thesis by (metis prod.collapse)
qed

abbreviation (input) demo_boundary :: string where
  "demo_boundary \<equiv> ''Citadel--Multipart--ab12--01234567''"

theorem Upsert_keeps_revisions_witness:
  "\<exists>st'. Upsert demo_boundary (\<lambda>_. []) 9 (page_msg (''b'' @ [LF])) 0 (wiki_store (''a'' @ [LF])) = (Inr 3, st')
    \<and> RevisionRaw st' 0 ''home'' 0 = Inr (''b'' @ [LF]) \<and> RevisionRaw st' 0 ''home'' 1 = Inr (''a'' @ [LF])"
proof -
  let ?st = "wiki_store (''a'' @ [LF])" and ?msg = "page_msg (''b'' @ [LF])"
  have patch: "page_patch (''b'' @ [LF]) (''a'' @ [LF]) \<noteq> []" "\<not> ends_crlf (page_patch (''b'' @ [LF]) (''a'' @ [LF]))" by code_simp+
  have b: "boundary_ok demo_boundary" "no_boundary demo_boundary (''b'' @ [LF])" by code_simp+
  obtain st' where run: "Upsert demo_boundary (\<lambda>_. []) 9 ?msg 0 ?st = (Inr 3, st')" using wiki_save [OF _ patch(1)] by fastforce
  obtain r where r: "GetRoomByNum ?st 0 = Some r" "IsWikiView (rm_view r)" using wiki_store_page(4) by blast
  have euid: "ms_euid ?msg = ''home''" "ms_raw ?msg = ''b'' @ [LF]" by (simp_all add: page_msg_def)
  have "stored_history ?st 0 ''home'' demo_boundary []" using wiki_store_page(2) by (simp add: stored_history_def)
  moreover have "LoadMessage ?st (FindByEuid ?st 0 ''home'') = Some (as_message (demo_msg 1 ''home'' (''a'' @ [LF])))" using wiki_store_page(1,3) by simp
  moreover have "\<not> IsHistoryEuid ''home''" by code_simp
  moreover have "msg_seq ?st < 2 ^ 63" by (simp add: wiki_store_def)
  ultimately have "RevisionRaw st' 0 (ms_euid ?msg) 0 = Inr (ms_raw ?msg)
    \<and> (\<forall>rv x. rv \<noteq> 0 \<and> rv \<noteq> 3 \<and> RevisionRaw ?st 0 (ms_euid ?msg) rv = Inr x \<longrightarrow> RevisionRaw st' 0 (ms_euid ?msg) rv = Inr x)
    \<and> (\<exists>hs. stored_history st' 0 (ms_euid ?msg) demo_boundary [(FindByEuid ?st 0 (ms_euid ?msg), hs)])"
    using b patch(2) run r unfolding euid
    by (intro Upsert_keeps_revisions [where old_msg = "as_message (demo_msg 1 ''home'' (''a'' @ [LF]))", OF wiki_store_ok _ _ _ _ _ b(1) _ _ _ _ _ _ _ run, unfolded euid])
       (simp_all add: kMaxRevisions_def Split_def)
  moreover have "RevisionRaw ?st 0 ''home'' 1 = Inr (''a'' @ [LF])" using wiki_store_page(1,3) by (simp add: RevisionRaw_def)
  ultimately show ?thesis using run euid by auto
qed

section \<open>Two ways to lose a history\<close>

text \<open>A save that fails after the history was written leaves the page as it was with one patch too many:
  the newest patch of the history then leads away from a text the page never had.\<close>

lemma Upsert_failed:
  assumes ok: "store_ok st" "msg_seq st < 2 ^ 63"
    and wiki: "GetRoomByNum st room = Some r" "IsWikiView (rm_view r)" "\<not> IsHistoryEuid (ms_euid msg)" "ms_euid msg \<noteq> []"
    and old: "LoadMessage st (FindByEuid st room (ms_euid msg)) = Some old_msg" "0 < FindByEuid st room (ms_euid msg)"
    and b: "boundary_ok b" "stored_history st room (ms_euid msg) b nps" "0 < FindByEuid st room (HistoryEuid (ms_euid msg)) \<or> b = fresh"
    and safe: "no_boundary b (ms_raw msg)"
    and rec: "RecordRevision fresh date now room (ms_euid msg) (ms_raw msg) st = (Recorded, err, st1)"
    and ins: "InsertMessage date msg [room] st1 = (Inl e, st')"
  shows "Upsert fresh date now msg room st = (Inl e, st') \<and> RevisionRaw st' room (ms_euid msg) 0 = RevisionRaw st room (ms_euid msg) 0
    \<and> (\<exists>hs. page_patch (ms_raw msg) (ms_raw old_msg) = with_newlines hs
         \<and> stored_history st' room (ms_euid msg) b ((FindByEuid st room (ms_euid msg), hs) # nps))"
proof -
  note rr = RecordRevision_recorded [OF ok wiki(4,3) b old safe rec]
  from ins have "st' = rollback st1 st'" by (cases rule: InsertMessage_cases) simp_all
  then have same: "messages st' = messages st1" "room_msgs st' = room_msgs st1" by (metis rollback_def store.select_convs store.surjective store.update_convs)+
  have find: "FindByEuid st' = FindByEuid st1" "LoadMessage st' = LoadMessage st1"
    using same by (intro ext; simp add: FindByEuid_def LoadMessage_def)+
  have "Upsert fresh date now msg room st = (Inl e, st')"
    using rec ins wiki old by (simp add: Upsert_def UpsertByEuid_def)
  moreover have "RevisionRaw st' room (ms_euid msg) 0 = RevisionRaw st room (ms_euid msg) 0"
    using rr(3,4) old by (simp add: RevisionRaw_def find Let_def)
  moreover have "stored_history st' = stored_history st1" by (intro ext) (simp add: stored_history_def find)
  ultimately show ?thesis using rr(5) by metis
qed

text \<open>The line end of the last line of a patch is taken for the delimiter's, a carriage return included. The
  last line of the patch is then no line of the page any more.\<close>

lemma crlf_patch:
  "page_patch (''x'' @ crlf @ ''b'' @ crlf) (''a'' @ crlf @ ''b'' @ crlf)
    = ''@@ -1,2 +1,2 @@'' @ [LF] @ ''-x'' @ crlf @ ''+a'' @ crlf @ '' b'' @ crlf"
  by code_simp

lemma crlf_apply:
  "Apply (''x'' @ crlf @ ''b'' @ crlf) (''@@ -1,2 +1,2 @@'' @ [LF] @ ''-x'' @ crlf @ ''+a'' @ crlf @ '' b'')
    = Inl ''context does not match at line 2''"
proof -
  have "Num (Suc (Suc 0)) = ''2''" by code_simp
  then show ?thesis
    by (simp add: Apply_def Split_def ParseHunk_def number_def opt_count_def isdigit_def take_until.simps take_src_def kNoNewlineText_def
        Let_def mismatch_def marker_next_def hunk_lines.simps)
qed

text \<open>A defect: a page whose lines end in carriage return and newline loses its history with the first save. The parser of
  multipart bodies takes the carriage return at the end of the patch for a part of the delimiter, and the patch that is
  read back no longer applies: the revision that was replaced can not be shown any more.\<close>

theorem Upsert_crlf:
  "\<exists>st'. Upsert demo_boundary (\<lambda>_. []) 9 (page_msg (''x'' @ crlf @ ''b'' @ crlf)) 0 (wiki_store (''a'' @ crlf @ ''b'' @ crlf)) = (Inr 3, st')
    \<and> RevisionRaw (wiki_store (''a'' @ crlf @ ''b'' @ crlf)) 0 ''home'' 1 = Inr (''a'' @ crlf @ ''b'' @ crlf)
    \<and> RevisionRaw st' 0 ''home'' 1 = Inl ''Revision 1 could not be reconstructed: context does not match at line 2''"
proof -
  let ?old = "''a'' @ crlf @ ''b'' @ crlf" and ?new = "''x'' @ crlf @ ''b'' @ crlf"
  let ?st = "wiki_store ?old" and ?msg = "page_msg ?new"
  have "page_patch ?new ?old \<noteq> []" unfolding crlf_patch by simp
  then obtain st' where run: "Upsert demo_boundary (\<lambda>_. []) 9 ?msg 0 ?st = (Inr 3, st')" using wiki_save [of ?new ?old] by fastforce
  have b: "boundary_ok demo_boundary" "no_boundary demo_boundary ?new" by code_simp+
  obtain r where r: "GetRoomByNum ?st 0 = Some r" "IsWikiView (rm_view r)" using wiki_store_page(4) by blast
  have page: "ms_euid ?msg = ''home''" "ms_raw ?msg = ?new" by (simp_all add: page_msg_def)
  have start: "stored_history ?st 0 ''home'' demo_boundary []" "msg_seq ?st < 2 ^ 63"
    "LoadMessage ?st (FindByEuid ?st 0 ''home'') = Some (as_message (demo_msg 1 ''home'' ?old))"
    using wiki_store_page(1-3) [of ?old] by (simp_all add: stored_history_def wiki_store_def)
  have "\<not> IsHistoryEuid ''home''" by code_simp
  note s = Upsert_save [where msg = ?msg, unfolded page, OF wiki_store_ok start(2) r this start(3) b(1) start(1) disjI2 [OF refl] b(2) run,
    unfolded demo_msg_raw]
  obtain hs where hs: "page_patch ?new ?old = with_newlines hs" "stored_history st' 0 ''home'' demo_boundary [(1, hs)]"
    using s(6) wiki_store_page(1) by auto
  obtain rs where "History st' 0 ''home'' = take kMaxRevisions rs" "list_all2 tells [(1, hs)] rs"
    using History_stored [OF b(1) hs(2)] by blast
  then obtain rv where rv: "History st' 0 ''home'' = [rv]" "rv_diff rv = trim_eol (page_patch ?new ?old)"
    by (auto simp: list_all2_Cons1 tells_def hs(1) [symmetric] kMaxRevisions_def)
  have "rv_diff rv = ''@@ -1,2 +1,2 @@'' @ [LF] @ ''-x'' @ crlf @ ''+a'' @ crlf @ '' b''"
    unfolding rv(2) crlf_patch by (simp add: trim_eol_def)
  then have "RevisionRaw st' 0 ''home'' 1 = Inl (''Revision '' @ to_string 1 @ '' could not be reconstructed: '' @ ''context does not match at line 2'')"
    using s(3-5) rv(1) crlf_apply page by (simp add: RevisionRaw_def)
  moreover have "to_string 1 = ''1''" by code_simp
  moreover have "RevisionRaw ?st 0 ''home'' 1 = Inr ?old" using wiki_store_page(1,3) by (simp add: RevisionRaw_def)
  ultimately show ?thesis using run by auto
qed

section \<open>Names, lists and deletion\<close>

text \<open>Names are kept in one form: a normalised name stays as it is.\<close>

lemma NormalizeName_idem: "NormalizeName (NormalizeName name) = NormalizeName name"
proof -
  define f where "f c = (if byte c < 0x20 \<or> byte c > 0x7F then CHR ''_'' else tolower c)" for c
  define cut where "cut s = rev (dropWhile (\<lambda>c. c = CHR '' '') (rev (dropWhile (\<lambda>c. c = CHR '' '') s)))" for s :: string
  have norm: "NormalizeName s = (if cut (map f s) = [] then ''home'' else cut (map f s))" for s
    unfolding NormalizeName_def cut_def f_def by (simp only: Let_def)
  have "tolower (CHR ''_'') = CHR ''_''" by code_simp
  then have ff: "f (f c) = f c" for c by (auto simp: f_def byte_tolower)
  have fset: "c \<in> set (cut (map f s)) \<Longrightarrow> f c = c" for c s
    using ff by (auto simp: cut_def dest!: set_dropWhileD)
  then have fixed: "map f (cut (map f s)) = cut (map f s)" for s by (simp add: map_idI)
  have cut_idem: "cut (cut s) = cut s" for s
  proof -
    let ?P = "\<lambda>c. c = CHR '' ''" and ?t = "dropWhile (\<lambda>c. c = CHR '' '') s"
    have t: "?t = cut s @ rev (takeWhile ?P (rev ?t))"
      unfolding cut_def rev_append [symmetric] takeWhile_dropWhile_id rev_rev_ident ..
    have "cut s = [] \<or> \<not> ?P (hd (cut s))"
    proof (cases "cut s")
      case (Cons c cs)
      then have "?t \<noteq> []" "hd ?t = c" by (subst t, simp)+
      then show ?thesis using hd_dropWhile [of ?P s] Cons by simp
    qed simp
    then have "dropWhile ?P (cut s) = cut s" by (cases "cut s") auto
    moreover have "dropWhile ?P (rev (cut s)) = rev (cut s)" by (simp add: cut_def)
    moreover have "cut (cut s) = rev (dropWhile ?P (rev (dropWhile ?P (cut s))))" unfolding cut_def [of "cut s"] ..
    ultimately show ?thesis by simp
  qed
  have "NormalizeName ''home'' = ''home''" by code_simp
  then show ?thesis using fixed cut_idem by (simp add: norm)
qed

text \<open>The invariant of the store is kept.\<close>

lemma RecordRevision_ok: "store_ok st \<Longrightarrow> store_ok (snd (snd (RecordRevision fresh date now room page new_raw st)))"
proof -
  assume ok: "store_ok st"
  have "store_ok (snd (UpsertByEuid never_called date now msg room st))" for msg
    by (rule UpsertByEuid_ok [OF ok]) (simp add: never_called_def)
  then have "UpsertByEuid never_called date now msg room st = (res, s) \<Longrightarrow> store_ok s" for msg res s by (metis snd_conv)
  with ok show ?thesis by (auto simp: RecordRevision_def Let_def split: prod.splits option.splits sum.splits)
qed

lemma Upsert_ok: "store_ok st \<Longrightarrow> store_ok (snd (Upsert fresh date now msg room st))"
  unfolding Upsert_def by (erule UpsertByEuid_ok) (rule RecordRevision_ok)

text \<open>Deleting a page leaves neither the page nor its history, so a page made later under the same name starts without one.\<close>

lemma DeletePage_ok: "store_ok st \<Longrightarrow> store_ok (snd (DeletePage now room page st))"
  using DeleteMessage_ok by (auto simp: DeletePage_def Let_def split: sum.splits prod.splits) (metis snd_conv)+

end
