(* ===== verification/QM_Expiry.thy ===== *)
theory QM_Expiry
  imports QM_Wiki
begin

unbundle bit_operations_syntax

text \<open>
  Housekeeping of the store: expiry policies and the expiry sweep of
  \<^verbatim>\<open>src/core/src/citadel_store.cpp\<close>, and the size backfill of \<^verbatim>\<open>src/core/src/quota.cpp\<close>. Then the whole
  store as a state machine, one step per operation with any statement failing, and its invariant.
  \<open>BackfillSizes\<close> selects rows until none is left; it ends because every pass clears a row or uses up a
  fault, and the schedule of faults is a finite list.
\<close>

section \<open>Policies\<close>

record expire_policy =
  ep_mode :: int
  ep_value :: int

abbreviation (input) "EXPIRE_NEXTLEVEL \<equiv> 0 :: int"
abbreviation (input) "EXPIRE_MANUAL \<equiv> 1 :: int"
abbreviation (input) "EXPIRE_NUMMSGS \<equiv> 2 :: int"
abbreviation (input) "EXPIRE_AGE \<equiv> 3 :: int"

definition no_policy :: expire_policy where
  "no_policy = \<lparr>ep_mode = EXPIRE_NEXTLEVEL, ep_value = 0\<rparr>"

definition ExpireKey :: "string \<Rightarrow> room \<Rightarrow> string" where
  "ExpireKey which room =
     (if which = ''roompolicy'' then ''c_ep_room_'' @ to_string (rm_num room)
      else if which = ''floorpolicy'' then ''c_ep_floor_'' @ to_string (rm_floor room)
      else if which = ''mailboxespolicy'' then ''c_ep_mailboxes''
      else ''c_ep_site'')"

definition ValidWhich :: "string \<Rightarrow> bool" where
  "ValidWhich which = (which \<in> {''roompolicy'', ''floorpolicy'', ''sitepolicy'', ''mailboxespolicy''})"

definition ReadPolicy :: "store \<Rightarrow> string \<Rightarrow> expire_policy" where
  "ReadPolicy st key =
     (let raw = store_GetConfig st key [] in
      case find_idx CHR ''|'' raw of
        None \<Rightarrow> no_policy
      | Some bar \<Rightarrow>
         (let p = \<lparr>ep_mode = fst (strtoll (take bar raw)), ep_value = fst (strtoll (drop (Suc bar) raw))\<rparr> in
          if ep_mode p < EXPIRE_NEXTLEVEL \<or> ep_mode p > EXPIRE_AGE then no_policy else p))"

definition GetExpirePolicy :: "store \<Rightarrow> string \<Rightarrow> room \<Rightarrow> expire_policy option" where
  "GetExpirePolicy st which room = (if ValidWhich which then Some (ReadPolicy st (ExpireKey which room)) else None)"

definition SetExpirePolicy :: "string \<Rightarrow> room \<Rightarrow> expire_policy \<Rightarrow> store \<Rightarrow> (string + unit) \<times> store" where
  "SetExpirePolicy which room p st =
     (if \<not> ValidWhich which then (Inl ''Unknown policy level.'', st)
      else if ep_mode p < EXPIRE_NEXTLEVEL \<or> ep_mode p > EXPIRE_AGE then (Inl ''Unknown expiry mode.'', st)
      else if ep_mode p \<ge> EXPIRE_NUMMSGS \<and> ep_value p < 1 then (Inl ''That expiry mode needs a value of at least 1.'', st)
      else (Inr (), SetConfig (ExpireKey which room) (to_string (ep_mode p) @ ''|'' @ to_string (ep_value p)) st))"

definition EffectiveExpirePolicy :: "store \<Rightarrow> room \<Rightarrow> expire_policy" where
  "EffectiveExpirePolicy st room =
     (let p = ReadPolicy st (ExpireKey ''roompolicy'' room) in
      if ep_mode p \<noteq> EXPIRE_NEXTLEVEL then p
      else let p = (if has_flag (rm_flags room) QR_MAILBOX then ReadPolicy st ''c_ep_mailboxes''
                    else ReadPolicy st (ExpireKey ''floorpolicy'' room)) in
        if ep_mode p \<noteq> EXPIRE_NEXTLEVEL then p
        else let p = ReadPolicy st ''c_ep_site'' in
          if ep_mode p = EXPIRE_NEXTLEVEL then \<lparr>ep_mode = EXPIRE_MANUAL, ep_value = 0\<rparr> else p)"

section \<open>The sweep\<close>

definition doomed :: "int \<Rightarrow> store \<Rightarrow> room \<Rightarrow> int list" where
  "doomed now st room =
     (let p = EffectiveExpirePolicy st room in
      if has_flag (rm_flags room) QR_PERMANENT \<or> ep_mode p = EXPIRE_MANUAL \<or> ep_mode p = EXPIRE_NEXTLEVEL then []
      else
       (let ms = RoomMessages st (rm_num room) ''all'' 0 0 in
        if ep_mode p = EXPIRE_NUMMSGS then
          (if int (length ms) > ep_value p then take (length ms - nat (ep_value p)) ms else [])
        else if ep_mode p = EXPIRE_AGE then
          filter (\<lambda>n. case LoadMessage st n of None \<Rightarrow> False
                    | Some m \<Rightarrow> ms_time m > 0 \<and> ms_time m < now - ep_value p * 86400) ms
        else []))"

fun delete_each :: "int \<Rightarrow> int \<Rightarrow> int list \<Rightarrow> int list \<Rightarrow> store \<Rightarrow> int list \<times> store" where
  "delete_each now room [] done st = (done, st)"
| "delete_each now room (n # ns) done st =
     (case DeleteMessage now room n st of
        (Inr _, st) \<Rightarrow> delete_each now room ns (done @ [n]) st
      | (Inl _, st) \<Rightarrow> delete_each now room ns done st)"

fun expire_rooms :: "int \<Rightarrow> room list \<Rightarrow> int list \<Rightarrow> store \<Rightarrow> int list \<times> store" where
  "expire_rooms now [] done st = (done, st)"
| "expire_rooms now (room # rs) done st =
     (let (done, st) = delete_each now (rm_num room) (doomed now st room) done st in expire_rooms now rs done st)"

fun sweep :: "int list \<Rightarrow> string \<Rightarrow> store \<Rightarrow> string \<times> store" where
  "sweep [] err st = (err, st)"
| "sweep (n # ns) err st =
     (let (ok, st) = ExecP (\<lambda>s. Some (s\<lparr>messages := delete_where (\<lambda>m. ms_num m = n \<and> n \<notin> snd ` set (room_msgs s)) (messages s)\<rparr>)) st
      in sweep ns (if ok then err else ''could not remove an expired message'') st)"

definition RunExpiry :: "int \<Rightarrow> store \<Rightarrow> int \<times> string \<times> store" where
  "RunExpiry now st =
     (let (unlinked, st) = expire_rooms now (sort_key rm_num (rooms st)) [] st;
          (err, st) = sweep unlinked [] st
      in (int (length unlinked), err, st))"

section \<open>Sizes of old messages\<close>

definition set_size :: "int \<Rightarrow> int \<Rightarrow> store \<Rightarrow> store" where
  "set_size n sz st =
     snd (ExecP (\<lambda>s. Some (s\<lparr>messages := map (\<lambda>m. if ms_num m = n then m\<lparr>ms_size := sz\<rparr> else m) (messages s)\<rparr>)) st)"

definition backfill_one :: "(int \<Rightarrow> string) \<Rightarrow> string \<Rightarrow> int \<Rightarrow> store \<Rightarrow> store" where
  "backfill_one date node n st =
     set_size n (case LoadMessage st n of None \<Rightarrow> 0 | Some m \<Rightarrow> MessageSize date m node) st"

definition unsized :: "store \<Rightarrow> int list" where
  "unsized st = map ms_num (filter (\<lambda>m. ms_size m < 0) (messages st))"

definition backfill_measure :: "store \<Rightarrow> nat" where
  "backfill_measure st = length (unsized st) + length (faults st)"

lemma MessageSize_nonneg: "0 \<le> MessageSize date m node"
  by (simp add: MessageSize_def)

lemma unsized_set_size:
  assumes "0 \<le> sz"
  shows "backfill_measure (set_size n sz st) \<le> backfill_measure st"
    and "n \<in> set (unsized st) \<Longrightarrow> backfill_measure (set_size n sz st) < backfill_measure st"
proof -
  have le: "length (filter (\<lambda>m. ms_size m < 0) (map (\<lambda>m. if ms_num m = n then m\<lparr>ms_size := sz\<rparr> else m) ms))
      \<le> length (filter (\<lambda>m. ms_size m < 0) ms)" for ms :: "msg_row list"
    using assms by (induction ms) auto
  have less: "n \<in> ms_num ` set (filter (\<lambda>m. ms_size m < 0) ms) \<Longrightarrow>
      length (filter (\<lambda>m. ms_size m < 0) (map (\<lambda>m. if ms_num m = n then m\<lparr>ms_size := sz\<rparr> else m) ms))
      < length (filter (\<lambda>m. ms_size m < 0) ms)" for ms :: "msg_row list"
  proof (induction ms)
    case (Cons m ms)
    then show ?case using assms le [of ms] by (cases "ms_num m = n \<and> ms_size m < 0") (auto split: if_splits)
  qed simp
  show "backfill_measure (set_size n sz st) \<le> backfill_measure st"
    using le [of "messages st"]
    by (cases "faults st") (auto simp: backfill_measure_def set_size_def ExecP_def unsized_def Let_def)
  show "n \<in> set (unsized st) \<Longrightarrow> backfill_measure (set_size n sz st) < backfill_measure st"
    using less [of "messages st"]
    by (cases "faults st") (auto simp: backfill_measure_def set_size_def ExecP_def unsized_def Let_def)
qed

lemma backfill_batch:
  "backfill_measure (fold (backfill_one date node) ns st) \<le> backfill_measure st"
proof (induction ns arbitrary: st)
  case (Cons n ns)
  have "backfill_measure (backfill_one date node n st) \<le> backfill_measure st"
    unfolding backfill_one_def by (rule unsized_set_size) (simp add: MessageSize_nonneg split: option.split)
  with Cons [of "backfill_one date node n st"] show ?case by simp
qed simp

function backfill_loop :: "(int \<Rightarrow> string) \<Rightarrow> string \<Rightarrow> int \<Rightarrow> store \<Rightarrow> int \<times> store" where
  "backfill_loop date node updated st =
     (let ns = take 500 (unsized st) in
      if ns = [] then (updated, st)
      else backfill_loop date node (updated + int (length ns)) (fold (backfill_one date node) ns st))"
  by pat_completeness auto
termination
proof (relation "measure (\<lambda>(_, _, _, st). backfill_measure st)")
  fix date node updated st ns
  assume ns: "ns = take 500 (unsized st)" "\<not> ns = []"
  then obtain n rest where n: "ns = n # rest" "n \<in> set (unsized st)"
    by (metis in_set_takeD list.exhaust list.set_intros(1))
  have "backfill_measure (backfill_one date node n st) < backfill_measure st"
    unfolding backfill_one_def by (rule unsized_set_size(2) [OF _ n(2)]) (simp add: MessageSize_nonneg split: option.split)
  then show "((date, node, updated + int (length ns), fold (backfill_one date node) ns st), date, node, updated, st)
      \<in> measure (\<lambda>(_, _, _, st). backfill_measure st)"
    using backfill_batch [of date node rest "backfill_one date node n st"] by (simp add: n)
qed simp

declare backfill_loop.simps [simp del]

definition BackfillSizes :: "(int \<Rightarrow> string) \<Rightarrow> store \<Rightarrow> int \<times> store" where
  "BackfillSizes date st = backfill_loop date (store_GetConfig st ''c_nodename'' ''quackcit'') 0 st"

section \<open>Policies read back\<close>

text \<open>A policy that is stored is the policy that is read at that level, for every level, room and mode
  and every value of 64 bits; the modes that would purge everything are refused.\<close>

theorem SetExpirePolicy_roundtrip:
  assumes "faults st = []" "SetExpirePolicy which room p st = (Inr (), st')" "- (2 ^ 63) \<le> ep_value p" "ep_value p < 2 ^ 63"
  shows "GetExpirePolicy st' which room = Some p \<and> (if ep_mode p < EXPIRE_NUMMSGS then True else 1 \<le> ep_value p)"
proof -
  have ok: "ValidWhich which" "0 \<le> ep_mode p" "ep_mode p \<le> 3" "\<not> (ep_mode p \<ge> 2 \<and> ep_value p < 1)"
    and st': "st' = SetConfig (ExpireKey which room) (to_string (ep_mode p) @ ''|'' @ to_string (ep_value p)) st"
    using assms(2) by (auto simp: SetExpirePolicy_def split: if_splits)
  have "lookup_key fst k (upsert fst set_value (k, v) xs) = Some (k, v)" for k v and xs :: "(string \<times> string) list"
    using config_table.lookup_upsert [of k "(k, v)" xs] lookup_key_in [of fst k xs]
    by (auto simp: set_value_def split: option.splits)
  moreover have "map_of xs k = map_option snd (lookup_key fst k xs)" for xs :: "(string \<times> string) list" and k
    by (induction xs) (auto simp: lookup_key_def)
  ultimately have raw: "store_GetConfig st' (ExpireKey which room) [] = to_string (ep_mode p) @ ''|'' @ to_string (ep_value p)"
    using assms(1) by (simp add: st' SetConfig_def store_GetConfig_def ExecP_no_faults)
  have "c \<noteq> CHR ''|''" if "c \<in> set (to_string (ep_mode p))" for c
    using that ok(2) digits_of_isdigit [of c "nat (ep_mode p)"] by (auto simp: to_string_def isdigit_def)
  then have bar: "find_idx CHR ''|'' (to_string (ep_mode p) @ CHR ''|'' # to_string (ep_value p)) = Some (length (to_string (ep_mode p)))"
    using find_idx_split [of "CHR ''|''" "to_string (ep_mode p)"] by auto
  have "strtoll (to_string (ep_mode p)) = (ep_mode p, [])" "strtoll (to_string (ep_value p)) = (ep_value p, [])"
    using strtoll_to_string [of "ep_mode p" "[]"] strtoll_to_string [of "ep_value p" "[]"] assms(3,4) ok(2,3) by simp_all
  then have "ReadPolicy st' (ExpireKey which room) = p"
    using ok(2,3) by (simp add: ReadPolicy_def Let_def raw bar)
  then show ?thesis using ok(1,4) by (auto simp: GetExpirePolicy_def)
qed

theorem SetExpirePolicy_roundtrip_witness:
  "\<exists>st'. SetExpirePolicy ''floorpolicy'' (hd seed_rooms) \<lparr>ep_mode = 3, ep_value = 30\<rparr> demo_store = (Inr (), st')
     \<and> GetExpirePolicy st' ''floorpolicy'' (hd seed_rooms) = Some \<lparr>ep_mode = 3, ep_value = 30\<rparr>"
proof -
  have "fst (SetExpirePolicy ''floorpolicy'' (hd seed_rooms) \<lparr>ep_mode = 3, ep_value = 30\<rparr> demo_store) = Inr ()"
    by (simp add: SetExpirePolicy_def ValidWhich_def)
  moreover have "faults demo_store = []" by (simp add: run_store)
  ultimately show ?thesis
    using SetExpirePolicy_roundtrip [of demo_store "''floorpolicy''" "hd seed_rooms" "\<lparr>ep_mode = 3, ep_value = 30\<rparr>"]
    by (cases "SetExpirePolicy ''floorpolicy'' (hd seed_rooms) \<lparr>ep_mode = 3, ep_value = 30\<rparr> demo_store") simp
qed

section \<open>What the sweep removes\<close>

definition spared :: "int \<Rightarrow> store \<Rightarrow> room list \<Rightarrow> int \<times> int \<Rightarrow> bool" where
  "spared now st rs p \<longleftrightarrow> list_all (\<lambda>r. \<not> (rm_num r = fst p \<and> snd p \<in> set (doomed now st r))) rs"

lemma msg_nextval_no_faults: "faults st = [] \<Longrightarrow> msg_nextval st = (Some (msg_seq st), st\<lparr>msg_seq := msg_seq st + 1\<rparr>)"
  by (simp add: msg_nextval_def nextval_def no_faults_upd)

lemma DeleteMessage_no_faults:
  assumes "faults st = []" "MessageInRoom st room n"
  shows "\<exists>ts q. DeleteMessage now room n st
      = (Inr (), st\<lparr>room_msgs := filter (\<lambda>p. p \<noteq> (room, n)) (room_msgs st), msg_seq := q, tombstones := ts\<rparr>)"
  using assms
  by (simp add: DeleteMessage_def Unlink_def drop_pointer_def bury_def msg_nextval_no_faults ExecP_no_faults Let_def delete_where_def)
    (intro exI, rule refl)

lemma delete_each_no_faults:
  assumes "faults st = []" "list_all (MessageInRoom st room) ns" "distinct ns"
  shows "\<exists>ts q. delete_each now room ns done st = (done @ ns,
      st\<lparr>room_msgs := filter (\<lambda>p. \<not> (fst p = room \<and> snd p \<in> set ns)) (room_msgs st), msg_seq := q, tombstones := ts\<rparr>)"
  using assms
proof (induction ns arbitrary: st "done")
  case Nil
  then show ?case by (intro exI [of _ "tombstones st"] exI [of _ "msg_seq st"]) simp
next
  case (Cons n ns)
  obtain ts q where del: "DeleteMessage now room n st
      = (Inr (), st\<lparr>room_msgs := filter (\<lambda>p. p \<noteq> (room, n)) (room_msgs st), msg_seq := q, tombstones := ts\<rparr>)" (is "_ = (_, ?st1)")
    using DeleteMessage_no_faults Cons.prems(1,2) by fastforce
  have "list_all (MessageInRoom ?st1 room) ns" "faults ?st1 = []"
    using Cons.prems by (auto simp: list_all_iff MessageInRoom_def)
  then obtain ts' q' where "delete_each now room ns (done @ [n]) ?st1 = ((done @ [n]) @ ns,
      ?st1\<lparr>room_msgs := filter (\<lambda>p. \<not> (fst p = room \<and> snd p \<in> set ns)) (room_msgs ?st1), msg_seq := q', tombstones := ts'\<rparr>)"
    using Cons.IH [of ?st1 "done @ [n]"] Cons.prems(3) by auto
  moreover have "filter (\<lambda>p. \<not> (fst p = room \<and> snd p \<in> set ns)) (filter (\<lambda>p. p \<noteq> (room, n)) ps)
      = filter (\<lambda>p. \<not> (fst p = room \<and> snd p \<in> set (n # ns))) ps" for ps :: "(int \<times> int) list"
    by (auto simp: filter_filter intro!: filter_cong)
  ultimately show ?case using del by auto
qed

lemma doomed_in_room:
  assumes "store_ok st"
  shows "list_all (MessageInRoom st (rm_num r)) (doomed now st r) \<and> distinct (doomed now st r)"
proof -
  have "distinct (msgs_of st (rm_num r))"
    using assms by (auto simp: msgs_of_def store_ok_def msgs_ok_def distinct_map inj_on_def)
  then have "distinct (RoomMessages st (rm_num r) ''all'' 0 0)" "set (RoomMessages st (rm_num r) ''all'' 0 0) = set (msgs_of st (rm_num r))"
    by (simp_all add: RoomMessages_def)
  then show ?thesis
    by (auto simp: doomed_def Let_def list_all_iff MessageInRoom_def in_room [symmetric] dest!: in_set_takeD)
qed

lemma doomed_cong:
  assumes "cfg s = cfg t" "messages s = messages t" "msgs_of s (rm_num r) = msgs_of t (rm_num r)"
  shows "doomed now s r = doomed now t r"
proof -
  have read: "ReadPolicy s = ReadPolicy t"
    using assms(1) by (intro ext) (simp add: ReadPolicy_def store_GetConfig_def)
  have "EffectiveExpirePolicy s r = EffectiveExpirePolicy t r"
    by (simp only: EffectiveExpirePolicy_def read)
  moreover have "LoadMessage s = LoadMessage t" "RoomMessages s (rm_num r) ''all'' 0 0 = RoomMessages t (rm_num r) ''all'' 0 0"
    using assms by (auto simp: LoadMessage_def RoomMessages_def)
  ultimately show ?thesis by (simp only: doomed_def)
qed

lemma delete_each_ok: "store_ok st \<Longrightarrow> store_ok (snd (delete_each now room ns done st))"
proof (induction ns arbitrary: st "done")
  case (Cons n ns)
  then show ?case using DeleteMessage_ok [OF Cons.prems, of now room n]
    by (cases "DeleteMessage now room n st") (auto split: sum.splits)
qed simp

text \<open>Room by room, the sweep takes the doomed pointers away and leaves messages and policies alone.\<close>

lemma expire_rooms_no_faults:
  assumes "store_ok st" "faults st = []" "distinct (map rm_num rs)"
  shows "\<exists>ts q. expire_rooms now rs done st = (done @ concat (map (doomed now st) rs),
      st\<lparr>room_msgs := filter (spared now st rs) (room_msgs st), msg_seq := q, tombstones := ts\<rparr>)
      \<and> store_ok (st\<lparr>room_msgs := filter (spared now st rs) (room_msgs st), msg_seq := q, tombstones := ts\<rparr>)"
  using assms
proof (induction rs arbitrary: st "done")
  case Nil
  then show ?case
    by (intro exI [of _ "tombstones st"] exI [of _ "msg_seq st"]) (simp add: spared_def)
next
  case (Cons r rs)
  let ?d = "doomed now st r"
  have dl: "list_all (MessageInRoom st (rm_num r)) ?d" "distinct ?d" using doomed_in_room [OF Cons.prems(1)] by blast+
  obtain ts q where del: "delete_each now (rm_num r) ?d done st = (done @ ?d,
      st\<lparr>room_msgs := filter (\<lambda>p. \<not> (fst p = rm_num r \<and> snd p \<in> set ?d)) (room_msgs st), msg_seq := q, tombstones := ts\<rparr>)"
    (is "_ = (_, ?s)")
    using delete_each_no_faults [OF Cons.prems(2) dl] by blast
  have ok: "store_ok ?s" using delete_each_ok [OF Cons.prems(1), of now "rm_num r" ?d "done"] del by simp
  have same: "doomed now ?s r' = doomed now st r'" if r': "r' \<in> set rs" for r'
  proof (rule doomed_cong)
    have "rm_num r \<notin> rm_num ` set rs" using Cons.prems(3) by simp
    then have "rm_num r' \<noteq> rm_num r" using r' by (metis image_eqI)
    then show "msgs_of ?s (rm_num r') = msgs_of st (rm_num r')"
      by (auto simp: msgs_of_def intro!: arg_cong [where f = "map snd"] filter_cong)
  qed simp_all
  then have maps: "map (doomed now ?s) rs = map (doomed now st) rs" by (intro map_cong refl)
  have "filter (spared now ?s rs) (room_msgs ?s) = filter (spared now st (r # rs)) (room_msgs st)"
    using same by (auto simp: spared_def list_all_iff intro!: filter_cong)
  moreover obtain ts' q' where "expire_rooms now rs (done @ ?d) ?s = ((done @ ?d) @ concat (map (doomed now st) rs),
      ?s\<lparr>room_msgs := filter (spared now ?s rs) (room_msgs ?s), msg_seq := q', tombstones := ts'\<rparr>)"
      "store_ok (?s\<lparr>room_msgs := filter (spared now ?s rs) (room_msgs ?s), msg_seq := q', tombstones := ts'\<rparr>)"
    using Cons.IH [OF ok, of "done @ ?d", unfolded maps] Cons.prems(2,3) by auto
  ultimately show ?case using del by auto
qed

lemma sweep_ok: "store_ok st \<Longrightarrow> store_ok (snd (sweep ns err st))"
proof (induction ns arbitrary: err st)
  case (Cons n ns)
  have "store_ok (s\<lparr>messages := delete_where (\<lambda>m. ms_num m = n \<and> n \<notin> snd ` set (room_msgs s)) (messages s)\<rparr>)" if "store_ok s" for s
  proof -
    have "msgs_ok (map ms_num (delete_where (\<lambda>m. ms_num m = n \<and> n \<notin> snd ` set ps) ms)) ps ts q" if "msgs_ok (map ms_num ms) ps ts q"
      for ms :: "msg_row list" and ps ts q
      using that by (auto simp: msgs_ok_def delete_where_def list_all_iff image_iff distinct_map inj_on_def) (metis snd_conv)+
    then show ?thesis using that by (auto simp: store_ok_def keys_ok_def)
  qed
  then have "store_ok (snd (ExecP (\<lambda>s. Some (s\<lparr>messages := delete_where (\<lambda>m. ms_num m = n \<and> n \<notin> snd ` set (room_msgs s)) (messages s)\<rparr>)) st))"
    using Cons.prems by (intro kept.ExecP_pres) auto
  with Cons.IH show ?case by (simp add: case_prod_beta)
qed simp

lemma expire_rooms_ok: "store_ok st \<Longrightarrow> store_ok (snd (expire_rooms now rs done st))"
proof (induction rs arbitrary: st "done")
  case (Cons r rs)
  then show ?case using delete_each_ok [OF Cons.prems] by (simp add: case_prod_beta)
qed simp

lemma RunExpiry_ok: "store_ok st \<Longrightarrow> store_ok (snd (snd (RunExpiry now st)))"
  by (simp add: RunExpiry_def Let_def case_prod_beta sweep_ok expire_rooms_ok)

lemma sweep_no_faults:
  "faults st = [] \<Longrightarrow> sweep ns [] st = ([], st\<lparr>messages :=
     filter (\<lambda>m. \<not> (ms_num m \<in> set ns \<and> ms_num m \<notin> snd ` set (room_msgs st))) (messages st)\<rparr>)"
proof (induction ns arbitrary: st)
  case (Cons n ns)
  let ?s = "st\<lparr>messages := delete_where (\<lambda>m. ms_num m = n \<and> n \<notin> snd ` set (room_msgs st)) (messages st)\<rparr>"
  have "filter (\<lambda>m. \<not> (ms_num m \<in> set ns \<and> ms_num m \<notin> snd ` set (room_msgs st)))
      (delete_where (\<lambda>m. ms_num m = n \<and> n \<notin> snd ` set (room_msgs st)) (messages st))
      = filter (\<lambda>m. \<not> (ms_num m \<in> set (n # ns) \<and> ms_num m \<notin> snd ` set (room_msgs st))) (messages st)"
    by (auto simp: delete_where_def intro!: filter_cong)
  with Cons.IH [of ?s] Cons.prems show ?case by (simp add: ExecP_no_faults)
qed simp

definition survivors :: "int \<Rightarrow> store \<Rightarrow> room \<Rightarrow> int list" where
  "survivors now st r =
     (let p = EffectiveExpirePolicy st r; ms = sort (msgs_of st (rm_num r)) in
      if has_flag (rm_flags r) QR_PERMANENT then ms
      else if ep_mode p = EXPIRE_NUMMSGS then drop (length ms - nat (ep_value p)) ms
      else if ep_mode p = EXPIRE_AGE then
        filter (\<lambda>n. \<not> (case LoadMessage st n of None \<Rightarrow> False | Some m \<Rightarrow> ms_time m > 0 \<and> ms_time m < now - ep_value p * 86400)) ms
      else ms)"

lemma survivors_doomed:
  assumes "store_ok st"
  shows "filter (\<lambda>n. n \<notin> set (doomed now st r)) (sort (msgs_of st (rm_num r))) = survivors now st r"
proof -
  let ?ms = "sort (msgs_of st (rm_num r))"
  have dist: "distinct ?ms"
    using assms by (auto simp: msgs_of_def store_ok_def msgs_ok_def distinct_map inj_on_def)
  have "filter (\<lambda>n. n \<notin> set (take k xs)) xs = drop k xs" if "distinct xs" for k and xs :: "int list"
  proof -
    have "set (take k xs) \<inter> set (drop k xs) = {}" using that by (metis append_take_drop_id distinct_append)
    then have "filter (\<lambda>n. n \<notin> set (take k xs)) (take k xs @ drop k xs) = drop k xs"
      unfolding filter_append by (auto simp: filter_empty_conv filter_id_conv)
    then show ?thesis by simp
  qed
  note drop = this [OF dist]
  have age: "filter (\<lambda>n. n \<notin> set (filter P xs)) xs = filter (\<lambda>n. \<not> P n) xs" for P and xs :: "int list"
    by (auto intro!: filter_cong)
  let ?p = "EffectiveExpirePolicy st r"
  let ?old = "\<lambda>n. case LoadMessage st n of None \<Rightarrow> False | Some m \<Rightarrow> ms_time m > 0 \<and> ms_time m < now - ep_value ?p * 86400"
  have d: "doomed now st r = (if has_flag (rm_flags r) QR_PERMANENT then [] else if ep_mode ?p = EXPIRE_NUMMSGS
      then take (length ?ms - nat (ep_value ?p)) ?ms else if ep_mode ?p = EXPIRE_AGE then filter ?old ?ms else [])"
    by (auto simp: doomed_def RoomMessages_def Let_def)
  consider "has_flag (rm_flags r) QR_PERMANENT" | "\<not> has_flag (rm_flags r) QR_PERMANENT" "ep_mode ?p = EXPIRE_NUMMSGS"
    | "\<not> has_flag (rm_flags r) QR_PERMANENT" "ep_mode ?p = EXPIRE_AGE"
    | "\<not> has_flag (rm_flags r) QR_PERMANENT" "ep_mode ?p \<noteq> EXPIRE_NUMMSGS" "ep_mode ?p \<noteq> EXPIRE_AGE" by blast
  then show ?thesis
  proof cases
    case 2
    then show ?thesis unfolding d survivors_def Let_def using drop by simp
  next
    case 3
    then have "doomed now st r = filter ?old ?ms" "survivors now st r = filter (\<lambda>n. \<not> ?old n) ?ms"
      by (simp_all add: d survivors_def)
    then show ?thesis using age [of ?old ?ms] by (simp only:)
  qed (simp_all add: d survivors_def)
qed


definition expiry_store :: store where
  "expiry_store = demo_store\<lparr>rooms := seed_rooms @ [seed_room 50 ''Talk'' 0 0 0 []],
     messages := [demo_msg 1 [] ''a'', demo_msg 2 [] ''b'', demo_msg 3 [] ''c''],
     room_msgs := [(50, 1), (0, 1), (50, 3), (50, 2)], msg_seq := 4, cfg := [(''c_ep_room_50'', ''2|1'')]\<rparr>"

lemma expiry_store_ok: "store_ok expiry_store"
proof -
  have "rooms_ok (seed_rooms @ [seed_room 50 ''Talk'' 0 0 0 []]) 100"
    by (simp add: rooms_ok_def unique_key_def room_ok_def room_key_def IsReservedRoomName_def isdigit_def seed_rooms_def seed_room_def)
  then show ?thesis
    using demo_store_ok by (simp add: expiry_store_def store_ok_def keys_ok_def msgs_ok_def demo_msg_def demo_store empty_store_def unique_key_def)
qed


section \<open>The backfill fills in every size\<close>

definition sized :: "(int \<Rightarrow> string) \<Rightarrow> string \<Rightarrow> msg_row \<Rightarrow> msg_row" where
  "sized date node m = (if ms_size m < 0 then m\<lparr>ms_size := MessageSize date (as_message m) node\<rparr> else m)"

definition partly_sized :: "(int \<Rightarrow> string) \<Rightarrow> string \<Rightarrow> msg_row list \<Rightarrow> msg_row list \<Rightarrow> bool" where
  "partly_sized date node ms0 ms \<longleftrightarrow> list_all2 (\<lambda>m0 m. m = m0 \<or> m = sized date node m0) ms0 ms"

lemma as_message_size [simp]: "as_message (m\<lparr>ms_size := sz\<rparr>) = as_message m"
  by (cases m) (simp add: as_message_def message.defs)

lemma partly_sized_step:
  assumes "partly_sized date node ms0 ms" "distinct (map ms_num ms0)" "m \<in> set ms" "ms_size m < 0"
  shows "partly_sized date node ms0
    (map (\<lambda>x. if ms_num x = ms_num m then x\<lparr>ms_size := MessageSize date (as_message m) node\<rparr> else x) ms)"
proof -
  have nums: "map ms_num ms = map ms_num ms0"
    using assms(1) unfolding partly_sized_def by (induction rule: list_all2_induct) (auto simp: sized_def)
  have one: "x = m" if "x \<in> set ms" "ms_num x = ms_num m" for x
    using that assms(2,3) nums by (metis distinct_map inj_onD)
  show ?thesis unfolding partly_sized_def list_all2_map2
  proof (rule list.rel_mono_strong [OF assms(1) [unfolded partly_sized_def]])
    fix m0 x assume "m0 \<in> set ms0" "x \<in> set ms" "x = m0 \<or> x = sized date node m0"
    then show "(if ms_num x = ms_num m then x\<lparr>ms_size := MessageSize date (as_message m) node\<rparr> else x) = m0
        \<or> (if ms_num x = ms_num m then x\<lparr>ms_size := MessageSize date (as_message m) node\<rparr> else x) = sized date node m0"
      using one [of x] assms(4) MessageSize_nonneg [of date "as_message m0" node] by (auto simp: sized_def split: if_splits)
  qed
qed

lemma lookup_unique: "distinct (map key rows) \<Longrightarrow> r \<in> set rows \<Longrightarrow> lookup_key key (key r) rows = Some r"
  by (induction rows) (auto simp: lookup_key_def)

lemma backfill_one_sized:
  assumes "partly_sized date node ms0 (messages st)" "distinct (map ms_num ms0)"
    and "n \<in> ms_num ` set (messages st)" "\<not> (\<exists>m \<in> set (messages st). ms_num m = n \<and> 0 \<le> ms_size m)"
  shows "partly_sized date node ms0 (messages (backfill_one date node n st))"
proof -
  from assms(3) obtain m where m: "m \<in> set (messages st)" "n = ms_num m" by blast
  have "map ms_num (messages st) = map ms_num ms0"
    using assms(1) unfolding partly_sized_def by (induction rule: list_all2_induct) (auto simp: sized_def)
  then have "LoadMessage st n = Some (as_message m)"
    using lookup_unique [of ms_num "messages st" m] m assms(2) by (simp add: LoadMessage_def)
  then have "messages (backfill_one date node n st) \<in> {messages st,
      map (\<lambda>x. if ms_num x = ms_num m then x\<lparr>ms_size := MessageSize date (as_message m) node\<rparr> else x) (messages st)}"
    by (auto simp: backfill_one_def set_size_def ExecP_def Let_def m(2))
  then show ?thesis using partly_sized_step [OF assms(1,2) m(1)] assms(1,4) m by auto
qed

lemma partly_sized_nums: "partly_sized date node ms0 ms \<Longrightarrow> map ms_num ms = map ms_num ms0"
  unfolding partly_sized_def by (induction rule: list_all2_induct) (auto simp: sized_def)

lemma backfill_one_others: "n' \<noteq> n \<Longrightarrow> n' \<in> set (unsized st) \<Longrightarrow> n' \<in> set (unsized (backfill_one date node n st))"
  by (force simp: unsized_def backfill_one_def set_size_def ExecP_def Let_def)

lemma backfill_batch_sized:
  assumes "partly_sized date node ms0 (messages st)" "distinct (map ms_num ms0)" "distinct ns" "set ns \<subseteq> set (unsized st)"
  shows "partly_sized date node ms0 (messages (fold (backfill_one date node) ns st))"
  using assms(1,3,4)
proof (induction ns arbitrary: st)
  case (Cons n ns)
  have "distinct (map ms_num (messages st))" using partly_sized_nums [OF Cons.prems(1)] assms(2) by simp
  moreover obtain m where m: "m \<in> set (messages st)" "ms_num m = n" "ms_size m < 0"
    using Cons.prems(3) by (auto simp: unsized_def)
  ultimately have "\<not> (\<exists>m \<in> set (messages st). ms_num m = n \<and> 0 \<le> ms_size m)"
    by (metis distinct_map inj_onD linorder_not_less)
  then have "partly_sized date node ms0 (messages (backfill_one date node n st))"
    using m by (intro backfill_one_sized [OF Cons.prems(1) assms(2)]) auto
  moreover have "set ns \<subseteq> set (unsized (backfill_one date node n st))"
  proof
    fix x assume "x \<in> set ns"
    with Cons.prems(2,3) show "x \<in> set (unsized (backfill_one date node n st))"
      by (intro backfill_one_others) auto
  qed
  ultimately show ?case using Cons by simp
qed simp

lemma backfill_loop_sized:
  assumes "partly_sized date node ms0 (messages st)" "distinct (map ms_num ms0)"
  shows "partly_sized date node ms0 (messages (snd (backfill_loop date node k st))) \<and> unsized (snd (backfill_loop date node k st)) = []"
  using assms(1)
proof (induction date node k st rule: backfill_loop.induct)
  case (1 date node k st)
  let ?ns = "take 500 (unsized st)"
  have "distinct (unsized st)"
    using partly_sized_nums [OF 1(2)] assms(2) by (metis distinct_map_filter unsized_def)
  then have "partly_sized date node ms0 (messages (fold (backfill_one date node) ?ns st))"
    by (intro backfill_batch_sized [OF 1(2) assms(2)]) (auto dest: in_set_takeD)
  with 1 show ?case by (subst (1 2) backfill_loop.simps) (auto simp: Let_def)
qed



section \<open>The store as a state machine\<close>

text \<open>One step per operation of the store, with any arguments and under any schedule of failing
  statements. Accounts come and go with \<^verbatim>\<open>auth.cpp\<close>. The hooks that run when a room is deleted only touch
  tables of their own.\<close>

inductive store_step :: "store \<Rightarrow> store \<Rightarrow> bool" where
  faults: "store_step st (st\<lparr>faults := fs\<rparr>)"
| accounts: "store_step st (st\<lparr>accounts := accs\<rparr>)"
| assign: "store_step st (snd (GetOrAssignUserNum u st))"
| axlevel: "store_step st (snd (SetAxLevel u ax st))"
| flags: "store_step st (snd (SetUserFlags u fl st))"
| screen: "store_step st (snd (SetScreenSize u w h st))"
| call: "store_step st (RecordCall now u st)"
| registration: "store_step st (snd (SetRegistration u reg st))"
| bio: "store_step st (snd (SetBio u bio st))"
| config: "store_step st (SetConfig name v st)"
| new_floor: "store_step st (snd (CreateFloor name st))"
| rename_floor: "store_step st (snd (RenameFloor n name st))"
| kill_floor: "store_step st (snd (KillFloor n st))"
| new_room: "store_step st (snd (CreateRoom d f fl pass 0 st))"
| user_room: "store_step st (snd (GetOrCreateUserRoom u d st))"
| user_rooms: "store_step st (EnsureUserRooms u st)"
| update_room: "store_step st (snd (UpdateRoom room st))"
| kill_room: "list_all (\<lambda>h. snd h n = id) hooks \<Longrightarrow> store_step st (snd (KillRoom hooks n st))"
| last_read: "store_step st (SetLastRead u n m st)"
| zap: "store_step st (snd (ZapRoom u n z st))"
| unlock: "store_step st (snd (UnlockRoom u room pass st))"
| rights: "store_step st (snd (SetRights room ident r st))"
| effective: "store_step st (snd (EffectiveRights u room st))"
| listing: "store_step st (snd (ListRooms u f which st))"
| pref: "store_step st (snd (SetUserPref u name v st))"
| insert: "store_step st (snd (InsertMessage date msg rs st))"
| delete: "store_step st (snd (DeleteMessage now n m st))"
| move: "store_step st (snd (MoveMessage now a b m cp st))"
| upsert: "store_step st (snd (Upsert fresh date now msg n st))"
| delete_page: "store_step st (snd (DeletePage now n page st))"
| msgid: "store_step st (RecordMessageId i m st)"
| flag: "store_step st (AddMsgFlag m u fl st)"
| aide: "store_step st (PostAideMessage date now subj body st)"
| prune: "store_step st (PruneTombstones now older st)"
| prune_dav: "store_step st (PruneDavNames st)"
| quota: "store_step st (snd (SetQuota now u l st))"
| expire_policy: "store_step st (snd (SetExpirePolicy which room p st))"
| expire: "store_step st (snd (snd (RunExpiry now st)))"
| backfill: "store_step st (snd (BackfillSizes date st))"

inductive store_reach :: "store \<Rightarrow> bool" where
  create: "store_reach (quota_EnsureSchema (EnsureCitadelSchema (empty_store accs fs)))"
| step: "store_reach st \<Longrightarrow> store_step st st' \<Longrightarrow> store_reach st'"

lemma set_size_ok: "store_ok st \<Longrightarrow> store_ok (set_size n sz st)"
proof -
  have "map ms_num (map (\<lambda>m. if ms_num m = n then m\<lparr>ms_size := sz\<rparr> else m) ms) = map ms_num ms" for ms :: "msg_row list"
    by simp
  then show "store_ok st \<Longrightarrow> store_ok (set_size n sz st)"
    unfolding set_size_def by (elim kept.ExecP_pres) (auto simp: store_ok_def keys_ok_def simp del: map_map)
qed

lemma BackfillSizes_ok: "store_ok st \<Longrightarrow> store_ok (snd (BackfillSizes date st))"
proof -
  have fold: "store_ok (fold (backfill_one date node) ns s)" if "store_ok s" for date node ns s
    using that by (induction ns arbitrary: s) (auto simp: backfill_one_def set_size_ok)
  have "store_ok (snd (backfill_loop date node k s))" if "store_ok s" for date node k s
    using that
  proof (induction date node k s rule: backfill_loop.induct)
    case (1 date node k s)
    then show ?case using fold by (subst backfill_loop.simps) (auto simp: Let_def)
  qed
  then show "store_ok st \<Longrightarrow> store_ok (snd (BackfillSizes date st))" by (simp add: BackfillSizes_def)
qed

lemmas store_steps_ok = GetOrAssignUserNum_ok SetAxLevel_ok SetUserFlags_ok SetScreenSize_ok RecordCall_ok SetRegistration_ok
  SetBio_ok SetConfig_ok CreateFloor_ok RenameFloor_ok KillFloor_ok CreateRoom_ok GetOrCreateUserRoom_ok EnsureUserRooms_ok
  UpdateRoom_ok SetLastRead_ok ZapRoom_ok UnlockRoom_ok SetRights_ok EffectiveRights_ok ListRooms_ok SetUserPref_ok
  InsertMessage_ok DeleteMessage_ok MoveMessage_ok RecordMessageId_ok AddMsgFlag_ok PostAideMessage_ok PruneTombstones_ok
  PruneDavNames_ok SetQuota_ok RunExpiry_ok BackfillSizes_ok Upsert_ok DeletePage_ok

lemma store_step_ok: "store_step st st' \<Longrightarrow> store_ok st \<Longrightarrow> store_ok st'"
proof (induction rule: store_step.induct)
  case (kill_room n hooks st)
  then show ?case by (intro KillRoom_ok) (auto simp: list_all_iff)
next
  case (expire_policy st which room p)
  then show ?case by (auto simp: SetExpirePolicy_def intro: SetConfig_ok)
next
  case (accounts st accs)
  then show ?case by (simp add: store_ok_def keys_ok_def)
qed (simp_all add: kept.any_faults store_steps_ok)

lemma store_reach_ok: "store_reach st \<Longrightarrow> store_ok st"
proof (induction rule: store_reach.induct)
  case (create accs fs)
  have "store_ok (EnsureCitadelSchema (empty_store accs fs))"
    by (rule EnsureCitadelSchema_ok [OF empty_store_ok]) (simp add: empty_store_def)
  then show ?case by (rule quota_EnsureSchema_ok)
qed (rule store_step_ok)



end
