(* ===== verification/QM_SieveLex.thy ===== *)
theory QM_SieveLex
  imports QM_CitMsg
begin

text \<open>
  The lexer of \<^verbatim>\<open>src/core/src/sieve.cpp\<close>. The tokens of a script are the list before the end token, whose
  line is given beside it. The numbers of the source are 64-bit integers that overflow without a check, which C++
  leaves undefined; the model wraps them around, and the theorems speak of numbers that fit.
\<close>

section \<open>Tokens\<close>

datatype token_kind = END | IDENTIFIER | TAG | NUMBER | STRING | LBRACKET | RBRACKET | LPAREN | RPAREN | LBRACE | RBRACE
  | COMMA | SEMICOLON

record token =
  tk_kind :: token_kind
  tk_text :: string
  tk_number :: int
  tk_line :: int

definition isalpha :: "char \<Rightarrow> bool" where
  "isalpha c = (isupper c \<or> islower c)"

definition wrap64 :: "int \<Rightarrow> int" where
  "wrap64 i = (i + 2 ^ 63) mod 2 ^ 64 - 2 ^ 63"

fun skip_comment :: "string \<Rightarrow> int \<Rightarrow> string \<times> int" where
  "skip_comment (c # d # cs) line =
     (if c = CHR ''*'' \<and> d = CHR ''/'' then (cs, line) else skip_comment (d # cs) (if c = LF then line + 1 else line))"
| "skip_comment _ line = ([], line)"

lemma skip_comment_length: "length (fst (skip_comment s line)) \<le> length s"
  by (induction s line rule: skip_comment.induct) auto

lemma skip_blank_comment:
  assumes "cs \<noteq> []" and "p = skip_comment (tl cs) line" and "(rest, line') = p"
  shows "length rest < length (c # cs)"
  using assms skip_comment_length [of "tl cs" line] by (cases cs) (auto simp: less_Suc_eq_le dest: sym)

function skip_blank :: "string \<Rightarrow> int \<Rightarrow> string \<times> int" where
  "skip_blank [] line = ([], line)"
| "skip_blank (c # cs) line =
     (if c = LF then skip_blank cs (line + 1)
      else if isspace c then skip_blank cs line
      else if c = CHR ''#'' then skip_blank (dropWhile (\<lambda>c. c \<noteq> LF) cs) line
      else if c = CHR ''/'' \<and> cs \<noteq> [] \<and> hd cs = CHR ''*'' then
        (case skip_comment (tl cs) line of (rest, line) \<Rightarrow> skip_blank rest line)
      else (c # cs, line))"
  by pat_completeness auto
termination
proof (relation "measure (\<lambda>(s, line). length s)", goal_cases)
  case (4 c cs line)
  then show ?case by (simp add: length_dropWhile_le less_Suc_eq_le)
next
  case 5
  then show ?case by (metis (no_types, lifting) skip_blank_comment case_prod_conv in_measure)
qed simp_all

declare skip_blank.simps [simp del]

definition token_of :: "token_kind \<Rightarrow> string \<Rightarrow> int \<Rightarrow> int \<Rightarrow> token" where
  "token_of kind s n line = \<lparr>tk_kind = kind, tk_text = s, tk_number = n, tk_line = line\<rparr>"

definition punctuation :: "char \<Rightarrow> token_kind option" where
  "punctuation c =
     (if c = CHR ''['' then Some LBRACKET else if c = CHR '']'' then Some RBRACKET
      else if c = CHR ''('' then Some LPAREN else if c = CHR '')'' then Some RPAREN
      else if c = CHR ''{'' then Some LBRACE else if c = CHR ''}'' then Some RBRACE
      else if c = CHR '','' then Some COMMA else if c = CHR '';'' then Some SEMICOLON else None)"

text \<open>\<open>ReadQuotedString\<close> after the opening quote: the value, the rest and its line.\<close>

fun read_quoted :: "string \<Rightarrow> int \<Rightarrow> (string \<times> string \<times> int) option" where
  "read_quoted [] line = None"
| "read_quoted (c # cs) line =
     (if c = DQUOTE then Some ([], cs, line)
      else if c = BACKSLASH \<and> cs \<noteq> [] then
        map_option (apfst (Cons (hd cs))) (read_quoted (tl cs) (if hd cs = LF then line + 1 else line))
      else map_option (apfst (Cons c)) (read_quoted cs (if c = LF then line + 1 else line)))"

definition after_line :: "string \<Rightarrow> string" where
  "after_line s = tl (dropWhile (\<lambda>c. c \<noteq> LF) s)"

definition unstuff :: "string \<Rightarrow> string" where
  "unstuff l = (if take 2 l = ''..'' then tl l else l)"

lemma tl_dropWhile_shorter: "s \<noteq> [] \<Longrightarrow> length (tl (dropWhile P s)) < length s"
proof (induction s)
  case (Cons c s)
  then show ?case by (cases s) auto
qed simp

lemma after_line_shorter: "s \<noteq> [] \<Longrightarrow> length (after_line s) < length s"
  unfolding after_line_def by (rule tl_dropWhile_shorter)

text \<open>\<open>ReadMultiline\<close> after the line of \<^verbatim>\<open>text:\<close>.\<close>

function read_text :: "string \<Rightarrow> int \<Rightarrow> string \<Rightarrow> (string \<times> string \<times> int) option" where
  "read_text s line acc =
     (if s = [] then None
      else let l = strip_cr (takeWhile (\<lambda>c. c \<noteq> LF) s) in
        if l = ''.'' then Some (acc, after_line s, line + 1)
        else read_text (after_line s) (line + 1) (acc @ unstuff l @ crlf))"
  by pat_completeness auto
termination by (relation "measure (\<lambda>(s, line, acc). length s)") (auto simp: after_line_shorter)

declare read_text.simps [simp del]

definition ReadMultiline :: "string \<Rightarrow> int \<Rightarrow> (string \<times> string \<times> int) option" where
  "ReadMultiline s line = read_text (after_line s) (if LF \<in> set s then line + 1 else line) []"

definition scale :: "char \<Rightarrow> int option" where
  "scale c = (if tolower c = CHR ''k'' then Some 1024 else if tolower c = CHR ''m'' then Some (1024 * 1024)
     else if tolower c = CHR ''g'' then Some (1024 * 1024 * 1024) else None)"

definition read_number :: "string \<Rightarrow> int \<times> string" where
  "read_number s =
     (let v = foldl (\<lambda>v c. wrap64 (v * 10 + int (byte c - 48))) 0 (takeWhile isdigit s); rest = dropWhile isdigit s in
      case rest of [] \<Rightarrow> (v, [])
      | c # cs \<Rightarrow> (case scale c of None \<Rightarrow> (v, rest) | Some k \<Rightarrow> (wrap64 (v * k), cs)))"

definition tag_char :: "char \<Rightarrow> bool" where
  "tag_char c = (isalnum c \<or> c = CHR ''_'' \<or> c = CHR ''.'' \<or> c = CHR ''-'')"

definition name_char :: "char \<Rightarrow> bool" where
  "name_char c = (isalnum c \<or> c = CHR ''_'')"

text \<open>One token, at its first character.\<close>

fun read_token :: "string \<Rightarrow> int \<Rightarrow> string + (token \<times> string \<times> int)" where
  "read_token [] line = Inr (token_of END [] 0 line, [], line)"
| "read_token (c # cs) line =
     (case punctuation c of Some k \<Rightarrow> Inr (token_of k [] 0 line, cs, line)
      | None \<Rightarrow>
         if c = DQUOTE then
           (case read_quoted cs line of None \<Rightarrow> Inl (''unterminated string starting on line '' @ to_string line)
            | Some (v, rest, line') \<Rightarrow> Inr (token_of STRING v 0 line, rest, line'))
         else if c = CHR '':'' then
           (let name = takeWhile tag_char cs in
            if name = [] then Inl (''stray ':' on line '' @ to_string line)
            else Inr (token_of TAG (Lower name) 0 line, dropWhile tag_char cs, line))
         else if isdigit c then (case read_number (c # cs) of (v, rest) \<Rightarrow> Inr (token_of NUMBER [] v line, rest, line))
         else if isalpha c \<or> c = CHR ''_'' then
           (let name = takeWhile name_char (c # cs); rest = dropWhile name_char (c # cs) in
            if Lower name = ''text'' \<and> rest \<noteq> [] \<and> hd rest = CHR '':'' then
              (case ReadMultiline (tl rest) line of None \<Rightarrow> Inl ''unterminated 'text:' block''
               | Some (v, rest, line') \<Rightarrow> Inr (token_of STRING v 0 line, rest, line'))
            else Inr (token_of IDENTIFIER (Lower name) 0 line, rest, line))
         else Inl (''unexpected character '' @ [CHR 0x27, c, CHR 0x27] @ '' on line '' @ to_string line))"

section \<open>The loop\<close>

lemma skip_blank_length: "length (fst (skip_blank s line)) \<le> length s"
proof (induction s line rule: skip_blank.induct)
  case (2 c cs line)
  note eq = skip_blank.simps(2) [of c cs line]
  consider "c = LF" | "c \<noteq> LF" "isspace c" | "c \<noteq> LF" "\<not> isspace c" "c = CHR ''#''"
    | "c \<noteq> LF" "\<not> isspace c" "c \<noteq> CHR ''#''" "c = CHR ''/'' \<and> cs \<noteq> [] \<and> hd cs = CHR ''*''"
    | "c \<noteq> LF" "\<not> isspace c" "c \<noteq> CHR ''#''" "\<not> (c = CHR ''/'' \<and> cs \<noteq> [] \<and> hd cs = CHR ''*'')"
    by blast
  then show ?case
  proof cases
    case 1
    with 2(1) eq show ?thesis by simp
  next
    case 2
    with "2.IH"(2) eq show ?thesis by simp
  next
    case 3
    from "2.IH"(3) [OF 3] length_dropWhile_le [of "\<lambda>c. c \<noteq> LF" cs] 3 eq show ?thesis by simp
  next
    case 4
    obtain rest line' where r: "skip_comment (tl cs) line = (rest, line')" by fastforce
    from "2.IH"(4) [OF 4 r [symmetric]] skip_blank_comment [OF _ r [symmetric] refl, of c] 4 eq r show ?thesis by simp
  next
    case 5
    then show ?thesis by (simp only: eq if_False fst_conv order_refl)
  qed
qed (simp add: skip_blank.simps)

lemma read_quoted_shorter: "read_quoted s line = Some (v, rest, line') \<Longrightarrow> length rest < length s"
proof (induction s line arbitrary: v rest line' rule: read_quoted.induct)
  case (2 c cs line)
  show ?case
  proof (cases "c = DQUOTE")
    case False
    then show ?thesis
      using 2 by (cases cs) (fastforce split: if_splits)+
  qed (use 2 in simp)
qed simp

lemma read_text_shorter: "read_text s line acc = Some (v, rest, line') \<Longrightarrow> length rest < length s"
proof (induction s line acc rule: read_text.induct)
  case (1 s line acc)
  from 1(2) have ne: "s \<noteq> []" by (auto simp: read_text.simps)
  show ?case
  proof (cases "strip_cr (takeWhile (\<lambda>c. c \<noteq> LF) s) = ''.''")
    case True
    with 1(2) ne show ?thesis using after_line_shorter [of s] by (auto simp: read_text.simps [of s])
  next
    case False
    with 1(2) ne have "read_text (after_line s) (line + 1) (acc @ unstuff (strip_cr (takeWhile (\<lambda>c. c \<noteq> LF) s)) @ crlf)
        = Some (v, rest, line')"
      by (simp add: read_text.simps [of s])
    from 1(1) [OF ne refl False this] after_line_shorter [OF ne] show ?thesis by simp
  qed
qed

lemma after_line_le: "length (after_line s) \<le> length s"
proof (cases "s = []")
  case False
  then show ?thesis using after_line_shorter [of s] by simp
qed (simp add: after_line_def)

lemma ReadMultiline_shorter: "ReadMultiline s line = Some (v, rest, line') \<Longrightarrow> length rest < length s"
  unfolding ReadMultiline_def using read_text_shorter after_line_le [of s] by fastforce

lemma read_number_shorter:
  assumes "isdigit c" and "read_number (c # cs) = (v, rest)"
  shows "length rest \<le> length cs"
proof -
  have le: "length (dropWhile isdigit (c # cs)) \<le> length cs"
    using assms(1) length_dropWhile_le [of isdigit cs] by simp
  show ?thesis
  proof (cases "dropWhile isdigit (c # cs)")
    case Nil
    with assms(2) show ?thesis by (simp add: read_number_def Let_def)
  next
    case (Cons d ds)
    from le have "Suc (length ds) \<le> length cs" by (simp add: Cons del: dropWhile.simps)
    with assms(2) show ?thesis
      by (cases "scale d") (auto simp add: read_number_def Let_def Cons simp del: dropWhile.simps)
  qed
qed

lemma read_token_shorter:
  assumes "read_token s line = Inr (t, rest, line')" and "s \<noteq> []"
  shows "length rest < length s"
proof -
  from assms(2) obtain c cs where s: "s = c # cs" by (cases s) auto
  have tag: "length (dropWhile tag_char cs) \<le> length cs" by (rule length_dropWhile_le)
  have name: "isalpha c \<or> c = CHR ''_'' \<Longrightarrow> length (dropWhile name_char (c # cs)) \<le> length cs"
    using length_dropWhile_le [of name_char cs] by (auto simp: name_char_def isalpha_def isalnum_def)
  have block: "isalpha c \<or> c = CHR ''_'' \<Longrightarrow> dropWhile name_char (c # cs) \<noteq> [] \<Longrightarrow>
      ReadMultiline (tl (dropWhile name_char (c # cs))) line = Some (v, rest, l) \<Longrightarrow> length rest < length (c # cs)"
    for v rest l
    using ReadMultiline_shorter name by fastforce
  show ?thesis
  proof (cases "punctuation c")
    case None
    from assms(1) None name block tag read_quoted_shorter [of cs line] read_number_shorter [of c cs]
    show ?thesis unfolding s
      by (auto simp: Let_def simp del: dropWhile.simps split: if_splits option.splits prod.splits
        dest!: less_imp_le intro: le_imp_less_Suc)
  qed (use assms(1) in \<open>auto simp: s\<close>)
qed

text \<open>\<open>Lexer::Run\<close>: the tokens before the end token, and the line of the end token.\<close>

function run_lexer :: "string \<Rightarrow> int \<Rightarrow> string + (token list \<times> int)" where
  "run_lexer s line =
     (case skip_blank s line of (s', line') \<Rightarrow>
        if s' = [] then Inr ([], line')
        else (case read_token s' line' of Inl err \<Rightarrow> Inl err
          | Inr (t, rest, line'') \<Rightarrow>
             (case run_lexer rest line'' of Inl err \<Rightarrow> Inl err | Inr (ts, e) \<Rightarrow> Inr (t # ts, e))))"
  by pat_completeness auto
termination
  apply (relation "measure (\<lambda>(s, line). length s)")
  apply simp
  subgoal for s line
    using skip_blank_length [of s line] by (auto dest: sym dest!: read_token_shorter)
  done


declare run_lexer.simps [simp del]

definition Run :: "string \<Rightarrow> string + (token list \<times> int)" where
  "Run src = run_lexer src 1"

end
