(* ===== verification/QM_SieveParse.thy ===== *)
theory QM_SieveParse
  imports QM_SieveLex "HOL-Library.Signed_Division"
begin

text \<open>
  The syntax tree and the recursive descent parser of \<^verbatim>\<open>src/core/src/sieve.cpp\<close>. The parser's position is the
  list of the tokens not yet read, without the end token, whose line is the argument \<open>e\<close>; \<^verbatim>\<open>Peek\<close> at the end
  of the list sees the end token. A tree the source owns through \<^verbatim>\<open>unique_ptr\<close>s is a value here, and a null test,
  which marks the \<^verbatim>\<open>else\<close> arm, is \<^const>\<open>None\<close>.
\<close>

section \<open>Syntax tree\<close>

datatype test_kind = ALWAYS | NEVER | NOT_TEST | ANYOF | ALLOF | HEADER | ADDRESS | ENVELOPE | EXISTS | SIZE | BODY
  | STRING_TEST | HASFLAG

record test_args =
  t_kind :: test_kind
  t_names :: "string list"
  t_keys :: "string list"
  t_match :: string
  t_comparator :: string
  t_part :: string
  t_relation :: string
  t_limit :: int

datatype test = Test (t_args: test_args) (t_children: "test list")

definition new_test :: "test_kind \<Rightarrow> test_args" where
  "new_test k = \<lparr>t_kind = k, t_names = [], t_keys = [], t_match = ''is'', t_comparator = ''i;ascii-casemap'',
     t_part = ''all'', t_relation = [], t_limit = 0\<rparr>"

datatype command_kind = REQUIRE | IF | STOP | KEEP | DISCARD | FILEINTO | REDIRECT | REJECT | SET | SETFLAG | ADDFLAG
  | REMOVEFLAG | VACATION

record command_args =
  c_kind :: command_kind
  c_argument :: string
  c_create :: bool
  c_copy :: bool
  c_var :: string
  c_modifiers :: "string list"
  c_flags :: "string list"
  c_has_flags :: bool
  c_capabilities :: "string list"
  c_subject :: string
  c_from :: string
  c_handle :: string
  c_addresses :: "string list"
  c_days :: int
  c_mime :: bool

datatype command = Command (c_args: command_args) (c_branches: "(test option \<times> command list) list")

definition new_command :: "command_kind \<Rightarrow> command_args" where
  "new_command k = \<lparr>c_kind = k, c_argument = [], c_create = False, c_copy = False, c_var = [], c_modifiers = [],
     c_flags = [], c_has_flags = False, c_capabilities = [], c_subject = [], c_from = [], c_handle = [],
     c_addresses = [], c_days = 0, c_mime = False\<rparr>"

section \<open>Tokens and string lists\<close>

definition next_kind :: "token list \<Rightarrow> token_kind" where
  "next_kind ts = (case ts of [] \<Rightarrow> END | t # _ \<Rightarrow> tk_kind t)"

definition next_text :: "token list \<Rightarrow> string" where
  "next_text ts = (case ts of [] \<Rightarrow> [] | t # _ \<Rightarrow> tk_text t)"

definition on_line :: "string \<Rightarrow> token list \<Rightarrow> int \<Rightarrow> string" where
  "on_line s ts e = s @ '' on line '' @ to_string (case ts of [] \<Rightarrow> e | t # _ \<Rightarrow> tk_line t)"

definition quote1 :: "string \<Rightarrow> string" where
  "quote1 s = CHR 0x27 # s @ [CHR 0x27]"

definition expect :: "token_kind \<Rightarrow> string \<Rightarrow> token list \<Rightarrow> int \<Rightarrow> string + token list" where
  "expect k what ts e = (if ts \<noteq> [] \<and> next_kind ts = k then Inr (tl ts) else Inl (on_line (''expected '' @ what) ts e))"

fun string_items :: "token list \<Rightarrow> int \<Rightarrow> string + (string list \<times> token list)" where
  "string_items ts e =
     (if ts = [] \<or> next_kind ts \<noteq> STRING then Inl (on_line ''expected a string inside the list'' ts e)
      else if next_kind (tl ts) = COMMA then
        (case string_items (tl (tl ts)) e of Inl err \<Rightarrow> Inl err | Inr (ss, r) \<Rightarrow> Inr (next_text ts # ss, r))
      else (case expect RBRACKET (quote1 '']'') (tl ts) e of Inl err \<Rightarrow> Inl err | Inr r \<Rightarrow> Inr ([next_text ts], r)))"

declare string_items.simps [simp del]

definition ParseStringList :: "token list \<Rightarrow> int \<Rightarrow> string + (string list \<times> token list)" where
  "ParseStringList ts e =
     (if next_kind ts = STRING then Inr ([next_text ts], tl ts)
      else (case expect LBRACKET ''a string or string list'' ts e of Inl err \<Rightarrow> Inl err
        | Inr r \<Rightarrow> if next_kind r = RBRACKET then Inr ([], tl r) else string_items r e))"

fun ParseMatchTags :: "test_args \<Rightarrow> token list \<Rightarrow> test_args \<times> token list" where
  "ParseMatchTags a [] = (a, [])"
| "ParseMatchTags a (t # ts) =
     (if tk_kind t \<noteq> TAG then (a, t # ts)
      else if tk_text t \<in> {''is'', ''contains'', ''matches''} then ParseMatchTags (a\<lparr>t_match := tk_text t\<rparr>) ts
      else if tk_text t \<in> {''all'', ''localpart'', ''domain'', ''user'', ''detail''} then
        ParseMatchTags (a\<lparr>t_part := tk_text t\<rparr>) ts
      else if tk_text t = ''comparator'' then
        (if next_kind ts = STRING then ParseMatchTags (a\<lparr>t_comparator := Lower (next_text ts)\<rparr>) (tl ts)
         else ParseMatchTags a ts)
      else if tk_text t \<in> {''over'', ''under''} then ParseMatchTags (a\<lparr>t_relation := tk_text t\<rparr>) ts
      else ParseMatchTags a ts)"

section \<open>Tests\<close>

definition parse_size :: "token list \<Rightarrow> int \<Rightarrow> string + (test \<times> token list)" where
  "parse_size ts e =
     (case ParseMatchTags (new_test SIZE) ts of (a, r) \<Rightarrow>
        if next_kind r \<noteq> NUMBER then Inl (on_line ''size test needs a number'' r e)
        else if t_relation a = [] then Inl (on_line ''size test needs :over or :under'' (tl r) e)
        else Inr (Test (a\<lparr>t_limit := tk_number (hd r)\<rparr>) [], tl r))"

text \<open>The tests \<^verbatim>\<open>header\<close>, \<^verbatim>\<open>address\<close>, \<^verbatim>\<open>envelope\<close> and \<^verbatim>\<open>string\<close>: two string lists, each after tags.\<close>

definition parse_two_lists :: "test_kind \<Rightarrow> token list \<Rightarrow> int \<Rightarrow> string + (test \<times> token list)" where
  "parse_two_lists k ts e =
     (case ParseMatchTags (new_test k) ts of (a, r) \<Rightarrow>
        (case ParseStringList r e of Inl err \<Rightarrow> Inl err
         | Inr (ns, r) \<Rightarrow>
            (case ParseMatchTags (a\<lparr>t_names := ns\<rparr>) r of (a, r) \<Rightarrow>
               (case ParseStringList r e of Inl err \<Rightarrow> Inl err | Inr (ks, r) \<Rightarrow> Inr (Test (a\<lparr>t_keys := ks\<rparr>) [], r)))))"

definition parse_body_test :: "token list \<Rightarrow> int \<Rightarrow> string + (test \<times> token list)" where
  "parse_body_test ts e =
     (case ParseMatchTags (new_test BODY) ts of (a, r) \<Rightarrow>
        (case ParseStringList r e of Inl err \<Rightarrow> Inl err | Inr (ks, r) \<Rightarrow> Inr (Test (a\<lparr>t_keys := ks\<rparr>) [], r)))"

definition parse_hasflag :: "token list \<Rightarrow> int \<Rightarrow> string + (test \<times> token list)" where
  "parse_hasflag ts e =
     (case ParseMatchTags (new_test HASFLAG) ts of (a, r) \<Rightarrow>
        (case ParseStringList r e of Inl err \<Rightarrow> Inl err
         | Inr (ks, r) \<Rightarrow>
            (case ParseMatchTags (a\<lparr>t_keys := ks\<rparr>) r of (a, r) \<Rightarrow>
               if next_kind r = STRING \<or> next_kind r = LBRACKET then
                 (case ParseStringList r e of Inl err \<Rightarrow> Inl err
                  | Inr (ks', r) \<Rightarrow> Inr (Test (a\<lparr>t_names := t_keys a, t_keys := ks'\<rparr>) [], r))
               else Inr (Test a [], r))))"

definition parse_leaf :: "string \<Rightarrow> token list \<Rightarrow> int \<Rightarrow> string + (test \<times> token list)" where
  "parse_leaf name ts e =
     (if name = ''true'' then Inr (Test (new_test ALWAYS) [], ts)
      else if name = ''false'' then Inr (Test (new_test NEVER) [], ts)
      else if name = ''size'' then parse_size ts e
      else if name = ''exists'' then
        (case ParseStringList ts e of Inl err \<Rightarrow> Inl err
         | Inr (ns, r) \<Rightarrow> Inr (Test (new_test EXISTS\<lparr>t_names := ns\<rparr>) [], r))
      else if name = ''header'' then parse_two_lists HEADER ts e
      else if name = ''address'' then parse_two_lists ADDRESS ts e
      else if name = ''envelope'' then parse_two_lists ENVELOPE ts e
      else if name = ''body'' then parse_body_test ts e
      else if name = ''string'' then parse_two_lists STRING_TEST ts e
      else if name = ''hasflag'' then parse_hasflag ts e
      else Inl (on_line (''unknown test '' @ quote1 name) ts e))"

lemma next_kind_Nil [simp]: "next_kind [] = END"
  by (simp add: next_kind_def)

lemma expect_shorter: "expect k what ts e = Inr r \<Longrightarrow> length r < length ts"
  by (cases ts) (auto simp: expect_def split: if_splits)

lemma string_items_shorter: "string_items ts e = Inr (ss, r) \<Longrightarrow> length r < length ts"
proof (induction ts e arbitrary: ss r rule: string_items.induct)
  case (1 ts e)
  show ?case
  proof (cases "ts = [] \<or> next_kind ts \<noteq> STRING")
    case False
    then have ts: "ts \<noteq> []" by simp
    show ?thesis
    proof (cases "next_kind (tl ts) = COMMA")
      case True
      with "1.prems" False obtain ss' where "string_items (tl (tl ts)) e = Inr (ss', r)"
        by (auto simp: string_items.simps [of ts] split: sum.splits)
      from "1.IH" [OF False True this] ts show ?thesis by (cases ts) auto
    next
      case comma: False
      with "1.prems" False obtain r' where "expect RBRACKET (quote1 '']'') (tl ts) e = Inr r'" "r = r'"
        by (auto simp: string_items.simps [of ts] split: sum.splits)
      with ts show ?thesis using expect_shorter by (cases ts) fastforce+
    qed
  qed (use 1 in \<open>auto simp: string_items.simps [of ts]\<close>)
qed

lemma ParseStringList_shorter: "ParseStringList ts e = Inr (ss, r) \<Longrightarrow> length r < length ts"
proof -
  assume p: "ParseStringList ts e = Inr (ss, r)"
  show ?thesis
  proof (cases "next_kind ts = STRING")
    case True
    with p show ?thesis by (cases ts) (auto simp: ParseStringList_def)
  next
    case False
    with p obtain r' where r': "expect LBRACKET ''a string or string list'' ts e = Inr r'"
      and "r = tl r' \<or> string_items r' e = Inr (ss, r)"
      by (auto simp: ParseStringList_def split: sum.splits if_splits)
    with expect_shorter [OF r'] string_items_shorter [of r' e ss r] show ?thesis by auto
  qed
qed

lemma ParseMatchTags_length: "length (snd (ParseMatchTags a ts)) \<le> length ts"
proof (induction a ts rule: ParseMatchTags.induct)
  case (2 a t ts)
  have "length (tl ts) \<le> length ts" by simp
  from 2 le_trans [OF _ this] show ?case by (simp del: insert_iff length_tl add: le_SucI)
qed simp

lemma ParseMatchTags_le: "ParseMatchTags a ts = (b, r) \<Longrightarrow> length r \<le> length ts"
  using ParseMatchTags_length [of a ts] by simp

lemma parse_two_lists_le: "parse_two_lists k ts e = Inr (t, r) \<Longrightarrow> length r \<le> length ts"
proof -
  assume p: "parse_two_lists k ts e = Inr (t, r)"
  obtain a r1 where m1: "ParseMatchTags (new_test k) ts = (a, r1)" by fastforce
  with p obtain ns r2 where l1: "ParseStringList r1 e = Inr (ns, r2)"
    by (auto simp: parse_two_lists_def split: sum.splits)
  obtain b r3 where m2: "ParseMatchTags (a\<lparr>t_names := ns\<rparr>) r2 = (b, r3)" by fastforce
  with p m1 l1 obtain ks where l2: "ParseStringList r3 e = Inr (ks, r)"
    by (auto simp: parse_two_lists_def split: sum.splits)
  from ParseMatchTags_le [OF m1] ParseStringList_shorter [OF l1] ParseMatchTags_le [OF m2] ParseStringList_shorter [OF l2]
  show ?thesis by simp
qed

lemma parse_hasflag_le: "parse_hasflag ts e = Inr (t, r) \<Longrightarrow> length r \<le> length ts"
proof -
  assume p: "parse_hasflag ts e = Inr (t, r)"
  obtain a r1 where m1: "ParseMatchTags (new_test HASFLAG) ts = (a, r1)" by fastforce
  with p obtain ks r2 where l1: "ParseStringList r1 e = Inr (ks, r2)"
    by (auto simp: parse_hasflag_def split: sum.splits)
  obtain b r3 where m2: "ParseMatchTags (a\<lparr>t_keys := ks\<rparr>) r2 = (b, r3)" by fastforce
  with p m1 l1 have "r3 = r \<or> (\<exists>ks. ParseStringList r3 e = Inr (ks, r))"
    by (auto simp: parse_hasflag_def split: sum.splits if_splits)
  with ParseMatchTags_le [OF m1] ParseStringList_shorter [OF l1] ParseMatchTags_le [OF m2]
  show ?thesis by (auto dest: ParseStringList_shorter)
qed

lemma parse_leaf_le: "parse_leaf name ts e = Inr (t, r) \<Longrightarrow> length r \<le> length ts"
proof -
  have "parse_size ts e = Inr (t, r) \<Longrightarrow> length r \<le> length ts" for t r
    by (auto simp: parse_size_def split: prod.splits if_splits dest!: ParseMatchTags_le)
  moreover have "parse_body_test ts e = Inr (t, r) \<Longrightarrow> length r \<le> length ts" for t r
    by (auto simp: parse_body_test_def split: prod.splits sum.splits dest!: ParseMatchTags_le ParseStringList_shorter)
  ultimately show "parse_leaf name ts e = Inr (t, r) \<Longrightarrow> length r \<le> length ts"
    by (auto simp: parse_leaf_def split: if_splits sum.splits
      dest!: parse_two_lists_le parse_hasflag_le ParseStringList_shorter)
qed

function ParseTest :: "token list \<Rightarrow> int \<Rightarrow> string + (test \<times> token list)"
  and parse_children :: "token list \<Rightarrow> int \<Rightarrow> string + (test list \<times> token list)" where
  "ParseTest ts e =
     (if ts = [] \<or> next_kind ts \<noteq> IDENTIFIER then Inl (on_line ''expected a test'' ts e)
      else if next_text ts = ''not'' then
        (case ParseTest (tl ts) e of Inl err \<Rightarrow> Inl err | Inr (c, r) \<Rightarrow> Inr (Test (new_test NOT_TEST) [c], r))
      else if next_text ts = ''anyof'' \<or> next_text ts = ''allof'' then
        (case expect LPAREN (quote1 ''('' @ '' after anyof/allof'') (tl ts) e of Inl err \<Rightarrow> Inl err
         | Inr r \<Rightarrow>
            (case parse_children r e of Inl err \<Rightarrow> Inl err
             | Inr (cs, r) \<Rightarrow>
                (case expect RPAREN (quote1 '')'') r e of Inl err \<Rightarrow> Inl err
                 | Inr r \<Rightarrow> Inr (Test (new_test (if next_text ts = ''anyof'' then ANYOF else ALLOF)) cs, r))))
      else parse_leaf (next_text ts) (tl ts) e)"
| "parse_children ts e =
     (case ParseTest ts e of Inl err \<Rightarrow> Inl err
      | Inr (c, r) \<Rightarrow>
         if r \<noteq> [] \<and> next_kind r = COMMA then
           (case parse_children (tl r) e of Inl err \<Rightarrow> Inl err | Inr (cs, r) \<Rightarrow> Inr (c # cs, r))
         else Inr ([c], r))"
  by pat_completeness auto

lemma ParseTest_consumes:
  "ParseTest_parse_children_dom (Inl (ts, e)) \<Longrightarrow> ParseTest ts e = Inr (t, r) \<Longrightarrow> length r < length ts"
  "ParseTest_parse_children_dom (Inr (ts, e)) \<Longrightarrow> parse_children ts e = Inr (us, r) \<Longrightarrow> length r < length ts"
proof (induction ts e and ts e arbitrary: t r and us r rule: ParseTest_parse_children.pinduct)
  case (1 ts e)
  note dom = "1.hyps" and IH = "1.IH" and p = "1.prems" [unfolded ParseTest.psimps [OF "1.hyps"]]
  show ?case
  proof (cases "ts = [] \<or> next_kind ts \<noteq> IDENTIFIER")
    case False
    then have len: "length (tl ts) < length ts" by (cases ts) auto
    consider "next_text ts = ''not''" | "next_text ts \<noteq> ''not''" "next_text ts = ''anyof'' \<or> next_text ts = ''allof''"
      | "\<not> (next_text ts = ''not'')" "\<not> (next_text ts = ''anyof'' \<or> next_text ts = ''allof'')" by blast
    then show ?thesis
    proof cases
      case 1
      with p False obtain c where "ParseTest (tl ts) e = Inr (c, r)" by (auto split: sum.splits)
      from IH(1) [OF False 1 this] len show ?thesis by simp
    next
      case 2
      with p False obtain r1 us r2 where
        e: "expect LPAREN (quote1 ''('' @ '' after anyof/allof'') (tl ts) e = Inr r1"
        and us: "parse_children r1 e = Inr (us, r2)" and r: "expect RPAREN (quote1 '')'') r2 e = Inr r"
        by (auto split: sum.splits prod.splits)
      from IH(2) [OF False 2 e us] expect_shorter [OF e] expect_shorter [OF r] len show ?thesis by simp
    next
      case 3
      with p False have "length r \<le> length (tl ts)" by (auto dest!: parse_leaf_le)
      with len show ?thesis by linarith
    qed
  qed (use p in auto)
next
  case (2 ts e)
  note dom = "2.hyps" and IH = "2.IH" and p = "2.prems" [unfolded parse_children.psimps [OF "2.hyps"]]
  obtain c r1 where c: "ParseTest ts e = Inr (c, r1)" using p by (auto split: sum.splits)
  show ?case
  proof (cases "r1 \<noteq> [] \<and> next_kind r1 = COMMA")
    case True
    with p c obtain us' where "parse_children (tl r1) e = Inr (us', r)" by (auto split: sum.splits)
    from IH(2) [OF c refl True this] IH(1) [OF c] show ?thesis by simp
  next
    case False
    with p c IH(1) [OF c] show ?thesis by auto
  qed
qed

lemma ParseTest_total: "All ParseTest_parse_children_dom"
proof (relation "measure (\<lambda>x. case x of Inl (ts, e) \<Rightarrow> 2 * length ts | Inr (ts, e) \<Rightarrow> 2 * length ts + 1)", goal_cases)
  case (2 ts e)
  then show ?case by (cases ts) auto
next
  case (3 ts e r)
  then show ?case by (cases ts) (auto dest!: expect_shorter)
next
  case (5 ts e)
  then show ?case by (auto dest!: ParseTest_consumes(1))
qed simp_all

termination ParseTest by (rule ParseTest_total)

declare ParseTest.simps [simp del] parse_children.simps [simp del]

lemma ParseTest_shorter: "ParseTest ts e = Inr (t, r) \<Longrightarrow> length r < length ts"
  using ParseTest_consumes(1) ParseTest_total by blast

section \<open>Commands\<close>

text \<open>The tagged arguments of a command. \<^verbatim>\<open>:seconds\<close> is rounded up to days with the 64-bit addition and the
  truncating division of the source.\<close>

definition days_of :: "string \<Rightarrow> int \<Rightarrow> int" where
  "days_of tag n = (if tag = ''days'' then n else wrap64 (n + 86399) sdiv 86400)"

definition set_text :: "string \<Rightarrow> string \<Rightarrow> command_args \<Rightarrow> command_args" where
  "set_text tag v a = (if tag = ''subject'' then a\<lparr>c_subject := v\<rparr> else if tag = ''from'' then a\<lparr>c_from := v\<rparr>
     else a\<lparr>c_handle := v\<rparr>)"

definition modifier_tags :: "string list" where
  "modifier_tags = [''lower'', ''upper'', ''lowerfirst'', ''upperfirst'', ''length'', ''quotewildcard'']"

lemma tag_shorter:
  "\<not> (ts = [] \<or> Q) \<Longrightarrow> length (tl ts) < length ts"
  "\<not> (ts = [] \<or> Q) \<Longrightarrow> length (tl (tl ts)) < length ts"
  "\<not> (ts = [] \<or> Q) \<Longrightarrow> ParseStringList (tl ts) e = Inr b \<Longrightarrow> (ss, r) = b \<Longrightarrow> length r < length ts"
proof -
  show tl: "\<not> (ts = [] \<or> Q) \<Longrightarrow> length (tl ts) < length ts" by (cases ts) simp_all
  show "\<not> (ts = [] \<or> Q) \<Longrightarrow> length (tl (tl ts)) < length ts" by (cases ts) simp_all
  show "\<not> (ts = [] \<or> Q) \<Longrightarrow> ParseStringList (tl ts) e = Inr b \<Longrightarrow> (ss, r) = b \<Longrightarrow> length r < length ts"
    using ParseStringList_shorter tl less_trans by blast
qed

function parse_tags :: "command_args \<Rightarrow> token list \<Rightarrow> int \<Rightarrow> string + (command_args \<times> token list)" where
  "parse_tags a ts e =
     (if ts = [] \<or> next_kind ts \<noteq> TAG then Inr (a, ts)
      else if next_text ts = ''create'' then parse_tags (a\<lparr>c_create := True\<rparr>) (tl ts) e
      else if next_text ts = ''copy'' then parse_tags (a\<lparr>c_copy := True\<rparr>) (tl ts) e
      else if next_text ts = ''flags'' then
        (case ParseStringList (tl ts) e of Inl err \<Rightarrow> Inl err
         | Inr (fs, r) \<Rightarrow> parse_tags (a\<lparr>c_flags := c_flags a @ fs, c_has_flags := True\<rparr>) r e)
      else if next_text ts = ''mime'' then parse_tags (a\<lparr>c_mime := True\<rparr>) (tl ts) e
      else if next_text ts \<in> {''days'', ''seconds''} then
        (if next_kind (tl ts) \<noteq> NUMBER then Inl (on_line (quote1 (CHR '':'' # next_text ts) @ '' needs a number'') (tl ts) e)
         else parse_tags (a\<lparr>c_days := days_of (next_text ts) (tk_number (hd (tl ts)))\<rparr>) (tl (tl ts)) e)
      else if next_text ts \<in> {''subject'', ''from'', ''handle''} then
        (if next_kind (tl ts) \<noteq> STRING then Inl (on_line (quote1 (CHR '':'' # next_text ts) @ '' needs a string'') (tl ts) e)
         else parse_tags (set_text (next_text ts) (next_text (tl ts)) a) (tl (tl ts)) e)
      else if next_text ts = ''addresses'' then
        (case ParseStringList (tl ts) e of Inl err \<Rightarrow> Inl err
         | Inr (xs, r) \<Rightarrow> parse_tags (a\<lparr>c_addresses := c_addresses a @ xs\<rparr>) r e)
      else if next_text ts \<in> set modifier_tags then
        parse_tags (a\<lparr>c_modifiers := c_modifiers a @ [next_text ts]\<rparr>) (tl ts) e
      else parse_tags a (tl ts) e)"
  by pat_completeness auto

termination
  apply (relation "measure (\<lambda>(a, ts, e). length ts)")
  apply (simp_all only: in_measure prod.case wf_measure)
  apply (erule (2) tag_shorter(3) | erule tag_shorter(1) | erule tag_shorter(2))+
  done

declare parse_tags.simps [simp del]

text \<open>The arguments after the tags.\<close>

definition parse_flag_lists :: "command_args \<Rightarrow> token list \<Rightarrow> int \<Rightarrow> string + (command_args \<times> token list)" where
  "parse_flag_lists a ts e =
     (case ParseStringList ts e of Inl err \<Rightarrow> Inl err
      | Inr (fs, r) \<Rightarrow>
         if next_kind r = STRING \<or> next_kind r = LBRACKET then
           (case ParseStringList r e of Inl err \<Rightarrow> Inl err
            | Inr (fs', r) \<Rightarrow> Inr (a\<lparr>c_flags := fs', c_has_flags := True\<rparr>, r))
         else Inr (a\<lparr>c_flags := c_flags a @ fs, c_has_flags := True\<rparr>, r))"

definition parse_positional :: "command_args \<Rightarrow> token list \<Rightarrow> int \<Rightarrow> string + (command_args \<times> token list)" where
  "parse_positional a ts e =
     (if c_kind a = SET then
        (if next_kind ts \<noteq> STRING then Inl (on_line (quote1 ''set'' @ '' needs a variable name'') ts e)
         else if next_kind (tl ts) \<noteq> STRING then Inl (on_line (quote1 ''set'' @ '' needs a value'') (tl ts) e)
         else Inr (a\<lparr>c_var := next_text ts, c_argument := next_text (tl ts)\<rparr>, tl (tl ts)))
      else if c_kind a \<in> {SETFLAG, ADDFLAG, REMOVEFLAG} then parse_flag_lists a ts e
      else if next_kind ts = STRING then Inr (a\<lparr>c_argument := next_text ts\<rparr>, tl ts)
      else Inr (a, ts))"

definition parse_plain :: "command_kind \<Rightarrow> token list \<Rightarrow> int \<Rightarrow> string + (command \<times> token list)" where
  "parse_plain k ts e =
     (case parse_tags (new_command k) ts e of Inl err \<Rightarrow> Inl err
      | Inr (a, r) \<Rightarrow>
         (case parse_positional a r e of Inl err \<Rightarrow> Inl err
          | Inr (a, r) \<Rightarrow>
             (case expect SEMICOLON (quote1 '';'') r e of Inl err \<Rightarrow> Inl err | Inr r \<Rightarrow> Inr (Command a [], r))))"

definition parse_require :: "token list \<Rightarrow> int \<Rightarrow> string + (command \<times> token list)" where
  "parse_require ts e =
     (case ParseStringList ts e of Inl err \<Rightarrow> Inl err
      | Inr (cs, r) \<Rightarrow>
         (case expect SEMICOLON (quote1 '';'') r e of Inl err \<Rightarrow> Inl err
          | Inr r \<Rightarrow> Inr (Command (new_command REQUIRE\<lparr>c_capabilities := cs\<rparr>) [], r)))"

definition command_kinds :: "(string \<times> command_kind) list" where
  "command_kinds = [(''stop'', STOP), (''keep'', KEEP), (''discard'', DISCARD), (''fileinto'', FILEINTO),
     (''redirect'', REDIRECT), (''reject'', REJECT), (''ereject'', REJECT), (''set'', SET), (''setflag'', SETFLAG),
     (''addflag'', ADDFLAG), (''removeflag'', REMOVEFLAG), (''vacation'', VACATION)]"

text \<open>The commands other than \<^verbatim>\<open>if\<close>, after their name.\<close>

definition parse_simple :: "string \<Rightarrow> token list \<Rightarrow> int \<Rightarrow> string + (command \<times> token list)" where
  "parse_simple name ts e =
     (if name = ''require'' then parse_require ts e
      else if name = ''elsif'' \<or> name = ''else'' then
        Inl (on_line (quote1 name @ '' without a matching '' @ quote1 ''if'') ts e)
      else (case map_of command_kinds name of None \<Rightarrow> Inl (on_line (''unknown command '' @ quote1 name) ts e)
        | Some k \<Rightarrow> parse_plain k ts e))"

lemma set_text_kind [simp]: "c_kind (set_text tag v a) = c_kind a"
  by (simp add: set_text_def)

text \<open>A round of the loop reads at least one token and keeps the kind of the command.\<close>

lemma parse_tags_step:
  assumes "parse_tags a ts e = Inr (b, r)"
  shows "(a, ts) = (b, r) \<or>
    (\<exists>a' ts'. length ts' < length ts \<and> c_kind a' = c_kind a \<and> parse_tags a' ts' e = Inr (b, r))"
proof (cases "ts = [] \<or> next_kind ts \<noteq> TAG")
  case True
  with assms show ?thesis by (subst (asm) parse_tags.simps) simp
next
  case False
  note len = tag_shorter [OF False]
  have step: ?thesis if "parse_tags a' ts' e = Inr (b, r)" "length ts' < length ts" "c_kind a' = c_kind a" for a' ts'
    using that by blast
  have list: ?thesis
    if "(case ParseStringList (tl ts) e of Inl err \<Rightarrow> Inl err | Inr (ss, r) \<Rightarrow> parse_tags (f ss) r e) = Inr (b, r)"
      "\<And>ss. c_kind (f ss) = c_kind a" for f
  proof (cases "ParseStringList (tl ts) e")
    case (Inr p)
    obtain ss r' where "p = (ss, r')" by (cases p)
    with Inr that(1) len(3) [OF Inr] show ?thesis by (auto intro: step simp: that(2))
  qed (use that in simp)
  from assms False show ?thesis
    by (subst (asm) parse_tags.simps, simp only: if_False split: if_split_asm)
      (erule step, (rule len(1) | rule len(2)), simp | erule list, simp | simp only: sum.distinct)+
qed

lemma parse_tags_le: "parse_tags a ts e = Inr (b, r) \<Longrightarrow> length r \<le> length ts \<and> c_kind b = c_kind a"
proof (induction "length ts" arbitrary: a ts rule: less_induct)
  case less
  from parse_tags_step [OF less.prems] less.hyps show ?case by fastforce
qed

lemma parse_positional_le: "parse_positional a ts e = Inr (b, r) \<Longrightarrow> length r \<le> length ts"
  by (auto simp: parse_positional_def parse_flag_lists_def split: if_splits sum.splits
    dest!: ParseStringList_shorter)

lemma parse_plain_le: "parse_plain k ts e = Inr (c, r) \<Longrightarrow> length r \<le> length ts"
  by (auto simp: parse_plain_def split: sum.splits dest!: parse_tags_le parse_positional_le expect_shorter)

lemma parse_simple_le: "parse_simple name ts e = Inr (c, r) \<Longrightarrow> length r \<le> length ts"
  by (auto simp: parse_simple_def parse_require_def split: if_splits sum.splits option.splits
    dest!: parse_plain_le expect_shorter ParseStringList_shorter)

function ParseCommand :: "token list \<Rightarrow> int \<Rightarrow> string + (command \<times> token list)"
  and parse_branches :: "token list \<Rightarrow> int \<Rightarrow> string + ((test option \<times> command list) list \<times> token list)"
  and ParseBlock :: "token list \<Rightarrow> int \<Rightarrow> string + (command list \<times> token list)"
  and block_loop :: "token list \<Rightarrow> int \<Rightarrow> string + (command list \<times> token list)" where
  "ParseCommand ts e =
     (if ts = [] \<or> next_kind ts \<noteq> IDENTIFIER then Inl (on_line ''expected a command'' ts e)
      else if next_text ts = ''if'' then
        (case parse_branches (tl ts) e of Inl err \<Rightarrow> Inl err | Inr (bs, r) \<Rightarrow> Inr (Command (new_command IF) bs, r))
      else parse_simple (next_text ts) (tl ts) e)"
| "parse_branches ts e =
     (case ParseTest ts e of Inl err \<Rightarrow> Inl err
      | Inr (t, r) \<Rightarrow>
         (case ParseBlock r e of Inl err \<Rightarrow> Inl err
          | Inr (body, r) \<Rightarrow>
             if next_kind r = IDENTIFIER \<and> next_text r = ''elsif'' then
               (case parse_branches (tl r) e of Inl err \<Rightarrow> Inl err | Inr (bs, r) \<Rightarrow> Inr ((Some t, body) # bs, r))
             else if next_kind r = IDENTIFIER \<and> next_text r = ''else'' then
               (case ParseBlock (tl r) e of Inl err \<Rightarrow> Inl err
                | Inr (body', r) \<Rightarrow> Inr ([(Some t, body), (None, body')], r))
             else Inr ([(Some t, body)], r)))"
| "ParseBlock ts e =
     (case expect LBRACE (quote1 ''{'') ts e of Inl err \<Rightarrow> Inl err | Inr r \<Rightarrow> block_loop r e)"
| "block_loop ts e =
     (if ts = [] then Inl ''unterminated block''
      else if next_kind ts = RBRACE then Inr ([], tl ts)
      else (case ParseCommand ts e of Inl err \<Rightarrow> Inl err
        | Inr (c, r) \<Rightarrow> (case block_loop r e of Inl err \<Rightarrow> Inl err | Inr (cs, r) \<Rightarrow> Inr (c # cs, r))))"
  by pat_completeness auto

lemma ParseCommand_consumes:
  "ParseCommand_parse_branches_ParseBlock_block_loop_dom (Inl (Inl (ts, e))) \<Longrightarrow>
    ParseCommand ts e = Inr (c, r) \<Longrightarrow> length r < length ts"
  "ParseCommand_parse_branches_ParseBlock_block_loop_dom (Inl (Inr (ts, e))) \<Longrightarrow>
    parse_branches ts e = Inr (bs, r) \<Longrightarrow> length r < length ts"
  "ParseCommand_parse_branches_ParseBlock_block_loop_dom (Inr (Inl (ts, e))) \<Longrightarrow>
    ParseBlock ts e = Inr (cs, r) \<Longrightarrow> length r < length ts"
  "ParseCommand_parse_branches_ParseBlock_block_loop_dom (Inr (Inr (ts, e))) \<Longrightarrow>
    block_loop ts e = Inr (cs, r) \<Longrightarrow> length r < length ts"
proof (induction ts e and ts e and ts e and ts e arbitrary: c r and bs r and cs r and cs r
    rule: ParseCommand_parse_branches_ParseBlock_block_loop.pinduct)
  case (1 ts e)
  note IH = "1.IH" and p = "1.prems" [unfolded ParseCommand.psimps [OF "1.hyps"]]
  show ?case
  proof (cases "ts = [] \<or> next_kind ts \<noteq> IDENTIFIER")
    case False
    then have len: "length (tl ts) < length ts" by (cases ts) auto
    show ?thesis
    proof (cases "next_text ts = ''if''")
      case True
      with p False obtain bs where "parse_branches (tl ts) e = Inr (bs, r)" by (auto split: sum.splits)
      from IH [OF False True this] len show ?thesis by linarith
    next
      case other: False
      with p False have "length r \<le> length (tl ts)" by (auto dest!: parse_simple_le)
      with len show ?thesis by linarith
    qed
  qed (use p in auto)
next
  case (2 ts e)
  note IH = "2.IH" and p = "2.prems" [unfolded parse_branches.psimps [OF "2.hyps"]]
  obtain t r1 where t: "ParseTest ts e = Inr (t, r1)" using p by (auto split: sum.splits)
  obtain body r2 where b: "ParseBlock r1 e = Inr (body, r2)" using p t by (auto split: sum.splits)
  have len: "length r2 < length ts" using IH(1) [OF t refl b] ParseTest_shorter [OF t] by linarith
  consider "next_kind r2 = IDENTIFIER \<and> next_text r2 = ''elsif''"
    | "\<not> (next_kind r2 = IDENTIFIER \<and> next_text r2 = ''elsif'')" "next_kind r2 = IDENTIFIER \<and> next_text r2 = ''else''"
    | "\<not> (next_kind r2 = IDENTIFIER \<and> next_text r2 = ''elsif'')" "\<not> (next_kind r2 = IDENTIFIER \<and> next_text r2 = ''else'')"
    by blast
  then show ?case
  proof cases
    case 1
    with p t b obtain bs' where "parse_branches (tl r2) e = Inr (bs', r)" by (auto split: sum.splits)
    from IH(2) [OF t refl b refl 1 this] len show ?thesis by simp
  next
    case 2
    with p t b obtain cs' where "ParseBlock (tl r2) e = Inr (cs', r)" by (auto split: sum.splits)
    from IH(3) [OF t refl b refl 2 this] len show ?thesis by simp
  next
    case 3
    with p t b len show ?thesis by auto
  qed
next
  case (3 ts e)
  note IH = "3.IH" and p = "3.prems" [unfolded ParseBlock.psimps [OF "3.hyps"]]
  obtain r1 where r1: "expect LBRACE (quote1 ''{'') ts e = Inr r1" and "block_loop r1 e = Inr (cs, r)"
    using p by (auto split: sum.splits)
  from IH [OF this] expect_shorter [OF r1] show ?case by simp
next
  case (4 ts e)
  note IH = "4.IH" and p = "4.prems" [unfolded block_loop.psimps [OF "4.hyps"]]
  show ?case
  proof (cases "ts = [] \<or> next_kind ts = RBRACE")
    case True
    with p show ?thesis by (cases ts) auto
  next
    case False
    then have ts: "ts \<noteq> []" "next_kind ts \<noteq> RBRACE" by simp_all
    with p obtain c1 r1 where c: "ParseCommand ts e = Inr (c1, r1)" by (auto split: sum.splits)
    with p ts obtain cs' where "block_loop r1 e = Inr (cs', r)" by (auto split: sum.splits)
    from IH(2) [OF ts c refl this] IH(1) [OF ts c] show ?thesis by simp
  qed
qed

lemma ParseCommand_total: "All ParseCommand_parse_branches_ParseBlock_block_loop_dom"
proof (relation "measure (\<lambda>x. case x of Inl (Inl (ts, e)) \<Rightarrow> 2 * length ts | Inl (Inr (ts, e)) \<Rightarrow> 2 * length ts
    | Inr (Inl (ts, e)) \<Rightarrow> 2 * length ts | Inr (Inr (ts, e)) \<Rightarrow> 2 * length ts + 1)", goal_cases)
  case (2 ts e)
  then show ?case by (cases ts) auto
next
  case (3 ts e b t r)
  then show ?case by (auto dest!: ParseTest_shorter)
next
  case 4
  then show ?case by (auto dest!: ParseTest_shorter ParseCommand_consumes(3))
next
  case 5
  then show ?case by (auto dest!: ParseTest_shorter ParseCommand_consumes(3))
next
  case 6
  then show ?case by (auto dest!: expect_shorter)
next
  case 8
  then show ?case by (auto dest!: ParseCommand_consumes(1))
qed simp_all

termination ParseCommand by (rule ParseCommand_total)

declare ParseCommand.simps [simp del] parse_branches.simps [simp del] ParseBlock.simps [simp del] block_loop.simps [simp del]

lemma ParseCommand_shorter: "ParseCommand ts e = Inr (c, r) \<Longrightarrow> length r < length ts"
  using ParseCommand_consumes(1) ParseCommand_total by blast

text \<open>The whole script; the parser and the lexer as \<open>ParseInternal\<close> composes them.\<close>

function ParseScript :: "token list \<Rightarrow> int \<Rightarrow> string + command list" where
  "ParseScript ts e =
     (if ts = [] then Inr []
      else (case ParseCommand ts e of Inl err \<Rightarrow> Inl err
        | Inr (c, r) \<Rightarrow> (case ParseScript r e of Inl err \<Rightarrow> Inl err | Inr cs \<Rightarrow> Inr (c # cs))))"
  by pat_completeness auto
termination by (relation "measure (\<lambda>(ts, e). length ts)") (auto dest: ParseCommand_shorter)

declare ParseScript.simps [simp del]

definition ParseInternal :: "string \<Rightarrow> string + command list" where
  "ParseInternal script = (case Run script of Inl err \<Rightarrow> Inl err | Inr (ts, e) \<Rightarrow> ParseScript ts e)"

section \<open>What the parser accepts\<close>

text \<open>
  A test has the operands its kind requires, and an \<^verbatim>\<open>if\<close> has at least one branch, of which only the last, and
  never the first, may be an \<^verbatim>\<open>else\<close>.
\<close>

definition wf_args :: "test_args \<Rightarrow> bool" where
  "wf_args a = (t_match a \<in> {''is'', ''contains'', ''matches''}
     \<and> t_part a \<in> {''all'', ''localpart'', ''domain'', ''user'', ''detail''}
     \<and> t_relation a \<in> {[], ''over'', ''under''} \<and> Lower (t_comparator a) = t_comparator a)"

fun wf_test :: "test \<Rightarrow> bool" where
  "wf_test (Test a cs) =
     (wf_args a \<and> (\<forall>c\<in>set cs. wf_test c) \<and>
      (if t_kind a = NOT_TEST then length cs = 1
       else if t_kind a = ANYOF \<or> t_kind a = ALLOF then cs \<noteq> []
       else cs = [] \<and> (t_kind a = SIZE \<longrightarrow> t_relation a \<noteq> [])))"

fun wf_command :: "command \<Rightarrow> bool" where
  "wf_command (Command a bs) =
     ((if c_kind a = IF then bs \<noteq> [] \<and> fst (hd bs) \<noteq> None \<and> (\<forall>b\<in>set (butlast bs). fst b \<noteq> None) else bs = [])
      \<and> (\<forall>b\<in>set bs. (case fst b of None \<Rightarrow> True | Some t \<Rightarrow> wf_test t) \<and> (\<forall>c\<in>set (snd b). wf_command c)))"

lemma wf_new_test [simp]: "wf_args (new_test k)" "t_kind (new_test k) = k" "t_relation (new_test k) = []"
  by (simp_all add: wf_args_def new_test_def Lower_def tolower_def)

lemma new_command_kind [simp]: "c_kind (new_command k) = k"
  by (simp add: new_command_def)

lemma wf_args_update [simp]:
  "wf_args a \<Longrightarrow> wf_args (a\<lparr>t_names := ns\<rparr>)" "wf_args a \<Longrightarrow> wf_args (a\<lparr>t_keys := ns\<rparr>)"
  "wf_args a \<Longrightarrow> wf_args (a\<lparr>t_limit := n\<rparr>)" "wf_args a \<Longrightarrow> wf_args (a\<lparr>t_comparator := Lower s\<rparr>)"
  "wf_args a \<Longrightarrow> s \<in> {''is'', ''contains'', ''matches''} \<Longrightarrow> wf_args (a\<lparr>t_match := s\<rparr>)"
  "wf_args a \<Longrightarrow> s \<in> {''all'', ''localpart'', ''domain'', ''user'', ''detail''} \<Longrightarrow> wf_args (a\<lparr>t_part := s\<rparr>)"
  "wf_args a \<Longrightarrow> s \<in> {''over'', ''under''} \<Longrightarrow> wf_args (a\<lparr>t_relation := s\<rparr>)"
  by (simp_all add: wf_args_def del: insert_iff) simp_all

lemma ParseMatchTags_wf':
  "wf_args a \<Longrightarrow> wf_args (fst (ParseMatchTags a ts)) \<and> t_kind (fst (ParseMatchTags a ts)) = t_kind a"
  by (induction a ts rule: ParseMatchTags.induct) (simp_all del: insert_iff)

lemma ParseMatchTags_wf: "ParseMatchTags a ts = (b, r) \<Longrightarrow> wf_args a \<Longrightarrow> wf_args b \<and> t_kind b = t_kind a"
  using ParseMatchTags_wf' [of a ts] by simp

lemma parse_two_lists_wf:
  assumes "parse_two_lists k ts e = Inr (t, r)" and "k \<notin> {NOT_TEST, ANYOF, ALLOF, SIZE}"
  shows "wf_test t"
  using assms by (auto simp: parse_two_lists_def split: prod.splits sum.splits dest!: ParseMatchTags_wf)

lemma parse_leaf_wf:
  assumes "parse_leaf name ts e = Inr (t, r)"
  shows "wf_test t"
proof -
  have "parse_size ts e = Inr (t, r) \<Longrightarrow> wf_test t"
    by (auto simp: parse_size_def split: prod.splits if_splits dest!: ParseMatchTags_wf)
  moreover have "parse_body_test ts e = Inr (t, r) \<Longrightarrow> wf_test t"
    by (auto simp: parse_body_test_def split: prod.splits sum.splits dest!: ParseMatchTags_wf)
  moreover have "parse_hasflag ts e = Inr (t, r) \<Longrightarrow> wf_test t"
    by (auto simp: parse_hasflag_def split: prod.splits sum.splits if_splits dest!: ParseMatchTags_wf)
  moreover have "(case ParseStringList ts e of Inl err \<Rightarrow> Inl err
      | Inr (ns, r) \<Rightarrow> Inr (Test (new_test EXISTS\<lparr>t_names := ns\<rparr>) [], r)) = Inr (t, r) \<Longrightarrow> wf_test t"
    by (auto split: sum.splits)
  moreover have "Test (new_test ALWAYS) [] = t \<and> ts = r \<Longrightarrow> wf_test t"
    and "Test (new_test NEVER) [] = t \<and> ts = r \<Longrightarrow> wf_test t" by auto
  moreover note parse_two_lists_wf [of HEADER ts e t r] parse_two_lists_wf [of ADDRESS ts e t r]
    parse_two_lists_wf [of ENVELOPE ts e t r] parse_two_lists_wf [of STRING_TEST ts e t r]
  ultimately show ?thesis
    using assms unfolding parse_leaf_def by (simp split: if_split_asm)
qed

lemma ParseTest_wf:
  "ParseTest ts e = Inr (t, r) \<Longrightarrow> wf_test t"
  "parse_children ts e = Inr (us, r) \<Longrightarrow> us \<noteq> [] \<and> (\<forall>u\<in>set us. wf_test u)"
proof (induction ts e and ts e arbitrary: t r and us r rule: ParseTest_parse_children.induct)
  case (1 ts e)
  note IH = "1.IH" and p = "1.prems" [unfolded ParseTest.simps [of ts]]
  show ?case
  proof (cases "ts = [] \<or> next_kind ts \<noteq> IDENTIFIER")
    case False
    consider "next_text ts = ''not''" | "next_text ts \<noteq> ''not''" "next_text ts = ''anyof'' \<or> next_text ts = ''allof''"
      | "\<not> (next_text ts = ''not'')" "\<not> (next_text ts = ''anyof'' \<or> next_text ts = ''allof'')" by blast
    then show ?thesis
    proof cases
      case 1
      with p False obtain c where "ParseTest (tl ts) e = Inr (c, r)" "t = Test (new_test NOT_TEST) [c]"
        by (auto split: sum.splits)
      with IH(1) [OF False 1] show ?thesis by simp
    next
      case 2
      with p False obtain r1 us r2 where
        e: "expect LPAREN (quote1 ''('' @ '' after anyof/allof'') (tl ts) e = Inr r1"
        and us: "parse_children r1 e = Inr (us, r2)"
        and t: "t = Test (new_test (if next_text ts = ''anyof'' then ANYOF else ALLOF)) us"
        by (auto split: sum.splits prod.splits)
      from IH(2) [OF False 2 e us] show ?thesis by (simp add: t)
    next
      case 3
      with p False have "parse_leaf (next_text ts) (tl ts) e = Inr (t, r)" by simp
      then show ?thesis by (rule parse_leaf_wf)
    qed
  qed (use p in auto)
next
  case (2 ts e)
  note IH = "2.IH" and p = "2.prems" [unfolded parse_children.simps [of ts]]
  obtain c r1 where c: "ParseTest ts e = Inr (c, r1)" using p by (auto split: sum.splits)
  show ?case
  proof (cases "r1 \<noteq> [] \<and> next_kind r1 = COMMA")
    case True
    with p c obtain us' where "parse_children (tl r1) e = Inr (us', r)" "us = c # us'" by (auto split: sum.splits)
    with IH(2) [OF c refl True] IH(1) [OF c] show ?thesis by simp
  next
    case False
    with p c IH(1) [OF c] show ?thesis by auto
  qed
qed

lemma parse_simple_wf:
  assumes "parse_simple name ts e = Inr (c, r)"
  shows "wf_command c"
proof -
  have "parse_positional a ts' e = Inr (b, r') \<Longrightarrow> c_kind b = c_kind a" for a b ts' r'
    by (auto simp: parse_positional_def parse_flag_lists_def split: if_splits sum.splits)
  then have "parse_plain k ts e = Inr (c, r) \<Longrightarrow> k \<noteq> IF \<Longrightarrow> wf_command c" for k
    by (auto simp: parse_plain_def split: sum.splits dest!: parse_tags_le)
  moreover have "parse_require ts e = Inr (c, r) \<Longrightarrow> wf_command c"
    by (auto simp: parse_require_def split: sum.splits)
  moreover have "(n, k) \<in> set command_kinds \<Longrightarrow> k \<noteq> IF" for n k
    by (auto simp: command_kinds_def)
  ultimately show ?thesis
    using assms unfolding parse_simple_def by (auto split: if_split_asm option.splits dest!: map_of_SomeD)
qed

lemma ParseCommand_wf:
  "ParseCommand ts e = Inr (c, r) \<Longrightarrow> wf_command c"
  "parse_branches ts e = Inr (bs, r) \<Longrightarrow> bs \<noteq> [] \<and> fst (hd bs) \<noteq> None \<and> (\<forall>b\<in>set (butlast bs). fst b \<noteq> None)
     \<and> (\<forall>b\<in>set bs. (case fst b of None \<Rightarrow> True | Some t \<Rightarrow> wf_test t) \<and> (\<forall>c\<in>set (snd b). wf_command c))"
  "ParseBlock ts e = Inr (cs, r) \<Longrightarrow> \<forall>c\<in>set cs. wf_command c"
  "block_loop ts e = Inr (cs, r) \<Longrightarrow> \<forall>c\<in>set cs. wf_command c"
proof (induction ts e and ts e and ts e and ts e arbitrary: c r and bs r and cs r and cs r
    rule: ParseCommand_parse_branches_ParseBlock_block_loop.induct)
  case (1 ts e)
  note IH = "1.IH" and p = "1.prems" [unfolded ParseCommand.simps [of ts]]
  show ?case
  proof (cases "ts = [] \<or> next_kind ts \<noteq> IDENTIFIER")
    case False
    show ?thesis
    proof (cases "next_text ts = ''if''")
      case True
      with p False obtain bs where "parse_branches (tl ts) e = Inr (bs, r)" "c = Command (new_command IF) bs"
        by (auto split: sum.splits)
      with IH [OF False True] show ?thesis by simp
    next
      case other: False
      with p False show ?thesis by (auto dest!: parse_simple_wf)
    qed
  qed (use p in auto)
next
  case (2 ts e)
  note IH = "2.IH" and p = "2.prems" [unfolded parse_branches.simps [of ts]]
  obtain t r1 where t: "ParseTest ts e = Inr (t, r1)" using p by (auto split: sum.splits)
  obtain body r2 where b: "ParseBlock r1 e = Inr (body, r2)" using p t by (auto split: sum.splits)
  note wf = ParseTest_wf(1) [OF t] IH(1) [OF t refl b]
  consider "next_kind r2 = IDENTIFIER \<and> next_text r2 = ''elsif''"
    | "\<not> (next_kind r2 = IDENTIFIER \<and> next_text r2 = ''elsif'')" "next_kind r2 = IDENTIFIER \<and> next_text r2 = ''else''"
    | "\<not> (next_kind r2 = IDENTIFIER \<and> next_text r2 = ''elsif'')" "\<not> (next_kind r2 = IDENTIFIER \<and> next_text r2 = ''else'')"
    by blast
  then show ?case
  proof cases
    case 1
    with p t b obtain bs' where bs': "parse_branches (tl r2) e = Inr (bs', r)" "bs = (Some t, body) # bs'"
      by (auto split: sum.splits)
    from IH(2) [OF t refl b refl 1 bs'(1)] wf show ?thesis by (simp add: bs')
  next
    case 2
    with p t b obtain cs' where cs': "ParseBlock (tl r2) e = Inr (cs', r)" "bs = [(Some t, body), (None, cs')]"
      by (auto split: sum.splits)
    from IH(3) [OF t refl b refl 2 cs'(1)] wf show ?thesis by (simp add: cs')
  next
    case 3
    with p t b wf show ?thesis by auto
  qed
next
  case (3 ts e)
  note p = "3.prems" [unfolded ParseBlock.simps [of ts]]
  obtain r1 where "expect LBRACE (quote1 ''{'') ts e = Inr r1" and "block_loop r1 e = Inr (cs, r)"
    using p by (auto split: sum.splits)
  from "3.IH" [OF this] show ?case .
next
  case (4 ts e)
  note IH = "4.IH" and p = "4.prems" [unfolded block_loop.simps [of ts]]
  show ?case
  proof (cases "ts = [] \<or> next_kind ts = RBRACE")
    case True
    with p show ?thesis by (cases ts) auto
  next
    case False
    then have ts: "ts \<noteq> []" "next_kind ts \<noteq> RBRACE" by simp_all
    with p obtain c1 r1 where c: "ParseCommand ts e = Inr (c1, r1)" by (auto split: sum.splits)
    with p ts obtain cs' where "block_loop r1 e = Inr (cs', r)" "cs = c1 # cs'" by (auto split: sum.splits)
    with IH(2) [OF ts c refl] IH(1) [OF ts c] show ?thesis by simp
  qed
qed

lemma ParseScript_wf: "ParseScript ts e = Inr cs \<Longrightarrow> \<forall>c\<in>set cs. wf_command c"
proof (induction ts e arbitrary: cs rule: ParseScript.induct)
  case (1 ts e)
  from "1.prems" show ?case
  proof (cases "ts = []")
    case False
    with "1.prems" obtain c r cs' where c: "ParseCommand ts e = Inr (c, r)"
      and "ParseScript r e = Inr cs'" "cs = c # cs'"
      by (auto simp: ParseScript.simps [of ts] split: sum.splits)
    with "1.IH" [OF False c refl] ParseCommand_wf(1) [OF c] show ?thesis by simp
  qed (simp add: ParseScript.simps)
qed

text \<open>C17. A script that the parser accepts is a well-formed program: \<^verbatim>\<open>not\<close> has one operand, \<^verbatim>\<open>anyof\<close> and
  \<^verbatim>\<open>allof\<close> at least one, a size test its relation, every match type and address part is one the evaluator
  knows, and only the last branch of an \<^verbatim>\<open>if\<close>, and not the first, may be an \<^verbatim>\<open>else\<close>.\<close>

theorem ParseInternal_wf:
  assumes "ParseInternal script = Inr program"
  shows "list_all wf_command program"
  using assms by (auto simp: ParseInternal_def list_all_iff split: sum.splits dest!: ParseScript_wf)

theorem ParseInternal_wf_witness:
  "list_all wf_command [Command (new_command IF) [(Some (Test (new_test NOT_TEST) [Test (new_test ALWAYS) []]),
       [Command (new_command DISCARD) []]), (None, [Command (new_command KEEP) []])]]"
proof (rule ParseInternal_wf)
  show "ParseInternal ''if not true { discard; } else { keep; }''
    = Inr [Command (new_command IF) [(Some (Test (new_test NOT_TEST) [Test (new_test ALWAYS) []]),
       [Command (new_command DISCARD) []]), (None, [Command (new_command KEEP) []])]]"
    by code_simp
qed

end
