(* ===== verification/QM_SieveMatch.thy ===== *)
theory QM_SieveMatch
  imports QM_CitMsg "HOL-Library.AList"
begin

text \<open>
  The variables and the \<^verbatim>\<open>:matches\<close> patterns of \<^verbatim>\<open>src/core/src/sieve.cpp\<close>. The sorted map of the variables is an
  association list with distinct keys. A pattern is matched as the list of its characters with the number of the
  wildcard each is; the steps of the matcher are counted as the source counts them.
\<close>

section \<open>Variables\<close>

record variables =
  v_named :: "(string \<times> string) list"
  v_captures :: "string list"
  v_enabled :: bool

definition kMaxNames :: nat where "kMaxNames = 128"
definition kMaxValue :: nat where "kMaxValue = 4096"

definition no_variables :: variables where
  "no_variables = \<lparr>v_named = [], v_captures = [], v_enabled = False\<rparr>"

definition set_variable :: "string \<Rightarrow> string \<Rightarrow> variables \<Rightarrow> variables" where
  "set_variable name v vars =
     (let key = Lower (Trim name) in
      if length v > kMaxValue then vars
      else if map_of (v_named vars) key = None \<and> length (v_named vars) \<ge> kMaxNames then vars
      else vars\<lparr>v_named := AList.update key v (v_named vars)\<rparr>)"

definition get_variable :: "variables \<Rightarrow> string \<Rightarrow> string" where
  "get_variable vars name =
     (let key = Lower (Trim name) in
      if length key = 1 \<and> isdigit (hd key) then
        (let i = byte (hd key) - 48 in if i < length (v_captures vars) then v_captures vars ! i else [])
      else (case map_of (v_named vars) key of None \<Rightarrow> [] | Some v \<Rightarrow> v))"

definition alpha_char :: "char \<Rightarrow> bool" where
  "alpha_char c = (isupper c \<or> islower c \<or> c = CHR ''_'')"

fun valid_name :: "bool \<Rightarrow> string \<Rightarrow> bool" where
  "valid_name start [] = (\<not> start)"
| "valid_name start (c # cs) =
     (if start then alpha_char c \<and> valid_name False cs
      else if c = CHR ''.'' then valid_name True cs
      else (isalnum c \<or> c = CHR ''_'') \<and> valid_name False cs)"

definition ValidVariableName :: "string \<Rightarrow> bool" where
  "ValidVariableName name =
     (if name = [] \<or> length name > 128 then False
      else if list_all isdigit name then length name = 1
      else valid_name True name)"

function expand_loop :: "variables \<Rightarrow> string \<Rightarrow> string" where
  "expand_loop vars [] = []"
| "expand_loop vars (c # cs) =
     (if c = CHR ''$'' \<and> cs \<noteq> [] \<and> hd cs = CHR ''{'' then
        (case find_idx CHR ''}'' (tl cs) of None \<Rightarrow> c # expand_loop vars cs
         | Some close \<Rightarrow>
            let name = take close (tl cs) in
            if ValidVariableName name then get_variable vars name @ expand_loop vars (drop (close + 1) (tl cs))
            else c # expand_loop vars cs)
      else c # expand_loop vars cs)"
  by pat_completeness auto
termination by (relation "measure (\<lambda>(vars, s). length s)") auto

declare expand_loop.simps [simp del]

definition Expand :: "variables \<Rightarrow> string \<Rightarrow> string" where
  "Expand vars s = (if \<not> v_enabled vars \<or> cut_sub ''${'' s = None then s else expand_loop vars s)"

definition ExpandAll :: "variables \<Rightarrow> string list \<Rightarrow> string list" where
  "ExpandAll vars ss = (if \<not> v_enabled vars then ss else map (Expand vars) ss)"

text \<open>The store stays within its limits, whatever is assigned.\<close>

definition wf_variables :: "variables \<Rightarrow> bool" where
  "wf_variables vars =
     (distinct (map fst (v_named vars)) \<and> length (v_named vars) \<le> kMaxNames
      \<and> (\<forall>(k, v)\<in>set (v_named vars). length v \<le> kMaxValue))"

lemma set_update_subset: "set (AList.update k v al) \<subseteq> insert (k, v) (set al)"
  by (induction al) auto

lemma length_update: "length (AList.update k v al) = (if map_of al k = None then length al + 1 else length al)"
  by (induction al) auto

lemma set_variable_wf: "wf_variables vars \<Longrightarrow> wf_variables (set_variable name v vars)"
  using set_update_subset [of "Lower (Trim name)" v "v_named vars"]
  by (fastforce simp: wf_variables_def set_variable_def Let_def distinct_update length_update)

lemma get_set_variable:
  assumes "length v \<le> kMaxValue" and "length (v_named vars) < kMaxNames" and "\<not> (length name = 1 \<and> isdigit (hd name))"
    and "Trim name = name"
  shows "get_variable (set_variable name v vars) name = v"
proof -
  have "length (Lower name) = 1 \<Longrightarrow> isdigit (hd (Lower name)) \<Longrightarrow> isdigit (hd name)"
    by (cases name) (auto simp: Lower_def isdigit_def byte_tolower split: if_splits)
  with assms show ?thesis
    by (auto simp: get_variable_def set_variable_def Let_def update_conv')
qed

section \<open>Patterns\<close>

definition kMaxSteps :: int where "kMaxSteps = 2000000"

definition wild :: "char \<Rightarrow> bool" where
  "wild c = (c = CHR ''*'' \<or> c = CHR ''?'')"

text \<open>The constructor of \<open>Globber\<close>: the number of each wildcard, 1 for the first; the other characters, and the
  escaped ones, have number 0. The number of the last is the last capture there is room for.\<close>

fun ordinals :: "nat \<Rightarrow> string \<Rightarrow> (char \<times> nat) list" where
  "ordinals n [] = []"
| "ordinals n [c] = [(c, if wild c then n + 1 else 0)]"
| "ordinals n (c # d # cs) =
     (if c = BACKSLASH then (c, 0) # (d, 0) # ordinals n cs
      else if wild c then (c, n + 1) # ordinals (n + 1) (d # cs)
      else (c, 0) # ordinals n (d # cs))"

definition wildcards :: "string \<Rightarrow> nat" where
  "wildcards pattern = length (filter (\<lambda>p. snd p \<noteq> 0) (ordinals 0 pattern))"

definition Same :: "bool \<Rightarrow> char \<Rightarrow> char \<Rightarrow> bool" where
  "Same fc a b = (if fc then tolower a = tolower b else a = b)"

record globber =
  g_caps :: "string list option"
  g_steps :: int

definition Record :: "nat \<Rightarrow> string \<Rightarrow> globber \<Rightarrow> globber" where
  "Record which v g =
     (case g_caps g of None \<Rightarrow> g | Some caps \<Rightarrow> if which < length caps then g\<lparr>g_caps := Some (caps[which := v])\<rparr> else g)"

text \<open>
  \<open>Match\<close> at the rest of the value and of the pattern. \<open>glob_run\<close> is its \<^verbatim>\<open>while\<close> loop; \<open>glob_star v0 v\<close> is the loop
  over the lengths a star may take of \<open>v0\<close>, at the point where \<open>v\<close> is left.
\<close>

function glob_match :: "bool \<Rightarrow> string \<Rightarrow> (char \<times> nat) list \<Rightarrow> globber \<Rightarrow> bool \<times> globber"
  and glob_run :: "bool \<Rightarrow> string \<Rightarrow> (char \<times> nat) list \<Rightarrow> globber \<Rightarrow> bool \<times> globber"
  and glob_star :: "bool \<Rightarrow> string \<Rightarrow> string \<Rightarrow> nat \<Rightarrow> (char \<times> nat) list \<Rightarrow> globber \<Rightarrow> bool \<times> globber" where
  "glob_match fc v p g =
     (let g = g\<lparr>g_steps := g_steps g + 1\<rparr> in if g_steps g > kMaxSteps then (False, g) else glob_run fc v p g)"
| "glob_run fc v p g =
     (case p of [] \<Rightarrow> (v = [], g)
      | (c, which) # ps \<Rightarrow>
         if c = BACKSLASH \<and> ps \<noteq> [] then
           (if v = [] \<or> \<not> Same fc (hd v) (fst (hd ps)) then (False, g) else glob_run fc (tl v) (tl ps) g)
         else if c = CHR ''*'' then glob_star fc v v which ps g
         else if c = CHR ''?'' then
           (if v = [] then (False, g) else glob_run fc (tl v) ps (Record which [hd v] g))
         else if v = [] \<or> \<not> Same fc (hd v) c then (False, g)
         else glob_run fc (tl v) ps g)"
| "glob_star fc v0 v which ps g =
     (case glob_match fc v ps g of (matched, g) \<Rightarrow>
        if matched then (True, Record which (take (length v0 - length v) v0) g)
        else if g_steps g > kMaxSteps then (False, g)
        else (case v of [] \<Rightarrow> (False, g) | _ # v' \<Rightarrow> glob_star fc v0 v' which ps g))"
  by pat_completeness auto
termination
  by (relation "measures [\<lambda>x. case x of Inl (fc, v, p, g) \<Rightarrow> length p | Inr (Inl (fc, v, p, g)) \<Rightarrow> length p
        | Inr (Inr (fc, v0, v, which, ps, g)) \<Rightarrow> length ps,
      \<lambda>x. case x of Inl _ \<Rightarrow> 1 | Inr (Inl _) \<Rightarrow> 0 | Inr (Inr (fc, v0, v, which, ps, g)) \<Rightarrow> 2 + length v]") auto

declare glob_match.simps [simp del] glob_run.simps [simp del] glob_star.simps [simp del]

lemma glob_run_Nil: "glob_run fc v [] g = (v = [], g)"
  by (simp add: glob_run.simps)

lemma glob_run_Cons:
  "glob_run fc v ((c, which) # ps) g =
     (if c = BACKSLASH \<and> ps \<noteq> [] then
        (if v = [] \<or> \<not> Same fc (hd v) (fst (hd ps)) then (False, g) else glob_run fc (tl v) (tl ps) g)
      else if c = CHR ''*'' then glob_star fc v v which ps g
      else if c = CHR ''?'' then
        (if v = [] then (False, g) else glob_run fc (tl v) ps (Record which [hd v] g))
      else if v = [] \<or> \<not> Same fc (hd v) c then (False, g)
      else glob_run fc (tl v) ps g)"
  by (subst glob_run.simps) simp

text \<open>\<open>caps\<close> tells whether the captures are asked for.\<close>

definition Globber :: "string \<Rightarrow> bool \<Rightarrow> globber" where
  "Globber pattern caps = \<lparr>g_caps = (if caps then Some (replicate (wildcards pattern + 1) []) else None), g_steps = 0\<rparr>"

definition GlobMatch :: "string \<Rightarrow> string \<Rightarrow> bool \<Rightarrow> bool \<Rightarrow> bool \<times> string list" where
  "GlobMatch v pattern fc caps =
     (case glob_match fc v (ordinals 0 pattern) (Globber pattern caps) of (matched, g) \<Rightarrow>
        (matched, case g_caps g of None \<Rightarrow> [] | Some cs \<Rightarrow> if matched then cs[0 := v] else cs))"

text \<open>\<open>MatchOne\<close>: whether the value matches, and the captures when they are asked for.\<close>

definition MatchOne :: "string \<Rightarrow> string \<Rightarrow> string \<Rightarrow> string \<Rightarrow> bool \<Rightarrow> bool \<times> string list" where
  "MatchOne v key match_type comparator caps =
     (let fc = comparator \<noteq> ''i;octet''; fl = (\<lambda>s. if fc then Lower s else s) in
      if match_type = ''matches'' then GlobMatch v key fc caps
      else if match_type = ''contains'' then (cut_sub (fl key) (fl v) \<noteq> None, [])
      else (fl v = fl key, []))"

section \<open>What a pattern means\<close>

datatype gitem = Literal char | One | Many

fun fits :: "bool \<Rightarrow> gitem \<Rightarrow> string \<Rightarrow> bool" where
  "fits fc (Literal c) s = (\<exists>d. s = [d] \<and> Same fc d c)"
| "fits fc One s = (length s = 1)"
| "fits fc Many s = True"

definition item_of :: "char \<Rightarrow> gitem" where
  "item_of c = (if c = CHR ''*'' then Many else if c = CHR ''?'' then One else Literal c)"

fun pattern_items :: "string \<Rightarrow> gitem list" where
  "pattern_items [] = []"
| "pattern_items [c] = [item_of c]"
| "pattern_items (c # d # cs) =
     (if c = BACKSLASH then Literal d # pattern_items cs else item_of c # pattern_items (d # cs))"

text \<open>A split of the value into one part per item, and the parts the wildcards took.\<close>

definition splits :: "bool \<Rightarrow> gitem list \<Rightarrow> string list \<Rightarrow> string \<Rightarrow> bool" where
  "splits fc items parts v = (v = concat parts \<and> list_all2 (fits fc) items parts)"

definition taken :: "gitem list \<Rightarrow> string list \<Rightarrow> string list" where
  "taken items parts = [s. (i, s) \<leftarrow> zip items parts, i = One \<or> i = Many]"

subsection \<open>Captures and steps\<close>

text \<open>What a run leaves alone: the captures of other wildcards; and what it does to the number of steps.\<close>

definition frame :: "nat set \<Rightarrow> globber \<Rightarrow> globber \<Rightarrow> bool" where
  "frame ws g g' =
     (rel_option (\<lambda>a b. length b = length a \<and> (\<forall>w. w \<notin> ws \<longrightarrow> b ! w = a ! w)) (g_caps g) (g_caps g')
      \<and> g_steps g \<le> g_steps g' \<and> (g_steps g \<le> kMaxSteps \<longrightarrow> g_steps g' \<le> kMaxSteps + 1))"

lemma frame_refl [simp]: "frame ws g g"
  by (auto simp: frame_def intro: option.rel_refl)

lemma frame_trans:
  assumes "frame ws g g'" and "frame ws g' g''" and "g_steps g' \<le> kMaxSteps \<or> g_steps g'' = g_steps g'"
  shows "frame ws g g''"
  using assms by (cases "g_caps g"; cases "g_caps g'"; cases "g_caps g''") (auto simp: frame_def)

lemma frame_mono: "frame ws g g' \<Longrightarrow> ws \<subseteq> ws' \<Longrightarrow> frame ws' g g'"
  by (cases "g_caps g"; cases "g_caps g'") (auto simp: frame_def subset_iff)

lemma frame_Record: "w \<in> ws \<Longrightarrow> frame ws g (Record w s g)"
  by (cases "g_caps g") (auto simp: frame_def Record_def, metis nth_list_update_neq)

lemma Record_steps [simp]: "g_steps (Record w s g) = g_steps g"
  by (simp add: Record_def split: option.split)

abbreviation ords :: "(char \<times> nat) list \<Rightarrow> nat set" where
  "ords p \<equiv> snd ` set p"

lemma glob_frame:
  "frame (ords p) g (snd (glob_match fc v p g))"
  "g_steps g \<le> kMaxSteps \<Longrightarrow> frame (ords p) g (snd (glob_run fc v p g))"
  "g_steps g \<le> kMaxSteps \<Longrightarrow> frame (insert which (ords ps)) g (snd (glob_star fc v0 v which ps g))"
proof (induction fc v p g and fc v p g and fc v0 v which ps g rule: glob_match_glob_run_glob_star.induct)
  case (1 fc v p g)
  let ?g = "g\<lparr>g_steps := g_steps g + 1\<rparr>"
  have step: "frame ws g ?g" for ws
    by (cases "g_caps g") (auto simp: frame_def)
  show ?case
  proof (cases "g_steps ?g > kMaxSteps")
    case True
    with step show ?thesis by (simp add: glob_match.simps [of fc v p g])
  next
    case False
    from frame_trans [OF step "1.IH" [OF refl False]] False show ?thesis by (simp add: glob_match.simps [of fc v p g])
  qed
next
  case (2 fc v p g)
  show ?case
  proof (cases p)
    case (Cons pc ps)
    obtain c which where pc: "pc = (c, which)" by (cases pc)
    note p = Cons [unfolded pc]
    have tl: "ords (tl ps) \<subseteq> ords p" and ps: "ords ps \<subseteq> ords p"
      by (cases ps; auto simp: p)+
    consider (esc) "c = BACKSLASH \<and> ps \<noteq> []" | (star) "\<not> (c = BACKSLASH \<and> ps \<noteq> [])" "c = CHR ''*''"
      | (one) "\<not> (c = BACKSLASH \<and> ps \<noteq> [])" "c \<noteq> CHR ''*''" "c = CHR ''?''"
      | (lit) "\<not> (c = BACKSLASH \<and> ps \<noteq> [])" "c \<noteq> CHR ''*''" "c \<noteq> CHR ''?''" by blast
    then show ?thesis
    proof cases
      case esc
      with "2.IH"(1) [OF p refl esc] 2(5) tl show ?thesis
        by (auto simp: glob_run_Cons p intro: frame_mono)
    next
      case star
      with "2.IH"(2) [OF p refl star] 2(5) show ?thesis
        by (simp add: glob_run_Cons p)
    next
      case one
      have "frame (ords p) g (Record which [hd v] g)" by (rule frame_Record) (simp add: p)
      moreover have "v \<noteq> [] \<Longrightarrow> frame (ords p) (Record which [hd v] g) (snd (glob_run fc (tl v) ps (Record which [hd v] g)))"
        using "2.IH"(3) [OF p refl one] 2(5) ps by (auto intro: frame_mono)
      ultimately show ?thesis
        using one 2(5) by (auto simp: glob_run_Cons p intro: frame_trans)
    next
      case lit
      with "2.IH"(4) [OF p refl lit] 2(5) ps show ?thesis
        by (auto simp: glob_run_Cons p intro: frame_mono)
    qed
  qed (simp add: glob_run_Nil)
next
  case (3 fc v0 v which ps g)
  obtain matched g1 where m: "glob_match fc v ps g = (matched, g1)" by fastforce
  have f1: "frame (insert which (ords ps)) g g1"
    using "3.IH"(1) m by (auto intro: frame_mono)
  consider matched | "\<not> matched" "g_steps g1 > kMaxSteps" | "\<not> matched" "\<not> g_steps g1 > kMaxSteps" "v = []"
    | a v' where "\<not> matched" "\<not> g_steps g1 > kMaxSteps" "v = a # v'" by (cases v) auto
  then show ?case
  proof cases
    case 1
    then show ?thesis
      using frame_trans [OF f1 frame_Record [of which "insert which (ords ps)"]]
      by (simp add: glob_star.simps [of fc v0 v] m)
  next
    case 4
    from frame_trans [OF f1 "3.IH"(2) [OF m [symmetric] 4(1) 4(2) 4(3)]] 4
    show ?thesis by (simp add: glob_star.simps [of fc v0 "a # v'"] m [unfolded 4(3)])
  next
    case 3
    with f1 m show ?thesis by (simp add: glob_star.simps [of fc v0 "[]"])
  qed (use f1 in \<open>simp add: glob_star.simps [of fc v0 v] m\<close>)
qed

lemma glob_match_steps: "g_steps g \<le> g_steps (snd (glob_match fc v p g))"
  using glob_frame(1) [of p g fc v] by (simp add: frame_def)

subsection \<open>Soundness and completeness\<close>

lemma ordinals_Cons:
  "ordinals n (c # cs) =
     (if c = BACKSLASH \<and> cs \<noteq> [] then (c, 0) # (hd cs, 0) # ordinals n (tl cs)
      else if wild c then (c, n + 1) # ordinals (n + 1) cs else (c, 0) # ordinals n cs)"
  by (cases cs) (auto simp: wild_def)

lemma pattern_items_Cons:
  "pattern_items (c # cs) =
     (if c = BACKSLASH \<and> cs \<noteq> [] then Literal (hd cs) # pattern_items (tl cs) else item_of c # pattern_items cs)"
  by (cases cs) auto

lemma ordinals_Nil [simp]: "ordinals n s = [] \<longleftrightarrow> s = []"
  by (cases s) (simp_all add: ordinals_Cons)

lemma ordinals_hd [simp]: "s \<noteq> [] \<Longrightarrow> fst (hd (ordinals n s)) = hd s"
  by (cases s) (simp_all add: ordinals_Cons)

lemma ords_ordinals: "w \<in> ords (ordinals n s) \<Longrightarrow> w = 0 \<or> n < w"
  by (induction n s rule: ordinals.induct) (fastforce split: if_splits)+

lemma taken_Cons [simp]:
  "taken (i # is) (s # ss) = (if i = One \<or> i = Many then s # taken is ss else taken is ss)"
  by (simp add: taken_def)

lemma splits_Cons: "splits fc (i # is) ps v \<longleftrightarrow> (\<exists>s ss. ps = s # ss \<and> fits fc i s \<and> v = s @ concat ss \<and> list_all2 (fits fc) is ss)"
  by (cases ps) (auto simp: splits_def)

text \<open>The captures from number \<open>n + 1\<close> on are the parts the wildcards took.\<close>

definition captured :: "nat \<Rightarrow> string list \<Rightarrow> globber \<Rightarrow> bool" where
  "captured n ss g = (\<forall>caps. g_caps g = Some caps \<longrightarrow>
     (\<forall>j < length ss. n + 1 + j < length caps \<longrightarrow> caps ! (n + 1 + j) = ss ! j))"

definition solved :: "bool \<Rightarrow> string \<Rightarrow> nat \<Rightarrow> string \<Rightarrow> globber \<Rightarrow> bool" where
  "solved fc s n v g = (\<exists>parts. splits fc (pattern_items s) parts v \<and> captured n (taken (pattern_items s) parts) g)"

lemma captured_Cons:
  "captured n (s # ss) g \<longleftrightarrow>
     captured (n + 1) ss g \<and> (\<forall>caps. g_caps g = Some caps \<and> n + 1 < length caps \<longrightarrow> caps ! (n + 1) = s)"
  by (auto simp: captured_def All_less_Suc2 nth_Cons')

lemma captured_Record: "captured n ss g \<Longrightarrow> w \<le> n \<Longrightarrow> captured n ss (Record w s g)"
  by (auto simp: captured_def Record_def split: option.split)

lemma frame_nth:
  assumes "frame ws g g'" and "w \<notin> ws" and "g_caps g' = Some caps'"
  obtains caps where "g_caps g = Some caps" "length caps = length caps'" "caps' ! w = caps ! w"
  using assms by (cases "g_caps g") (auto simp: frame_def)

lemma glob_sound:
  "glob_match fc v p g = (True, g') \<Longrightarrow> p = ordinals n s \<Longrightarrow> solved fc s n v g'"
  "glob_run fc v p g = (True, g') \<Longrightarrow> g_steps g \<le> kMaxSteps \<Longrightarrow> p = ordinals n s \<Longrightarrow> solved fc s n v g'"
  "glob_star fc v0 v which ps g = (True, g') \<Longrightarrow> ps = ordinals n s \<Longrightarrow> which = n \<Longrightarrow> v0 = u0 @ v \<Longrightarrow>
     \<exists>u parts. v0 = u @ concat parts \<and> list_all2 (fits fc) (pattern_items s) parts
       \<and> captured n (taken (pattern_items s) parts) g'
       \<and> (\<forall>caps. g_caps g' = Some caps \<and> n < length caps \<longrightarrow> caps ! n = u)"
proof (induction fc v p g and fc v p g and fc v0 v which ps g arbitrary: g' n s and g' n s and g' n s u0
    rule: glob_match_glob_run_glob_star.induct)
  case (1 fc v p g)
  let ?g = "g\<lparr>g_steps := g_steps g + 1\<rparr>"
  from 1(2) have k: "\<not> g_steps ?g > kMaxSteps" and r: "glob_run fc v p ?g = (True, g')"
    by (auto simp: glob_match.simps [of fc v p g] Let_def split: if_splits)
  from "1.IH" [OF refl k r _ 1(3)] k show ?case by simp
next
  case (2 fc v p g)
  show ?case
  proof (cases s)
    case Nil
    with 2(5-) show ?thesis
      by (auto simp: glob_run_Nil solved_def splits_def captured_def taken_def intro!: exI [of _ "[]"])
  next
    case (Cons c cs)
    consider (esc) "c = BACKSLASH \<and> cs \<noteq> []" | (star) "\<not> (c = BACKSLASH \<and> cs \<noteq> [])" "c = CHR ''*''"
      | (one) "\<not> (c = BACKSLASH \<and> cs \<noteq> [])" "c \<noteq> CHR ''*''" "c = CHR ''?''"
      | (lit) "\<not> (c = BACKSLASH \<and> cs \<noteq> [])" "c \<noteq> CHR ''*''" "c \<noteq> CHR ''?''" by blast
    then show ?thesis
    proof cases
      case esc
      then have p: "p = (c, 0) # (hd cs, 0) # ordinals n (tl cs)" by (simp add: 2(7) Cons ordinals_Cons)
      with 2(5) esc obtain a v' where v: "v = a # v'" "Same fc a (hd cs)"
        and r: "glob_run fc v' (ordinals n (tl cs)) g = (True, g')"
        by (cases v) (auto simp: glob_run_Cons split: if_splits)
      have "solved fc (tl cs) n v' g'"
        using "2.IH"(1) [OF p refl] esc v r 2(6) by simp
      then obtain parts where "splits fc (pattern_items (tl cs)) parts v'"
        and "captured n (taken (pattern_items (tl cs)) parts) g'" by (auto simp: solved_def)
      with esc v show ?thesis
        by (auto simp: solved_def Cons pattern_items_Cons splits_def intro!: exI [of _ "[a] # parts"])
    next
      case star
      then have p: "p = (c, n + 1) # ordinals (n + 1) cs" by (simp add: 2(7) Cons ordinals_Cons wild_def)
      with 2(5) star have r: "glob_star fc v v (n + 1) (ordinals (n + 1) cs) g = (True, g')"
        by (auto simp: glob_run_Cons)
      from "2.IH"(2) [OF p refl _ _ r refl refl, of "[]"] star obtain u parts where
        "v = u @ concat parts" "list_all2 (fits fc) (pattern_items cs) parts"
        "captured (n + 1) (taken (pattern_items cs) parts) g'"
        "\<forall>caps. g_caps g' = Some caps \<and> n + 1 < length caps \<longrightarrow> caps ! (n + 1) = u" by auto
      with star show ?thesis
        by (auto simp: solved_def Cons pattern_items_Cons splits_def item_of_def captured_Cons
          intro!: exI [of _ "u # parts"])
    next
      case one
      then have p: "p = (c, n + 1) # ordinals (n + 1) cs" by (simp add: 2(7) Cons ordinals_Cons wild_def)
      with 2(5) one obtain a v' where v: "v = a # v'"
        and r: "glob_run fc v' (ordinals (n + 1) cs) (Record (n + 1) [a] g) = (True, g')"
        by (cases v) (auto simp: glob_run_Cons split: if_splits)
      have "solved fc cs (n + 1) v' g'"
        using "2.IH"(3) [OF p refl] one v r 2(6) by simp
      then obtain parts where pa: "splits fc (pattern_items cs) parts v'"
        "captured (n + 1) (taken (pattern_items cs) parts) g'" by (auto simp: solved_def)
      have "frame (ords (ordinals (n + 1) cs)) (Record (n + 1) [a] g) g'"
        using glob_frame(2) [of "Record (n + 1) [a] g" "ordinals (n + 1) cs" fc v'] r 2(6) by simp
      then have "g_caps g' = Some caps \<Longrightarrow> n + 1 < length caps \<Longrightarrow> caps ! (n + 1) = [a]" for caps
        using ords_ordinals [of "n + 1" "n + 1" cs]
        by (elim frame_nth [where w = "n + 1"]) (auto simp: Record_def split: option.splits if_splits)
      with one pa v show ?thesis
        by (auto simp: solved_def Cons pattern_items_Cons splits_def item_of_def captured_Cons
          intro!: exI [of _ "[a] # parts"])
    next
      case lit
      then have p: "p = (c, 0) # ordinals n cs" by (simp add: 2(7) Cons ordinals_Cons wild_def)
      with 2(5) lit obtain a v' where v: "v = a # v'" "Same fc a c"
        and r: "glob_run fc v' (ordinals n cs) g = (True, g')"
        by (cases v) (auto simp: glob_run_Cons split: if_splits)
      have "solved fc cs n v' g'"
        using "2.IH"(4) [OF p refl] lit v r 2(6) by simp
      then obtain parts where "splits fc (pattern_items cs) parts v'"
        and "captured n (taken (pattern_items cs) parts) g'" by (auto simp: solved_def)
      with lit v show ?thesis
        by (auto simp: solved_def Cons pattern_items_Cons splits_def item_of_def intro!: exI [of _ "[a] # parts"])
    qed
  qed
next
  case (3 fc v0 v which ps g)
  obtain matched g1 where m: "glob_match fc v ps g = (matched, g1)" by fastforce
  show ?case
  proof (cases matched)
    case True
    with 3(3) m have g': "g' = Record n (take (length v0 - length v) v0) g1"
      by (simp add: glob_star.simps [of fc v0 v] 3(5))
    from "3.IH"(1) [of g1 n s] m True 3(4) obtain parts where
      pa: "splits fc (pattern_items s) parts v" "captured n (taken (pattern_items s) parts) g1"
      by (auto simp: solved_def)
    with captured_Record [OF pa(2), of n] show ?thesis
      by (intro exI [of _ u0] exI [of _ parts])
        (auto simp: g' 3(6) splits_def Record_def split: option.splits if_splits)
  next
    case False
    with 3(3) m obtain a v' where v: "v = a # v'" and k: "\<not> g_steps g1 > kMaxSteps"
      and r: "glob_star fc v0 v' which ps g1 = (True, g')"
      by (auto simp: glob_star.simps [of fc v0 v] split: if_splits list.splits)
    from "3.IH"(2) [OF m [symmetric] False k v r 3(4) 3(5), of "u0 @ [a]"] 3(6) v show ?thesis by simp
  qed
qed

lemma glob_complete:
  "glob_match fc v p g = (False, g') \<Longrightarrow> g_steps g' \<le> kMaxSteps \<Longrightarrow> p = ordinals n s \<Longrightarrow>
     \<not> splits fc (pattern_items s) parts v"
  "glob_run fc v p g = (False, g') \<Longrightarrow> g_steps g' \<le> kMaxSteps \<Longrightarrow> p = ordinals n s \<Longrightarrow>
     \<not> splits fc (pattern_items s) parts v"
  "glob_star fc v0 v which ps g = (False, g') \<Longrightarrow> g_steps g' \<le> kMaxSteps \<Longrightarrow> ps = ordinals n s \<Longrightarrow>
     v = u @ concat parts \<Longrightarrow> \<not> list_all2 (fits fc) (pattern_items s) parts"
proof (induction fc v p g and fc v p g and fc v0 v which ps g arbitrary: g' n s parts and g' n s parts and g' n s parts u
    rule: glob_match_glob_run_glob_star.induct)
  case (1 fc v p g)
  let ?g = "g\<lparr>g_steps := g_steps g + 1\<rparr>"
  from 1(2,3) have k: "\<not> g_steps ?g > kMaxSteps" and r: "glob_run fc v p ?g = (False, g')"
    by (auto simp: glob_match.simps [of fc v p g] Let_def split: if_splits)
  from "1.IH" [OF refl k r 1(3) 1(4)] show ?case .
next
  case (2 fc v p g)
  show ?case
  proof (cases s)
    case Nil
    with 2(5-) show ?thesis by (auto simp: glob_run_Nil splits_def)
  next
    case (Cons c cs)
    consider (esc) "c = BACKSLASH \<and> cs \<noteq> []" | (star) "\<not> (c = BACKSLASH \<and> cs \<noteq> [])" "c = CHR ''*''"
      | (one) "\<not> (c = BACKSLASH \<and> cs \<noteq> [])" "c \<noteq> CHR ''*''" "c = CHR ''?''"
      | (lit) "\<not> (c = BACKSLASH \<and> cs \<noteq> [])" "c \<noteq> CHR ''*''" "c \<noteq> CHR ''?''" by blast
    then show ?thesis
    proof cases
      case esc
      then have p: "p = (c, 0) # (hd cs, 0) # ordinals n (tl cs)" by (simp add: 2(7) Cons ordinals_Cons)
      show ?thesis
      proof (cases "v = [] \<or> \<not> Same fc (hd v) (hd cs)")
        case True
        with esc show ?thesis by (auto simp: Cons pattern_items_Cons splits_Cons)
      next
        case False
        with 2(5) p esc have r: "glob_run fc (tl v) (ordinals n (tl cs)) g = (False, g')"
          by (simp add: glob_run_Cons)
        from "2.IH"(1) [OF p refl, of g' n "tl cs"] esc False r 2(6)
        have "\<not> splits fc (pattern_items (tl cs)) ps (tl v)" for ps by simp
        note none = this [unfolded splits_def]
        from none esc False show ?thesis by (cases v) (auto simp: Cons pattern_items_Cons splits_Cons)
      qed
    next
      case star
      then have p: "p = (c, n + 1) # ordinals (n + 1) cs" by (simp add: 2(7) Cons ordinals_Cons wild_def)
      with 2(5) star have r: "glob_star fc v v (n + 1) (ordinals (n + 1) cs) g = (False, g')"
        by (auto simp: glob_run_Cons)
      from "2.IH"(2) [OF p refl _ _ r 2(6) refl] star show ?thesis
        by (auto simp: Cons pattern_items_Cons splits_Cons)
    next
      case one
      then have p: "p = (c, n + 1) # ordinals (n + 1) cs" by (simp add: 2(7) Cons ordinals_Cons wild_def)
      show ?thesis
      proof (cases "v = []")
        case True
        with one show ?thesis by (auto simp: Cons pattern_items_Cons splits_Cons item_of_def)
      next
        case False
        with 2(5) p one have r: "glob_run fc (tl v) (ordinals (n + 1) cs) (Record (n + 1) [hd v] g) = (False, g')"
          by (simp add: glob_run_Cons)
        from "2.IH"(3) [OF p refl, of g' "n + 1" cs] one False r 2(6)
        have "\<not> splits fc (pattern_items cs) ps (tl v)" for ps by simp
        note none = this [unfolded splits_def]
        from none one False show ?thesis
          by (cases v) (auto simp: Cons pattern_items_Cons splits_Cons item_of_def length_Suc_conv)
      qed
    next
      case lit
      then have p: "p = (c, 0) # ordinals n cs" by (simp add: 2(7) Cons ordinals_Cons wild_def)
      show ?thesis
      proof (cases "v = [] \<or> \<not> Same fc (hd v) c")
        case True
        with lit show ?thesis by (auto simp: Cons pattern_items_Cons splits_Cons item_of_def)
      next
        case False
        with 2(5) p lit have r: "glob_run fc (tl v) (ordinals n cs) g = (False, g')"
          by (simp add: glob_run_Cons)
        from "2.IH"(4) [OF p refl, of g' n cs] lit False r 2(6)
        have "\<not> splits fc (pattern_items cs) ps (tl v)" for ps by simp
        note none = this [unfolded splits_def]
        from none lit False show ?thesis
          by (cases v) (auto simp: Cons pattern_items_Cons splits_Cons item_of_def)
      qed
    qed
  qed
next
  case (3 fc v0 v which ps g)
  obtain matched g1 where m: "glob_match fc v ps g = (matched, g1)" by fastforce
  from 3(3) have "\<not> matched" by (auto simp: glob_star.simps [of fc v0 v] m split: if_splits)
  note m = m [simplified \<open>\<not> matched\<close>, simplified]
  show ?case
  proof (cases "g_steps g1 > kMaxSteps")
    case True
    with 3(3,4) show ?thesis by (simp add: glob_star.simps [of fc v0 v] m)
  next
    case False
    then have here: "\<not> splits fc (pattern_items s) ps v" for ps
      using "3.IH"(1) [OF m _ 3(5)] by simp
    show ?thesis
    proof (cases u)
      case Nil
      with here 3(6) show ?thesis by (auto simp: splits_def)
    next
      case (Cons a u')
      with 3(6) have v: "v = a # u' @ concat parts" by simp
      with 3(3) False have r: "glob_star fc v0 (u' @ concat parts) which ps g1 = (False, g')"
        by (simp add: glob_star.simps [of fc v0 "a # u' @ concat parts"] m [unfolded v])
      from "3.IH"(2) [OF m [symmetric] _ False v r 3(4,5) refl] show ?thesis by simp
    qed
  qed
qed

subsection \<open>The matcher against the meaning\<close>

lemma wildcards_ordinals:
  "length (filter (\<lambda>p. snd p \<noteq> 0) (ordinals n s)) = length (filter (\<lambda>i. i = One \<or> i = Many) (pattern_items s))"
  by (induction n s rule: ordinals.induct) (auto simp: item_of_def wild_def)

lemma length_taken: "list_all2 P is ss \<Longrightarrow> length (taken is ss) = length (filter (\<lambda>i. i = One \<or> i = Many) is)"
  by (induction rule: list_all2_induct) (auto simp: taken_def)

text \<open>The number of calls of \<open>Match\<close>.\<close>

definition glob_steps :: "string \<Rightarrow> string \<Rightarrow> bool \<Rightarrow> bool \<Rightarrow> int" where
  "glob_steps v pattern fc caps = g_steps (snd (glob_match fc v (ordinals 0 pattern) (Globber pattern caps)))"

lemma Globber_frame:
  "frame (ords (ordinals 0 pattern)) (Globber pattern caps)
     (snd (glob_match fc v (ordinals 0 pattern) (Globber pattern caps)))"
  by (rule glob_frame)

lemma glob_steps_bound: "glob_steps v pattern fc caps \<le> kMaxSteps + 1"
  using Globber_frame [of pattern caps fc v] by (simp add: glob_steps_def frame_def Globber_def kMaxSteps_def)

lemma GlobMatch_captures:
  assumes "fst (GlobMatch v pattern fc caps)"
  obtains parts where "splits fc (pattern_items pattern) parts v"
    and "caps \<Longrightarrow> snd (GlobMatch v pattern fc caps) = v # taken (pattern_items pattern) parts"
proof -
  obtain g where g: "glob_match fc v (ordinals 0 pattern) (Globber pattern caps) = (True, g)"
    using assms by (cases "glob_match fc v (ordinals 0 pattern) (Globber pattern caps)") (auto simp: GlobMatch_def)
  from glob_sound(1) [OF g refl] obtain parts where
    p: "splits fc (pattern_items pattern) parts v" and c: "captured 0 (taken (pattern_items pattern) parts) g"
    by (auto simp: solved_def)
  show thesis
  proof (rule that [OF p])
    assume caps
    with Globber_frame [of pattern caps fc v] g obtain cs where
      cs: "g_caps g = Some cs" "length cs = wildcards pattern + 1"
      by (cases "g_caps g") (auto simp: frame_def Globber_def)
    have len: "length (taken (pattern_items pattern) parts) = wildcards pattern"
      using p by (auto simp: splits_def wildcards_def wildcards_ordinals [simplified] dest!: length_taken)
    have "cs[0 := v] = v # taken (pattern_items pattern) parts"
    proof (rule nth_equalityI)
      fix i assume "i < length (cs[0 := v])"
      with c cs len show "cs[0 := v] ! i = (v # taken (pattern_items pattern) parts) ! i"
        by (cases i) (auto simp: captured_def)
    qed (simp add: cs len)
    with g cs show "snd (GlobMatch v pattern fc caps) = v # taken (pattern_items pattern) parts"
      by (simp add: GlobMatch_def)
  qed
qed

text \<open>C5. A pattern is decided within the step budget or given up one step over it; within the budget the answer
  is whether the value splits into one part per item of the pattern (a letter of it, any one character, any text), and
  the captures of a match are the whole value followed by the parts that the wildcards took.\<close>

theorem GlobMatch_correct:
  "glob_steps v pattern fc caps \<le> kMaxSteps + 1 \<and>
   (glob_steps v pattern fc caps \<le> kMaxSteps \<longrightarrow>
     fst (GlobMatch v pattern fc caps) = (\<exists>parts. splits fc (pattern_items pattern) parts v)) \<and>
   (fst (GlobMatch v pattern fc caps) \<longrightarrow>
     (\<exists>parts. splits fc (pattern_items pattern) parts v \<and>
        (caps \<longrightarrow> snd (GlobMatch v pattern fc caps) = v # taken (pattern_items pattern) parts)))"
proof (intro conjI impI)
  show "glob_steps v pattern fc caps \<le> kMaxSteps + 1" by (rule glob_steps_bound)
next
  assume steps: "glob_steps v pattern fc caps \<le> kMaxSteps"
  show "fst (GlobMatch v pattern fc caps) = (\<exists>parts. splits fc (pattern_items pattern) parts v)"
  proof (cases "glob_match fc v (ordinals 0 pattern) (Globber pattern caps)")
    case (Pair matched g)
    show ?thesis
    proof (cases matched)
      case True
      with Pair show ?thesis by (auto simp: GlobMatch_def solved_def dest!: glob_sound(1))
    next
      case False
      with Pair steps have "\<not> splits fc (pattern_items pattern) parts v" for parts
        by (intro glob_complete(1)) (auto simp: glob_steps_def)
      with Pair False show ?thesis by (simp add: GlobMatch_def)
    qed
  qed
next
  assume "fst (GlobMatch v pattern fc caps)"
  then show "\<exists>parts. splits fc (pattern_items pattern) parts v \<and>
        (caps \<longrightarrow> snd (GlobMatch v pattern fc caps) = v # taken (pattern_items pattern) parts)"
    by (rule GlobMatch_captures) blast
qed

theorem GlobMatch_correct_witness:
  "glob_steps ''a.b.c'' ''*.*'' True True \<le> kMaxSteps \<and> fst (GlobMatch ''a.b.c'' ''*.*'' True True)
   \<and> (\<exists>parts. splits True (pattern_items ''*.*'') parts ''a.b.c''
        \<and> [''a.b.c'', ''a'', ''b.c''] = ''a.b.c'' # taken (pattern_items ''*.*'') parts)"
proof -
  have "glob_steps ''a.b.c'' ''*.*'' True True \<le> kMaxSteps" by code_simp
  moreover have "GlobMatch ''a.b.c'' ''*.*'' True True = (True, [''a.b.c'', ''a'', ''b.c''])" by code_simp
  ultimately show ?thesis using GlobMatch_correct [of "''a.b.c''" "''*.*''" True True] by simp
qed

end
