(* ===== verification/QM_Rfc5322.thy ===== *)
theory QM_Rfc5322
  imports QM_CitMsg QM_MimeCodec
begin

text \<open>
  Messages and address lists: \<^verbatim>\<open>src/core/src/mime.cpp\<close> and the address half of \<^verbatim>\<open>src/core/src/rfc5322.cpp\<close>.
  The two files define the same splitting of a header block as \<^verbatim>\<open>mime_entity.cpp\<close>, whose model is reused.
\<close>

record parsed_message =
  pm_from :: string
  pm_subject :: string
  pm_message_id :: string
  pm_headers :: "(string \<times> string) list"

definition first_set :: "string \<Rightarrow> string \<Rightarrow> string" where
  "first_set old v = (if old = [] then v else old)"

definition note_header :: "string \<times> string \<Rightarrow> parsed_message \<Rightarrow> parsed_message" where
  "note_header h m =
     (let m = m\<lparr>pm_headers := pm_headers m @ [h]\<rparr>; lname = Lower (fst h) in
      if lname = ''subject'' \<and> pm_subject m = [] then m\<lparr>pm_subject := snd h\<rparr>
      else if lname = ''from'' \<and> pm_from m = [] then m\<lparr>pm_from := snd h\<rparr>
      else if lname = ''message-id'' \<and> pm_message_id m = [] then m\<lparr>pm_message_id := snd h\<rparr>
      else m)"

definition parse_message :: "string \<Rightarrow> parsed_message" where
  "parse_message raw =
     fold note_header (ParseHeaderBlock (fst (SplitHeadersBody raw)))
       \<lparr>pm_from = [], pm_subject = [], pm_message_id = [], pm_headers = []\<rparr>"

definition ExtractAddress :: "string \<Rightarrow> string" where
  "ExtractAddress v =
     (case find_idx CHR ''<'' v of None \<Rightarrow> TrimWs v
      | Some lt \<Rightarrow> (case find_from CHR ''>'' v lt of None \<Rightarrow> TrimWs v
          | Some gt \<Rightarrow> TrimWs (substr v (lt + 1) (gt - lt - 1))))"

section \<open>Address lists\<close>

record address =
  ad_name :: string
  ad_addr :: string

text \<open>The loop of \<open>SplitAddresses\<close>: the chunk read so far, the depth of angles and comments, and whether a quoted
  string is open.\<close>

fun split_addresses :: "string \<Rightarrow> nat \<Rightarrow> nat \<Rightarrow> bool \<Rightarrow> string \<Rightarrow> string list" where
  "split_addresses cur angle comment in_quote [] = [cur]"
| "split_addresses cur angle comment in_quote (c # cs) =
     (if in_quote then
        (if c = BACKSLASH \<and> cs \<noteq> [] then split_addresses (cur @ [c, hd cs]) angle comment True (tl cs)
         else split_addresses (cur @ [c]) angle comment (c \<noteq> DQUOTE) cs)
      else if comment > 0 then
        (if c = BACKSLASH \<and> cs \<noteq> [] then split_addresses cur angle comment False (tl cs)
         else split_addresses cur angle
           (if c = CHR ''('' then comment + 1 else if c = CHR '')'' then comment - 1 else comment) False cs)
      else if c = DQUOTE then split_addresses (cur @ [c]) angle 0 True cs
      else if c = CHR ''('' then split_addresses cur angle 1 False cs
      else if c = CHR ''<'' then split_addresses (cur @ [c]) (angle + 1) 0 False cs
      else if c = CHR ''>'' then split_addresses (cur @ [c]) (angle - 1) 0 False cs
      else if (c = CHR '','' \<or> c = CHR '';'') \<and> angle = 0 then cur # split_addresses [] 0 0 False cs
      else split_addresses (cur @ [c]) angle 0 False cs)"

definition SplitAddresses :: "string \<Rightarrow> string list" where
  "SplitAddresses v = split_addresses [] 0 0 False v"

text \<open>The text after the label, \<^const>\<open>None\<close> when the chunk has none.\<close>

fun group_rest :: "bool \<Rightarrow> string \<Rightarrow> string option" where
  "group_rest in_quote [] = None"
| "group_rest in_quote (c # cs) =
     (if in_quote then
        (if c = BACKSLASH \<and> cs \<noteq> [] then group_rest True (tl cs) else group_rest (c \<noteq> DQUOTE) cs)
      else if c = DQUOTE then group_rest True cs
      else if c = CHR 0x40 \<or> c = CHR ''<'' then None
      else if c = CHR '':'' then Some cs
      else group_rest False cs)"

definition StripGroupLabel :: "string \<Rightarrow> string" where
  "StripGroupLabel chunk = (case group_rest False chunk of None \<Rightarrow> chunk | Some r \<Rightarrow> r)"

definition address_of :: "string \<Rightarrow> address list" where
  "address_of raw_chunk =
     (let chunk = TrimWs (StripGroupLabel raw_chunk);
          a = (case (find_idx CHR ''<'' chunk, find_last CHR ''>'' chunk) of
              (Some lt, Some gt) \<Rightarrow>
                if gt > lt then
                  \<lparr>ad_name = DecodeEncodedWords (Unquote (TrimWs (take lt chunk))),
                   ad_addr = TrimWs (substr chunk (lt + 1) (gt - lt - 1))\<rparr>
                else \<lparr>ad_name = [], ad_addr = TrimWs chunk\<rparr>
            | _ \<Rightarrow> \<lparr>ad_name = [], ad_addr = TrimWs chunk\<rparr>)
      in if chunk = [] \<or> ad_addr a = [] \<and> ad_name a = [] then [] else [a])"

definition ParseAddressList :: "string \<Rightarrow> address list" where
  "ParseAddressList v = concat (map address_of (SplitAddresses v))"

end
