(* ===== verification/QM_SieveEval.thy ===== *)
theory QM_SieveEval
  imports QM_SieveParse QM_SieveMatch QM_Rfc5322
begin

text \<open>
  The evaluator of \<^verbatim>\<open>src/core/src/sieve.cpp\<close>: the tests, the flags, the rules for automatic replies and the
  commands. A test writes the captures of the variables, so it is a function of them to them.
\<close>

section \<open>Actions\<close>

record vacation_spec =
  vs_subject :: string
  vs_from :: string
  vs_handle :: string
  vs_addresses :: "string list"
  vs_days :: int
  vs_mime :: bool

datatype action_type = ACT_KEEP | ACT_FILEINTO | ACT_REDIRECT | ACT_REJECT | ACT_DISCARD | ACT_VACATION

record action =
  ac_type :: action_type
  ac_folder :: string
  ac_address :: string
  ac_reason :: string
  ac_create :: bool
  ac_flags :: "string list"
  ac_vacation :: vacation_spec

definition new_action :: "action_type \<Rightarrow> action" where
  "new_action t = \<lparr>ac_type = t, ac_folder = [], ac_address = [], ac_reason = [], ac_create = False, ac_flags = [],
     ac_vacation = \<lparr>vs_subject = [], vs_from = [], vs_handle = [], vs_addresses = [], vs_days = 7, vs_mime = False\<rparr>\<rparr>"

record envelope =
  ev_from :: string
  ev_to :: string
  ev_separator :: string

record sieve_result =
  sr_actions :: "action list"
  sr_error :: string

definition IsDiscard :: "sieve_result \<Rightarrow> bool" where
  "IsDiscard r = (length (sr_actions r) = 1 \<and> ac_type (hd (sr_actions r)) = ACT_DISCARD)"

definition RejectReason :: "sieve_result \<Rightarrow> string" where
  "RejectReason r =
     (case find (\<lambda>a. ac_type a = ACT_REJECT) (sr_actions r) of None \<Rightarrow> []
      | Some a \<Rightarrow> if ac_reason a = [] then ''message refused by the recipient'' @ [CHR 0x27] @ ''s filter'' else ac_reason a)"

text \<open>What is evaluated: \<^verbatim>\<open>Context\<close> without the variables and flags, which change.\<close>

record sieve_input =
  si_msg :: parsed_message
  si_raw :: string
  si_env :: envelope

section \<open>Tests\<close>

definition HeaderValues :: "parsed_message \<Rightarrow> string \<Rightarrow> string list" where
  "HeaderValues msg name =
     map (\<lambda>h. Trim (snd h)) (filter (\<lambda>h. Lower (Trim (fst h)) = Lower (Trim name)) (pm_headers msg))"

definition AddressPart :: "string \<Rightarrow> string \<Rightarrow> string \<Rightarrow> string option" where
  "AddressPart addr part sep =
     (let at = find_last CHR 0x40 addr;
          local = (case at of None \<Rightarrow> addr | Some i \<Rightarrow> take i addr);
          cut = (if sep = [] then None else cut_sub sep local)
      in if part = ''localpart'' then Some local
         else if part = ''domain'' then Some (case at of None \<Rightarrow> [] | Some i \<Rightarrow> drop (i + 1) addr)
         else if part = ''user'' then Some (case cut of None \<Rightarrow> local | Some (u, d) \<Rightarrow> u)
         else if part = ''detail'' then map_option snd cut
         else Some addr)"

fun first_match :: "string list \<Rightarrow> string list \<Rightarrow> string \<Rightarrow> string \<Rightarrow> bool \<Rightarrow> string list option" where
  "first_match [] keys mt cmp caps = None"
| "first_match (v # vs) keys mt cmp caps =
     (case find (\<lambda>k. fst (MatchOne v k mt cmp caps)) keys of
        Some k \<Rightarrow> Some (snd (MatchOne v k mt cmp caps))
      | None \<Rightarrow> first_match vs keys mt cmp caps)"

definition MatchAny :: "string list \<Rightarrow> string list \<Rightarrow> string \<Rightarrow> string \<Rightarrow> variables \<Rightarrow> bool \<times> variables" where
  "MatchAny vs keys mt cmp vars =
     (let want_caps = (v_enabled vars \<and> mt = ''matches'') in
      case first_match vs (map (Expand vars) keys) mt cmp want_caps of
        None \<Rightarrow> (False, vars)
      | Some caps \<Rightarrow> (True, if want_caps then vars\<lparr>v_captures := caps\<rparr> else vars))"

definition header_test_values :: "sieve_input \<Rightarrow> test_args \<Rightarrow> variables \<Rightarrow> string list" where
  "header_test_values i a vars = concat (map (\<lambda>n. HeaderValues (si_msg i) (Expand vars n)) (t_names a))"

definition address_values :: "string \<Rightarrow> string \<Rightarrow> string list" where
  "address_values part v =
     concat (map (\<lambda>a. if ad_addr a = [] then [] else case AddressPart (ad_addr a) part ''+'' of None \<Rightarrow> [] | Some p \<Rightarrow> [p])
       (ParseAddressList v))"

definition envelope_values :: "envelope \<Rightarrow> string \<Rightarrow> string \<Rightarrow> string list" where
  "envelope_values env part n =
     (let p = Lower (Trim n);
          value_of = (\<lambda>addr. case AddressPart addr part (ev_separator env) of None \<Rightarrow> [] | Some v \<Rightarrow> [v])
      in if p = ''from'' then value_of (ev_from env) else if p = ''to'' then value_of (ev_to env) else [])"

definition leaf_test :: "sieve_input \<Rightarrow> string list \<Rightarrow> test_args \<Rightarrow> variables \<Rightarrow> bool \<times> variables" where
  "leaf_test i flags a vars =
     (let any = (\<lambda>vs. MatchAny vs (t_keys a) (t_match a) (t_comparator a) vars) in
      case t_kind a of
        EXISTS \<Rightarrow> (list_all (\<lambda>n. HeaderValues (si_msg i) (Expand vars n) \<noteq> []) (t_names a), vars)
      | SIZE \<Rightarrow>
          (let size = int (length (si_raw i)) in
           (if t_relation a = ''over'' then size > t_limit a else size < t_limit a, vars))
      | HEADER \<Rightarrow> any (header_test_values i a vars)
      | ADDRESS \<Rightarrow> any (concat (map (address_values (t_part a)) (header_test_values i a vars)))
      | ENVELOPE \<Rightarrow> any (concat (map (envelope_values (si_env i) (t_part a)) (t_names a)))
      | BODY \<Rightarrow>
          MatchAny [snd (SplitHeadersBody (si_raw i))] (t_keys a)
            (if t_match a = ''is'' then ''contains'' else t_match a) (t_comparator a) vars
      | STRING_TEST \<Rightarrow> any (map (Expand vars) (t_names a))
      | HASFLAG \<Rightarrow> any flags
      | ALWAYS \<Rightarrow> (True, vars)
      | _ \<Rightarrow> (False, vars))"

fun EvalTest :: "sieve_input \<Rightarrow> string list \<Rightarrow> test \<Rightarrow> variables \<Rightarrow> bool \<times> variables"
  and eval_any :: "sieve_input \<Rightarrow> string list \<Rightarrow> test list \<Rightarrow> variables \<Rightarrow> bool \<times> variables"
  and eval_all :: "sieve_input \<Rightarrow> string list \<Rightarrow> test list \<Rightarrow> variables \<Rightarrow> bool \<times> variables" where
  "EvalTest i flags (Test a cs) vars =
     (case t_kind a of
        NOT_TEST \<Rightarrow> (case cs of [] \<Rightarrow> (False, vars) | c # _ \<Rightarrow> apfst Not (EvalTest i flags c vars))
      | ANYOF \<Rightarrow> eval_any i flags cs vars
      | ALLOF \<Rightarrow> eval_all i flags cs vars
      | _ \<Rightarrow> leaf_test i flags a vars)"
| "eval_any i flags [] vars = (False, vars)"
| "eval_any i flags (c # cs) vars =
     (case EvalTest i flags c vars of (b, vars) \<Rightarrow> if b then (True, vars) else eval_any i flags cs vars)"
| "eval_all i flags [] vars = (True, vars)"
| "eval_all i flags (c # cs) vars =
     (case EvalTest i flags c vars of (b, vars) \<Rightarrow> if b then eval_all i flags cs vars else (False, vars))"

section \<open>Flags\<close>

function flag_words :: "string \<Rightarrow> string list" where
  "flag_words s =
     (let s = dropWhile isspace s in
      if s = [] then [] else takeWhile (\<lambda>c. \<not> isspace c) s # flag_words (dropWhile (\<lambda>c. \<not> isspace c) s))"
  by pat_completeness auto
termination
proof (relation "measure length", goal_cases)
  case (2 s t)
  then have "t \<noteq> []" "\<not> isspace (hd t)" using hd_dropWhile [of isspace s] by simp_all
  then have "length (dropWhile (\<lambda>c. \<not> isspace c) t) < length t"
    by (cases t) (auto simp: less_Suc_eq_le length_dropWhile_le)
  with 2(1) show ?case using length_dropWhile_le [of isspace s] by simp
qed simp

declare flag_words.simps [simp del]

definition SplitFlags :: "string list \<Rightarrow> variables \<Rightarrow> string list" where
  "SplitFlags flags vars = concat (map (\<lambda>raw. flag_words (Expand vars raw)) flags)"

definition kSystem :: "string list" where
  "kSystem = map (Cons BACKSLASH) [''Seen'', ''Answered'', ''Flagged'', ''Deleted'', ''Draft'']"

definition CanonicalFlag :: "string \<Rightarrow> string" where
  "CanonicalFlag flag = (case find (\<lambda>s. Lower flag = Lower s) kSystem of None \<Rightarrow> flag | Some s \<Rightarrow> s)"

definition add_flag :: "string \<Rightarrow> string list \<Rightarrow> string list" where
  "add_flag raw fs = (let f = CanonicalFlag raw in if f \<in> set fs then fs else fs @ [f])"

definition AddFlags :: "string list \<Rightarrow> string list \<Rightarrow> string list" where
  "AddFlags fs add = fold add_flag add fs"

definition RemoveFlags :: "string list \<Rightarrow> string list \<Rightarrow> string list" where
  "RemoveFlags fs gone = fold (\<lambda>raw. removeAll (CanonicalFlag raw)) gone fs"

section \<open>Automatic replies\<close>

definition CollectAddrs :: "parsed_message \<Rightarrow> string \<Rightarrow> string list" where
  "CollectAddrs msg header =
     concat (map (\<lambda>v. map (Lower \<circ> ad_addr) (filter (\<lambda>a. ad_addr a \<noteq> []) (ParseAddressList v))) (HeaderValues msg header))"

definition kListHeaders :: "string list" where
  "kListHeaders = [''List-Id'', ''List-Help'', ''List-Unsubscribe'', ''List-Post'', ''List-Subscribe'', ''List-Owner'',
     ''List-Archive'']"

definition kRobots :: "string list" where
  "kRobots = [''mailer-daemon'', ''postmaster'', ''listserv'', ''majordomo'']"

definition ends_with :: "string \<Rightarrow> string \<Rightarrow> bool" where
  "ends_with suf local = (length local > length suf \<and> drop (length local - length suf) local = suf)"

definition starts_with :: "string \<Rightarrow> string \<Rightarrow> bool" where
  "starts_with pre local = (length local > length pre \<and> take (length pre) local = pre)"

definition robot_local :: "string \<Rightarrow> bool" where
  "robot_local local =
     (local \<in> set kRobots \<or> ends_with ''-request'' local \<or> ends_with ''-bounces'' local \<or> ends_with ''-confirm'' local
      \<or> starts_with ''owner-'' local \<or> starts_with ''bounce-'' local)"

definition own_addresses :: "sieve_input \<Rightarrow> string list \<Rightarrow> string list" where
  "own_addresses i addresses = map (\<lambda>a. Lower (Trim a)) (ev_to (si_env i) # addresses)"

definition visible_recipients :: "sieve_input \<Rightarrow> string list" where
  "visible_recipients i =
     concat (map (CollectAddrs (si_msg i)) [''To'', ''Cc'', ''Bcc'', ''Resent-To'', ''Resent-Cc''])"

definition VacationRefusal :: "sieve_input \<Rightarrow> string list \<Rightarrow> string option" where
  "VacationRefusal i addresses =
     (let from = ev_from (si_env i); values = HeaderValues (si_msg i); mine = own_addresses i addresses;
          sender = Lower (Trim from); local = takeWhile (\<lambda>c. c \<noteq> CHR 0x40) sender
      in if Trim from = [] then Some ''the message has no envelope sender''
         else if list_ex (\<lambda>v. Lower (Trim (takeWhile (\<lambda>c. c \<noteq> CHR '';'') v)) \<noteq> ''no'') (values ''Auto-Submitted'')
           then Some ''the message is Auto-Submitted''
         else if list_ex (\<lambda>v. Lower (Trim v) \<in> {''bulk'', ''list'', ''junk''}) (values ''Precedence'')
           then Some ''the message is bulk or list mail''
         else if list_ex (\<lambda>h. values h \<noteq> []) kListHeaders then Some ''the message came from a mailing list''
         else if list_ex (\<lambda>m. m \<noteq> [] \<and> m = sender) mine then Some ''the message is from the user themselves''
         else if robot_local local then Some ''the sender is an automated address''
         else if list_ex (\<lambda>m. m \<noteq> [] \<and> m \<in> set (visible_recipients i)) mine then None
         else Some ''the user is not a visible recipient'')"

section \<open>Running a script\<close>

record runner =
  rn_vars :: variables
  rn_flags :: "string list"
  rn_actions :: "action list"
  rn_cancel :: bool
  rn_stopped :: bool

definition AddAction :: "action \<Rightarrow> runner \<Rightarrow> runner" where
  "AddAction a st = st\<lparr>rn_actions := rn_actions st @ [a]\<rparr>"

definition FlagsFor :: "command_args \<Rightarrow> runner \<Rightarrow> string list" where
  "FlagsFor c st = AddFlags [] (if c_has_flags c then SplitFlags (c_flags c) (rn_vars st) else rn_flags st)"

definition quote_wildcards :: "string \<Rightarrow> string" where
  "quote_wildcards s =
     concat (map (\<lambda>c. if c = CHR ''*'' \<or> c = CHR ''?'' \<or> c = BACKSLASH then [BACKSLASH, c] else [c]) s)"

definition ApplyModifiers :: "string \<Rightarrow> string list \<Rightarrow> string" where
  "ApplyModifiers value0 modifiers =
     (let has = (\<lambda>m. m \<in> set modifiers);
          v = (if has ''quotewildcard'' then quote_wildcards value0 else value0)
      in if has ''length'' then to_string (int (length v))
         else (let v = (if has ''lower'' then Lower v else if has ''upper'' then Upper v else v) in
           if v = [] then v
           else if has ''lowerfirst'' then tolower (hd v) # tl v
           else if has ''upperfirst'' then toupper (hd v) # tl v
           else v))"

definition vacation_days :: "int \<Rightarrow> int" where
  "vacation_days d = (let n = (if d > 0 then min d 365 else 7) in if n < 1 then 1 else n)"

definition vacation_action :: "command_args \<Rightarrow> variables \<Rightarrow> action" where
  "vacation_action c vars =
     (new_action ACT_VACATION)\<lparr>ac_reason := Expand vars (c_argument c),
       ac_vacation := \<lparr>vs_subject = Expand vars (c_subject c), vs_from = Expand vars (c_from c),
         vs_handle = Expand vars (c_handle c), vs_addresses = ExpandAll vars (c_addresses c),
         vs_days = vacation_days (c_days c), vs_mime = c_mime c\<rparr>\<rparr>"

definition run_vacation :: "sieve_input \<Rightarrow> command_args \<Rightarrow> runner \<Rightarrow> runner" where
  "run_vacation i c st =
     (if list_ex (\<lambda>a. ac_type a = ACT_VACATION) (rn_actions st) then st
      else let a = vacation_action c (rn_vars st) in
        if VacationRefusal i (vs_addresses (ac_vacation a)) \<noteq> None then st else AddAction a st)"

text \<open>A command other than \<^verbatim>\<open>if\<close>.\<close>

definition run_simple :: "sieve_input \<Rightarrow> command_args \<Rightarrow> runner \<Rightarrow> runner" where
  "run_simple i c st =
     (let vars = rn_vars st; arg = Expand vars (c_argument c) in
      case c_kind c of
        STOP \<Rightarrow> st\<lparr>rn_stopped := True\<rparr>
      | KEEP \<Rightarrow> (AddAction (new_action ACT_KEEP\<lparr>ac_flags := FlagsFor c st\<rparr>) st)\<lparr>rn_cancel := True\<rparr>
      | DISCARD \<Rightarrow> st\<lparr>rn_cancel := True\<rparr>
      | FILEINTO \<Rightarrow>
          (AddAction (new_action ACT_FILEINTO\<lparr>ac_folder := arg, ac_create := c_create c, ac_flags := FlagsFor c st\<rparr>) st)
            \<lparr>rn_cancel := rn_cancel st \<or> \<not> c_copy c\<rparr>
      | REDIRECT \<Rightarrow>
          (AddAction (new_action ACT_REDIRECT\<lparr>ac_address := arg\<rparr>) st)\<lparr>rn_cancel := rn_cancel st \<or> \<not> c_copy c\<rparr>
      | REJECT \<Rightarrow>
          (AddAction (new_action ACT_REJECT\<lparr>ac_reason := arg\<rparr>) st)\<lparr>rn_cancel := True, rn_stopped := True\<rparr>
      | SET \<Rightarrow> st\<lparr>rn_vars := set_variable (c_var c) (ApplyModifiers arg (c_modifiers c)) vars\<rparr>
      | SETFLAG \<Rightarrow> st\<lparr>rn_flags := AddFlags [] (SplitFlags (c_flags c) vars)\<rparr>
      | ADDFLAG \<Rightarrow> st\<lparr>rn_flags := AddFlags (rn_flags st) (SplitFlags (c_flags c) vars)\<rparr>
      | REMOVEFLAG \<Rightarrow> st\<lparr>rn_flags := RemoveFlags (rn_flags st) (SplitFlags (c_flags c) vars)\<rparr>
      | VACATION \<Rightarrow> run_vacation i c st
      | _ \<Rightarrow> st)"

fun run_block :: "sieve_input \<Rightarrow> command list \<Rightarrow> runner \<Rightarrow> runner"
  and run_command :: "sieve_input \<Rightarrow> command \<Rightarrow> runner \<Rightarrow> runner"
  and run_branches :: "sieve_input \<Rightarrow> (test option \<times> command list) list \<Rightarrow> runner \<Rightarrow> runner" where
  "run_block i [] st = st"
| "run_block i (c # cs) st = (if rn_stopped st then st else run_block i cs (run_command i c st))"
| "run_command i (Command c bs) st = (if c_kind c = IF then run_branches i bs st else run_simple i c st)"
| "run_branches i [] st = st"
| "run_branches i ((t, body) # bs) st =
     (case t of None \<Rightarrow> run_block i body st
      | Some t \<Rightarrow> (case EvalTest i (rn_flags st) t (rn_vars st) of (b, vars) \<Rightarrow>
          let st = st\<lparr>rn_vars := vars\<rparr> in if b then run_block i body st else run_branches i bs st))"

definition Requires :: "command list \<Rightarrow> string \<Rightarrow> bool" where
  "Requires program capability =
     list_ex (\<lambda>c. c_kind (c_args c) = REQUIRE
       \<and> list_ex (\<lambda>x. Lower (Trim x) = capability) (c_capabilities (c_args c))) program"

definition start_runner :: "command list \<Rightarrow> runner" where
  "start_runner program = \<lparr>rn_vars = no_variables\<lparr>v_enabled := Requires program ''variables''\<rparr>, rn_flags = [],
     rn_actions = [], rn_cancel = False, rn_stopped = False\<rparr>"

text \<open>The end of \<open>Evaluate\<close>: a rejection stands alone, the implicit keep, and the explicit discard.\<close>

definition settle :: "runner \<Rightarrow> action list" where
  "settle st =
     (case find (\<lambda>a. ac_type a = ACT_REJECT) (rn_actions st) of Some a \<Rightarrow> [a]
      | None \<Rightarrow>
         if \<not> rn_cancel st then rn_actions st @ [new_action ACT_KEEP]
         else if rn_actions st = [] then [new_action ACT_DISCARD]
         else rn_actions st)"

definition SieveEvaluate :: "string \<Rightarrow> sieve_input \<Rightarrow> sieve_result" where
  "SieveEvaluate script i =
     (if Trim script = [] then \<lparr>sr_actions = [new_action ACT_KEEP], sr_error = []\<rparr>
      else (case ParseInternal script of
        Inl err \<Rightarrow> \<lparr>sr_actions = [new_action ACT_KEEP], sr_error = err\<rparr>
      | Inr program \<Rightarrow> \<lparr>sr_actions = settle (run_block i program (start_runner program)), sr_error = []\<rparr>))"

definition SieveCheck :: "string \<Rightarrow> string option" where
  "SieveCheck script =
     (if Trim script = [] then None else case ParseInternal script of Inl err \<Rightarrow> Some err | Inr _ \<Rightarrow> None)"

section \<open>Invariants of a run\<close>

lemma find_SomeD: "find P xs = Some x \<Longrightarrow> x \<in> set xs \<and> P x"
  by (auto simp: find_Some_iff)

text \<open>A test changes nothing but the captures.\<close>

lemma MatchAny_vars: "MatchAny vs keys mt cmp vars = (b, vars') \<Longrightarrow> v_named vars' = v_named vars \<and> v_enabled vars' = v_enabled vars"
  by (auto simp: MatchAny_def Let_def split: option.splits if_splits)

lemma leaf_test_vars: "leaf_test i flags a vars = (b, vars') \<Longrightarrow> v_named vars' = v_named vars \<and> v_enabled vars' = v_enabled vars"
  by (auto simp: leaf_test_def Let_def split: test_kind.splits dest!: MatchAny_vars)

lemma EvalTest_vars:
  "EvalTest i flags t vars = (b, vars') \<Longrightarrow> v_named vars' = v_named vars \<and> v_enabled vars' = v_enabled vars"
  "eval_any i flags ts vars = (b, vars') \<Longrightarrow> v_named vars' = v_named vars \<and> v_enabled vars' = v_enabled vars"
  "eval_all i flags ts vars = (b, vars') \<Longrightarrow> v_named vars' = v_named vars \<and> v_enabled vars' = v_enabled vars"
proof (induction i flags t vars and i flags ts vars and i flags ts vars arbitrary: b vars' and b vars' and b vars'
    rule: EvalTest_eval_any_eval_all.induct)
  case (1 i flags a cs vars)
  consider "t_kind a = NOT_TEST" | "t_kind a = ANYOF" | "t_kind a = ALLOF"
    | "EvalTest i flags (Test a cs) vars = leaf_test i flags a vars"
    by (cases "t_kind a") simp_all
  then show ?case
  proof cases
    case 1
    show ?thesis
    proof (cases cs)
      case (Cons c cs')
      obtain b1 vars1 where e: "EvalTest i flags c vars = (b1, vars1)" by fastforce
      with "1.prems" 1 Cons have "vars' = vars1" by simp
      with "1.IH"(1) [OF 1 Cons e] show ?thesis by simp
    qed (use "1.prems" 1 in simp)
  next
    case 2
    with "1.prems" "1.IH"(2) show ?thesis by simp
  next
    case 3
    with "1.prems" "1.IH"(3) show ?thesis by simp
  next
    case 4
    with "1.prems" leaf_test_vars show ?thesis by metis
  qed
next
  case (3 i flags c cs vars)
  obtain b1 vars1 where e: "EvalTest i flags c vars = (b1, vars1)" by fastforce
  from "3.IH"(1) [OF e] "3.IH"(2) [OF e [symmetric], of b vars'] "3.prems" show ?case
    by (cases b1) (simp_all add: e)
next
  case (5 i flags c cs vars)
  obtain b1 vars1 where e: "EvalTest i flags c vars = (b1, vars1)" by fastforce
  from "5.IH"(1) [OF e] "5.IH"(2) [OF e [symmetric], of b vars'] "5.prems" show ?case
    by (cases b1) (simp_all add: e)
qed simp_all

text \<open>A property of the commands of a program, also of those inside its blocks.\<close>

fun every_command :: "(command_args \<Rightarrow> bool) \<Rightarrow> command \<Rightarrow> bool" where
  "every_command ok (Command c bs) = (ok c \<and> (\<forall>b\<in>set bs. \<forall>c\<in>set (snd b). every_command ok c))"

locale script_invariant =
  fixes i :: sieve_input and ok :: "command_args \<Rightarrow> bool" and inv :: "runner \<Rightarrow> bool"
  assumes simple: "ok c \<Longrightarrow> inv st \<Longrightarrow> inv (run_simple i c st)"
    and tests: "inv st \<Longrightarrow> v_named vars = v_named (rn_vars st) \<Longrightarrow> inv (st\<lparr>rn_vars := vars\<rparr>)"
begin

lemma run_inv:
  "\<forall>c\<in>set cs. every_command ok c \<Longrightarrow> inv st \<Longrightarrow> j = i \<Longrightarrow> inv (run_block j cs st)"
  "every_command ok c \<Longrightarrow> inv st \<Longrightarrow> j = i \<Longrightarrow> inv (run_command j c st)"
  "\<forall>b\<in>set bs. \<forall>c\<in>set (snd b). every_command ok c \<Longrightarrow> inv st \<Longrightarrow> j = i \<Longrightarrow> inv (run_branches j bs st)"
proof (induction j cs st and j c st and j bs st rule: run_block_run_command_run_branches.induct)
  case (5 j t body bs st)
  show ?case
  proof (cases t)
    case (Some u)
    obtain b vars where e: "EvalTest i (rn_flags st) u (rn_vars st) = (b, vars)" by fastforce
    have "inv (st\<lparr>rn_vars := vars\<rparr>)"
      using tests [OF 5(5)] EvalTest_vars(1) [OF e] by simp
    with 5 e Some show ?thesis by (auto simp: Let_def)
  qed (use 5 in simp)
qed (auto intro: simple)

lemma block_inv: "\<forall>c\<in>set cs. every_command ok c \<Longrightarrow> inv st \<Longrightarrow> inv (run_block i cs st)"
  by (rule run_inv(1)) auto

end

subsection \<open>The variables stay within their limits\<close>

lemma run_vacation_simps [simp]:
  "rn_vars (run_vacation i c st) = rn_vars st" "rn_cancel (run_vacation i c st) = rn_cancel st"
  by (auto simp: run_vacation_def AddAction_def Let_def)

lemma run_simple_vars:
  "rn_vars (run_simple i c st) =
     (if c_kind c = SET then set_variable (c_var c) (ApplyModifiers (Expand (rn_vars st) (c_argument c)) (c_modifiers c)) (rn_vars st)
      else rn_vars st)"
  by (auto simp: run_simple_def AddAction_def Let_def split: command_kind.splits)

interpretation bounded: script_invariant i "\<lambda>c. True" "\<lambda>st. wf_variables (rn_vars st)" for i
  by (unfold_locales, simp add: run_simple_vars set_variable_wf, simp add: wf_variables_def)

lemma every_command_True: "every_command (\<lambda>c. True) c"
  by (induction c) (auto simp: snds.simps)

subsection \<open>Mail is not lost\<close>

definition delivers :: "action \<Rightarrow> bool" where
  "delivers a = (ac_type a \<in> {ACT_KEEP, ACT_FILEINTO, ACT_REDIRECT, ACT_REJECT})"

text \<open>The commands other than \<^verbatim>\<open>discard\<close> cancel the implicit keep only when they deliver.\<close>

definition delivered :: "runner \<Rightarrow> bool" where
  "delivered st = (rn_cancel st \<longrightarrow> list_ex delivers (rn_actions st))"

lemma run_simple_delivered: "c_kind c \<noteq> DISCARD \<Longrightarrow> delivered st \<Longrightarrow> delivered (run_simple i c st)"
  by (cases "c_kind c")
    (auto simp: run_simple_def delivered_def AddAction_def delivers_def new_action_def run_vacation_def Let_def)

interpretation kept: script_invariant i "\<lambda>c. c_kind c \<noteq> DISCARD" delivered for i
  by unfold_locales (auto simp: run_simple_delivered, simp add: delivered_def)

text \<open>Some command of the program is a \<^verbatim>\<open>discard\<close>.\<close>

fun discards :: "command \<Rightarrow> bool" where
  "discards (Command c bs) = (c_kind c = DISCARD \<or> (\<exists>b\<in>set bs. \<exists>c\<in>set (snd b). discards c))"

lemma discards_every: "discards c = (\<not> every_command (\<lambda>a. c_kind a \<noteq> DISCARD) c)"
  by (induction c rule: discards.induct) auto

text \<open>C4. Mail is not lost to a filter: the result of evaluating a script, whatever the script and the message are,
  has an action that files, forwards or rejects the message, unless the script parses and has a \<^verbatim>\<open>discard\<close>.\<close>

theorem SieveEvaluate_keeps_mail:
  "list_ex delivers (sr_actions (SieveEvaluate script i)) \<or>
   (\<exists>program. ParseInternal script = Inr program \<and> list_ex discards program)"
proof (cases "Trim script = [] \<or> (\<exists>err. ParseInternal script = Inl err)")
  case True
  then show ?thesis by (auto simp: SieveEvaluate_def delivers_def new_action_def)
next
  case False
  then obtain program where p: "Trim script \<noteq> []" "ParseInternal script = Inr program"
    by (cases "ParseInternal script") auto
  show ?thesis
  proof (cases "list_ex discards program")
    case no_discard: False
    let ?st = "run_block i program (start_runner program)"
    have "delivered ?st"
      using no_discard
      by (intro kept.block_inv) (auto simp: list_ex_iff discards_every, simp add: delivered_def start_runner_def)
    then have "list_ex delivers (settle ?st)"
      by (auto simp: settle_def delivered_def delivers_def new_action_def list_ex_iff dest: find_SomeD split: option.split)
    with p show ?thesis by (simp add: SieveEvaluate_def)
  qed (use p in simp)
qed

subsection \<open>Actions taken are not changed\<close>

interpretation appended: script_invariant i "\<lambda>c. True" "\<lambda>st. prefix actions (rn_actions st)" for i actions
  by (unfold_locales, unfold run_simple_def)
    (auto simp: AddAction_def Let_def run_vacation_def split: command_kind.split)

lemma run_block_prefix: "prefix (rn_actions st) (rn_actions (run_block i cs st))"
  by (rule appended.block_inv) (auto simp: every_command_True)

subsection \<open>Automatic replies\<close>

definition is_vacation :: "action \<Rightarrow> bool" where
  "is_vacation a = (ac_type a = ACT_VACATION)"

definition replies_ok :: "sieve_input \<Rightarrow> runner \<Rightarrow> bool" where
  "replies_ok i st =
     (length (filter is_vacation (rn_actions st)) \<le> 1 \<and>
      (\<forall>a\<in>set (rn_actions st). is_vacation a \<longrightarrow> VacationRefusal i (vs_addresses (ac_vacation a)) = None
         \<and> 1 \<le> vs_days (ac_vacation a) \<and> vs_days (ac_vacation a) \<le> 365))"

lemma vacation_days_range: "1 \<le> vacation_days d \<and> vacation_days d \<le> 365"
  by (simp add: vacation_days_def Let_def)

lemma run_vacation_ok: "replies_ok i st \<Longrightarrow> replies_ok i (run_vacation i c st)"
  using vacation_days_range [of "c_days c"]
  by (auto simp: replies_ok_def run_vacation_def AddAction_def is_vacation_def vacation_action_def Let_def list_ex_iff
    filter_empty_conv)

lemma run_simple_ok: "replies_ok i st \<Longrightarrow> replies_ok i (run_simple i c st)"
proof (cases "c_kind c = VACATION")
  case True
  then show "replies_ok i st \<Longrightarrow> ?thesis" by (simp add: run_simple_def run_vacation_ok)
next
  case False
  then show "replies_ok i st \<Longrightarrow> ?thesis"
    by (cases "c_kind c") (auto simp: run_simple_def replies_ok_def AddAction_def new_action_def is_vacation_def Let_def)
qed

interpretation replies: script_invariant i "\<lambda>c. True" "replies_ok i" for i
  by (unfold_locales, rule run_simple_ok, assumption, simp add: replies_ok_def)

lemma no_refusal:
  assumes "VacationRefusal i addresses = None"
  shows "Trim (ev_from (si_env i)) \<noteq> []"
    and "Lower (Trim (ev_from (si_env i))) \<notin> set (own_addresses i addresses)"
    and "\<not> robot_local (takeWhile (\<lambda>c. c \<noteq> CHR 0x40) (Lower (Trim (ev_from (si_env i)))))"
    and "\<forall>h\<in>set kListHeaders. HeaderValues (si_msg i) h = []"
    and "set (own_addresses i addresses) \<inter> set (visible_recipients i) \<noteq> {}"
  using assms by (auto simp: VacationRefusal_def Let_def list_ex_iff split: if_splits)

text \<open>A reply among the results was asked for by a \<^verbatim>\<open>vacation\<close> that found nothing against it.\<close>

lemma SieveEvaluate_run:
  assumes "a \<in> set (sr_actions (SieveEvaluate script i))" and "is_vacation a"
  obtains program where "sr_actions (SieveEvaluate script i) = settle (run_block i program (start_runner program))"
    "replies_ok i (run_block i program (start_runner program))" "a \<in> set (rn_actions (run_block i program (start_runner program)))"
proof -
  obtain program where r: "sr_actions (SieveEvaluate script i) = settle (run_block i program (start_runner program))"
    using assms by (cases "Trim script = []"; cases "ParseInternal script")
      (auto simp: SieveEvaluate_def new_action_def is_vacation_def)
  moreover have "replies_ok i (run_block i program (start_runner program))"
    by (rule replies.block_inv) (auto simp: every_command_True, simp add: replies_ok_def start_runner_def)
  moreover have "a \<in> set (rn_actions (run_block i program (start_runner program)))"
    using assms unfolding r
    by (auto simp: settle_def new_action_def is_vacation_def dest: find_SomeD split: option.splits if_splits)
  ultimately show ?thesis by (rule that)
qed

lemma SieveEvaluate_sender:
  assumes "Trim (ev_from (si_env i)) = []" "a \<in> set (sr_actions (SieveEvaluate script i))"
  shows "ac_type a \<noteq> ACT_VACATION"
proof
  assume "ac_type a = ACT_VACATION"
  then have v: "is_vacation a" by (simp add: is_vacation_def)
  obtain program where "replies_ok i (run_block i program (start_runner program))"
    "a \<in> set (rn_actions (run_block i program (start_runner program)))"
    using SieveEvaluate_run [OF assms(2) v] by metis
  then have "VacationRefusal i (vs_addresses (ac_vacation a)) = None" using v by (auto simp: replies_ok_def)
  then show False using no_refusal assms(1) by auto
qed

text \<open>C18. At most one automatic reply is asked for, for a window of one day to a year, and only for a message with an
  envelope sender who is not the user and no robot, with no header of a mailing list, that names one of the user's
  addresses among its recipients.\<close>

theorem SieveEvaluate_replies:
  assumes "a \<in> set (sr_actions (SieveEvaluate script i))" and "is_vacation a"
  shows "length (filter is_vacation (sr_actions (SieveEvaluate script i))) = 1
    \<and> 1 \<le> vs_days (ac_vacation a) \<and> vs_days (ac_vacation a) \<le> 365
    \<and> Trim (ev_from (si_env i)) \<noteq> []
    \<and> Lower (Trim (ev_from (si_env i))) \<notin> set (own_addresses i (vs_addresses (ac_vacation a)))
    \<and> \<not> robot_local (takeWhile (\<lambda>c. c \<noteq> CHR 0x40) (Lower (Trim (ev_from (si_env i)))))
    \<and> (\<forall>h\<in>set kListHeaders. HeaderValues (si_msg i) h = [])
    \<and> set (own_addresses i (vs_addresses (ac_vacation a))) \<inter> set (visible_recipients i) \<noteq> {}"
proof -
  obtain program where r: "sr_actions (SieveEvaluate script i) = settle (run_block i program (start_runner program))"
    using assms by (cases "Trim script = []"; cases "ParseInternal script")
      (auto simp: SieveEvaluate_def new_action_def is_vacation_def)
  let ?st = "run_block i program (start_runner program)"
  have ok: "replies_ok i ?st"
    by (rule replies.block_inv) (auto simp: every_command_True, simp add: replies_ok_def start_runner_def)
  have settled: "a \<in> set (rn_actions ?st)"
    "length (filter is_vacation (settle ?st)) \<le> length (filter is_vacation (rn_actions ?st))"
    using assms unfolding r
    by (auto simp: settle_def new_action_def is_vacation_def dest: find_SomeD split: option.splits if_splits)
  have "filter is_vacation (settle ?st) \<noteq> []"
    using assms unfolding r by (auto simp: filter_empty_conv)
  then have "0 < length (filter is_vacation (settle ?st))" by simp
  with ok settled(2) have "length (filter is_vacation (settle ?st)) = 1"
    unfolding replies_ok_def by linarith
  moreover have "VacationRefusal i (vs_addresses (ac_vacation a)) = None"
    and "1 \<le> vs_days (ac_vacation a) \<and> vs_days (ac_vacation a) \<le> 365"
    using ok settled(1) assms(2) by (auto simp: replies_ok_def)
  ultimately show ?thesis using no_refusal r by auto
qed

text \<open>Whatever a script assigns, the variables stay at 128 names of at most 4096 bytes.\<close>

theorem run_block_variables:
  "wf_variables (rn_vars (run_block i program (start_runner program)))"
  by (rule bounded.block_inv)
    (auto simp: every_command_True, simp add: start_runner_def no_variables_def wf_variables_def)

text \<open>A message for the witness: from another address to the user.\<close>

definition sample_input :: sieve_input where
  "sample_input = \<lparr>si_msg = \<lparr>pm_from = [], pm_subject = [], pm_message_id = [],
       pm_headers = [(''To'', ''Bob <bob'' @ [CHR 0x40] @ ''b.org>'')]\<rparr>,
     si_raw = [], si_env = \<lparr>ev_from = ''al'' @ [CHR 0x40] @ ''a.org'', ev_to = ''bob'' @ [CHR 0x40] @ ''b.org'',
       ev_separator = ''+''\<rparr>\<rparr>"

definition sample_script :: string where
  "sample_script = ''vacation :days 500 '' @ [DQUOTE] @ ''gone'' @ [DQUOTE] @ '';''"

theorem SieveEvaluate_replies_witness:
  "let a = hd (sr_actions (SieveEvaluate sample_script sample_input)) in
     ac_reason a = ''gone'' \<and> vs_days (ac_vacation a) = 365 \<and> vs_days (ac_vacation a) \<le> 365
     \<and> length (filter is_vacation (sr_actions (SieveEvaluate sample_script sample_input))) = 1"
proof -
  have acts: "sr_actions (SieveEvaluate sample_script sample_input)
      = [(new_action ACT_VACATION)\<lparr>ac_reason := ''gone'', ac_vacation := \<lparr>vs_subject = [], vs_from = [], vs_handle = [],
          vs_addresses = [], vs_days = 365, vs_mime = False\<rparr>\<rparr>, new_action ACT_KEEP]"
    by code_simp
  then show ?thesis
    using SieveEvaluate_replies [of "hd (sr_actions (SieveEvaluate sample_script sample_input))" sample_script sample_input]
    by (simp add: is_vacation_def new_action_def)
qed

end
