(* ===== verification/QM_SieveRules.thy ===== *)
theory QM_SieveRules
  imports QM_SieveEval
begin

text \<open>
  The rule view of \<^verbatim>\<open>src/core/src/sieve.cpp\<close>: \<open>Decompose\<close> reads a script as a list of rules, \<open>Compose\<close> writes
  one back. The theory shows where the two change what a script does.
\<close>

record rule_test =
  rt_field :: string
  rt_op :: string
  rt_value :: string
  rt_negate :: bool

record rule =
  ru_name :: string
  ru_all :: bool
  ru_tests :: "rule_test list"
  ru_actions :: "action list"
  ru_stop :: bool

section \<open>Reading\<close>

definition trim_rule_line :: "string \<Rightarrow> string" where
  "trim_rule_line l =
     rev (dropWhile (\<lambda>c. c = CR \<or> c = CHR '' '') (rev (dropWhile (\<lambda>c. c = CHR '' '' \<or> c = TAB \<or> c = CR) l)))"

fun rule_names :: "string \<Rightarrow> string list \<Rightarrow> string list" where
  "rule_names pending [] = []"
| "rule_names pending (l # ls) =
     (let t = trim_rule_line l in
      if take 7 t = ''# rule:'' then rule_names (dropWhile is_blank (drop 7 t)) ls
      else if take 3 t = ''if '' \<or> t = ''if'' then pending # rule_names [] ls
      else if t \<noteq> [] \<and> hd t \<noteq> CHR ''#'' then rule_names [] ls
      else rule_names pending ls)"

definition RuleNames :: "string \<Rightarrow> string list" where
  "RuleNames script = rule_names [] (split_on LF script)"

definition flatten_header :: "test_args \<Rightarrow> bool \<Rightarrow> string + rule_test" where
  "flatten_header a negate =
     (if length (t_names a) \<noteq> 1 \<or> length (t_keys a) \<noteq> 1
      then Inl ''a condition tests several headers or values at once''
      else let name = Lower (hd (t_names a)) in
        Inr \<lparr>rt_field = (if name \<in> {''from'', ''to'', ''cc'', ''subject''} then name else ''header:'' @ hd (t_names a)),
          rt_op = (if t_match a = [] then ''is'' else t_match a), rt_value = hd (t_keys a), rt_negate = negate\<rparr>)"

definition FlattenTest :: "test \<Rightarrow> bool \<Rightarrow> string + rule_test" where
  "FlattenTest t negate =
     (let a = t_args t in
      case t_kind a of
        HEADER \<Rightarrow> flatten_header a negate
      | ADDRESS \<Rightarrow> flatten_header a negate
      | BODY \<Rightarrow>
          if length (t_keys a) \<noteq> 1 then Inl ''a body condition tests several values at once''
          else Inr \<lparr>rt_field = ''body'', rt_op = (if t_match a = [] then ''contains'' else t_match a),
            rt_value = hd (t_keys a), rt_negate = negate\<rparr>
      | SIZE \<Rightarrow> Inr \<lparr>rt_field = ''size'', rt_op = (if t_relation a = [] then ''over'' else t_relation a),
          rt_value = to_string (t_limit a), rt_negate = negate\<rparr>
      | ENVELOPE \<Rightarrow> Inl ''a condition tests the SMTP envelope''
      | EXISTS \<Rightarrow> Inl ''a condition tests whether a header exists''
      | NEVER \<Rightarrow> Inl ''a rule can never run''
      | _ \<Rightarrow> Inl ''a condition uses a form the rule editor does not model'')"

definition flatten_negated :: "test \<Rightarrow> string + rule_test" where
  "flatten_negated t =
     (if length (t_children t) \<noteq> 1 then Inl ''a negated condition wraps more than one test''
      else FlattenTest (hd (t_children t)) True)"

definition flatten_child :: "test \<Rightarrow> string + rule_test" where
  "flatten_child t = (if t_kind (t_args t) = NOT_TEST then flatten_negated t else FlattenTest t False)"

fun collect :: "('a \<Rightarrow> string + 'b) \<Rightarrow> 'a list \<Rightarrow> string + 'b list" where
  "collect f [] = Inr []"
| "collect f (x # xs) =
     (case f x of Inl why \<Rightarrow> Inl why
      | Inr y \<Rightarrow> (case collect f xs of Inl why \<Rightarrow> Inl why | Inr ys \<Rightarrow> Inr (y # ys)))"

definition FlattenCondition :: "test \<Rightarrow> string + (bool \<times> rule_test list)" where
  "FlattenCondition t =
     (let k = t_kind (t_args t) in
      if k = ALWAYS then Inr (True, [])
      else if k = ALLOF \<or> k = ANYOF then
        (case collect flatten_child (t_children t) of Inl why \<Rightarrow> Inl why
         | Inr rts \<Rightarrow> if rts = [] then Inl [] else Inr (k = ALLOF, rts))
      else map_sum id (\<lambda>rt. (True, [rt])) (flatten_child t))"

definition rule_vacation :: "command_args \<Rightarrow> action" where
  "rule_vacation c =
     (new_action ACT_VACATION)\<lparr>ac_reason := c_argument c,
       ac_vacation := \<lparr>vs_subject = c_subject c, vs_from = c_from c, vs_handle = c_handle c,
         vs_addresses = c_addresses c, vs_days = (if c_days c > 0 then wrap32 (c_days c) else 7), vs_mime = c_mime c\<rparr>\<rparr>"

text \<open>An action of a block; \<^const>\<open>None\<close> for \<^verbatim>\<open>stop\<close>.\<close>

definition rule_action :: "command \<Rightarrow> string + action option" where
  "rule_action cmd =
     (let c = c_args cmd; flags = SplitFlags (c_flags c) no_variables in
      case c_kind c of
        IF \<Rightarrow> Inl ''This script nests one rule inside another, which the rule editor cannot show.''
      | STOP \<Rightarrow> Inr None
      | KEEP \<Rightarrow> Inr (Some (new_action ACT_KEEP\<lparr>ac_flags := flags\<rparr>))
      | DISCARD \<Rightarrow> Inr (Some (new_action ACT_DISCARD))
      | FILEINTO \<Rightarrow>
          Inr (Some (new_action ACT_FILEINTO\<lparr>ac_folder := c_argument c, ac_create := c_create c, ac_flags := flags\<rparr>))
      | VACATION \<Rightarrow> Inr (Some (rule_vacation c))
      | REDIRECT \<Rightarrow> Inr (Some (new_action ACT_REDIRECT\<lparr>ac_address := c_argument c\<rparr>))
      | REJECT \<Rightarrow> Inr (Some (new_action ACT_REJECT\<lparr>ac_reason := c_argument c\<rparr>))
      | REQUIRE \<Rightarrow> Inl ''This script uses an action the rule editor cannot show.''
      | _ \<Rightarrow> Inl ''This script sets flags or variables as separate commands, which the rule editor cannot show.'')"

definition rule_of :: "command \<Rightarrow> string \<Rightarrow> string + rule" where
  "rule_of cmd name =
     (let bs = c_branches cmd in
      if c_kind (c_args cmd) \<noteq> IF then
        Inl ''This script has actions outside any rule, which the rule editor cannot show.''
      else if length bs \<noteq> 1 \<or> fst (hd bs) = None then
        Inl ''This script uses an `else` branch, which the rule editor cannot show.''
      else (case FlattenCondition (the (fst (hd bs))) of
          Inl why \<Rightarrow> Inl (''This script uses a condition the rule editor cannot show: '' @ why @ ''.'')
        | Inr (all, rts) \<Rightarrow>
            (case collect rule_action (snd (hd bs)) of Inl why \<Rightarrow> Inl why
             | Inr acts \<Rightarrow> Inr \<lparr>ru_name = name, ru_all = all, ru_tests = rts,
                 ru_actions = concat (map (\<lambda>a. case a of None \<Rightarrow> [] | Some a \<Rightarrow> [a]) acts), ru_stop = (None \<in> set acts)\<rparr>)))"

fun rules_of :: "command list \<Rightarrow> string list \<Rightarrow> string + rule list" where
  "rules_of [] names = Inr []"
| "rules_of (cmd # cmds) names =
     (if c_kind (c_args cmd) = REQUIRE then rules_of cmds names
      else (case rule_of cmd (case names of [] \<Rightarrow> [] | n # _ \<Rightarrow> n) of Inl why \<Rightarrow> Inl why
        | Inr r \<Rightarrow> (case rules_of cmds (tl names) of Inl why \<Rightarrow> Inl why | Inr rs \<Rightarrow> Inr (r # rs))))"

definition Decompose :: "string \<Rightarrow> string + rule list" where
  "Decompose script =
     (case ParseInternal script of Inl err \<Rightarrow> Inl (''This script does not parse: '' @ err)
      | Inr program \<Rightarrow>
         if Requires program ''variables''
         then Inl ''This script uses variables, which the rule editor cannot show.''
         else rules_of program (RuleNames script))"

section \<open>Writing\<close>

definition QuoteSieve :: "string \<Rightarrow> string" where
  "QuoteSieve s =
     DQUOTE # concat (map (\<lambda>c. if c = CR \<or> c = LF then [] else if c = DQUOTE \<or> c = BACKSLASH then [BACKSLASH, c] else [c]) s)
       @ [DQUOTE]"

definition drop_last :: "char \<Rightarrow> string \<Rightarrow> string" where
  "drop_last c s = (if s \<noteq> [] \<and> last s = c then butlast s else s)"

definition text_line :: "string \<Rightarrow> string" where
  "text_line l = (let l = drop_last CR l in (if l \<noteq> [] \<and> hd l = CHR ''.'' then CHR ''.'' # l else l) @ [LF])"

definition SieveText :: "string \<Rightarrow> string" where
  "SieveText s =
     ''text:'' @ [LF] @ concat (map text_line (split_on LF (drop_last CR (drop_last LF s)))) @ ''.'' @ [LF]"

definition QuoteOrText :: "string \<Rightarrow> string" where
  "QuoteOrText s = (if LF \<notin> set s \<and> CR \<notin> set s then QuoteSieve s else SieveText s)"

fun comma_list :: "string list \<Rightarrow> string" where
  "comma_list [] = []"
| "comma_list [s] = s"
| "comma_list (s # ss) = s @ '', '' @ comma_list ss"

definition quoted_list :: "string list \<Rightarrow> string" where
  "quoted_list ss = ''['' @ comma_list (map QuoteSieve ss) @ '']''"

definition capabilities_of :: "action \<Rightarrow> string list" where
  "capabilities_of a =
     (if ac_type a = ACT_FILEINTO then ''fileinto'' # (if ac_create a then [''mailbox''] else []) else [])
     @ (if ac_type a = ACT_REJECT then [''reject''] else [])
     @ (if ac_type a = ACT_VACATION then [''vacation''] else [])
     @ (if ac_flags a \<noteq> [] then [''imap4flags''] else [])"

definition needed :: "rule list \<Rightarrow> string list" where
  "needed rules =
     fold (\<lambda>c cs. if c \<in> set cs then cs else cs @ [c]) (concat (map capabilities_of (concat (map ru_actions rules)))) []"

definition condition :: "rule_test \<Rightarrow> string" where
  "condition t =
     (if rt_negate t then ''not '' else []) @
     (if rt_field t = ''size'' then ''size :'' @ (if rt_op t = ''under'' then ''under'' else ''over'') @ '' '' @ rt_value t
      else if rt_field t = ''body'' then ''body :text :'' @ rt_op t @ '' '' @ QuoteSieve (rt_value t)
      else let f = rt_field t; header = (if take 7 f = ''header:'' then drop 7 f else f) in
        ''header :'' @ rt_op t @ '' '' @ QuoteSieve header @ '' '' @ QuoteSieve (rt_value t))"

definition rule_condition :: "rule \<Rightarrow> string" where
  "rule_condition r =
     (case map condition (ru_tests r) of [] \<Rightarrow> ''true'' | [c] \<Rightarrow> c
      | cs \<Rightarrow> (if ru_all r then ''allof'' else ''anyof'') @ '' ('' @ comma_list cs @ '')'')"

definition flag_tag :: "action \<Rightarrow> string" where
  "flag_tag a = (if ac_flags a = [] then [] else '' :flags '' @ quoted_list (ac_flags a))"

definition tagged :: "string \<Rightarrow> string \<Rightarrow> string" where
  "tagged tag v = (if v = [] then [] else '' :'' @ tag @ '' '' @ QuoteSieve v)"

definition write_vacation :: "action \<Rightarrow> string" where
  "write_vacation a =
     (let v = ac_vacation a in
      ''    vacation''
      @ (if vs_days v > 0 \<and> vs_days v \<noteq> 7 then '' :days '' @ to_string (vs_days v) else [])
      @ (if vs_mime v then '' :mime'' else [])
      @ tagged ''subject'' (vs_subject v) @ tagged ''from'' (vs_from v) @ tagged ''handle'' (vs_handle v)
      @ (if vs_addresses v = [] then [] else '' :addresses '' @ quoted_list (vs_addresses v))
      @ '' '' @ QuoteOrText (ac_reason a) @ '';'' @ [LF])"

definition write_action :: "action \<Rightarrow> string" where
  "write_action a =
     (case ac_type a of
        ACT_FILEINTO \<Rightarrow>
          ''    fileinto'' @ (if ac_create a then '' :create'' else []) @ flag_tag a @ '' '' @ QuoteSieve (ac_folder a) @ '';'' @ [LF]
      | ACT_REDIRECT \<Rightarrow> ''    redirect '' @ QuoteSieve (ac_address a) @ '';'' @ [LF]
      | ACT_REJECT \<Rightarrow> ''    reject '' @ QuoteOrText (ac_reason a) @ '';'' @ [LF]
      | ACT_DISCARD \<Rightarrow> ''    discard;'' @ [LF]
      | ACT_VACATION \<Rightarrow> write_vacation a
      | ACT_KEEP \<Rightarrow> ''    keep'' @ flag_tag a @ '';'' @ [LF])"

definition write_rule :: "rule \<Rightarrow> string" where
  "write_rule r =
     (if ru_actions r = [] then []
      else [LF]
        @ (if ru_name r = [] then []
           else ''# rule: '' @ map (\<lambda>c. if c = CR \<or> c = LF then CHR '' '' else c) (ru_name r) @ [LF])
        @ ''if '' @ rule_condition r @ '' {'' @ [LF]
        @ concat (map write_action (ru_actions r))
        @ (if ru_stop r then ''    stop;'' @ [LF] else []) @ ''}'' @ [LF])"

definition Compose :: "rule list \<Rightarrow> string" where
  "Compose rules =
     ''# Generated by the QuackCit rule editor.'' @ [LF]
     @ ''# Editing this text by hand is fine: the rules are read back from it.'' @ [LF]
     @ (if needed rules = [] then [] else ''require '' @ quoted_list (needed rules) @ '';'' @ [LF])
     @ concat (map write_rule rules)"

section \<open>What the round trip changes\<close>

text \<open>Two scripts: a \<^verbatim>\<open>discard\<close> that is never reached, and a copy.\<close>

definition dead_discard :: string where
  "dead_discard = ''if true { stop; discard; }''"

definition filed_copy :: string where
  "filed_copy = ''if true { fileinto :copy '' @ [DQUOTE] @ ''x'' @ [DQUOTE] @ ''; }''"

abbreviation (input) always :: test where
  "always \<equiv> Test (new_test ALWAYS) []"

abbreviation (input) if_true :: "command list \<Rightarrow> command" where
  "if_true cs \<equiv> Command (new_command IF) [(Some always, cs)]"

abbreviation (input) plain :: "command_kind \<Rightarrow> command" where
  "plain k \<equiv> Command (new_command k) []"

definition rules_of_script :: "string \<Rightarrow> rule list" where
  "rules_of_script script = (case Decompose script of Inl _ \<Rightarrow> [] | Inr rs \<Rightarrow> rs)"

lemma programs:
  "ParseInternal dead_discard = Inr [if_true [plain STOP, plain DISCARD]]"
  "ParseInternal (Compose (rules_of_script dead_discard)) = Inr [if_true [plain DISCARD, plain STOP]]"
  "ParseInternal filed_copy = Inr [if_true [Command (new_command FILEINTO\<lparr>c_copy := True, c_argument := ''x''\<rparr>) []]]"
  "ParseInternal (Compose (rules_of_script filed_copy)) =
     Inr [Command (new_command REQUIRE\<lparr>c_capabilities := [''fileinto'']\<rparr>) [],
       if_true [Command (new_command FILEINTO\<lparr>c_argument := ''x''\<rparr>) []]]"
  by code_simp+

lemma nonempty: "Trim dead_discard \<noteq> []" "Trim (Compose (rules_of_script dead_discard)) \<noteq> []"
  "Trim filed_copy \<noteq> []" "Trim (Compose (rules_of_script filed_copy)) \<noteq> []"
  by code_simp+

lemmas run_simps = run_simple_def leaf_test_def AddAction_def new_action_def new_test_def new_command_def Let_def
  start_runner_def settle_def Requires_def FlagsFor_def AddFlags_def Expand_def no_variables_def

text \<open>C23. Reading a script into the rule editor and writing it back changes what it does, although \<open>Decompose\<close> accepts it: a
  \<^verbatim>\<open>stop\<close> moves to the end of its block, so a \<^verbatim>\<open>discard\<close> after it, which never ran, now drops every message; and
  \<^verbatim>\<open>:copy\<close> is lost, so the message is no longer kept in the inbox.\<close>

theorem Decompose_unfaithful:
  "(\<exists>rules. Decompose dead_discard = Inr rules
      \<and> sr_actions (SieveEvaluate dead_discard i) = [new_action ACT_KEEP]
      \<and> sr_actions (SieveEvaluate (Compose rules) i) = [new_action ACT_DISCARD]) \<and>
   (\<exists>rules. Decompose filed_copy = Inr rules
      \<and> new_action ACT_KEEP \<in> set (sr_actions (SieveEvaluate filed_copy i))
      \<and> new_action ACT_KEEP \<notin> set (sr_actions (SieveEvaluate (Compose rules) i)))"
proof -
  have "Decompose dead_discard = Inr (rules_of_script dead_discard)" by code_simp
  moreover have "Decompose filed_copy = Inr (rules_of_script filed_copy)" by code_simp
  moreover have "sr_actions (SieveEvaluate dead_discard i) = [new_action ACT_KEEP]"
    by (simp add: SieveEvaluate_def programs nonempty run_simps)
  moreover have "sr_actions (SieveEvaluate (Compose (rules_of_script dead_discard)) i) = [new_action ACT_DISCARD]"
    by (simp add: SieveEvaluate_def programs nonempty run_simps)
  moreover have "new_action ACT_KEEP \<in> set (sr_actions (SieveEvaluate filed_copy i))"
    by (simp add: SieveEvaluate_def programs nonempty run_simps)
  moreover have "new_action ACT_KEEP \<notin> set (sr_actions (SieveEvaluate (Compose (rules_of_script filed_copy)) i))"
    by (simp add: SieveEvaluate_def programs nonempty run_simps)
  ultimately show ?thesis by blast
qed

end
