(* ===== verification/QM_Auth.thy ===== *)
theory QM_Auth
  imports QM_Prelude "HOL-Library.AList"
begin

text \<open>
  Passwords: \<^verbatim>\<open>src/core/src/auth.cpp\<close>. The two hash functions are OpenSSL's and arguments of the model: \<open>scrypt\<close> gives
  the 32 bytes of \<^verbatim>\<open>EVP_PBE_scrypt\<close> or nothing when it fails, \<open>sha256\<close> those of \<^verbatim>\<open>SHA256\<close>. The random bytes of a
  new salt are an argument too. The table of users is a list of rows, the table of SSH keys that of their users.
\<close>

section \<open>Hashes\<close>

record stored =
  st_algo :: string
  st_salt :: string
  st_hash :: string

definition hex_digit :: "nat \<Rightarrow> char" where
  "hex_digit n = ''0123456789abcdef'' ! n"

definition ToHex :: "string \<Rightarrow> string" where
  "ToHex s = concat (map (\<lambda>c. [hex_digit (byte c div 16), hex_digit (byte c mod 16)]) s)"

text \<open>\<open>GenSalt\<close>: 16 random bytes, zeros when the generator fails.\<close>

definition GenSalt :: "string option \<Rightarrow> string" where
  "GenSalt rnd = ToHex (case rnd of None \<Rightarrow> replicate 16 (CHR 0x00) | Some bytes \<Rightarrow> bytes)"

definition kScryptN :: nat where "kScryptN = 16384"
definition kScryptR :: nat where "kScryptR = 8"
definition kScryptP :: nat where "kScryptP = 1"

definition CurrentAlgo :: string where
  "CurrentAlgo = ''scrypt$'' @ digits_of kScryptN @ ''$'' @ digits_of kScryptR @ ''$'' @ digits_of kScryptP"

text \<open>\<^verbatim>\<open>strtoull\<close> on a string of digits.\<close>

definition factor :: "string \<Rightarrow> nat option" where
  "factor tok =
     (if tok = [] \<or> \<not> list_all isdigit tok then None
      else let n = min (digits_val tok) (2 ^ 64 - 1) in if n = 0 then None else Some n)"

definition ParseScrypt :: "string \<Rightarrow> (nat \<times> nat \<times> nat) option" where
  "ParseScrypt algo =
     (if take 7 algo \<noteq> ''scrypt$'' then None
      else case split_on CHR ''$'' (drop 7 algo) of
          a # b # c # _ \<Rightarrow>
            (case (factor a, factor b, factor c) of
               (Some n, Some r, Some p) \<Rightarrow> if n \<le> 2 ^ 22 \<and> r \<le> 64 \<and> p \<le> 16 then Some (n, r, p) else None
             | _ \<Rightarrow> None)
        | _ \<Rightarrow> None)"

type_synonym kdf = "string \<Rightarrow> string \<Rightarrow> nat \<Rightarrow> nat \<Rightarrow> nat \<Rightarrow> string option"

definition ScryptHex :: "kdf \<Rightarrow> string \<Rightarrow> string \<Rightarrow> nat \<Rightarrow> nat \<Rightarrow> nat \<Rightarrow> string" where
  "ScryptHex scrypt password salt n r p = (case scrypt password salt n r p of None \<Rightarrow> [] | Some out \<Rightarrow> ToHex out)"

definition LegacySha256 :: "(string \<Rightarrow> string) \<Rightarrow> string \<Rightarrow> string \<Rightarrow> string" where
  "LegacySha256 sha256 password salt = ToHex (sha256 (salt @ '':'' @ password))"

definition HashPassword :: "kdf \<Rightarrow> string option \<Rightarrow> string \<Rightarrow> stored" where
  "HashPassword scrypt rnd password =
     \<lparr>st_algo = CurrentAlgo, st_salt = GenSalt rnd,
      st_hash = ScryptHex scrypt password (GenSalt rnd) kScryptN kScryptR kScryptP\<rparr>"

definition CheckPassword :: "kdf \<Rightarrow> (string \<Rightarrow> string) \<Rightarrow> string \<Rightarrow> stored \<Rightarrow> bool" where
  "CheckPassword scrypt sha256 password s =
     (case (case ParseScrypt (st_algo s) of
              Some (n, r, p) \<Rightarrow> Some (ScryptHex scrypt password (st_salt s) n r p)
            | None \<Rightarrow> if st_algo s = [] \<or> st_algo s = ''sha256'' then Some (LegacySha256 sha256 password (st_salt s)) else None)
      of None \<Rightarrow> False | Some computed \<Rightarrow> computed \<noteq> [] \<and> computed = st_hash s)"

definition NeedsRehash :: "string \<Rightarrow> bool" where
  "NeedsRehash algo =
     (case ParseScrypt algo of None \<Rightarrow> True | Some (n, r, p) \<Rightarrow> n < kScryptN \<or> r < kScryptR \<or> p < kScryptP)"

section \<open>The table of users\<close>

text \<open>The columns of a row; \<^const>\<open>None\<close> is NULL.\<close>

record credential =
  cr_hash :: "string option"
  cr_salt :: "string option"
  cr_algo :: "string option"
  cr_enabled :: bool

record auth_db =
  credentials :: "(string \<times> credential) list"
  key_users :: "string list"
  auth_faults :: "bool list"

text \<open>A statement fails when the next entry of the list of faults says so.\<close>

definition auth_exec :: "(auth_db \<Rightarrow> auth_db) \<Rightarrow> auth_db \<Rightarrow> bool \<times> auth_db" where
  "auth_exec f db =
     (let db1 = db\<lparr>auth_faults := tl (auth_faults db)\<rparr> in
      if auth_faults db \<noteq> [] \<and> hd (auth_faults db) then (False, db1) else (True, f db1))"

definition put_password :: "stored \<Rightarrow> bool \<Rightarrow> credential" where
  "put_password s enabled =
     \<lparr>cr_hash = Some (st_hash s), cr_salt = Some (st_salt s), cr_algo = Some (st_algo s), cr_enabled = enabled\<rparr>"

definition AddUser :: "kdf \<Rightarrow> string option \<Rightarrow> string \<Rightarrow> string \<Rightarrow> auth_db \<Rightarrow> (string + unit) \<times> auth_db" where
  "AddUser scrypt rnd username password db =
     (let s = HashPassword scrypt rnd password in
      if st_hash s = [] then (Inl ''the password could not be hashed'', db)
      else let (ok, db) = auth_exec (\<lambda>d. d\<lparr>credentials := AList.update username (put_password s True) (credentials d)\<rparr>) db in
        (if ok then Inr () else Inl ''database error'', db))"

definition RemoveAllKeys :: "string \<Rightarrow> auth_db \<Rightarrow> auth_db" where
  "RemoveAllKeys username db =
     snd (auth_exec (\<lambda>d. d\<lparr>key_users := filter (\<lambda>u. Lower u \<noteq> Lower username) (key_users d)\<rparr>) db)"

definition auth_RemoveUser :: "string \<Rightarrow> auth_db \<Rightarrow> (string + unit) \<times> auth_db" where
  "auth_RemoveUser username db =
     (let (ok, db) = auth_exec (\<lambda>d. d\<lparr>credentials := AList.delete username (credentials d)\<rparr>) db in
      if ok then (Inr (), RemoveAllKeys username db) else (Inl ''database error'', db))"

definition stored_of :: "credential \<Rightarrow> stored option" where
  "stored_of c =
     (case (cr_hash c, cr_salt c) of
        (Some h, Some s) \<Rightarrow> Some \<lparr>st_algo = (case cr_algo c of None \<Rightarrow> ''sha256'' | Some a \<Rightarrow> a), st_salt = s, st_hash = h\<rparr>
      | _ \<Rightarrow> None)"

definition rehash :: "kdf \<Rightarrow> string option \<Rightarrow> string \<Rightarrow> string \<Rightarrow> auth_db \<Rightarrow> auth_db" where
  "rehash scrypt rnd username password db =
     (let fresh = HashPassword scrypt rnd password in
      if st_hash fresh = [] then db
      else snd (auth_exec (\<lambda>d. d\<lparr>credentials := AList.map_entry username (\<lambda>c. put_password fresh (cr_enabled c)) (credentials d)\<rparr>) db))"

definition Verify :: "kdf \<Rightarrow> (string \<Rightarrow> string) \<Rightarrow> string option \<Rightarrow> string \<Rightarrow> string \<Rightarrow> auth_db \<Rightarrow> bool \<times> auth_db" where
  "Verify scrypt sha256 rnd username password db =
     (let (ok, db) = auth_exec id db in
      if \<not> ok then (False, db)
      else case map_of (credentials db) username of
          None \<Rightarrow> (False, db)
        | Some c \<Rightarrow>
            if \<not> cr_enabled c then (False, db)
            else (case stored_of c of None \<Rightarrow> (False, db)
              | Some s \<Rightarrow>
                  if \<not> CheckPassword scrypt sha256 password s then (False, db)
                  else (True, if NeedsRehash (st_algo s) then rehash scrypt rnd username password db else db)))"

section \<open>What signing in keeps\<close>

lemma ToHex_length [simp]: "length (ToHex s) = 2 * length s"
  by (induction s) (simp_all add: ToHex_def)

lemma ToHex_Nil [simp]: "ToHex s = [] \<longleftrightarrow> s = []"
  by (cases s) (simp_all add: ToHex_def)

lemma ParseScrypt_current: "ParseScrypt CurrentAlgo = Some (kScryptN, kScryptR, kScryptP)"
proof -
  have sep: "CHR ''$'' \<notin> set (digits_of n)" for n
    using digits_of_isdigit [of "CHR ''$''" n] by (auto simp: isdigit_def)
  have split: "split_on CHR ''$'' (digits_of a @ CHR ''$'' # digits_of b @ CHR ''$'' # digits_of c)
      = [digits_of a, digits_of b, digits_of c]" for a b c
    using split_join [of "[digits_of a, digits_of b, digits_of c]" "CHR ''$''"] sep by simp
  have "0 < n \<Longrightarrow> n < 2 ^ 64 \<Longrightarrow> factor (digits_of n) = Some n" for n
    using digits_of_isdigit [of _ n] by (auto simp: factor_def Let_def list_all_iff)
  then show ?thesis
    by (simp add: ParseScrypt_def CurrentAlgo_def split kScryptN_def kScryptR_def kScryptP_def)
qed

lemma CheckPassword_HashPassword:
  assumes "st_hash (HashPassword scrypt rnd password) \<noteq> []"
  shows "CheckPassword scrypt sha256 password (HashPassword scrypt rnd password)"
  using assms by (simp add: CheckPassword_def HashPassword_def ParseScrypt_current)

lemma NeedsRehash_current: "\<not> NeedsRehash CurrentAlgo"
  by (simp add: NeedsRehash_def ParseScrypt_current)

lemma rehash_cases:
  obtains "credentials (rehash scrypt rnd u pw db) = credentials db"
  | "st_hash (HashPassword scrypt rnd pw) \<noteq> []"
    "credentials (rehash scrypt rnd u pw db)
      = AList.map_entry u (\<lambda>c. put_password (HashPassword scrypt rnd pw) (cr_enabled c)) (credentials db)"
  by (cases "st_hash (HashPassword scrypt rnd pw) = []"; cases "auth_faults db \<noteq> [] \<and> hd (auth_faults db)")
    (simp_all add: rehash_def auth_exec_def Let_def)

lemma rehash_keys [simp]: "key_users (rehash scrypt rnd u pw db) = key_users db"
  by (simp add: rehash_def auth_exec_def Let_def)

lemma map_entry_of: "map_of (AList.map_entry k f al) x = (if x = k then map_option f (map_of al k) else map_of al x)"
  by (induction al) auto

text \<open>C22. Signing in upgrades the stored hash in place and does not lock the user out: when a password has been accepted,
  it is accepted again whatever the upgrade did, the account stays enabled, and no other account changes.\<close>

theorem Verify_upgrade:
  assumes "Verify scrypt sha256 rnd u password db = (True, db')"
  shows "fst (Verify scrypt sha256 rnd' u password (db'\<lparr>auth_faults := []\<rparr>))
    \<and> (\<forall>v. v \<noteq> u \<longrightarrow> map_of (credentials db') v = map_of (credentials db) v)
    \<and> map_option cr_enabled (map_of (credentials db') u) = map_option cr_enabled (map_of (credentials db) u)
    \<and> key_users db' = key_users db"
proof -
  obtain c s where c: "map_of (credentials db) u = Some c" "cr_enabled c" "stored_of c = Some s"
    "CheckPassword scrypt sha256 password s"
    and db': "db' = (let db1 = db\<lparr>auth_faults := tl (auth_faults db)\<rparr> in
      if NeedsRehash (st_algo s) then rehash scrypt rnd u password db1 else db1)"
    using assms by (auto simp: Verify_def auth_exec_def Let_def split: if_splits option.splits)
  let ?fresh = "HashPassword scrypt rnd password"
  consider "credentials db' = credentials db" "key_users db' = key_users db"
    | "st_hash ?fresh \<noteq> []" "key_users db' = key_users db"
      "credentials db' = AList.map_entry u (\<lambda>c. put_password ?fresh (cr_enabled c)) (credentials db)"
    by (cases rule: rehash_cases [of scrypt rnd u password "db\<lparr>auth_faults := tl (auth_faults db)\<rparr>"];
      cases "NeedsRehash (st_algo s)") (simp_all add: db' Let_def)
  then show ?thesis
  proof cases
    case 1
    with c show ?thesis by (simp add: Verify_def auth_exec_def)
  next
    case 2
    then have new: "map_of (credentials db') u = Some (put_password ?fresh True)"
      using c by (simp add: map_entry_of)
    have "stored_of (put_password ?fresh True) = Some ?fresh"
      by (simp add: stored_of_def put_password_def)
    with new CheckPassword_HashPassword [OF 2(1)]
    have "fst (Verify scrypt sha256 rnd' u password (db'\<lparr>auth_faults := []\<rparr>))"
      by (simp add: Verify_def auth_exec_def put_password_def)
    with 2 c new show ?thesis by (simp add: map_entry_of put_password_def)
  qed
qed

text \<open>A row of the old scheme, with stand-ins for the two functions.\<close>

theorem Verify_upgrade_witness:
  "let scrypt = (\<lambda>pw salt n r p. Some (CHR ''k'' # pw)); sha = (\<lambda>m. CHR ''s'' # m);
       db = \<lparr>credentials = [(''ann'', \<lparr>cr_hash = Some (ToHex ''s1:pw''), cr_salt = Some ''1'', cr_algo = None, cr_enabled = True\<rparr>)],
         key_users = [], auth_faults = []\<rparr>;
       db' = snd (Verify scrypt sha None ''ann'' ''pw'' db)
   in fst (Verify scrypt sha None ''ann'' ''pw'' (db'\<lparr>auth_faults := []\<rparr>))
      \<and> map_option cr_algo (map_of (credentials db') ''ann'') = Some (Some CurrentAlgo)"
proof -
  let ?scrypt = "\<lambda>pw salt n r p. Some (CHR ''k'' # pw)" and ?sha = "\<lambda>m. CHR ''s'' # m"
  let ?db = "\<lparr>credentials = [(''ann'', \<lparr>cr_hash = Some (ToHex ''s1:pw''), cr_salt = Some ''1'', cr_algo = None, cr_enabled = True\<rparr>)],
         key_users = [], auth_faults = []\<rparr>"
  have db': "Verify ?scrypt ?sha None ''ann'' ''pw'' ?db = (True, ?db\<lparr>credentials :=
      [(''ann'', put_password (HashPassword ?scrypt None ''pw'') True)]\<rparr>)"
    by (simp add: Verify_def auth_exec_def stored_of_def CheckPassword_def ParseScrypt_def LegacySha256_def NeedsRehash_def
        rehash_def Let_def HashPassword_def ScryptHex_def put_password_def)
  from Verify_upgrade [OF db', of None] show ?thesis
    unfolding Let_def db' by (simp add: put_password_def HashPassword_def)
qed

end
