(* ===== verification/QM_Pop3.thy ===== *)
theory QM_Pop3
  imports QM_Expiry QM_Auth
begin

text \<open>
  The POP3 server: \<^verbatim>\<open>src/pop3/src/quackmail_pop3_extension.cpp\<close>. A session is a fold over the lines the client sends;
  each gives the lines of the answer. The store and the table of passwords are part of the state; the current time, the
  formatted date of a message, the password hashes and the outcome of a TLS handshake are arguments.
\<close>

section \<open>The maildrop\<close>

record entry =
  en_num :: int
  en_size :: int
  en_deleted :: bool

record maildrop =
  md_msgs :: "entry list"
  md_last :: int

definition empty_drop :: maildrop where
  "empty_drop = \<lparr>md_msgs = [], md_last = - 1\<rparr>"

definition load_entry :: "(int \<Rightarrow> string) \<Rightarrow> string \<Rightarrow> store \<Rightarrow> int \<Rightarrow> int \<Rightarrow> maildrop \<Rightarrow> maildrop" where
  "load_entry date node st last_read n drp =
     (case LoadMessage st n of None \<Rightarrow> drp
      | Some msg \<Rightarrow>
         let msgs = md_msgs drp @ [\<lparr>en_num = n, en_size = int (length (RenderRfc822 date msg node)), en_deleted = False\<rparr>] in
         drp\<lparr>md_msgs := msgs, md_last := (if n \<le> last_read then int (length msgs) - 1 else md_last drp)\<rparr>)"

definition LoadMaildrop :: "(int \<Rightarrow> string) \<Rightarrow> string \<Rightarrow> string \<Rightarrow> store \<Rightarrow> maildrop \<times> store" where
  "LoadMaildrop date u node st =
     (let (room, st) = GetOrCreateMailRoom u st in
      if room < 0 then (empty_drop, st)
      else let last = st_last_read (GetRoomStats st u room) in
        (fold (load_entry date node st last) (RoomMessages st room ''all'' 0 last) empty_drop, st))"

section \<open>Sending a message\<close>

definition stuff :: "string \<Rightarrow> string" where
  "stuff l = (if l \<noteq> [] \<and> hd l = CHR ''.'' then CHR ''.'' # l else l)"

text \<open>The lines written for the lines of the message; \<open>limit < 0\<close> for no limit on those of the body.\<close>

fun dot_lines :: "bool \<Rightarrow> int \<Rightarrow> int \<Rightarrow> string list \<Rightarrow> string list" where
  "dot_lines in_body n limit [] = []"
| "dot_lines in_body n limit (l # ls) =
     (let l = strip_cr l in
      if in_body \<and> limit \<ge> 0 \<and> n \<ge> limit then []
      else stuff l # dot_lines (in_body \<or> l = []) (if in_body then n + 1 else n) limit ls)"

definition SendDotStuffed :: "string \<Rightarrow> int \<Rightarrow> string list" where
  "SendDotStuffed raw limit = dot_lines False 0 limit (getlines raw) @ [''.'']"

section \<open>The update\<close>

definition drop_flags :: "string \<Rightarrow> int \<Rightarrow> store \<Rightarrow> store" where
  "drop_flags u n st =
     snd (ExecP (\<lambda>s. Some (s\<lparr>msg_flags := filter (\<lambda>(m, v, f). \<not> (m = n \<and> Lower v = Lower u)) (msg_flags s)\<rparr>)) st)"

definition apply_delete :: "int \<Rightarrow> string \<Rightarrow> int \<Rightarrow> entry \<Rightarrow> store \<Rightarrow> store" where
  "apply_delete now u room e st =
     (if en_deleted e then drop_flags u (en_num e) (snd (DeleteMessage now room (en_num e) st)) else st)"

definition ApplyUpdate :: "int \<Rightarrow> string \<Rightarrow> maildrop \<Rightarrow> store \<Rightarrow> store" where
  "ApplyUpdate now u drp st =
     (let (room, st) = GetOrCreateMailRoom u st in
      if room < 0 then st
      else let st = fold (apply_delete now u room) (md_msgs drp) st in
        if md_msgs drp = [] then st else SetLastRead u room (en_num (last (md_msgs drp))) st)"

section \<open>The session\<close>

record pop3_env =
  pe_now :: int
  pe_date :: "int \<Rightarrow> string"
  pe_scrypt :: kdf
  pe_sha256 :: "string \<Rightarrow> string"
  pe_rnd :: "string option"
  pe_starttls :: bool
  pe_handshake :: bool

record pop3 =
  po_pending :: string
  po_user :: string
  po_authed :: bool
  po_drop :: maildrop
  po_tls :: bool
  po_store :: store
  po_auth :: auth_db
  po_node :: string
  po_version :: string

definition start_pop3 :: "bool \<Rightarrow> store \<Rightarrow> auth_db \<Rightarrow> pop3" where
  "start_pop3 tls st db = \<lparr>po_pending = [], po_user = [], po_authed = False, po_drop = empty_drop, po_tls = tls,
     po_store = st, po_auth = db, po_node = store_GetConfig st ''c_nodename'' ''quackcit'',
     po_version = store_GetConfig st ''c_version'' ''QuackCit''\<rparr>"

definition greeting :: string where
  "greeting = ''+OK QuackCit POP3 server ready.''"

definition verb_of :: "string \<Rightarrow> string" where
  "verb_of line = Upper (case find_idx CHR '' '' line of None \<Rightarrow> line | Some sp \<Rightarrow> take sp line)"

definition rest_of :: "string \<Rightarrow> string" where
  "rest_of line = (case find_idx CHR '' '' line of None \<Rightarrow> [] | Some sp \<Rightarrow> drop (sp + 1) line)"

definition atoll :: "string \<Rightarrow> int" where
  "atoll s = fst (strtoll s)"

definition count_of :: "maildrop \<Rightarrow> int" where
  "count_of drp = int (length (md_msgs drp))"

definition entry_at :: "maildrop \<Rightarrow> int \<Rightarrow> entry" where
  "entry_at drp i = md_msgs drp ! nat (i - 1)"

text \<open>\<open>pick\<close>: the entry a 1-based argument names, or the error line.\<close>

definition pick :: "maildrop \<Rightarrow> string \<Rightarrow> string + entry" where
  "pick drp arg =
     (let i = atoll arg in
      if i < 1 \<or> i > count_of drp then Inl ''-ERR No such message.''
      else if en_deleted (entry_at drp i) then Inl ''-ERR Sorry, you deleted that message.''
      else Inr (entry_at drp i))"

definition cmd_user :: "string \<Rightarrow> pop3 \<Rightarrow> string list \<times> pop3" where
  "cmd_user rest s =
     (if po_authed s then ([''-ERR You are already logged in.''], s)
      else let (n, st) = GetOrAssignUserNum rest (po_store s); s = s\<lparr>po_store := st\<rparr> in
        if n \<le> 0 then ([''-ERR No such user.''], s)
        else ([''+OK Password required for '' @ rest], s\<lparr>po_pending := rest\<rparr>))"

definition cmd_pass :: "pop3_env \<Rightarrow> string \<Rightarrow> pop3 \<Rightarrow> string list \<times> pop3" where
  "cmd_pass env rest s =
     (if po_pending s = [] then ([''-ERR That is NOT the password.''], s)
      else let (ok, db) = Verify (pe_scrypt env) (pe_sha256 env) (pe_rnd env) (po_pending s) rest (po_auth s);
               s = s\<lparr>po_auth := db\<rparr>
        in if \<not> ok then ([''-ERR That is NOT the password.''], s)
        else let u = po_pending s;
                 (drp, st) = LoadMaildrop (pe_date env) u (po_node s) (EnsureUserRooms u (po_store s))
          in ([''+OK '' @ u @ '' is logged in ('' @ to_string (count_of drp) @ '' messages)''],
              s\<lparr>po_user := u, po_authed := True, po_drop := drp, po_store := st\<rparr>))"

definition live :: "maildrop \<Rightarrow> entry list" where
  "live drp = filter (\<lambda>e. \<not> en_deleted e) (md_msgs drp)"

definition cmd_stat :: "pop3 \<Rightarrow> string list" where
  "cmd_stat s =
     [''+OK '' @ to_string (int (length (live (po_drop s)))) @ '' '' @ to_string (sum_list (map en_size (live (po_drop s))))]"

definition listing_of :: "bool \<Rightarrow> maildrop \<Rightarrow> string list" where
  "listing_of uidl drp =
     concat (map (\<lambda>(i, e). if en_deleted e then [] else [to_string i @ '' '' @ to_string (if uidl then en_num e else en_size e)])
       (zip [1..count_of drp] (md_msgs drp)))"

definition cmd_list :: "bool \<Rightarrow> string \<Rightarrow> pop3 \<Rightarrow> string list" where
  "cmd_list uidl rest s =
     (let drp = po_drop s; which = atoll rest in
      if which > 0 then
        (if which > count_of drp then [''-ERR no such message, only '' @ to_string (count_of drp) @ '' are here'']
         else if en_deleted (entry_at drp which) then [''-ERR Sorry, you deleted that message.'']
         else let e = entry_at drp which in
           [''+OK '' @ to_string which @ '' '' @ to_string (if uidl then en_num e else en_size e)])
      else (''+OK Here'' @ [CHR 0x27] @ ''s your mail:'') # listing_of uidl drp @ [''.''])"

definition cmd_retr :: "pop3_env \<Rightarrow> bool \<Rightarrow> string \<Rightarrow> pop3 \<Rightarrow> string list" where
  "cmd_retr env is_top rest s =
     (let gap = (if is_top then find_idx CHR '' '' rest else None);
          which_arg = (case gap of None \<Rightarrow> rest | Some g \<Rightarrow> take g rest);
          limit = (if \<not> is_top then - 1 else case gap of None \<Rightarrow> 0 | Some g \<Rightarrow> atoll (drop (g + 1) rest))
      in case pick (po_drop s) which_arg of Inl err \<Rightarrow> [err]
         | Inr e \<Rightarrow> (case LoadMessage (po_store s) (en_num e) of
               None \<Rightarrow> [''-ERR No such message.'']
             | Some msg \<Rightarrow> (''+OK Message '' @ to_string (atoll which_arg) @ '':'')
                 # SendDotStuffed (RenderRfc822 (pe_date env) msg (po_node s)) limit))"

definition mark_deleted :: "int \<Rightarrow> maildrop \<Rightarrow> maildrop" where
  "mark_deleted i drp = drp\<lparr>md_msgs := (md_msgs drp)[nat (i - 1) := (entry_at drp i)\<lparr>en_deleted := True\<rparr>]\<rparr>"

definition cmd_dele :: "string \<Rightarrow> pop3 \<Rightarrow> string list \<times> pop3" where
  "cmd_dele rest s =
     (let i = atoll rest; drp = po_drop s in
      if i < 1 \<or> i > count_of drp then ([''-ERR No such message.''], s)
      else if en_deleted (entry_at drp i) then ([''-ERR You already deleted that message.''], s)
      else ([''+OK Message '' @ to_string i @ '' deleted.''], s\<lparr>po_drop := mark_deleted i drp\<rparr>))"

definition cmd_rset :: "pop3 \<Rightarrow> pop3" where
  "cmd_rset s = s\<lparr>po_drop := (po_drop s)\<lparr>md_msgs := map (\<lambda>e. e\<lparr>en_deleted := False\<rparr>) (md_msgs (po_drop s))\<rparr>\<rparr>"

definition cmd_stls :: "pop3_env \<Rightarrow> pop3 \<Rightarrow> string list \<times> pop3 \<times> bool" where
  "cmd_stls env s =
     (if po_tls s \<or> \<not> pe_starttls env then ([''-ERR TLS not supported here''], s, True)
      else ([''+OK Begin TLS negotiation now''], if pe_handshake env then s\<lparr>po_tls := True\<rparr> else s, pe_handshake env))"

text \<open>One line of the client: the answer, the new state, and whether the session goes on.\<close>

definition pop3_line :: "pop3_env \<Rightarrow> string \<Rightarrow> pop3 \<Rightarrow> string list \<times> pop3 \<times> bool" where
  "pop3_line env line s =
     (let verb = verb_of line; rest = rest_of line; go = (\<lambda>(out, s). (out, s, True)); say = (\<lambda>out. (out, s, True)) in
      if verb = ''NOOP'' then say [''+OK No operation.'']
      else if verb = ''CAPA'' then
        say [''+OK Capability list follows'', ''TOP'', ''USER'', ''UIDL'', ''IMPLEMENTATION '' @ po_version s, ''.'']
      else if verb = ''QUIT'' then
        ([''+OK Goodbye...''],
         if po_authed s then s\<lparr>po_store := ApplyUpdate (pe_now env) (po_user s) (po_drop s) (po_store s)\<rparr> else s, False)
      else if verb = ''USER'' then go (cmd_user rest s)
      else if verb = ''PASS'' then go (cmd_pass env rest s)
      else if verb = ''STLS'' then cmd_stls env s
      else if \<not> po_authed s then say [''-ERR Not logged in.'']
      else if verb = ''STAT'' then say (cmd_stat s)
      else if verb = ''LIST'' \<or> verb = ''UIDL'' then say (cmd_list (verb = ''UIDL'') rest s)
      else if verb = ''RETR'' \<or> verb = ''TOP'' then say (cmd_retr env (verb = ''TOP'') rest s)
      else if verb = ''DELE'' then go (cmd_dele rest s)
      else if verb = ''RSET'' then ([''+OK Reset completed.''], cmd_rset s, True)
      else if verb = ''LAST'' then say [''+OK '' @ to_string (md_last (po_drop s) + 1)]
      else say [''-ERR I'' @ [CHR 0x27] @ ''m afraid I can'' @ [CHR 0x27] @ ''t do that.''])"

text \<open>The loop: the lines of the client until one ends the session or the client is gone.\<close>

fun pop3_session :: "pop3_env \<Rightarrow> string list \<Rightarrow> pop3 \<Rightarrow> string list list \<times> pop3" where
  "pop3_session env [] s = ([], s)"
| "pop3_session env (line # ls) s =
     (case pop3_line env line s of (out, s', goes_on) \<Rightarrow>
        if goes_on then apfst (Cons out) (pop3_session env ls s') else ([out], s'))"

definition HandlePop3 :: "pop3_env \<Rightarrow> bool \<Rightarrow> string list \<Rightarrow> store \<Rightarrow> auth_db \<Rightarrow> string list list \<times> pop3" where
  "HandlePop3 env tls ls st db = apfst (Cons [greeting]) (pop3_session env ls (start_pop3 tls st db))"

section \<open>What a session does to the mail\<close>

lemma LoadMaildrop_mail [simp]: "mail (snd (LoadMaildrop date u node st)) = mail st"
  by (simp add: LoadMaildrop_def Let_def case_prod_beta)

text \<open>Only \<^verbatim>\<open>QUIT\<close> removes anything.\<close>

lemma cmd_user_mail: "mail (po_store (snd (cmd_user rest s))) = mail (po_store s)"
  by (simp add: cmd_user_def Let_def case_prod_beta)

lemma cmd_pass_mail: "mail (po_store (snd (cmd_pass env rest s))) = mail (po_store s)"
  by (simp add: cmd_pass_def Let_def case_prod_beta)

lemma cmd_stls_mail: "mail (po_store (fst (snd (cmd_stls env s)))) = mail (po_store s)"
  by (simp add: cmd_stls_def)

lemma cmd_dele_mail: "mail (po_store (snd (cmd_dele rest s))) = mail (po_store s)"
  by (simp add: cmd_dele_def Let_def)

lemma cmd_rset_mail: "mail (po_store (cmd_rset s)) = mail (po_store s)"
  by (simp add: cmd_rset_def)

lemmas cmd_mail = cmd_user_mail cmd_pass_mail cmd_stls_mail cmd_dele_mail cmd_rset_mail

text \<open>A property of every branch of \<open>pop3_line\<close>.\<close>

lemma pop3_line_branches:
  assumes "\<And>out. out = [''+OK No operation.'']
      \<or> out = [''+OK Capability list follows'', ''TOP'', ''USER'', ''UIDL'', ''IMPLEMENTATION '' @ po_version s, ''.'']
      \<or> out = [''-ERR Not logged in.''] \<or> out = cmd_stat s \<or> (\<exists>b. out = cmd_list b (rest_of line) s)
      \<or> (\<exists>b. out = cmd_retr env b (rest_of line) s) \<or> out = [''+OK '' @ to_string (md_last (po_drop s) + 1)]
      \<or> out = [''-ERR I'' @ [CHR 0x27] @ ''m afraid I can'' @ [CHR 0x27] @ ''t do that.''] \<Longrightarrow> P (out, s, True)"
    and "verb_of line = ''QUIT'' \<Longrightarrow> P ([''+OK Goodbye...''],
         if po_authed s then s\<lparr>po_store := ApplyUpdate (pe_now env) (po_user s) (po_drop s) (po_store s)\<rparr> else s, False)"
    and "P (case cmd_user (rest_of line) s of (out, s) \<Rightarrow> (out, s, True))"
    and "P (case cmd_pass env (rest_of line) s of (out, s) \<Rightarrow> (out, s, True))"
    and "P (cmd_stls env s)"
    and "po_authed s \<Longrightarrow> P (case cmd_dele (rest_of line) s of (out, s) \<Rightarrow> (out, s, True))"
    and "po_authed s \<Longrightarrow> P ([''+OK Reset completed.''], cmd_rset s, True)"
  shows "P (pop3_line env line s)"
proof -
  have cond: "(c \<Longrightarrow> P x) \<Longrightarrow> (\<not> c \<Longrightarrow> P y) \<Longrightarrow> P (if c then x else y)" for c x y by simp
  show ?thesis
    unfolding pop3_line_def Let_def
    by (intro cond assms(1)) (blast intro: assms(2-7))+
qed

lemma pop3_line_mail:
  assumes "verb_of line \<noteq> ''QUIT''" and "pop3_line env line s = (out, s', b)"
  shows "mail (po_store s') = mail (po_store s)"
proof -
  have "mail (po_store (fst (snd (pop3_line env line s)))) = mail (po_store s)"
    by (rule pop3_line_branches) (use assms(1) in \<open>simp_all add: cmd_mail case_prod_beta\<close>)
  with assms(2) show ?thesis by simp
qed

lemma pop3_session_mail:
  "\<forall>l\<in>set ls. verb_of l \<noteq> ''QUIT'' \<Longrightarrow> mail (po_store (snd (pop3_session env ls s))) = mail (po_store s)"
proof (induction ls arbitrary: s)
  case (Cons l ls)
  obtain out s' b where l: "pop3_line env l s = (out, s', b)" by (cases "pop3_line env l s") auto
  with Cons pop3_line_mail [OF _ l] show ?case by simp
qed simp

text \<open>Removing a message: its row stays (the housekeeping purges it), its place in the room goes.\<close>

lemma DeleteMessage_mail:
  "messages (snd (DeleteMessage now room n st)) = messages st \<and>
   room_msgs (snd (DeleteMessage now room n st)) \<in> {room_msgs st, delete_where (\<lambda>p. p = (room, n)) (room_msgs st)}"
  by (auto simp: DeleteMessage_def Unlink_def drop_pointer_def bury_def msg_nextval_def nextval_def ExecP_def Let_def
    split: option.splits)

lemma drop_flags_mail [simp]: "messages (drop_flags u n st) = messages st" "room_msgs (drop_flags u n st) = room_msgs st"
  by (simp_all add: drop_flags_def ExecP_def Let_def)

lemma SetLastRead_mail [simp]: "messages (SetLastRead u n m st) = messages st" "room_msgs (SetLastRead u n m st) = room_msgs st"
  by (simp_all add: SetLastRead_def ExecP_def Let_def)

definition marked :: "int \<Rightarrow> entry list \<Rightarrow> (int \<times> int) set" where
  "marked room es = (\<lambda>e. (room, en_num e)) ` set (filter en_deleted es)"

lemma apply_deletes_mail:
  "messages (fold (apply_delete now u room) es st) = messages st \<and>
   set (room_msgs (fold (apply_delete now u room) es st)) \<subseteq> set (room_msgs st) \<and>
   set (room_msgs st) - set (room_msgs (fold (apply_delete now u room) es st)) \<subseteq> marked room es"
proof (induction es arbitrary: st)
  case (Cons e es)
  have "messages (apply_delete now u room e st) = messages st
      \<and> set (room_msgs (apply_delete now u room e st)) \<subseteq> set (room_msgs st)
      \<and> set (room_msgs st) - set (room_msgs (apply_delete now u room e st)) \<subseteq> marked room [e]"
    using DeleteMessage_mail [of now room "en_num e" st]
    by (auto simp: apply_delete_def delete_where_def marked_def)
  with Cons.IH [of "apply_delete now u room e st"] show ?case
    by (auto simp: marked_def)
qed simp

lemma ApplyUpdate_mail:
  "messages (ApplyUpdate now u drp st) = messages st \<and>
   set (room_msgs (ApplyUpdate now u drp st)) \<subseteq> set (room_msgs st) \<and>
   set (room_msgs st) - set (room_msgs (ApplyUpdate now u drp st)) \<subseteq> marked (fst (GetOrCreateMailRoom u st)) (md_msgs drp)"
  using mail_room_mail [of u st] apply_deletes_mail [of now u "fst (GetOrCreateMailRoom u st)" "md_msgs drp" "snd (GetOrCreateMailRoom u st)"]
  by (auto simp: ApplyUpdate_def Let_def case_prod_beta mail_def)

text \<open>C7. No line of a client loses mail but a \<^verbatim>\<open>QUIT\<close>, which takes out of the user's mail room only messages that were
  marked with \<^verbatim>\<open>DELE\<close>; no line adds a message, and no row of a message is lost.\<close>

theorem pop3_line_safe:
  "let s' = fst (snd (pop3_line env line s)); st = po_store s; st' = po_store s' in
     messages st' = messages st \<and> set (room_msgs st') \<subseteq> set (room_msgs st) \<and>
     set (room_msgs st) - set (room_msgs st') \<subseteq>
       (if verb_of line = ''QUIT'' \<and> po_authed s
        then marked (fst (GetOrCreateMailRoom (po_user s) st)) (md_msgs (po_drop s)) else {})"
proof (cases "verb_of line = ''QUIT''")
  case True
  have "fst (snd (pop3_line env line s)) =
      (if po_authed s then s\<lparr>po_store := ApplyUpdate (pe_now env) (po_user s) (po_drop s) (po_store s)\<rparr> else s)"
    by (simp add: pop3_line_def Let_def True)
  with True ApplyUpdate_mail [of "pe_now env" "po_user s" "po_drop s" "po_store s"] show ?thesis
    by (simp add: Let_def)
next
  case False
  obtain out s' b where l: "pop3_line env line s = (out, s', b)" by (cases "pop3_line env line s") auto
  from pop3_line_mail [OF False l] l False show ?thesis by (simp add: mail_def)
qed

section \<open>Answers\<close>

definition answered :: "string list \<Rightarrow> bool" where
  "answered out = (out \<noteq> [] \<and> (take 3 (hd out) = ''+OK'' \<or> take 4 (hd out) = ''-ERR''))"

lemma answered_simps [simp]: "answered (l # ls) = (take 3 l = ''+OK'' \<or> take 4 l = ''-ERR'')"
  by (simp add: answered_def)

lemma pop3_line_answered: "answered (fst (pop3_line env line s))"
proof (rule pop3_line_branches)
  show "answered (fst (out, s, True))"
    if "out = [''+OK No operation.'']
      \<or> out = [''+OK Capability list follows'', ''TOP'', ''USER'', ''UIDL'', ''IMPLEMENTATION '' @ po_version s, ''.'']
      \<or> out = [''-ERR Not logged in.''] \<or> out = cmd_stat s \<or> (\<exists>b. out = cmd_list b (rest_of line) s)
      \<or> (\<exists>b. out = cmd_retr env b (rest_of line) s) \<or> out = [''+OK '' @ to_string (md_last (po_drop s) + 1)]
      \<or> out = [''-ERR I'' @ [CHR 0x27] @ ''m afraid I can'' @ [CHR 0x27] @ ''t do that.'']" for out
  proof -
    have "answered (cmd_stat s)" by (simp add: cmd_stat_def)
    moreover have "answered (cmd_list b (rest_of line) s)" for b by (simp add: cmd_list_def Let_def)
    moreover have "answered [err]" if "pick drp arg = Inl err" for drp arg err
      using that by (auto simp: pick_def Let_def split: if_splits)
    then have "answered (cmd_retr env b (rest_of line) s)" for b
      by (simp add: cmd_retr_def Let_def split: sum.split option.split)
    ultimately show ?thesis using that by (elim disjE exE) (simp_all del: answered_simps, simp_all)
  qed
qed (simp_all add: cmd_user_def cmd_pass_def cmd_stls_def cmd_dele_def Let_def case_prod_beta)

section \<open>A deletion takes place\<close>

lemma DeleteMessage_gone:
  assumes "faults st = []"
  shows "(room, n) \<notin> set (room_msgs (snd (DeleteMessage now room n st))) \<and> faults (snd (DeleteMessage now room n st)) = []"
proof (cases "MessageInRoom st room n")
  case True
  from DeleteMessage_no_faults [OF assms True, of now] assms show ?thesis by auto
next
  case False
  with assms show ?thesis by (simp add: DeleteMessage_def MessageInRoom_def)
qed

lemma apply_delete_no_faults: "faults st = [] \<Longrightarrow> faults (apply_delete now u room e st) = []"
  by (simp add: apply_delete_def drop_flags_def ExecP_no_faults DeleteMessage_gone)

lemma apply_deletes_gone:
  assumes "faults st = []" and "e \<in> set es" and "en_deleted e"
  shows "(room, en_num e) \<notin> set (room_msgs (fold (apply_delete now u room) es st))"
  using assms
proof (induction es arbitrary: st)
  case (Cons d es)
  have rest: "set (room_msgs (fold (apply_delete now u room) es (apply_delete now u room d st)))
      \<subseteq> set (room_msgs (apply_delete now u room d st))"
    using apply_deletes_mail [of now u room es] by blast
  show ?case
  proof (cases "e = d")
    case True
    have "(room, en_num d) \<notin> set (room_msgs (apply_delete now u room d st))"
      using True Cons.prems DeleteMessage_gone [OF Cons.prems(1), of room "en_num d" now] by (simp add: apply_delete_def)
    with rest True show ?thesis by auto
  next
    case False
    with Cons.prems Cons.IH [OF apply_delete_no_faults [OF Cons.prems(1), of now u room d]] show ?thesis by simp
  qed
qed simp

lemma CreateRoom_no_faults: "faults st = [] \<Longrightarrow> faults (snd (CreateRoom d f fl pass owner st)) = []"
  by (auto simp: CreateRoom_def nextval_def ExecP_def Let_def split: option.splits)

lemma user_room_no_faults: "faults st = [] \<Longrightarrow> faults (snd (GetOrCreateMailRoom u st)) = []"
proof -
  assume "faults st = []"
  note none = assign_no_faults [OF this, of u]
  note CreateRoom_no_faults [OF none]
  with none show ?thesis
    by (auto simp: GetOrCreateMailRoom_def GetOrCreateUserRoom_def Let_def case_prod_beta split: option.split sum.split)
qed

definition dele_line :: "int \<Rightarrow> string" where
  "dele_line i = ''DELE '' @ to_string i"

lemma verb_words: "verb_of (dele_line i) = ''DELE''" "rest_of (dele_line i) = to_string i" "verb_of ''QUIT'' = ''QUIT''"
  by (simp_all add: dele_line_def verb_of_def rest_of_def Upper_def toupper_def)

lemma pop3_line_dele:
  "po_authed s \<Longrightarrow> pop3_line env (dele_line i) s = (case cmd_dele (to_string i) s of (out, s) \<Rightarrow> (out, s, True))"
  by (simp add: pop3_line_def Let_def verb_words)

lemma atoll_to_string: "- (2 ^ 63) \<le> i \<Longrightarrow> i < 2 ^ 63 \<Longrightarrow> atoll (to_string i) = i"
  using strtoll_to_string [of i "[]"] by (simp add: atoll_def)

lemma mark_deleted_entry:
  assumes "1 \<le> i" and "i \<le> count_of drp"
  shows "(entry_at drp i)\<lparr>en_deleted := True\<rparr> \<in> set (md_msgs (mark_deleted i drp))"
  using assms by (auto simp: mark_deleted_def count_of_def intro!: set_update_memI)

text \<open>C6. A message that the client deletes is gone from its mail room when it quits: after \<^verbatim>\<open>DELE\<close> of any message of the
  maildrop and \<^verbatim>\<open>QUIT\<close>, with a database that takes the statements, the session has ended and the message is no longer
  filed in the room.\<close>

theorem pop3_delete_happens:
  assumes "po_authed s" and "faults (po_store s) = []" and "fst (GetOrCreateMailRoom (po_user s) (po_store s)) = room" and "0 \<le> room"
    and "1 \<le> i" and "i \<le> count_of (po_drop s)" and "i < 2 ^ 63"
  shows "(room, en_num (entry_at (po_drop s) i))
      \<notin> set (room_msgs (po_store (snd (pop3_session env [dele_line i, ''QUIT''] s))))
    \<and> length (fst (pop3_session env [dele_line i, ''QUIT''] s)) = 2"
proof -
  let ?e = "entry_at (po_drop s) i"
  obtain out drp e where d: "pop3_line env (dele_line i) s = (out, s\<lparr>po_drop := drp\<rparr>, True)"
    and e: "e \<in> set (md_msgs drp)" "en_deleted e" "en_num e = en_num ?e"
  proof (cases "en_deleted ?e")
    case True
    have "?e \<in> set (md_msgs (po_drop s))"
      using assms(5,6) by (auto simp: entry_at_def count_of_def)
    with True show thesis
      using that [of "[''-ERR You already deleted that message.'']" "po_drop s" ?e] assms
      by (simp add: pop3_line_dele Let_def cmd_dele_def atoll_to_string)
  next
    case False
    with mark_deleted_entry [OF assms(5,6)] show thesis
      using that [of _ "mark_deleted i (po_drop s)" "?e\<lparr>en_deleted := True\<rparr>"] assms
      by (simp add: pop3_line_dele Let_def cmd_dele_def atoll_to_string)
  qed
  have q: "pop3_line env ''QUIT'' (s\<lparr>po_drop := drp\<rparr>) = ([''+OK Goodbye...''],
      s\<lparr>po_drop := drp, po_store := ApplyUpdate (pe_now env) (po_user s) drp (po_store s)\<rparr>, False)"
    using assms(1) by (simp add: pop3_line_def Let_def verb_words)
  have "(room, en_num e) \<notin> set (room_msgs (ApplyUpdate (pe_now env) (po_user s) drp (po_store s)))"
    using apply_deletes_gone [OF user_room_no_faults [OF assms(2)] e(1,2), of room "pe_now env" "po_user s" "po_user s"] assms(3,4)
    using e(1) by (cases "md_msgs drp") (simp_all add: ApplyUpdate_def Let_def case_prod_beta)
  then show ?thesis by (simp add: d q e(3) [symmetric] del: append.simps)
qed

definition sample_env :: pop3_env where
  "sample_env = \<lparr>pe_now = 0, pe_date = (\<lambda>_. []), pe_scrypt = (\<lambda>pw salt n r p. None), pe_sha256 = id, pe_rnd = None,
     pe_starttls = False, pe_handshake = False\<rparr>"

theorem pop3_delete_happens_witness:
  "let s = (start_pop3 True full_store \<lparr>credentials = [], key_users = [], auth_faults = []\<rparr>)
       \<lparr>po_user := ''ann'', po_authed := True, po_drop := \<lparr>md_msgs = [\<lparr>en_num = 1, en_size = 7, en_deleted = False\<rparr>], md_last = - 1\<rparr>\<rparr>
   in (100, 1) \<in> set (room_msgs (po_store s))
      \<and> (100, 1) \<notin> set (room_msgs (po_store (snd (pop3_session sample_env [dele_line 1, ''QUIT''] s))))"
proof -
  have room: "fst (GetOrCreateMailRoom ''ann'' full_store) = 100"
    by (simp add: GetOrCreateMailRoom_def full_store_def GetOrCreateUserRoom_def CreateRoom_def IsReservedRoomName_def room_key_def
        MailboxRoomName_def digits_of.simps run_store)
  show ?thesis
    using pop3_delete_happens [of "(start_pop3 True full_store \<lparr>credentials = [], key_users = [], auth_faults = []\<rparr>)
       \<lparr>po_user := ''ann'', po_authed := True, po_drop := \<lparr>md_msgs = [\<lparr>en_num = 1, en_size = 7, en_deleted = False\<rparr>], md_last = - 1\<rparr>\<rparr>"
       100 1 sample_env]
    by (simp add: start_pop3_def full_store_tables full_store_msgs room count_of_def entry_at_def Let_def)
qed

section \<open>What the client reads\<close>

text \<open>The client's side of RFC 1939: the lines before the one with a dot alone, a leading dot removed.\<close>

definition undot :: "string \<Rightarrow> string" where
  "undot l = (if l \<noteq> [] \<and> hd l = CHR ''.'' then tl l else l)"

definition client_lines :: "string list \<Rightarrow> string list" where
  "client_lines out = map undot (takeWhile (\<lambda>l. l \<noteq> ''.'') out)"

lemma undot_stuff [simp]: "undot (stuff l) = l" "stuff l \<noteq> ''.''"
  by (auto simp: undot_def stuff_def)

lemma client_dot_lines: "client_lines (dot_lines b n limit ls @ [''.'']) = map undot (dot_lines b n limit ls)"
  by (induction b n limit ls rule: dot_lines.induct) (auto simp: client_lines_def Let_def)

lemma dot_lines_all: "limit < 0 \<Longrightarrow> map undot (dot_lines b n limit ls) = map strip_cr ls"
  by (induction b n limit ls rule: dot_lines.induct) (auto simp: Let_def)

lemma dot_lines_header:
  "list_all (\<lambda>l. strip_cr l \<noteq> []) hs \<Longrightarrow>
   map undot (dot_lines False 0 limit (hs @ ls)) = map strip_cr hs @ map undot (dot_lines False 0 limit ls)"
  by (induction hs) (auto simp: Let_def)

lemma dot_lines_body:
  "0 \<le> limit \<Longrightarrow> map undot (dot_lines True n limit ls) = map strip_cr (take (nat (limit - n)) ls)"
proof (induction ls arbitrary: n)
  case (Cons l ls)
  show ?case
  proof (cases "n < limit")
    case True
    then have "nat (limit - n) = Suc (nat (limit - (n + 1)))" by simp
    with Cons True show ?thesis by (simp add: Let_def)
  qed (use Cons in simp)
qed simp

text \<open>A client reads the message that was sent: of \<^verbatim>\<open>RETR\<close> every line of it, and of \<^verbatim>\<open>TOP\<close> the whole header, the
  blank line and as many lines of the body as it asked for, whatever dots the lines begin with.\<close>

theorem SendDotStuffed_roundtrip:
  assumes "getlines raw = hs @ blank # body" and "list_all (\<lambda>l. strip_cr l \<noteq> []) hs" and "strip_cr blank = []" and "0 \<le> k"
  shows "client_lines (SendDotStuffed raw (- 1)) = map strip_cr (getlines raw)
    \<and> client_lines (SendDotStuffed raw k) = map strip_cr (hs @ blank # take (nat k) body)"
proof -
  have "map undot (dot_lines False 0 k (blank # body)) = [] # map undot (dot_lines True 0 k body)"
    using assms(3) by (simp add: Let_def undot_def stuff_def)
  with assms show ?thesis
    by (simp add: SendDotStuffed_def client_dot_lines dot_lines_all dot_lines_header dot_lines_body)
qed

theorem SendDotStuffed_roundtrip_witness:
  "client_lines (SendDotStuffed (''A: b'' @ crlf @ crlf @ ''.x'' @ crlf @ ''.'' @ crlf @ ''y'' @ crlf) 2) = [''A: b'', [], ''.x'', ''.'']"
proof -
  have l: "getlines (''A: b'' @ crlf @ crlf @ ''.x'' @ crlf @ ''.'' @ crlf @ ''y'' @ crlf)
      = [''A: b'' @ [CR]] @ [CR] # [''.x'' @ [CR], ''.'' @ [CR], ''y'' @ [CR]]"
    by (simp add: getlines_def)
  from SendDotStuffed_roundtrip [OF l, of 2] show ?thesis
    by (simp add: strip_cr_def numeral_2_eq_2)
qed

section \<open>The store stays well formed\<close>

lemma drop_flags_ok: "store_ok st \<Longrightarrow> store_ok (drop_flags u n st)"
  by (auto simp: drop_flags_def ExecP_def Let_def store_ok_def keys_ok_def users_ok_def rooms_ok_def msgs_ok_def unique_key_def
    intro: distinct_map_filter distinct_filter)

lemma apply_deletes_ok: "store_ok st \<Longrightarrow> store_ok (fold (apply_delete now u room) es st)"
  by (induction es arbitrary: st) (auto simp: apply_delete_def intro!: drop_flags_ok DeleteMessage_ok)

lemma ApplyUpdate_ok: "store_ok st \<Longrightarrow> store_ok (ApplyUpdate now u drp st)"
  using GetOrCreateUserRoom_ok [of st u "''Mail''"]
  by (auto simp: ApplyUpdate_def Let_def case_prod_beta GetOrCreateMailRoom_def intro!: SetLastRead_ok apply_deletes_ok)

lemma LoadMaildrop_ok: "store_ok st \<Longrightarrow> store_ok (snd (LoadMaildrop date u node st))"
  by (simp add: LoadMaildrop_def Let_def case_prod_beta GetOrCreateMailRoom_def GetOrCreateUserRoom_ok)

lemma pop3_line_ok: "store_ok (po_store s) \<Longrightarrow> store_ok (po_store (fst (snd (pop3_line env line s))))"
  by (rule pop3_line_branches)
    (simp_all add: cmd_user_def cmd_pass_def cmd_stls_def cmd_dele_def cmd_rset_def Let_def case_prod_beta
      ApplyUpdate_ok LoadMaildrop_ok EnsureUserRooms_ok GetOrAssignUserNum_ok)



end
