(* ===== verification/QM_Contentline.thy ===== *)
theory QM_Contentline
  imports QM_CitMsg
begin

text \<open>
  The line grammar of contact cards, notes and calendars: \<^verbatim>\<open>src/core/src/contentline.cpp\<close>. Lines are folded at 75
  bytes without cutting a UTF-8 character, values escape four characters, and a line is a group, a name,
  parameters and a value. The lemmas are the inverses: unfolding a folded text, splitting what was joined,
  parsing what was formatted.
\<close>

section \<open>Folding\<close>

definition unfold_step :: "string list \<Rightarrow> string \<Rightarrow> string list" where
  "unfold_step lines piece =
     (let line = strip_cr piece in
      if line \<noteq> [] \<and> is_blank (hd line) \<and> lines \<noteq> [] then butlast lines @ [last lines @ tl line]
      else lines @ [line])"

definition Unfold :: "string \<Rightarrow> string list" where
  "Unfold s = foldl unfold_step [] (split_on LF s)"

text \<open>A byte \<^verbatim>\<open>10xxxxxx\<close> continues a UTF-8 character.\<close>

definition utf8_cont :: "char \<Rightarrow> bool" where
  "utf8_cont c = (byte c div 64 = 2)"

fun char_boundary :: "string \<Rightarrow> nat \<Rightarrow> nat" where
  "char_boundary s 0 = 0"
| "char_boundary s (Suc n) = (if n > 0 \<and> utf8_cont (s ! Suc n) then char_boundary s n else Suc n)"

definition fold_take :: "bool \<Rightarrow> string \<Rightarrow> nat" where
  "fold_take first s =
     (let n = min (if first then 75 else 74) (length s) in if n < length s then char_boundary s n else n)"

lemma char_boundary_bounds: "char_boundary s n \<le> n" "0 < n \<Longrightarrow> 0 < char_boundary s n"
  by (induction n) (auto simp: le_Suc_eq)

lemma fold_take_bounds: "fold_take first s \<le> length s" "fold_take first s \<le> (if first then 75 else 74)"
  "s \<noteq> [] \<Longrightarrow> 0 < fold_take first s"
  using char_boundary_bounds [where s = s and n = 75] char_boundary_bounds [where s = s and n = 74] by (auto simp: fold_take_def Let_def min_def)

function fold_pieces :: "bool \<Rightarrow> string \<Rightarrow> string" where
  "fold_pieces first s =
     (if s = [] then []
      else let n = fold_take first s in
        (if first then [] else '' '') @ take n s @ crlf @ fold_pieces False (drop n s))"
  by pat_completeness auto
termination fold_pieces
  by (relation "measure (\<lambda>(first, s). length s)") (use fold_take_bounds in auto)

declare fold_pieces.simps [simp del]

definition AppendFolded :: "string \<Rightarrow> string \<Rightarrow> string" where
  "AppendFolded out line = out @ (if line = [] then crlf else fold_pieces True line)"

section \<open>Values\<close>

fun Unescape :: "string \<Rightarrow> string" where
  "Unescape [] = []"
| "Unescape [c] = [c]"
| "Unescape (c # n # cs) =
     (if c = BACKSLASH then
        (if n = CHR ''n'' \<or> n = CHR ''N'' then LF # Unescape cs
         else if n = CHR '','' \<or> n = CHR '';'' \<or> n = BACKSLASH then n # Unescape cs
         else BACKSLASH # n # Unescape cs)
      else c # Unescape (n # cs))"

definition escape_char :: "char \<Rightarrow> string" where
  "escape_char c =
     (if c = BACKSLASH then [BACKSLASH, BACKSLASH] else if c = CHR '';'' then [BACKSLASH, CHR '';'']
      else if c = CHR '','' then [BACKSLASH, CHR '','']
      else if c = LF then [BACKSLASH, CHR ''n''] else if c = CR then [] else [c])"

definition Escape :: "string \<Rightarrow> string" where
  "Escape s = concat (map escape_char s)"

fun split_raw :: "char \<Rightarrow> string \<Rightarrow> string \<Rightarrow> string list" where
  "split_raw sep cur [] = [cur]"
| "split_raw sep cur [c] = (if c = sep then [cur, []] else [cur @ [c]])"
| "split_raw sep cur (c # n # cs) =
     (if c = BACKSLASH then split_raw sep (cur @ [c, n]) cs
      else if c = sep then cur # split_raw sep [] (n # cs)
      else split_raw sep (cur @ [c]) (n # cs))"

definition SplitRaw :: "string \<Rightarrow> char \<Rightarrow> string list" where
  "SplitRaw s sep = split_raw sep [] s"

definition SplitEscaped :: "string \<Rightarrow> char \<Rightarrow> string list" where
  "SplitEscaped s sep = map Unescape (SplitRaw s sep)"

section \<open>Lines\<close>

record line =
  li_group :: string
  li_name :: string
  li_params :: "(string \<times> string) list"
  li_value :: string

text \<open>The text before and after the first colon outside quotes.\<close>

fun split_colon :: "bool \<Rightarrow> string \<Rightarrow> (string \<times> string) option" where
  "split_colon quoted [] = None"
| "split_colon quoted (c # cs) =
     (if c = DQUOTE then map_option (apfst (Cons c)) (split_colon (\<not> quoted) cs)
      else if c = CHR '':'' \<and> \<not> quoted then Some ([], cs)
      else map_option (apfst (Cons c)) (split_colon quoted cs))"

definition cut_group :: "bool \<Rightarrow> string \<Rightarrow> string \<times> string" where
  "cut_group allow_group head =
     (case (find_idx (CHR ''.'') head, find_idx (CHR '';'') head) of
        (Some dot, semi) \<Rightarrow>
          if allow_group \<and> (case semi of None \<Rightarrow> True | Some k \<Rightarrow> dot < k) then (take dot head, drop (dot + 1) head)
          else ([], head)
      | (None, _) \<Rightarrow> ([], head))"

fun split_params :: "bool \<Rightarrow> string \<Rightarrow> string \<Rightarrow> string list" where
  "split_params quoted cur [] = [cur]"
| "split_params quoted cur (c # cs) =
     (if c = DQUOTE then split_params (\<not> quoted) cur cs
      else if c = CHR '';'' \<and> \<not> quoted then cur # split_params quoted [] cs
      else split_params quoted (cur @ [c]) cs)"

definition param_of :: "string \<Rightarrow> (string \<times> string) list" where
  "param_of part =
     (let kv = Trim part in
      if kv = [] then []
      else case find_idx (CHR ''='') kv of
             None \<Rightarrow> [(''TYPE'', Upper kv)]
           | Some eq \<Rightarrow> [(Upper (Trim (take eq kv)), Trim (drop (eq + 1) kv))])"

definition ParseLine :: "string \<Rightarrow> bool \<Rightarrow> line option" where
  "ParseLine s allow_group =
     (case split_colon False s of
        None \<Rightarrow> None
      | Some (head, val) \<Rightarrow>
          (case cut_group allow_group head of (grp, head) \<Rightarrow>
             (let parts = split_params False [] head in
              if Trim (hd parts) = [] then None
              else Some \<lparr>li_group = grp, li_name = Upper (Trim (hd parts)),
                         li_params = concat (map param_of (tl parts)), li_value = val\<rparr>)))"

definition format_param :: "string \<times> string \<Rightarrow> string" where
  "format_param kv =
     '';'' @ fst kv @ ''='' @
     (if CHR '':'' \<in> set (snd kv) \<or> CHR '';'' \<in> set (snd kv) then [DQUOTE] @ snd kv @ [DQUOTE] else snd kv)"

definition FormatLine :: "line \<Rightarrow> string" where
  "FormatLine l =
     (if li_group l = [] then [] else li_group l @ ''.'') @ li_name l
     @ concat (map format_param (li_params l)) @ '':'' @ li_value l"


section \<open>Unfolding inverts folding\<close>

lemma split_on_line: "LF \<notin> set p \<Longrightarrow> split_on LF (p @ LF # rest) = p # split_on LF rest"
  by (simp add: split_on_append)

lemma strip_cr_snoc [simp]: "strip_cr (s @ [CR]) = s"
  by (simp add: strip_cr_def)

lemma foldl_line: "LF \<notin> set p \<Longrightarrow>
  foldl unfold_step ls (split_on LF (p @ CR # LF # rest)) = foldl unfold_step (unfold_step ls (p @ [CR])) (split_on LF rest)"
  using split_on_line [of "p @ [CR]" rest] by simp

lemma unfold_more:
  "LF \<notin> set s \<Longrightarrow>
   foldl unfold_step (ls @ [l]) (split_on LF (fold_pieces False s @ rest)) = foldl unfold_step (ls @ [l @ s]) (split_on LF rest)"
proof (induction "length s" arbitrary: s l rule: less_induct)
  case less
  show ?case
  proof (cases "s = []")
    case True
    then show ?thesis by (simp add: fold_pieces.simps)
  next
    case False
    let ?n = "fold_take False s"
    have free: "LF \<notin> set (CHR '' '' # take ?n s)" "LF \<notin> set (drop ?n s)"
      using less.prems by (auto dest: in_set_takeD in_set_dropD)
    have step: "unfold_step (ls @ [l]) (CHR '' '' # take ?n s @ [CR]) = ls @ [l @ take ?n s]"
      using strip_cr_snoc [of "CHR '' '' # take ?n s"] by (simp add: unfold_step_def is_blank_def Let_def)
    have "foldl unfold_step (ls @ [l]) (split_on LF (fold_pieces False s @ rest))
        = foldl unfold_step (ls @ [l @ take ?n s]) (split_on LF (fold_pieces False (drop ?n s) @ rest))"
      using False foldl_line [OF free(1), of "ls @ [l]" "fold_pieces False (drop ?n s) @ rest"] step
      by (subst fold_pieces.simps) (simp add: Let_def)
    also have "\<dots> = foldl unfold_step (ls @ [(l @ take ?n s) @ drop ?n s]) (split_on LF rest)"
      by (rule less.hyps) (use False free fold_take_bounds(3) [of s False] in auto)
    finally show ?thesis by simp
  qed
qed

lemma unfold_AppendFolded:
  assumes "LF \<notin> set l" "l = [] \<or> \<not> is_blank (hd l) \<or> ls = []"
  shows "foldl unfold_step ls (split_on LF (AppendFolded [] l @ rest)) = foldl unfold_step (ls @ [l]) (split_on LF rest)"
proof (cases "l = []")
  case True
  then show ?thesis using foldl_line [of "[]" ls rest] by (simp add: AppendFolded_def unfold_step_def strip_cr_def)
next
  case False
  let ?n = "fold_take True l"
  have pos: "0 < ?n" using False fold_take_bounds(3) by blast
  have free: "LF \<notin> set (take ?n l)" "LF \<notin> set (drop ?n l)"
    using assms(1) by (auto dest: in_set_takeD in_set_dropD)
  have ne: "take ?n l \<noteq> []" "hd (take ?n l) = hd l" using False pos by simp_all
  have step: "unfold_step ls (take ?n l @ [CR]) = ls @ [take ?n l]"
    using ne assms(2) False by (auto simp: unfold_step_def Let_def)
  have "foldl unfold_step ls (split_on LF (AppendFolded [] l @ rest))
      = foldl unfold_step (ls @ [take ?n l]) (split_on LF (fold_pieces False (drop ?n l) @ rest))"
    using False foldl_line [OF free(1), of ls "fold_pieces False (drop ?n l) @ rest"] step
    by (subst AppendFolded_def, subst fold_pieces.simps) (simp add: Let_def)
  also have "\<dots> = foldl unfold_step (ls @ [take ?n l @ drop ?n l]) (split_on LF rest)"
    by (rule unfold_more [OF free(2)])
  finally show ?thesis by simp
qed

lemma unfold_AppendFolded_all:
  assumes "list_all (\<lambda>l. LF \<notin> set l \<and> (l = [] \<or> \<not> is_blank (hd l))) lines"
  shows "foldl unfold_step ls (split_on LF (concat (map (AppendFolded []) lines))) = ls @ lines @ [[]]"
  using assms
proof (induction lines arbitrary: ls)
  case (Cons l lines)
  then have "LF \<notin> set l" "l = [] \<or> \<not> is_blank (hd l) \<or> ls = []" by auto
  from unfold_AppendFolded [OF this, of "concat (map (AppendFolded []) lines)"] Cons show ?case by simp
qed (simp add: unfold_step_def strip_cr_def)

lemma Unfold_fold:
  assumes "list_all (\<lambda>l. LF \<notin> set l \<and> (l = [] \<or> \<not> is_blank (hd l))) lines"
  shows "Unfold (concat (map (AppendFolded []) lines)) = lines @ [[]]"
  using unfold_AppendFolded_all [OF assms, of "[]"] by (simp add: Unfold_def)

text \<open>The lines written are at most 75 bytes long, and none but one of a single byte ends within a character.\<close>

lemma fold_pieces_short:
  "LF \<notin> set s \<Longrightarrow> list_all (\<lambda>p. length p \<le> 76) (split_on LF (fold_pieces first s))"
proof (induction first s rule: fold_pieces.induct)
  case (1 first s)
  show ?case
  proof (cases "s = []")
    case False
    let ?n = "fold_take first s"
    let ?p = "(if first then [] else '' '') @ take ?n s @ [CR]"
    have "LF \<notin> set ?p" using "1.prems" by (auto dest: in_set_takeD)
    moreover have "length ?p \<le> 76" using fold_take_bounds(2) [of first s] by (auto simp: min_def)
    moreover have "list_all (\<lambda>p. length p \<le> 76) (split_on LF (fold_pieces False (drop ?n s)))"
      using "1.IH" [OF False refl] "1.prems" by (auto dest: in_set_dropD)
    ultimately show ?thesis
      using False split_on_line [of ?p "fold_pieces False (drop ?n s)"]
      by (subst fold_pieces.simps) (simp add: Let_def)
  qed (simp add: fold_pieces.simps)
qed

lemma char_boundary_cut: "1 < char_boundary s n \<Longrightarrow> \<not> utf8_cont (s ! char_boundary s n)"
  by (induction s n rule: char_boundary.induct) auto

lemma fold_take_cut:
  assumes "1 < fold_take first s" "fold_take first s < length s"
  shows "\<not> utf8_cont (s ! fold_take first s)"
  using assms char_boundary_cut [of s "min (if first then 75 else 74) (length s)"]
  by (auto simp: fold_take_def Let_def split: if_splits)

section \<open>Values\<close>

lemma Escape_simps [simp]: "Escape [] = []" "Escape (c # s) = escape_char c @ Escape s"
  by (simp_all add: Escape_def)

lemma Unescape_plain: "c \<noteq> BACKSLASH \<Longrightarrow> Unescape (c # s) = c # Unescape s"
  by (cases s) simp_all

lemma Unescape_Escape: "Unescape (Escape s) = filter (\<lambda>c. c \<noteq> CR) s"
  by (induction s) (simp_all add: escape_char_def Unescape_plain)

lemma Unescape_Escape_id: "CR \<notin> set s \<Longrightarrow> Unescape (Escape s) = s"
  by (simp add: Unescape_Escape filter_id_conv) (metis filter_True)

lemma Escape_no_line_end: "LF \<notin> set (Escape s)" "CR \<notin> set (Escape s)"
  by (induction s) (auto simp: escape_char_def)

lemma split_raw_pair: "split_raw sep cur (BACKSLASH # n # cs) = split_raw sep (cur @ [BACKSLASH, n]) cs"
  by simp

lemma split_raw_char: "c \<noteq> BACKSLASH \<Longrightarrow> c \<noteq> sep \<Longrightarrow> split_raw sep cur (c # cs) = split_raw sep (cur @ [c]) cs"
  by (cases cs) simp_all

lemma split_raw_sep: "sep \<noteq> BACKSLASH \<Longrightarrow> split_raw sep cur (sep # cs) = cur # split_raw sep [] cs"
  by (cases cs) simp_all

lemma split_raw_Escape:
  "sep = CHR '';'' \<or> sep = CHR '','' \<Longrightarrow> split_raw sep cur (Escape s @ rest) = split_raw sep (cur @ Escape s) rest"
  by (induction s arbitrary: cur) (auto simp: escape_char_def split_raw_char)

definition join_values :: "string \<Rightarrow> string list \<Rightarrow> string" where
  "join_values sep vs = (case vs of [] \<Rightarrow> [] | v # ws \<Rightarrow> Escape v @ concat (map (\<lambda>w. sep @ Escape w) ws))"

lemma SplitRaw_join:
  assumes "sep = CHR '';'' \<or> sep = CHR '',''"
  shows "split_raw sep cur (Escape v @ concat (map (\<lambda>w. [sep] @ Escape w) ws)) = (cur @ Escape v) # map Escape ws"
proof (induction ws arbitrary: cur v)
  case Nil
  then show ?case using split_raw_Escape [OF assms, of cur v "[]"] by simp
next
  case (Cons w ws)
  have "sep \<noteq> BACKSLASH" using assms by auto
  then show ?case
    using split_raw_Escape [OF assms, of cur v "sep # Escape w @ concat (map (\<lambda>w. [sep] @ Escape w) ws)"]
      Cons.IH [of "[]" w] by (simp add: split_raw_sep)
qed

lemma SplitEscaped_join:
  assumes "sep = CHR '';'' \<or> sep = CHR '',''" "vs \<noteq> []" "list_all (\<lambda>v. CR \<notin> set v) vs"
  shows "SplitEscaped (join_values [sep] vs) sep = vs"
  using assms SplitRaw_join [OF assms(1), of "[]"]
  by (cases vs) (auto simp: SplitEscaped_def SplitRaw_def join_values_def Unescape_Escape_id list_all_iff
      intro!: map_idI)

lemma join_values_no_line_end: "LF \<notin> set sep \<Longrightarrow> LF \<notin> set (join_values sep vs)"
  using Escape_no_line_end by (auto simp: join_values_def split: list.splits)


section \<open>Parsing inverts formatting\<close>

definition trimmed :: "string \<Rightarrow> bool" where
  "trimmed s = (s = [] \<or> \<not> is_ws (hd s) \<and> \<not> is_ws (last s))"

lemma Trim_trimmed:
  assumes "trimmed s"
  shows "Trim s = s"
proof -
  have "dropWhile is_ws s = s" using assms by (cases s) (auto simp: trimmed_def)
  moreover have "dropWhile is_ws (rev s) = rev s" using assms by (cases s rule: rev_cases) (auto simp: trimmed_def)
  ultimately show ?thesis by (simp add: Trim_def)
qed

definition avoids :: "string \<Rightarrow> string \<Rightarrow> bool" where
  "avoids cs s = list_all (\<lambda>c. c \<notin> set cs) s"

lemma avoids_simps [simp]: "avoids cs []" "avoids cs (c # s) \<longleftrightarrow> c \<notin> set cs \<and> avoids cs s"
  "avoids cs (s @ t) \<longleftrightarrow> avoids cs s \<and> avoids cs t"
  by (auto simp: avoids_def)

lemma avoids_free: "avoids cs s \<Longrightarrow> c \<in> set cs \<Longrightarrow> c \<notin> set s"
  by (auto simp: avoids_def list_all_iff)

abbreviation COLON :: char where "COLON \<equiv> CHR '':''"
abbreviation SEMI :: char where "SEMI \<equiv> CHR '';''"

text \<open>What a line may hold to be written: the separators of the grammar only where it can quote them.\<close>

definition param_ok :: "string \<times> string \<Rightarrow> bool" where
  "param_ok kv = (avoids [COLON, SEMI, DQUOTE, CHR ''=''] (fst kv) \<and> trimmed (fst kv) \<and> Upper (fst kv) = fst kv
     \<and> avoids [DQUOTE] (snd kv) \<and> trimmed (snd kv))"

definition head_ok :: "bool \<Rightarrow> line \<Rightarrow> bool" where
  "head_ok allow_group l =
     (avoids [COLON, SEMI, DQUOTE, CHR ''.''] (li_group l) \<and> (li_group l = [] \<or> allow_group)
      \<and> avoids [COLON, SEMI, DQUOTE] (li_name l) \<and> (allow_group \<longrightarrow> CHR ''.'' \<notin> set (li_name l))
      \<and> li_name l \<noteq> [] \<and> trimmed (li_name l) \<and> Upper (li_name l) = li_name l
      \<and> list_all param_ok (li_params l))"

lemma split_colon_plain:
  "avoids [COLON, DQUOTE] x \<Longrightarrow> split_colon False rest = Some (h, v) \<Longrightarrow> split_colon False (x @ rest) = Some (x @ h, v)"
  by (induction x) auto

lemma split_colon_quoted:
  "avoids [DQUOTE] x \<Longrightarrow> split_colon False rest = Some (h, v) \<Longrightarrow>
   split_colon True (x @ DQUOTE # rest) = Some (x @ DQUOTE # h, v)"
  by (induction x) auto

lemma avoids_value: "avoids [DQUOTE] v \<Longrightarrow> COLON \<notin> set v \<Longrightarrow> avoids [COLON, DQUOTE] v"
  by (auto simp: avoids_def list_all_iff)

lemma split_colon_param:
  assumes "param_ok kv" "split_colon False rest = Some (h, v)"
  shows "split_colon False (format_param kv @ rest) = Some (format_param kv @ h, v)"
proof (cases "COLON \<in> set (snd kv) \<or> SEMI \<in> set (snd kv)")
  case True
  have k: "avoids [COLON, DQUOTE] (SEMI # fst kv @ ''='')" and q: "avoids [DQUOTE] (snd kv)"
    using assms by (auto simp: param_ok_def avoids_def list_all_iff)
  have "split_colon False (DQUOTE # snd kv @ DQUOTE # rest) = Some (DQUOTE # snd kv @ DQUOTE # h, v)"
    using split_colon_quoted [OF q assms(2)] by simp
  from split_colon_plain [OF k this] True show ?thesis by (auto simp: format_param_def)
next
  case False
  then have "avoids [COLON, DQUOTE] (snd kv)" using assms(1) by (simp add: param_ok_def avoids_value)
  moreover have "avoids [COLON, DQUOTE] (SEMI # fst kv @ ''='')"
    using assms(1) by (auto simp: param_ok_def avoids_def list_all_iff)
  ultimately have "avoids [COLON, DQUOTE] (format_param kv)" using False by (simp add: format_param_def)
  then show ?thesis using assms(2) by (rule split_colon_plain)
qed

lemma split_colon_params:
  "list_all param_ok ps \<Longrightarrow> split_colon False (concat (map format_param ps) @ COLON # v) = Some (concat (map format_param ps), v)"
  by (induction ps) (simp_all add: split_colon_param)

lemma split_params_plain: "avoids [SEMI, DQUOTE] x \<Longrightarrow> split_params False cur (x @ rest) = split_params False (cur @ x) rest"
  by (induction x arbitrary: cur) auto

lemma split_params_quoted: "avoids [DQUOTE] x \<Longrightarrow> split_params True cur (x @ rest) = split_params True (cur @ x) rest"
  by (induction x arbitrary: cur) auto

lemma split_params_param:
  assumes "param_ok kv"
  shows "split_params False cur (format_param kv @ rest) = cur # split_params False (fst kv @ ''='' @ snd kv) rest"
proof -
  have k: "avoids [SEMI, DQUOTE] (fst kv @ ''='')" and v: "avoids [DQUOTE] (snd kv)"
    using assms by (auto simp: param_ok_def avoids_def list_all_iff)
  have val: "avoids [SEMI, DQUOTE] (snd kv)" if "SEMI \<notin> set (snd kv)"
    using v that by (auto simp: avoids_def list_all_iff)
  show ?thesis
    using split_params_plain [OF k, of "[]"] split_params_quoted [OF v] split_params_plain [OF val]
    by (auto simp: format_param_def)
qed

lemma split_params_params:
  "list_all param_ok ps \<Longrightarrow>
   split_params False cur (concat (map format_param ps)) = cur # map (\<lambda>kv. fst kv @ ''='' @ snd kv) ps"
  by (induction ps arbitrary: cur) (simp_all add: split_params_param)

lemma trimmed_pair: "trimmed k \<Longrightarrow> trimmed v \<Longrightarrow> trimmed (k @ CHR ''='' # v)"
  by (auto simp: trimmed_def is_ws_def hd_append)

lemma param_of_pair:
  assumes "param_ok kv"
  shows "param_of (fst kv @ CHR ''='' # snd kv) = [kv]"
proof -
  have "CHR ''='' \<notin> set (fst kv)" using assms by (auto simp: param_ok_def dest: avoids_free)
  then show ?thesis
    using assms by (cases kv) (simp add: param_of_def param_ok_def Trim_trimmed trimmed_pair find_idx_split)
qed

lemma params_back: "list_all param_ok ps \<Longrightarrow> concat (map (\<lambda>kv. param_of (fst kv @ CHR ''='' # snd kv)) ps) = ps"
  by (induction ps) (simp_all add: param_of_pair)

lemma find_idx_append: "c \<notin> set x \<Longrightarrow> find_idx c (x @ y) = map_option ((+) (length x)) (find_idx c y)"
  by (cases "find_idx c y"; induction x) auto

lemma cut_group_none:
  assumes "CHR ''.'' \<notin> set nm" "SEMI \<notin> set nm"
  shows "cut_group g (nm @ concat (map format_param ps)) = ([], nm @ concat (map format_param ps))"
proof (cases ps)
  case Nil
  moreover have "find_idx (CHR ''.'') nm = None" using assms(1) by (simp add: find_idx_None)
  ultimately show ?thesis by (simp add: cut_group_def)
next
  case (Cons kv qs)
  have "concat (map format_param ps) = SEMI # tl (concat (map format_param ps))"
    by (simp add: Cons format_param_def)
  then have "find_idx SEMI (nm @ concat (map format_param ps)) = Some (length nm)"
    using find_idx_split [OF assms(2)] by metis
  moreover have "dot \<ge> length nm" if "find_idx (CHR ''.'') (nm @ concat (map format_param ps)) = Some dot" for dot
    using that find_idx_append [OF assms(1)] by auto
  ultimately show ?thesis by (fastforce simp: cut_group_def split: option.splits)
qed

lemma cut_group_some:
  assumes "CHR ''.'' \<notin> set grp" "SEMI \<notin> set grp"
  shows "cut_group True (grp @ CHR ''.'' # rest) = (grp, rest)"
proof -
  have "find_idx (CHR ''.'') (grp @ CHR ''.'' # rest) = Some (length grp)"
    by (rule find_idx_split [OF assms(1)])
  moreover have "length grp < k" if "find_idx SEMI (grp @ CHR ''.'' # rest) = Some k" for k
    using that find_idx_append [OF assms(2), of "CHR ''.'' # rest"] by (auto split: if_splits)
  ultimately show ?thesis by (auto simp: cut_group_def split: option.splits)
qed


lemma ParseLine_FormatLine:
  assumes "head_ok g l"
  shows "ParseLine (FormatLine l) g = Some l"
proof -
  let ?ps = "concat (map format_param (li_params l))"
  let ?nm = "li_name l"
  have ps: "list_all param_ok (li_params l)" and nm: "avoids [COLON, SEMI, DQUOTE] ?nm"
    and gr: "avoids [COLON, SEMI, DQUOTE, CHR ''.''] (li_group l)"
    using assms by (simp_all add: head_ok_def)
  have plain: "avoids [COLON, DQUOTE] ?nm" "avoids [COLON, DQUOTE] (li_group l)" "avoids [SEMI, DQUOTE] ?nm"
    using nm gr by (auto simp: avoids_def list_all_iff)
  have free: "SEMI \<notin> set ?nm" "SEMI \<notin> set (li_group l)" "CHR ''.'' \<notin> set (li_group l)"
    using nm gr by (auto dest: avoids_free)
  have inner: "split_colon False (?nm @ ?ps @ COLON # li_value l) = Some (?nm @ ?ps, li_value l)"
    using split_colon_plain [OF plain(1) split_colon_params [OF ps]] by simp
  have parts: "split_params False [] (?nm @ ?ps) = ?nm # map (\<lambda>kv. fst kv @ ''='' @ snd kv) (li_params l)"
    using split_params_plain [OF plain(3), of "[]"] split_params_params [OF ps] by simp
  have parsed: "Trim ?nm = ?nm" "Upper ?nm = ?nm" "?nm \<noteq> []"
    using assms by (auto simp: head_ok_def Trim_trimmed)
  have cut: "\<exists>head. split_colon False (FormatLine l) = Some (head, li_value l) \<and> cut_group g head = (li_group l, ?nm @ ?ps)"
  proof (cases "li_group l = []")
    case True
    have "cut_group g (?nm @ ?ps) = ([], ?nm @ ?ps)"
    proof (cases g)
      case True
      then show ?thesis using assms free by (intro cut_group_none) (auto simp: head_ok_def)
    qed (auto simp: cut_group_def split: option.splits)
    then show ?thesis using True inner by (simp add: FormatLine_def)
  next
    case False
    have "split_colon False (CHR ''.'' # ?nm @ ?ps @ COLON # li_value l) = Some (CHR ''.'' # ?nm @ ?ps, li_value l)"
      using inner by simp
    from split_colon_plain [OF plain(2) this] False
    have "split_colon False (FormatLine l) = Some (li_group l @ CHR ''.'' # ?nm @ ?ps, li_value l)"
      by (simp add: FormatLine_def)
    then show ?thesis using assms False cut_group_some [OF free(3,2), of "?nm @ ?ps"] by (auto simp: head_ok_def)
  qed
  then show ?thesis
    using parts parsed params_back [OF ps] by (auto simp: ParseLine_def Let_def o_def)
qed

end
