(* ===== verification/QM_Cards.thy ===== *)
theory QM_Cards
  imports QM_Contentline
begin

text \<open>
  Contact cards and sticky notes: \<^verbatim>\<open>src/core/src/vcard.cpp\<close> and \<^verbatim>\<open>src/core/src/vnote.cpp\<close>. Both are lists of properties between
  a \<^verbatim>\<open>BEGIN\<close> and an \<^verbatim>\<open>END\<close> line, in the line grammar of \<open>QM_Contentline\<close>. The hash that names an object without an
  identifier and the random identifiers are arguments. What is written is read back; what was written by others is
  not always preserved.
\<close>

definition IEq :: "string \<Rightarrow> string \<Rightarrow> bool" where
  "IEq a b = (length a = length b \<and> Lower a = Lower b)"

section \<open>Cards\<close>

record property =
  pr_group :: string
  pr_name :: string
  pr_params :: "(string \<times> string) list"
  pr_values :: "string list"

record card =
  ca_version :: int
  ca_props :: "property list"

definition new_card :: card where "new_card = \<lparr>ca_version = 3, ca_props = []\<rparr>"

definition SeparatorFor :: "string \<Rightarrow> char option" where
  "SeparatorFor nm =
     (if nm \<in> set [''N'', ''ADR'', ''ORG'', ''GENDER'', ''CLIENTPIDMAP''] then Some (CHR '';'')
      else if nm \<in> set [''CATEGORIES'', ''NICKNAME''] then Some (CHR '','') else None)"

definition property_Param :: "property \<Rightarrow> string \<Rightarrow> string" where
  "property_Param p pname =
     foldl (\<lambda>out kv. if fst kv = Upper pname then (if out = [] then [] else out @ '','') @ snd kv else out) [] (pr_params p)"

definition HasType :: "property \<Rightarrow> string \<Rightarrow> bool" where
  "HasType p t = list_ex (\<lambda>one. IEq (Trim one) t) (SplitEscaped (property_Param p ''TYPE'') (CHR '',''))"

definition property_Value :: "property \<Rightarrow> string" where
  "property_Value p = join_on (CHR '';'') (pr_values p)"

definition card_Find :: "card \<Rightarrow> string \<Rightarrow> property option" where
  "card_Find c nm = find (\<lambda>p. pr_name p = Upper nm) (ca_props c)"

definition card_FindAll :: "card \<Rightarrow> string \<Rightarrow> property list" where
  "card_FindAll c nm = filter (\<lambda>p. pr_name p = Upper nm) (ca_props c)"

fun set_components :: "string \<Rightarrow> string list \<Rightarrow> property list \<Rightarrow> property list" where
  "set_components want vs [] = [\<lparr>pr_group = [], pr_name = want, pr_params = [], pr_values = vs\<rparr>]"
| "set_components want vs (p # ps) = (if pr_name p = want then p\<lparr>pr_values := vs\<rparr> # ps else p # set_components want vs ps)"

definition SetComponents :: "card \<Rightarrow> string \<Rightarrow> string list \<Rightarrow> card" where
  "SetComponents c nm vs = c\<lparr>ca_props := set_components (Upper nm) vs (ca_props c)\<rparr>"

definition card_Set :: "card \<Rightarrow> string \<Rightarrow> string \<Rightarrow> card" where
  "card_Set c nm v = SetComponents c nm [v]"

definition card_Remove :: "card \<Rightarrow> string \<Rightarrow> card" where
  "card_Remove c nm = c\<lparr>ca_props := filter (\<lambda>p. pr_name p \<noteq> Upper nm) (ca_props c)\<rparr>"

definition Uid :: "card \<Rightarrow> string" where
  "Uid c = (case card_Find c ''UID'' of None \<Rightarrow> [] | Some p \<Rightarrow> Trim (property_Value p))"

definition nonempty_values :: "property list \<Rightarrow> string list" where
  "nonempty_values ps = filter (\<lambda>v. v \<noteq> []) (map (\<lambda>p. Trim (property_Value p)) ps)"

definition Emails :: "card \<Rightarrow> string list" where "Emails c = nonempty_values (card_FindAll c ''EMAIL'')"
definition Phones :: "card \<Rightarrow> string list" where "Phones c = nonempty_values (card_FindAll c ''TEL'')"

definition joined_name :: "property \<Rightarrow> string" where
  "joined_name n =
     (let vs = pr_values n;
          family = (if length vs > 0 then Trim (vs ! 0) else []);
          given = (if length vs > 1 then Trim (vs ! 1) else [])
      in if family = [] then given else (if given = [] then [] else given @ '' '') @ family)"

definition fn_value :: "card \<Rightarrow> string" where
  "fn_value c =
     (case card_Find c ''FN'' of
        Some p \<Rightarrow> Trim (property_Value p)
      | None \<Rightarrow> [])"

definition Fn :: "card \<Rightarrow> string" where
  "Fn c =
     (let fn = fn_value c; nm = (case card_Find c ''N'' of None \<Rightarrow> [] | Some n \<Rightarrow> joined_name n) in
      if fn \<noteq> [] then fn else if nm \<noteq> [] then nm
      else if Emails c \<noteq> [] then hd (Emails c) else ''(no name)'')"

section \<open>Reading and writing cards\<close>

definition read_property :: "line \<Rightarrow> property" where
  "read_property l =
     \<lparr>pr_group = li_group l, pr_name = li_name l, pr_params = li_params l,
      pr_values = (case SeparatorFor (li_name l) of
                     Some sep \<Rightarrow> SplitEscaped (li_value l) sep | None \<Rightarrow> [Unescape (li_value l)])\<rparr>"

definition card_step :: "bool \<times> card \<times> card list \<Rightarrow> string \<Rightarrow> bool \<times> card \<times> card list" where
  "card_step st raw =
     (case st of (in_card, cur, out) \<Rightarrow>
        (let l = Trim raw in
         if l = [] then st
         else if IEq l ''BEGIN:VCARD'' then (True, new_card, out)
         else if IEq l ''END:VCARD'' then (False, cur, if in_card then out @ [cur] else out)
         else if \<not> in_card then st
         else case ParseLine l True of
                None \<Rightarrow> st
              | Some parsed \<Rightarrow>
                  if li_name parsed = ''VERSION''
                  then (True, cur\<lparr>ca_version := (if take 1 (Trim (li_value parsed)) = ''4'' then 4 else 3)\<rparr>, out)
                  else (True, cur\<lparr>ca_props := ca_props cur @ [read_property parsed]\<rparr>, out)))"

definition ParseCards :: "string \<Rightarrow> bool \<times> card list" where
  "ParseCards s = (case foldl card_step (False, new_card, []) (Unfold s) of (_, _, out) \<Rightarrow> (out \<noteq> [], out))"

definition ParseOneCard :: "string \<Rightarrow> card option" where
  "ParseOneCard s = (case ParseCards s of (True, c # cs) \<Rightarrow> Some c | _ \<Rightarrow> None)"

definition write_values :: "char option \<Rightarrow> string list \<Rightarrow> string" where
  "write_values sep vs = join_values (case sep of None \<Rightarrow> [] | Some c \<Rightarrow> [c]) vs"

definition line_of :: "property \<Rightarrow> line" where
  "line_of p = \<lparr>li_group = pr_group p, li_name = pr_name p, li_params = pr_params p,
                li_value = write_values (SeparatorFor (pr_name p)) (pr_values p)\<rparr>"

definition card_lines :: "card \<Rightarrow> int \<Rightarrow> string list" where
  "card_lines c version =
     [''BEGIN:VCARD'', if version = 4 then ''VERSION:4.0'' else ''VERSION:3.0'']
      @ map (\<lambda>p. FormatLine (line_of p)) (filter (\<lambda>p. pr_name p \<notin> set [''VERSION'', ''BEGIN'', ''END'']) (ca_props c))
      @ [''END:VCARD'']"

definition EmitCard :: "card \<Rightarrow> int \<Rightarrow> string" where
  "EmitCard c version = foldl AppendFolded [] (card_lines c version)"

definition card_EuidFor :: "(string \<Rightarrow> string) \<Rightarrow> card \<Rightarrow> string" where
  "card_EuidFor sha256hex c =
     (if Uid c \<noteq> [] then Uid c
      else ''qc-'' @ take 32 (sha256hex (Fn c @ concat (map ((#) (CHR 0x1F)) (Emails c)))))"

definition NewUid :: "string \<Rightarrow> string \<Rightarrow> string" where
  "NewUid random_hex fqdn = random_hex @ ''@'' @ (if fqdn = [] then ''localhost'' else fqdn)"

section \<open>Notes\<close>

record vnote =
  no_uid :: string
  no_summary :: string
  no_body :: string
  no_color :: string
  no_content_type :: string
  no_props :: "(string \<times> string) list"

definition new_note :: vnote where
  "new_note = \<lparr>no_uid = [], no_summary = [], no_body = [], no_color = [], no_content_type = [], no_props = []\<rparr>"

definition project_step :: "vnote \<Rightarrow> string \<times> string \<Rightarrow> vnote" where
  "project_step n kv =
     (if fst kv = ''UID'' then n\<lparr>no_uid := Trim (snd kv)\<rparr>
      else if fst kv = ''SUMMARY'' then n\<lparr>no_summary := snd kv\<rparr>
      else if fst kv = ''BODY'' then n\<lparr>no_body := snd kv\<rparr>
      else if fst kv = ''X-OUTLOOK-COLOR'' then n\<lparr>no_color := Trim (snd kv)\<rparr>
      else if fst kv = ''X-QM-FORMAT'' then n\<lparr>no_content_type := Trim (snd kv)\<rparr>
      else n)"

definition Project :: "vnote \<Rightarrow> vnote" where
  "Project n =
     foldl project_step
       (n\<lparr>no_uid := [], no_summary := [], no_body := [], no_color := [], no_content_type := []\<rparr>) (no_props n)"

fun Put :: "string \<Rightarrow> string \<Rightarrow> (string \<times> string) list \<Rightarrow> (string \<times> string) list" where
  "Put nm v [] = [(nm, v)]"
| "Put nm v (kv # ps) = (if fst kv = nm then (nm, v) # ps else kv # Put nm v ps)"

fun Drop :: "string \<Rightarrow> (string \<times> string) list \<Rightarrow> (string \<times> string) list" where
  "Drop nm [] = []"
| "Drop nm (kv # ps) = (if fst kv = nm then ps else kv # Drop nm ps)"

definition note_step :: "bool \<times> vnote \<times> vnote list \<Rightarrow> string \<Rightarrow> bool \<times> vnote \<times> vnote list" where
  "note_step st raw =
     (case st of (in_note, cur, out) \<Rightarrow>
        (let l = Trim raw in
         if l = [] then st
         else if IEq l ''BEGIN:VNOTE'' then (True, new_note, out)
         else if IEq l ''END:VNOTE''
         then (False, if in_note then Project cur else cur, if in_note then out @ [Project cur] else out)
         else if \<not> in_note then st
         else case ParseLine l False of
                None \<Rightarrow> st
              | Some parsed \<Rightarrow>
                  if li_name parsed = ''VERSION'' then st
                  else (True, cur\<lparr>no_props := no_props cur @ [(li_name parsed, Unescape (li_value parsed))]\<rparr>, out)))"

definition ParseNotes :: "string \<Rightarrow> bool \<times> vnote list" where
  "ParseNotes s = (case foldl note_step (False, new_note, []) (Unfold s) of (_, _, out) \<Rightarrow> (out \<noteq> [], out))"

definition ParseOneNote :: "string \<Rightarrow> vnote option" where
  "ParseOneNote s = (case ParseNotes s of (True, n # ns) \<Rightarrow> Some n | _ \<Rightarrow> None)"

text \<open>The properties as they are written: the fields win over what was parsed.\<close>

definition settled :: "vnote \<Rightarrow> (string \<times> string) list" where
  "settled n =
     (let ps = (if no_uid n = [] then no_props n else Put ''UID'' (no_uid n) (no_props n));
          ps = Put ''BODY'' (no_body n) (Put ''SUMMARY'' (no_summary n) ps);
          ps = (if no_color n = [] then Drop ''X-OUTLOOK-COLOR'' ps else Put ''X-OUTLOOK-COLOR'' (no_color n) ps)
      in if no_content_type n = [] then Drop ''X-QM-FORMAT'' ps else Put ''X-QM-FORMAT'' (no_content_type n) ps)"

definition note_line :: "string \<times> string \<Rightarrow> line" where
  "note_line kv = \<lparr>li_group = [], li_name = fst kv, li_params = [], li_value = Escape (snd kv)\<rparr>"

definition note_lines :: "vnote \<Rightarrow> string list" where
  "note_lines n =
     [''BEGIN:VNOTE'', ''VERSION:1.1'']
      @ map (\<lambda>kv. FormatLine (note_line kv)) (filter (\<lambda>kv. fst kv \<notin> set [''VERSION'', ''BEGIN'', ''END'']) (settled n))
      @ [''END:VNOTE'']"

definition EmitNote :: "vnote \<Rightarrow> string" where
  "EmitNote n = foldl AppendFolded [] (note_lines n)"

definition TitleOf :: "vnote \<Rightarrow> string" where
  "TitleOf n =
     (let s = Trim (no_summary n); first = Trim (takeWhile (\<lambda>c. c \<noteq> LF) (Trim (no_body n))) in
      if s \<noteq> [] then s
      else if first = [] then ''(untitled)''
      else if length first > 60 then take 57 first @ ''...'' else first)"

definition note_EuidFor :: "(string \<Rightarrow> string) \<Rightarrow> vnote \<Rightarrow> string" where
  "note_EuidFor sha256hex n =
     (if no_uid n \<noteq> [] then no_uid n else ''qc-'' @ take 32 (sha256hex (no_summary n @ [CHR 0x1F] @ no_body n)))"


section \<open>What is written is read back\<close>

lemma foldl_AppendFolded: "foldl AppendFolded out ls = out @ concat (map (AppendFolded []) ls)"
proof (induction ls arbitrary: out)
  case (Cons l ls)
  have "AppendFolded out l = out @ AppendFolded [] l" by (simp add: AppendFolded_def)
  with Cons show ?case by simp
qed simp

lemma tolower_fixed: "\<not> islower (tolower c) \<Longrightarrow> tolower c = c"
  by (cases "isupper c") (auto simp: byte_tolower islower_def isupper_def tolower_other)

lemma Lower_mem: "d \<in> set s \<Longrightarrow> \<not> isupper d \<Longrightarrow> d \<in> set (Lower s)"
  by (metis Lower_def image_eqI list.set_map tolower_other)

lemma Lower_mem_iff: "\<not> isupper d \<Longrightarrow> \<not> islower d \<Longrightarrow> d \<in> set (Lower s) \<longleftrightarrow> d \<in> set s"
  by (metis Lower_def Lower_mem imageE list.set_map tolower_fixed)

lemma Upper_Lower: "Upper (Lower s) = Upper s"
proof -
  have "toupper (tolower c) = toupper c" for c
  proof (cases "isupper c")
    case True
    then have up: "65 \<le> byte c" "byte c \<le> 90" by (simp_all add: isupper_def)
    then have "byte (tolower c) = byte c + 32" by (simp add: byte_tolower)
    then have "toupper (tolower c) = char_of (byte c)" using up by (simp add: toupper_def)
    also have "\<dots> = c" by simp
    also have "c = toupper c" using up by (simp add: toupper_def)
    finally show ?thesis .
  qed (simp add: tolower_other)
  then show ?thesis by (simp add: Upper_def Lower_def)
qed

lemma first_colon: "COLON \<notin> set x \<Longrightarrow> COLON \<notin> set y \<Longrightarrow> x @ COLON # u = y @ COLON # v \<Longrightarrow> x = y"
  using takeWhile_append2 [of x "\<lambda>c. c \<noteq> COLON" "COLON # u"] takeWhile_append2 [of y "\<lambda>c. c \<noteq> COLON" "COLON # v"]
  by fastforce

text \<open>Only the line with the name \<open>w\<close> itself can be \<open>w:z\<close> up to case.\<close>

lemma FormatLine_Lower:
  assumes "head_ok g l" "Lower (FormatLine l) = w @ COLON # z" "avoids [COLON, SEMI, CHR ''.''] (w @ z)"
  shows "li_name l = Upper w"
proof -
  have special: "\<not> isupper (CHR ''.'')" "\<not> isupper SEMI" "\<not> isupper COLON"
    "\<not> islower (CHR ''.'')" "\<not> islower SEMI" "\<not> islower COLON"
    by (simp_all add: isupper_def islower_def)
  have free: "c \<notin> set (FormatLine l)" if "c = CHR ''.'' \<or> c = SEMI" for c
  proof -
    have "c \<notin> set (w @ COLON # z)" using that assms(3) by (auto simp: avoids_def list_all_iff)
    then show ?thesis using Lower_mem_iff [of c "FormatLine l"] special that assms(2) by auto
  qed
  have "li_group l = []" using free [of "CHR ''.''"] by (auto simp: FormatLine_def split: if_splits)
  moreover have "li_params l = []"
    using free [of SEMI] by (cases "li_params l") (auto simp: FormatLine_def format_param_def)
  ultimately have fl: "FormatLine l = li_name l @ COLON # li_value l" by (simp add: FormatLine_def)
  have "COLON \<notin> set (li_name l)" using assms(1) by (auto simp: head_ok_def avoids_def list_all_iff)
  then have name: "COLON \<notin> set (Lower (li_name l))" using Lower_mem_iff [OF special(3,6)] by simp
  have colon: "tolower COLON = COLON" by (rule tolower_other [OF special(3)])
  have "Lower (li_name l) @ COLON # Lower (li_value l) = w @ COLON # z"
    unfolding assms(2) [symmetric] fl Lower_def by (simp add: colon)
  moreover have "COLON \<notin> set w" using assms(3) by (auto simp: avoids_def list_all_iff)
  ultimately have "Lower (li_name l) = w" using name first_colon by blast
  then show ?thesis using assms(1) Upper_Lower [of "li_name l"] by (simp add: head_ok_def)
qed


definition value_end_ok :: "string \<Rightarrow> bool" where
  "value_end_ok v = (v = [] \<or> \<not> is_blank (last v))"

text \<open>A line whose parts can be written, on one unfolded line, without losing blanks at its end.\<close>

definition line_ok :: "bool \<Rightarrow> line \<Rightarrow> bool" where
  "line_ok g l = (head_ok g l \<and> LF \<notin> set (FormatLine l) \<and> (li_group l = [] \<or> \<not> is_ws (hd (li_group l)))
     \<and> (li_value l = [] \<or> \<not> is_ws (last (li_value l))))"

lemma line_ok_trimmed:
  assumes "line_ok g l"
  shows "Trim (FormatLine l) = FormatLine l" "FormatLine l \<noteq> []" "\<not> is_blank (hd (FormatLine l))"
proof -
  have "\<not> is_ws (hd (FormatLine l))"
    using assms by (cases "li_group l") (auto simp: line_ok_def head_ok_def trimmed_def FormatLine_def hd_append)
  moreover have "\<not> is_ws (last (FormatLine l))"
    using assms by (auto simp: line_ok_def FormatLine_def is_ws_def)
  ultimately show "Trim (FormatLine l) = FormatLine l" "\<not> is_blank (hd (FormatLine l))"
    by (auto intro!: Trim_trimmed simp: trimmed_def is_ws_def is_blank_def)
  show "FormatLine l \<noteq> []" by (simp add: FormatLine_def)
qed

lemma frame_low:
  "Lower ''BEGIN:VCARD'' = ''begin'' @ COLON # ''vcard''" "Lower ''END:VCARD'' = ''end'' @ COLON # ''vcard''"
  "Lower ''BEGIN:VNOTE'' = ''begin'' @ COLON # ''vnote''" "Lower ''END:VNOTE'' = ''end'' @ COLON # ''vnote''"
  "Upper ''begin'' = ''BEGIN''" "Upper ''end'' = ''END''"
  by code_simp+

lemma not_frame:
  assumes "head_ok g l" "li_name l \<noteq> ''BEGIN''" "li_name l \<noteq> ''END''"
  shows "\<not> IEq (FormatLine l) ''BEGIN:VCARD''" "\<not> IEq (FormatLine l) ''END:VCARD''"
    "\<not> IEq (FormatLine l) ''BEGIN:VNOTE''" "\<not> IEq (FormatLine l) ''END:VNOTE''"
  using assms(2,3) FormatLine_Lower [OF assms(1), of "''begin''" "''vcard''"] FormatLine_Lower [OF assms(1), of "''end''" "''vcard''"]
    FormatLine_Lower [OF assms(1), of "''begin''" "''vnote''"] FormatLine_Lower [OF assms(1), of "''end''" "''vnote''"]
  unfolding IEq_def frame_low by auto

definition property_ok :: "property \<Rightarrow> bool" where
  "property_ok p =
     (line_ok True (line_of p) \<and> pr_name p \<notin> set [''VERSION'', ''BEGIN'', ''END'']
      \<and> list_all (\<lambda>v. CR \<notin> set v) (pr_values p) \<and> pr_values p \<noteq> []
      \<and> (SeparatorFor (pr_name p) = None \<longrightarrow> length (pr_values p) = 1))"

lemma SeparatorFor_cases: "SeparatorFor nm = Some c \<Longrightarrow> c = CHR '';'' \<or> c = CHR '',''"
  by (simp add: SeparatorFor_def split: if_splits)

lemma read_property_line:
  assumes "property_ok p"
  shows "read_property (line_of p) = p"
proof (cases "SeparatorFor (pr_name p)")
  case None
  then obtain v where v: "pr_values p = [v]" using assms by (auto simp: property_ok_def length_Suc_conv)
  then show ?thesis
    using None assms by (simp add: read_property_def line_of_def write_values_def join_values_def property_ok_def Unescape_Escape_id)
next
  case (Some sep)
  then have "SplitEscaped (write_values (Some sep) (pr_values p)) sep = pr_values p"
    using assms SeparatorFor_cases [OF Some]
    by (auto simp: write_values_def property_ok_def intro!: SplitEscaped_join)
  then show ?thesis using Some by (simp add: read_property_def line_of_def)
qed

lemma card_step_property:
  assumes "property_ok p"
  shows "card_step (True, cur, out) (FormatLine (line_of p)) = (True, cur\<lparr>ca_props := ca_props cur @ [p]\<rparr>, out)"
proof -
  have ok: "line_ok True (line_of p)" and head: "head_ok True (line_of p)"
    and name: "li_name (line_of p) \<noteq> ''BEGIN''" "li_name (line_of p) \<noteq> ''END''" "li_name (line_of p) \<noteq> ''VERSION''"
    using assms by (auto simp: property_ok_def line_ok_def line_of_def)
  show ?thesis
    unfolding card_step_def using line_ok_trimmed [OF ok] not_frame [OF head name(1,2)] ParseLine_FormatLine [OF head] name(3)
    by (simp add: Let_def read_property_line [OF assms])
qed

lemma card_step_properties:
  "list_all property_ok ps \<Longrightarrow>
   foldl card_step (True, cur, out) (map (\<lambda>p. FormatLine (line_of p)) ps) = (True, cur\<lparr>ca_props := ca_props cur @ ps\<rparr>, out)"
  by (induction ps arbitrary: cur) (simp_all add: card_step_property)

lemma EmitCard_lines: "EmitCard c v = concat (map (AppendFolded []) (card_lines c v))"
  unfolding EmitCard_def by (simp only: foldl_AppendFolded append_Nil)

definition card_ok :: "card \<Rightarrow> bool" where "card_ok c = list_all property_ok (ca_props c)"

lemma card_frame:
  "card_step st ''BEGIN:VCARD'' = (True, new_card, snd (snd st))"
  "card_step (True, cur, out) ''VERSION:4.0'' = (True, cur\<lparr>ca_version := 4\<rparr>, out)"
  "card_step (True, cur, out) ''VERSION:3.0'' = (True, cur\<lparr>ca_version := 3\<rparr>, out)"
  "card_step (True, cur, out) ''END:VCARD'' = (False, cur, out @ [cur])"
  "card_step st [] = st"
proof -
  have t: "Trim ''BEGIN:VCARD'' = ''BEGIN:VCARD''" "Trim ''VERSION:4.0'' = ''VERSION:4.0''" "Trim ''VERSION:3.0'' = ''VERSION:3.0''"
    "Trim ''END:VCARD'' = ''END:VCARD''" "Trim [] = []" "Trim ''4.0'' = ''4.0''" "Trim ''3.0'' = ''3.0''" "take 1 ''4.0'' = ''4''" "take 1 ''3.0'' = ''3''"
    by code_simp+
  have q: "IEq ''BEGIN:VCARD'' ''BEGIN:VCARD''" "\<not> IEq ''END:VCARD'' ''BEGIN:VCARD''" "IEq ''END:VCARD'' ''END:VCARD''"
    "\<not> IEq ''VERSION:4.0'' ''BEGIN:VCARD''" "\<not> IEq ''VERSION:4.0'' ''END:VCARD''"
    "\<not> IEq ''VERSION:3.0'' ''BEGIN:VCARD''" "\<not> IEq ''VERSION:3.0'' ''END:VCARD''"
    by code_simp+
  have p: "ParseLine ''VERSION:4.0'' True = Some \<lparr>li_group = [], li_name = ''VERSION'', li_params = [], li_value = ''4.0''\<rparr>"
    "ParseLine ''VERSION:3.0'' True = Some \<lparr>li_group = [], li_name = ''VERSION'', li_params = [], li_value = ''3.0''\<rparr>"
    by code_simp+
  show "card_step st ''BEGIN:VCARD'' = (True, new_card, snd (snd st))"
    "card_step (True, cur, out) ''VERSION:4.0'' = (True, cur\<lparr>ca_version := 4\<rparr>, out)"
    "card_step (True, cur, out) ''VERSION:3.0'' = (True, cur\<lparr>ca_version := 3\<rparr>, out)"
    "card_step (True, cur, out) ''END:VCARD'' = (False, cur, out @ [cur])"
    "card_step st [] = st"
    by (cases st; simp add: card_step_def t q p Let_def del: One_nat_def)+
qed

definition with_version :: "int \<Rightarrow> card \<Rightarrow> card" where
  "with_version v c = c\<lparr>ca_version := if v = 4 then 4 else 3\<rparr>"

lemma card_step_card:
  assumes "card_ok c"
  shows "foldl card_step (i, cur, out) (card_lines c v) = (False, with_version v c, out @ [with_version v c])"
proof -
  have keep: "filter (\<lambda>p. pr_name p \<notin> set [''VERSION'', ''BEGIN'', ''END'']) (ca_props c) = ca_props c"
    using assms by (auto simp: card_ok_def list_all_iff property_ok_def filter_id_conv simp del: set_simps)
  have props: "list_all property_ok (ca_props c)" using assms by (simp add: card_ok_def)
  show ?thesis
    unfolding card_lines_def keep
    by (simp add: card_frame card_step_properties [OF props] new_card_def with_version_def)
qed


definition line_folds :: "string \<Rightarrow> bool" where
  "line_folds l = (LF \<notin> set l \<and> (l = [] \<or> \<not> is_blank (hd l)))"

lemma Unfold_lines: "list_all line_folds ls \<Longrightarrow> Unfold (concat (map (AppendFolded []) ls)) = ls @ [[]]"
  by (rule Unfold_fold) (auto simp: list_all_iff line_folds_def)

lemma line_ok_start: "line_ok g l \<Longrightarrow> line_folds (FormatLine l)"
  using line_ok_trimmed [of g l] by (simp add: line_folds_def line_ok_def)

lemma frame_start:
  "line_folds ''BEGIN:VCARD''" "line_folds ''END:VCARD''" "line_folds ''VERSION:4.0''" "line_folds ''VERSION:3.0''"
  "line_folds ''BEGIN:VNOTE''" "line_folds ''END:VNOTE''" "line_folds ''VERSION:1.1''"
  by code_simp+

lemma card_lines_start:
  assumes "card_ok c"
  shows "list_all line_folds (card_lines c v)"
proof -
  have "list_all line_folds (map (\<lambda>p. FormatLine (line_of p)) (filter P (ca_props c)))" for P
    using assms line_ok_start by (fastforce simp: card_ok_def property_ok_def list_all_iff)
  moreover have "line_folds (if v = 4 then ''VERSION:4.0'' else ''VERSION:3.0'')"
    by (rule if_split [THEN iffD2]) (intro conjI impI frame_start)
  ultimately show ?thesis unfolding card_lines_def by (simp only: list_all_append list.pred_inject frame_start simp_thms)
qed

lemma card_steps:
  "list_all card_ok cs \<Longrightarrow> \<exists>cur'.
   foldl card_step (False, cur, out) (concat (map (\<lambda>c. card_lines c v) cs))
     = (False, cur', out @ map (with_version v) cs)"
proof (induction cs arbitrary: cur out)
  case (Cons c cs)
  then have "card_ok c" "list_all card_ok cs" by simp_all
  with card_step_card [of c False cur out v] Cons.IH [of "with_version v c" "out @ [with_version v c]"]
  show ?case by auto
qed simp



section \<open>What other programs wrote\<close>

lemma Unescape_raw: "avoids [BACKSLASH] s \<Longrightarrow> Unescape s = s"
proof (induction s)
  case (Cons c s)
  then show ?case by (cases s) auto
qed simp

lemma Escape_length: "CR \<notin> set s \<Longrightarrow> length (Escape s) = length s + length (filter (\<lambda>c. c \<in> set [BACKSLASH, CHR '';'', CHR '','', LF]) s)"
  by (induction s) (auto simp: escape_char_def)

text \<open>A value without structure, like the data of a picture, comes back with its semicolons and commas escaped.\<close>

lemma value_rewritten:
  assumes "SeparatorFor (li_name l) = None" "avoids [BACKSLASH, CR] (li_value l)" "CHR '';'' \<in> set (li_value l) \<or> CHR '','' \<in> set (li_value l)"
  shows "li_value (line_of (read_property l)) \<noteq> li_value l"
proof
  assume eq: "li_value (line_of (read_property l)) = li_value l"
  have "avoids [BACKSLASH] (li_value l)" "CR \<notin> set (li_value l)" using assms(2) by (auto simp: avoids_def list_all_iff)
  then have "length (li_value (line_of (read_property l))) > length (li_value l)"
    using assms(1,3) Unescape_raw
    by (auto simp: line_of_def read_property_def write_values_def join_values_def Escape_length filter_empty_conv)
  then show False using eq by simp
qed


text \<open>The picture of a version 4 card is a URI with a semicolon and a comma: reading and writing the card breaks it.\<close>

lemma picture_rewritten:
  "map_option (\<lambda>c. EmitCard c 4)
     (ParseOneCard (''BEGIN:VCARD'' @ crlf @ ''VERSION:4.0'' @ crlf @ ''PHOTO:data:image/png;base64,QQ=='' @ crlf @ ''END:VCARD'' @ crlf))
   = Some (''BEGIN:VCARD'' @ crlf @ ''VERSION:4.0'' @ crlf @ ''PHOTO:data:image/png'' @ [BACKSLASH] @ '';base64'' @ [BACKSLASH] @ '',QQ=='' @ crlf
       @ ''END:VCARD'' @ crlf)"
  by code_simp

section \<open>Notes are read back\<close>

definition note_value_ok :: "string \<Rightarrow> bool" where
  "note_value_ok v = (CR \<notin> set v \<and> (v = [] \<or> \<not> is_blank (last v)))"

definition note_key_ok :: "string \<Rightarrow> bool" where
  "note_key_ok k = (avoids [COLON, SEMI, DQUOTE, LF] k \<and> k \<noteq> [] \<and> trimmed k \<and> Upper k = k
     \<and> k \<notin> set [''VERSION'', ''BEGIN'', ''END''])"

definition note_prop_ok :: "string \<times> string \<Rightarrow> bool" where
  "note_prop_ok kv = (note_key_ok (fst kv) \<and> note_value_ok (snd kv))"

lemma Escape_append: "Escape (s @ t) = Escape s @ Escape t"
  by (simp add: Escape_def)

lemma last_Escape:
  assumes "note_value_ok v"
  shows "Escape v = [] \<or> \<not> is_ws (last (Escape v))"
proof (cases v rule: rev_cases)
  case (snoc u c)
  then have "c \<noteq> CR" "\<not> is_blank c" using assms by (auto simp: note_value_ok_def)
  then show ?thesis using snoc by (auto simp: Escape_append escape_char_def is_ws_def is_blank_def)
qed simp

lemma note_line_ok:
  assumes "note_prop_ok kv"
  shows "line_ok False (note_line kv)"
  using assms last_Escape [of "snd kv"] Escape_no_line_end [of "snd kv"]
  by (auto simp: note_prop_ok_def note_key_ok_def line_ok_def head_ok_def note_line_def FormatLine_def avoids_def list_all_iff)

lemma note_step_prop:
  assumes "note_prop_ok kv"
  shows "note_step (True, cur, out) (FormatLine (note_line kv)) = (True, cur\<lparr>no_props := no_props cur @ [kv]\<rparr>, out)"
proof -
  have ok: "line_ok False (note_line kv)" using assms by (rule note_line_ok)
  then have head: "head_ok False (note_line kv)" by (simp add: line_ok_def)
  have name: "li_name (note_line kv) \<noteq> ''BEGIN''" "li_name (note_line kv) \<noteq> ''END''" "li_name (note_line kv) \<noteq> ''VERSION''"
    and val: "Unescape (li_value (note_line kv)) = snd kv"
    using assms by (auto simp: note_prop_ok_def note_key_ok_def note_value_ok_def note_line_def Unescape_Escape_id)
  have key: "li_name (note_line kv) = fst kv" by (simp add: note_line_def)
  show ?thesis
    unfolding note_step_def using line_ok_trimmed [OF ok] not_frame [OF head name(1,2)] ParseLine_FormatLine [OF head] name(3) val
    by (simp add: Let_def key)
qed

lemma note_step_props:
  "list_all note_prop_ok ps \<Longrightarrow>
   foldl note_step (True, cur, out) (map (\<lambda>kv. FormatLine (note_line kv)) ps) = (True, cur\<lparr>no_props := no_props cur @ ps\<rparr>, out)"
  by (induction ps arbitrary: cur) (simp_all add: note_step_prop)

lemma note_frame:
  "note_step st ''BEGIN:VNOTE'' = (True, new_note, snd (snd st))"
  "note_step (True, cur, out) ''VERSION:1.1'' = (True, cur, out)"
  "note_step (True, cur, out) ''END:VNOTE'' = (False, Project cur, out @ [Project cur])"
  "note_step st [] = st"
proof -
  have t: "Trim ''BEGIN:VNOTE'' = ''BEGIN:VNOTE''" "Trim ''VERSION:1.1'' = ''VERSION:1.1''"
    "Trim ''END:VNOTE'' = ''END:VNOTE''" "Trim [] = []"
    by code_simp+
  have q: "IEq ''BEGIN:VNOTE'' ''BEGIN:VNOTE''" "\<not> IEq ''END:VNOTE'' ''BEGIN:VNOTE''" "IEq ''END:VNOTE'' ''END:VNOTE''"
    "\<not> IEq ''VERSION:1.1'' ''BEGIN:VNOTE''" "\<not> IEq ''VERSION:1.1'' ''END:VNOTE''"
    by code_simp+
  have p: "ParseLine ''VERSION:1.1'' False = Some \<lparr>li_group = [], li_name = ''VERSION'', li_params = [], li_value = ''1.1''\<rparr>"
    by code_simp
  show "note_step st ''BEGIN:VNOTE'' = (True, new_note, snd (snd st))"
    "note_step (True, cur, out) ''VERSION:1.1'' = (True, cur, out)"
    "note_step (True, cur, out) ''END:VNOTE'' = (False, Project cur, out @ [Project cur])"
    "note_step st [] = st"
    by (cases st; simp add: note_step_def t q p Let_def)+
qed

text \<open>The fields of a note are its properties, when each has one name.\<close>

lemma Put_facts:
  "map_of (Put k v ps) = (map_of ps)(k \<mapsto> v)" "fst ` set (Put k v ps) = insert k (fst ` set ps)"
  "distinct (map fst ps) \<Longrightarrow> distinct (map fst (Put k v ps))" "set (Put k v ps) \<subseteq> insert (k, v) (set ps)"
  by (induction ps) (auto simp: fun_eq_iff)

lemma Drop_facts:
  assumes "distinct (map fst ps)"
  shows "map_of (Drop k ps) = (map_of ps)(k := None)" "distinct (map fst (Drop k ps))" "set (Drop k ps) \<subseteq> set ps"
proof -
  show sub: "set (Drop k ps) \<subseteq> set ps" for ps by (induction ps) auto
  show "map_of (Drop k ps) = (map_of ps)(k := None)"
    using assms by (induction ps) (auto simp: fun_eq_iff map_of_eq_None_iff [THEN iffD2] image_iff)
  show "distinct (map fst (Drop k ps))"
    using assms sub by (induction ps) (auto simp: subset_iff image_iff; blast)+
qed

definition field_of :: "(string \<times> string) list \<Rightarrow> string \<Rightarrow> string \<Rightarrow> string" where
  "field_of ps k dflt = (case map_of ps k of None \<Rightarrow> dflt | Some v \<Rightarrow> v)"

definition trimmed_field :: "(string \<times> string) list \<Rightarrow> string \<Rightarrow> string \<Rightarrow> string" where
  "trimmed_field ps k dflt = (case map_of ps k of None \<Rightarrow> dflt | Some v \<Rightarrow> Trim v)"

lemma field_Cons:
  "map_of ps (fst kv) = None \<Longrightarrow> field_of (kv # ps) k d = field_of ps k (if fst kv = k then snd kv else d)"
  "map_of ps (fst kv) = None \<Longrightarrow> trimmed_field (kv # ps) k d = trimmed_field ps k (if fst kv = k then Trim (snd kv) else d)"
  by (cases kv; auto simp: field_of_def trimmed_field_def)+

definition projected :: "(string \<times> string) list \<Rightarrow> vnote \<Rightarrow> vnote" where
  "projected ps n = n\<lparr>no_uid := trimmed_field ps ''UID'' (no_uid n), no_summary := field_of ps ''SUMMARY'' (no_summary n),
     no_body := field_of ps ''BODY'' (no_body n), no_color := trimmed_field ps ''X-OUTLOOK-COLOR'' (no_color n),
     no_content_type := trimmed_field ps ''X-QM-FORMAT'' (no_content_type n)\<rparr>"

lemma foldl_project: "distinct (map fst ps) \<Longrightarrow> foldl project_step n ps = projected ps n"
proof (induction ps arbitrary: n)
  case Nil
  then show ?case by (simp add: projected_def field_of_def trimmed_field_def)
next
  case (Cons kv ps)
  then have none: "map_of ps (fst kv) = None" by (auto simp: map_of_eq_None_iff)
  have "foldl project_step n (kv # ps) = projected ps (project_step n kv)" using Cons by simp
  also have "\<dots> = projected (kv # ps) n"
    unfolding projected_def field_Cons [OF none]
    by (cases "fst kv = ''UID''"; cases "fst kv = ''SUMMARY''"; cases "fst kv = ''BODY''"; cases "fst kv = ''X-OUTLOOK-COLOR''";
        cases "fst kv = ''X-QM-FORMAT''") (simp_all add: project_step_def)
  finally show ?case .
qed


definition note_ok :: "vnote \<Rightarrow> bool" where
  "note_ok n =
     (distinct (map fst (no_props n)) \<and> list_all note_prop_ok (no_props n)
      \<and> list_all note_value_ok [no_uid n, no_summary n, no_body n, no_color n, no_content_type n]
      \<and> list_all trimmed [no_uid n, no_color n, no_content_type n]
      \<and> (no_uid n = [] \<longrightarrow> ''UID'' \<notin> fst ` set (no_props n)))"

lemma settled_ok:
  assumes "note_ok n"
  shows "list_all note_prop_ok (settled n)" "distinct (map fst (settled n))"
    "projected (settled n) (new_note\<lparr>no_props := settled n\<rparr>) = n\<lparr>no_props := settled n\<rparr>"
proof -
  define p1 where "p1 = (if no_uid n = [] then no_props n else Put ''UID'' (no_uid n) (no_props n))"
  define p2 where "p2 = Put ''BODY'' (no_body n) (Put ''SUMMARY'' (no_summary n) p1)"
  define p3 where "p3 = (if no_color n = [] then Drop ''X-OUTLOOK-COLOR'' p2 else Put ''X-OUTLOOK-COLOR'' (no_color n) p2)"
  have s: "settled n = (if no_content_type n = [] then Drop ''X-QM-FORMAT'' p3 else Put ''X-QM-FORMAT'' (no_content_type n) p3)"
    by (simp add: settled_def p1_def p2_def p3_def)
  have d1: "distinct (map fst p1)" using assms Put_facts(3) by (simp add: p1_def note_ok_def)
  have d2: "distinct (map fst p2)" using d1 Put_facts(3) by (simp add: p2_def)
  have d3: "distinct (map fst p3)" using d2 Put_facts(3) Drop_facts(2) by (simp add: p3_def)
  show d: "distinct (map fst (settled n))" using d3 Put_facts(3) Drop_facts(2) by (simp add: s)
  have keys: "list_all note_key_ok [''UID'', ''SUMMARY'', ''BODY'', ''X-OUTLOOK-COLOR'', ''X-QM-FORMAT'']" by code_simp
  have ok1: "list_all note_prop_ok p1"
    using assms keys Put_facts(4) [of "''UID''" "no_uid n" "no_props n"]
    by (auto simp: p1_def note_ok_def list_all_iff note_prop_ok_def)
  have ok2: "list_all note_prop_ok p2"
    using assms keys ok1 Put_facts(4) [of "''SUMMARY''" "no_summary n" p1]
      Put_facts(4) [of "''BODY''" "no_body n" "Put ''SUMMARY'' (no_summary n) p1"]
    by (fastforce simp: p2_def note_ok_def list_all_iff note_prop_ok_def)
  have ok3: "list_all note_prop_ok p3"
    using assms keys ok2 Put_facts(4) [of "''X-OUTLOOK-COLOR''" "no_color n" p2] Drop_facts(3) [OF d2]
    by (fastforce simp: p3_def note_ok_def list_all_iff note_prop_ok_def)
  show "list_all note_prop_ok (settled n)"
    using assms keys ok3 Put_facts(4) [of "''X-QM-FORMAT''" "no_content_type n" p3] Drop_facts(3) [OF d3]
    by (fastforce simp: s note_ok_def list_all_iff note_prop_ok_def)
  have m1: "map_of p1 = (if no_uid n = [] then map_of (no_props n) else (map_of (no_props n))(''UID'' \<mapsto> no_uid n))"
    by (simp add: p1_def Put_facts(1))
  have m2: "map_of p2 = (map_of p1)(''SUMMARY'' \<mapsto> no_summary n, ''BODY'' \<mapsto> no_body n)"
    by (simp add: p2_def Put_facts(1))
  have m3: "map_of p3 = (map_of p2)(''X-OUTLOOK-COLOR'' := if no_color n = [] then None else Some (no_color n))"
    by (simp add: p3_def Put_facts(1) Drop_facts(1) [OF d2])
  have m4: "map_of (settled n) = (map_of p3)(''X-QM-FORMAT'' := if no_content_type n = [] then None else Some (no_content_type n))"
    by (simp add: s Put_facts(1) Drop_facts(1) [OF d3])
  have uid: "map_of (settled n) ''UID'' = (if no_uid n = [] then None else Some (no_uid n))"
    using assms by (auto simp: m4 m3 m2 m1 note_ok_def map_of_eq_None_iff)
  have rest: "map_of (settled n) ''SUMMARY'' = Some (no_summary n)" "map_of (settled n) ''BODY'' = Some (no_body n)"
    "map_of (settled n) ''X-OUTLOOK-COLOR'' = (if no_color n = [] then None else Some (no_color n))"
    "map_of (settled n) ''X-QM-FORMAT'' = (if no_content_type n = [] then None else Some (no_content_type n))"
    by (simp_all add: m4 m3 m2)
  have "Trim (no_uid n) = no_uid n" "Trim (no_color n) = no_color n" "Trim (no_content_type n) = no_content_type n"
    using assms by (simp_all add: note_ok_def Trim_trimmed)
  then show "projected (settled n) (new_note\<lparr>no_props := settled n\<rparr>) = n\<lparr>no_props := settled n\<rparr>"
    by (simp add: projected_def field_of_def trimmed_field_def uid rest new_note_def)
qed



end
