(* ===== verification/QM_MimeBuild.thy ===== *)
theory QM_MimeBuild
  imports QM_CitMsg
begin

text \<open>
  Building messages: \<^verbatim>\<open>src/core/src/mime_build.cpp\<close>. A message is made of headers and parts; the parts are sorted into body,
  inline and attached ones and nested accordingly. The random boundaries are an argument, \<open>rnd i k\<close> the \<open>k\<close>-th
  number drawn for the \<open>i\<close>-th multipart. Shown are that nothing a caller passes ends a header early, and that an
  attachment of any bytes under any name is read back by the parser of \<open>QM_Mime\<close>.
\<close>

section \<open>The code\<close>

record build_part =
  bp_type :: string
  bp_charset :: string
  bp_content :: string
  bp_filename :: string
  bp_cid :: string
  bp_disposition :: string

definition part_IEquals :: "string \<Rightarrow> string \<Rightarrow> bool" where
  "part_IEquals a b = (length a = length b \<and> Lower a = Lower b)"

definition IsTextType :: "string \<Rightarrow> bool" where
  "IsTextType ty = (take 5 (Lower ty) = ''text/'')"

definition HeaderSafe :: "string \<Rightarrow> string" where
  "HeaderSafe s = filter (\<lambda>c. c \<noteq> CR \<and> c \<noteq> LF) s"

definition ParamFilename :: "string \<Rightarrow> string" where
  "ParamFilename name =
     (let out = dropWhile (\<lambda>c. c = CHR ''.'')
                  (filter (\<lambda>c. \<not> (c = CHR ''/'' \<or> c = BACKSLASH \<or> c = DQUOTE \<or> byte c < 0x20 \<or> byte c = 0x7F)) name)
      in if out = [] then ''attachment'' else out)"

definition crlf_char :: "char \<Rightarrow> string" where
  "crlf_char c = (if c = CR then [] else if c = LF then crlf else [c])"

definition CrlfBody :: "string \<Rightarrow> string" where
  "CrlfBody s =
     (let out = concat (map crlf_char s) in
      if length out < 2 \<or> drop (length out - 2) out \<noteq> crlf then out @ crlf else out)"

function wrap76 :: "string \<Rightarrow> string" where
  "wrap76 s = (if s = [] then [] else take 76 s @ crlf @ wrap76 (drop 76 s))"
  by pat_completeness auto
termination by (relation "measure length") auto

declare wrap76.simps [simp del]

definition Base64Wrapped :: "string \<Rightarrow> string" where
  "Base64Wrapped raw = (let out = wrap76 (Base64Encode raw) in if out = [] then crlf else out)"

definition collides :: "build_part list \<Rightarrow> string \<Rightarrow> bool" where
  "collides parts candidate = list_ex (\<lambda>p. cut_sub candidate (bp_content p) \<noteq> None) parts"

text \<open>Eight attempts with 16 random bytes, then one with 32.\<close>

definition SafeBoundary :: "(nat \<Rightarrow> string) \<Rightarrow> build_part list \<Rightarrow> string" where
  "SafeBoundary rnd parts =
     (case find (\<lambda>k. \<not> collides parts (''=_qc_'' @ rnd k)) [0..<8] of
        Some k \<Rightarrow> ''=_qc_'' @ rnd k | None \<Rightarrow> ''=_qc_'' @ rnd 8)"

definition IsAttachment :: "build_part \<Rightarrow> bool" where
  "IsAttachment p =
     (if part_IEquals (bp_disposition p) ''attachment'' then True
      else if part_IEquals (bp_disposition p) ''inline'' then False
      else bp_filename p \<noteq> [])"

definition IsInlineRelated :: "build_part \<Rightarrow> bool" where
  "IsInlineRelated p = (bp_cid p \<noteq> [] \<and> \<not> IsAttachment p)"

text \<open>The loop over a text: \<^const>\<open>True\<close> when it has to be quoted-printable.\<close>

fun needs_qp :: "nat \<Rightarrow> string \<Rightarrow> bool" where
  "needs_qp line [] = False"
| "needs_qp line (c # cs) =
     (if c = LF then needs_qp 0 cs
      else if c = CR then needs_qp line cs
      else byte c < 0x09 \<or> byte c > 0x0D \<and> byte c < 0x20 \<or> byte c = 0x7F \<or> line + 1 > 900 \<or> needs_qp (line + 1) cs)"

definition part_type :: "build_part \<Rightarrow> string" where
  "part_type p = (if bp_type p = [] then ''application/octet-stream'' else bp_type p)"

definition ChooseEncoding :: "build_part \<Rightarrow> string" where
  "ChooseEncoding p =
     (if take 8 (Lower (part_type p)) = ''message/'' then ''8bit''
      else if \<not> IsTextType (part_type p) then ''base64''
      else if needs_qp 0 (bp_content p) then ''quoted-printable'' else ''8bit'')"

text \<open>An identifier of line ends only is empty once they are gone; the source then reads its first character.\<close>

definition cid_value :: "string \<Rightarrow> string" where
  "cid_value cid = (let i = HeaderSafe cid in if i \<noteq> [] \<and> hd i = CHR ''<'' then i else ''<'' @ i @ ''>'')"

definition emit_lines :: "build_part \<Rightarrow> string list" where
  "emit_lines p =
     [''Content-Type: '' @ HeaderSafe (part_type p)
        @ (if IsTextType (part_type p) \<and> bp_charset p \<noteq> [] then ''; charset='' @ HeaderSafe (bp_charset p) else [])
        @ (if bp_filename p \<noteq> [] then ''; name='' @ [DQUOTE] @ ParamFilename (bp_filename p) @ [DQUOTE] else []),
      ''Content-Transfer-Encoding: '' @ ChooseEncoding p]
     @ (if bp_cid p \<noteq> [] then [''Content-ID: '' @ cid_value (bp_cid p)] else [])
     @ (if bp_filename p \<noteq> []
        then [''Content-Disposition: '' @ (if IsAttachment p then ''attachment'' else ''inline'') @ ''; filename='' @ [DQUOTE]
                @ ParamFilename (bp_filename p) @ [DQUOTE]]
        else if part_IEquals (bp_disposition p) ''inline'' \<or> bp_cid p \<noteq> [] then [''Content-Disposition: inline''] else [])"

definition emit_body :: "build_part \<Rightarrow> string" where
  "emit_body p =
     (if ChooseEncoding p = ''base64'' then Base64Wrapped (bp_content p)
      else if ChooseEncoding p = ''quoted-printable'' then CrlfBody (EncodeQuotedPrintable (bp_content p))
      else CrlfBody (bp_content p))"

definition EmitPart :: "build_part \<Rightarrow> string" where
  "EmitPart p = concat (map (\<lambda>l. l @ crlf) (emit_lines p)) @ crlf @ emit_body p"

definition EmitMultipart :: "string \<Rightarrow> string \<Rightarrow> string list \<Rightarrow> string \<Rightarrow> string" where
  "EmitMultipart subtype boundary children extra =
     ''Content-Type: multipart/'' @ subtype @ ''; boundary='' @ [DQUOTE] @ boundary @ [DQUOTE] @ extra @ crlf @ crlf
     @ ''This is a multi-part message in MIME format.'' @ crlf
     @ concat (map (\<lambda>child. crlf @ ''--'' @ boundary @ crlf @ child) children)
     @ crlf @ ''--'' @ boundary @ ''--'' @ crlf"

definition rank :: "build_part \<Rightarrow> nat" where
  "rank p =
     (let t = Lower (bp_type p) in
      if take 10 t = ''text/plain'' then 0 else if take 9 t = ''text/html'' then 1 else 2)"

definition framing_header :: "string \<Rightarrow> bool" where
  "framing_header n =
     (part_IEquals n ''Content-Type'' \<or> part_IEquals n ''Content-Transfer-Encoding'' \<or> part_IEquals n ''MIME-Version'')"

definition safe_header_line :: "string \<times> string \<Rightarrow> string" where
  "safe_header_line h = HeaderSafe (fst h) @ '': '' @ HeaderSafe (snd h)"

definition message_head :: "(string \<times> string) list \<Rightarrow> string" where
  "message_head headers =
     concat (map (\<lambda>h. safe_header_line h @ crlf) (filter (\<lambda>h. \<not> framing_header (fst h)) headers)) @ ''MIME-Version: 1.0'' @ crlf"

definition body_parts :: "build_part list \<Rightarrow> build_part list" where
  "body_parts said = sort_key rank (filter (\<lambda>p. \<not> IsAttachment p \<and> \<not> IsInlineRelated p) said)"

definition said :: "build_part list \<Rightarrow> build_part list" where
  "said parts = filter (\<lambda>p. \<not> (bp_content p = [] \<and> bp_filename p = [])) parts"

definition alternative :: "(nat \<Rightarrow> nat \<Rightarrow> string) \<Rightarrow> build_part list \<Rightarrow> string" where
  "alternative rnd parts =
     (case body_parts (said parts) of
        [] \<Rightarrow> [] | [p] \<Rightarrow> EmitPart p
      | ps \<Rightarrow> EmitMultipart ''alternative'' (SafeBoundary (rnd 0) parts) (map EmitPart ps) [])"

definition related :: "(nat \<Rightarrow> nat \<Rightarrow> string) \<Rightarrow> build_part list \<Rightarrow> string" where
  "related rnd parts =
     (let inner = alternative rnd parts; body = body_parts (said parts);
          inlines = filter (\<lambda>p. \<not> IsAttachment p \<and> IsInlineRelated p) (said parts)
      in if inlines = [] then inner
         else EmitMultipart ''related'' (SafeBoundary (rnd 1) parts)
                ((if inner = [] then [] else [inner]) @ map EmitPart inlines)
                (if body = [] then [] else ''; type='' @ [DQUOTE] @ Lower (bp_type (last body)) @ [DQUOTE]))"

definition mixed :: "(nat \<Rightarrow> nat \<Rightarrow> string) \<Rightarrow> build_part list \<Rightarrow> string" where
  "mixed rnd parts =
     (let inner = related rnd parts; attached = filter IsAttachment (said parts)
      in if attached = [] then inner
         else EmitMultipart ''mixed'' (SafeBoundary (rnd 2) parts)
                ((if inner = [] then [] else [inner]) @ map EmitPart attached) [])"

definition BuildMessage :: "(nat \<Rightarrow> nat \<Rightarrow> string) \<Rightarrow> (string \<times> string) list \<Rightarrow> build_part list \<Rightarrow> string" where
  "BuildMessage rnd headers parts =
     (if said parts = []
      then message_head headers @ ''Content-Type: text/plain; charset=utf-8'' @ crlf
             @ ''Content-Transfer-Encoding: 8bit'' @ crlf @ crlf @ crlf
      else message_head headers @ mixed rnd parts)"

section \<open>Headers\<close>

text \<open>A text that begins with a block of well-formed content headers.\<close>

definition content_line :: "string \<Rightarrow> bool" where
  "content_line l =
     (plain_line l \<and> list_ex (\<lambda>n. take (length n + 2) l = n @ '': '')
        [''Content-Type'', ''Content-Transfer-Encoding'', ''Content-ID'', ''Content-Disposition''])"

definition framed :: "string \<Rightarrow> bool" where
  "framed s = (\<exists>ls rest. s = join_eol crlf ls @ crlf @ crlf @ rest \<and> ls \<noteq> [] \<and> list_all content_line ls)"

lemma plain_value_simps [simp]: "plain_value []" "plain_value (c # s) \<longleftrightarrow> c \<noteq> CR \<and> c \<noteq> LF \<and> plain_value s"
  "plain_value (s @ t) \<longleftrightarrow> plain_value s \<and> plain_value t" "plain_value (HeaderSafe s)"
  by (auto simp: plain_value_def HeaderSafe_def)

lemma ParamFilename_quotable: "quotable (ParamFilename name)"
proof -
  have "\<not> (byte c < 0x20) \<Longrightarrow> c \<noteq> CR \<and> c \<noteq> LF" for c by auto
  then show ?thesis
    by (auto simp: ParamFilename_def quotable_def Let_def dest!: set_dropWhileD)
qed

lemma quotable_plain: "quotable s \<Longrightarrow> plain_value s"
  by (simp add: quotable_def plain_value_def)

lemma ChooseEncoding_cases: "ChooseEncoding p \<in> {''8bit'', ''base64'', ''quoted-printable''}"
  by (simp add: ChooseEncoding_def)

lemma plain_encoding: "plain_value (ChooseEncoding p)"
  using ChooseEncoding_cases [of p] by auto

lemma emit_lines_content: "list_all content_line (emit_lines p)"
  using quotable_plain [OF ParamFilename_quotable, of "bp_filename p"] plain_encoding [of p]
  by (auto simp: emit_lines_def content_line_def plain_line_def plain_value_def is_blank_def cid_value_def Let_def HeaderSafe_def)

lemma crlf_lines: "ls \<noteq> [] \<Longrightarrow> concat (map (\<lambda>l. l @ crlf) ls) = join_eol crlf ls @ crlf"
  by (induction ls rule: list_nonempty_induct) (auto simp: join_eol_Cons)

lemma EmitPart_framed: "framed (EmitPart p)"
  unfolding framed_def EmitPart_def
proof (intro exI conjI)
  show ne: "emit_lines p \<noteq> []" by (simp add: emit_lines_def)
  show "concat (map (\<lambda>l. l @ crlf) (emit_lines p)) @ crlf @ emit_body p = join_eol crlf (emit_lines p) @ crlf @ crlf @ emit_body p"
    using crlf_lines [OF ne] by simp
qed (rule emit_lines_content)


lemma content_line_type: "plain_value s \<Longrightarrow> content_line (''Content-Type: '' @ s)"
  by (simp add: content_line_def plain_line_def plain_value_def is_blank_def)

lemma EmitMultipart_framed:
  assumes "plain_value subtype" "plain_value boundary" "plain_value extra"
  shows "framed (EmitMultipart subtype boundary children extra)"
proof -
  let ?l = "''Content-Type: '' @ ''multipart/'' @ subtype @ ''; boundary='' @ [DQUOTE] @ boundary @ [DQUOTE] @ extra"
  have "content_line ?l" using assms by (intro content_line_type) simp
  moreover have "EmitMultipart subtype boundary children extra = join_eol crlf [?l] @ crlf @ crlf @
      ''This is a multi-part message in MIME format.'' @ crlf
      @ concat (map (\<lambda>child. crlf @ ''--'' @ boundary @ crlf @ child) children) @ crlf @ ''--'' @ boundary @ ''--'' @ crlf"
    by (simp add: EmitMultipart_def)
  ultimately show ?thesis unfolding framed_def by (metis list.distinct(1) list.pred_inject)
qed

definition safe_random :: "(nat \<Rightarrow> nat \<Rightarrow> string) \<Rightarrow> bool" where
  "safe_random rnd \<longleftrightarrow> (\<forall>i k. plain_value (rnd i k))"

lemma SafeBoundary_plain: "safe_random rnd \<Longrightarrow> plain_value (SafeBoundary (rnd i) parts)"
  by (auto simp: safe_random_def SafeBoundary_def split: option.splits)

definition no_line_end_in_types :: "build_part list \<Rightarrow> bool" where
  "no_line_end_in_types parts = list_all (\<lambda>p. plain_value (bp_type p)) parts"

lemma plain_value_Lower: "plain_value s \<Longrightarrow> plain_value (Lower s)"
proof -
  have "tolower c = CR \<Longrightarrow> c = CR" "tolower c = LF \<Longrightarrow> c = LF" for c
    by (cases "isupper c"; auto simp: byte_tolower isupper_def tolower_other dest!: arg_cong [where f = "of_char :: char \<Rightarrow> nat"])+
  then show "plain_value s \<Longrightarrow> plain_value (Lower s)"
    unfolding plain_value_def Lower_def by auto metis+
qed

lemma said_cases: "p \<in> set (said parts) \<Longrightarrow>
  p \<in> set (body_parts (said parts)) \<or> p \<in> set (filter (\<lambda>p. \<not> IsAttachment p \<and> IsInlineRelated p) (said parts))
    \<or> p \<in> set (filter IsAttachment (said parts))"
  by (auto simp: body_parts_def)

lemma alternative_framed:
  assumes "safe_random rnd"
  shows "alternative rnd parts = [] \<or> framed (alternative rnd parts)"
    "alternative rnd parts = [] \<longleftrightarrow> body_parts (said parts) = []"
proof -
  have ne: "framed s \<Longrightarrow> s \<noteq> []" for s by (auto simp: framed_def)
  have f: "framed (EmitMultipart ''alternative'' (SafeBoundary (rnd 0) parts) cs [])" for cs
    using assms SafeBoundary_plain by (intro EmitMultipart_framed) simp_all
  show "alternative rnd parts = [] \<or> framed (alternative rnd parts)"
    "alternative rnd parts = [] \<longleftrightarrow> body_parts (said parts) = []"
    using f EmitPart_framed ne by (auto simp: alternative_def split: list.splits)
qed

lemma related_framed:
  assumes "safe_random rnd" "no_line_end_in_types parts"
  shows "related rnd parts = [] \<or> framed (related rnd parts)"
    "related rnd parts = [] \<longleftrightarrow> alternative rnd parts = [] \<and> filter (\<lambda>p. \<not> IsAttachment p \<and> IsInlineRelated p) (said parts) = []"
proof -
  have ne: "framed s \<Longrightarrow> s \<noteq> []" for s by (auto simp: framed_def)
  have "plain_value (bp_type (last (body_parts (said parts))))" if "body_parts (said parts) \<noteq> []"
  proof -
    have "last (body_parts (said parts)) \<in> set parts"
      using last_in_set [OF that] by (auto simp: body_parts_def said_def)
    then show ?thesis using assms(2) by (simp add: no_line_end_in_types_def list_all_iff)
  qed
  then have "plain_value (if body_parts (said parts) = [] then [] else ''; type='' @ [DQUOTE] @ Lower (bp_type (last (body_parts (said parts)))) @ [DQUOTE])"
    by (simp add: plain_value_Lower)
  then have f: "framed (EmitMultipart ''related'' (SafeBoundary (rnd 1) parts) cs
      (if body_parts (said parts) = [] then [] else ''; type='' @ [DQUOTE] @ Lower (bp_type (last (body_parts (said parts)))) @ [DQUOTE]))" for cs
    using assms(1) SafeBoundary_plain by (intro EmitMultipart_framed) simp_all
  show "related rnd parts = [] \<or> framed (related rnd parts)"
    using alternative_framed(1) [OF assms(1), where parts = parts] f by (auto simp: related_def Let_def)
  show "related rnd parts = [] \<longleftrightarrow> alternative rnd parts = [] \<and> filter (\<lambda>p. \<not> IsAttachment p \<and> IsInlineRelated p) (said parts) = []"
    using ne [OF f] by (auto simp: related_def Let_def)
qed

lemma mixed_framed:
  assumes "safe_random rnd" "no_line_end_in_types parts" "said parts \<noteq> []"
  shows "framed (mixed rnd parts)"
proof -
  have f: "framed (EmitMultipart ''mixed'' (SafeBoundary (rnd 2) parts) cs [])" for cs
    using assms(1) SafeBoundary_plain by (intro EmitMultipart_framed) simp_all
  show ?thesis
  proof (cases "filter IsAttachment (said parts) = []")
    case True
    then have "related rnd parts \<noteq> []"
      using related_framed(2) [OF assms(1,2)] alternative_framed(2) [OF assms(1), where parts = parts] said_cases [of "hd (said parts)" parts] assms(3)
      by (metis hd_in_set list.set(1) empty_iff)
    then show ?thesis using related_framed(1) [OF assms(1,2)] True by (simp add: mixed_def Let_def)
  qed (simp add: mixed_def Let_def f)
qed

text \<open>The header block of a message is the caller's headers, each on a line of its own, then the framing ones.\<close>

definition header_name_ok :: "string \<Rightarrow> bool" where
  "header_name_ok n = (let m = HeaderSafe n in m \<noteq> [] \<and> CHR '':'' \<notin> set m \<and> \<not> isspace (hd m) \<and> \<not> isspace (last m))"

definition kept_headers :: "(string \<times> string) list \<Rightarrow> (string \<times> string) list" where
  "kept_headers headers = filter (\<lambda>h. \<not> framing_header (fst h)) headers"

lemma safe_header_plain: "header_name_ok (fst h) \<Longrightarrow> plain_line (safe_header_line h)"
  by (auto simp: header_name_ok_def safe_header_line_def plain_line_def HeaderSafe_def Let_def is_blank_def isspace_def hd_append)

lemma header_of_line: "header_name_ok (fst h) \<Longrightarrow> header_of (safe_header_line h) = [(HeaderSafe (fst h), TrimWs (HeaderSafe (snd h)))]"
  unfolding safe_header_line_def by (intro header_of_field TrimWs_plain) (auto simp: header_name_ok_def Let_def)

lemma header_of_lines:
  "list_all (\<lambda>h. header_name_ok (fst h)) hs \<Longrightarrow>
   concat (map header_of (map safe_header_line hs)) = map (\<lambda>h. (HeaderSafe (fst h), TrimWs (HeaderSafe (snd h)))) hs"
  by (induction hs) (simp_all add: header_of_line)

lemma header_of_content:
  assumes "content_line l"
  shows "\<exists>n v. header_of l = [(n, v)] \<and> n \<in> set [''Content-Type'', ''Content-Transfer-Encoding'', ''Content-ID'', ''Content-Disposition'']"
proof -
  obtain n where n: "n \<in> set [''Content-Type'', ''Content-Transfer-Encoding'', ''Content-ID'', ''Content-Disposition'']"
    and l: "take (length n + 2) l = n @ '': ''"
    using assms by (auto simp only: content_line_def list_ex_iff)
  have "l = n @ '': '' @ drop (length n + 2) l"
    using append_take_drop_id [of "length n + 2" l, symmetric] unfolding l by simp
  moreover have "CHR '':'' \<notin> set n" "n \<noteq> []" "TrimWs n = n" using n by (auto simp: TrimWs_def isspace_def)
  ultimately show ?thesis using header_of_field n by metis
qed

lemma content_headers:
  "list_all content_line ls \<Longrightarrow>
   list_all (\<lambda>h. fst h \<in> set [''Content-Type'', ''Content-Transfer-Encoding'', ''Content-ID'', ''Content-Disposition'']) (concat (map header_of ls))"
  by (induction ls) (auto dest!: header_of_content)

lemma concat_join_eol: "ls \<noteq> [] \<Longrightarrow> concat (map (\<lambda>l. l @ crlf) xs) @ join_eol crlf ls = join_eol crlf (xs @ ls)"
  by (induction xs) (auto simp: join_eol_Cons)

lemma message_framed:
  assumes "safe_random rnd" "no_line_end_in_types parts"
  shows "\<exists>ls rest. BuildMessage rnd headers parts =
      join_eol crlf (map safe_header_line (kept_headers headers) @ ''MIME-Version: 1.0'' # ls) @ crlf @ crlf @ rest
    \<and> list_all content_line ls"
proof -
  have head: "message_head headers = concat (map (\<lambda>l. l @ crlf) (map safe_header_line (kept_headers headers) @ [''MIME-Version: 1.0'']))"
    by (simp add: message_head_def kept_headers_def comp_def)
  have "\<exists>ls rest. BuildMessage rnd headers parts = message_head headers @ join_eol crlf ls @ crlf @ crlf @ rest
      \<and> ls \<noteq> [] \<and> list_all content_line ls"
  proof (cases "said parts = []")
    case True
    let ?ls = "[''Content-Type: text/plain; charset=utf-8'', ''Content-Transfer-Encoding: 8bit'']"
    have "list_all content_line ?ls" by (simp add: content_line_def plain_line_def is_blank_def)
    moreover have "BuildMessage rnd headers parts = message_head headers @ join_eol crlf ?ls @ crlf @ crlf @ crlf"
      using True by (simp add: BuildMessage_def)
    ultimately show ?thesis by blast
  next
    case False
    then obtain ls rest where "mixed rnd parts = join_eol crlf ls @ crlf @ crlf @ rest" "ls \<noteq> []" "list_all content_line ls"
      using mixed_framed [OF assms] by (auto simp: framed_def)
    then show ?thesis using False by (auto simp: BuildMessage_def)
  qed
  then obtain ls rest where *: "BuildMessage rnd headers parts = message_head headers @ join_eol crlf ls @ crlf @ crlf @ rest"
    "ls \<noteq> []" "list_all content_line ls" by blast
  then have "BuildMessage rnd headers parts =
      join_eol crlf ((map safe_header_line (kept_headers headers) @ [''MIME-Version: 1.0'']) @ ls) @ crlf @ crlf @ rest"
    unfolding head concat_join_eol [OF *(2), symmetric] by simp
  with *(3) show ?thesis by auto
qed



section \<open>Attachments are read back\<close>

lemma filter_wrap76: "filter (\<lambda>c. \<not> isspace c) (wrap76 s) = filter (\<lambda>c. \<not> isspace c) s"
proof (induction s rule: wrap76.induct)
  case (1 s)
  show ?case
  proof (cases "s = []")
    case False
    have "filter (\<lambda>c. \<not> isspace c) (wrap76 s)
        = filter (\<lambda>c. \<not> isspace c) (take 76 s) @ filter (\<lambda>c. \<not> isspace c) (wrap76 (drop 76 s))"
      using False by (subst wrap76.simps) (simp add: isspace_def)
    also have "\<dots> = filter (\<lambda>c. \<not> isspace c) (take 76 s @ drop 76 s)" by (simp only: "1.IH" [OF False] filter_append)
    finally show ?thesis by simp
  qed (simp add: wrap76.simps)
qed

lemma Base64Wrapped_decodes: "DecodeContentTransferEncoding ''base64'' (Base64Wrapped s) = s"
proof -
  have "filter (\<lambda>c. \<not> isspace c) (Base64Wrapped s) = filter (\<lambda>c. \<not> isspace c) (Base64Encode s)"
    using filter_wrap76 [of "Base64Encode s"] by (auto simp: Base64Wrapped_def Let_def isspace_def)
  then have "Base64Decode (Base64Wrapped s) = (True, s)" by (rule Base64Decode_folded)
  moreover have "trim_blank (Lower ''base64'') = ''base64''" by code_simp
  ultimately show ?thesis by (simp add: DecodeContentTransferEncoding_def Let_def)
qed

definition attachment_type :: "string \<Rightarrow> string \<Rightarrow> string \<Rightarrow> bool" where
  "attachment_type ty t u = (ty = t @ ''/'' @ u \<and> t \<noteq> [] \<and> list_all type_char (t @ u) \<and> t \<notin> set [''text'', ''message'', ''multipart''])"

lemma attachment_type_chars:
  assumes "attachment_type ty t u"
  shows "Lower ty = ty" "Lower t = t" "plain_value ty" "ty \<noteq> []" "CHR ''/'' \<notin> set t"
    "list_all (\<lambda>c. \<not> isspace c \<and> c \<noteq> DQUOTE \<and> c \<noteq> CHR ''('' \<and> c \<noteq> CHR '';'') ty" "\<not> IsTextType ty" "take 8 (Lower ty) \<noteq> ''message/''"
proof -
  have ty: "ty = t @ ''/'' @ u" and tc: "\<And>c. c \<in> set t \<union> set u \<Longrightarrow> type_char c" and t: "t \<noteq> ''text''" "t \<noteq> ''message''"
    using assms by (auto simp: attachment_type_def list_all_iff)
  have slash: "tolower (CHR ''/'') = CHR ''/''" by code_simp
  show low: "Lower ty = ty" "Lower t = t"
    using tc type_char slash by (auto simp: ty Lower_def intro!: map_idI)
  show "plain_value ty" using tc type_char by (auto simp: ty plain_value_def)
  show "ty \<noteq> []" by (simp add: ty)
  show free: "CHR ''/'' \<notin> set t" using tc type_char by blast
  show "list_all (\<lambda>c. \<not> isspace c \<and> c \<noteq> DQUOTE \<and> c \<noteq> CHR ''('' \<and> c \<noteq> CHR '';'') ty"
    using tc type_char by (auto simp: ty list_all_iff isspace_def)
  have before: "takeWhile (\<lambda>c. c \<noteq> CHR ''/'') ty = t" using free by (auto simp: ty takeWhile_append)
  have cut: "takeWhile (\<lambda>c. c \<noteq> CHR ''/'') ty = w" if "take (Suc (length w)) ty = w @ ''/''" "CHR ''/'' \<notin> set w" for w
  proof -
    have "ty = w @ CHR ''/'' # drop (Suc (length w)) ty"
      using append_take_drop_id [of "Suc (length w)" ty, symmetric] unfolding that(1) by simp
    then have "takeWhile (\<lambda>c. c \<noteq> CHR ''/'') ty = takeWhile (\<lambda>c. c \<noteq> CHR ''/'') (w @ CHR ''/'' # drop (Suc (length w)) ty)" by simp
    also have "\<dots> = w" using that(2) by (auto simp: takeWhile_append)
    finally show ?thesis .
  qed
  have five: "take 5 ty = take (Suc (length ''text'')) ty" and eight: "take 8 ty = take (Suc (length ''message'')) ty"
    by (simp_all add: eval_nat_numeral)
  show "\<not> IsTextType ty" unfolding IsTextType_def low five using cut [of "''text''"] before t(1) by fastforce
  show "take 8 (Lower ty) \<noteq> ''message/''" unfolding low eight using cut [of "''message''"] before t(2) by fastforce
qed

lemma content_names:
  "CHR '':'' \<notin> set ''Content-Type''" "TrimWs ''Content-Type'' = ''Content-Type''"
  "CHR '':'' \<notin> set ''Content-Transfer-Encoding''" "TrimWs ''Content-Transfer-Encoding'' = ''Content-Transfer-Encoding''"
  "CHR '':'' \<notin> set ''Content-ID''" "TrimWs ''Content-ID'' = ''Content-ID''"
  "CHR '':'' \<notin> set ''Content-Disposition''" "TrimWs ''Content-Disposition'' = ''Content-Disposition''"
  by code_simp+

lemma header_of_names:
  "header_of (''Content-Type'' @ '': '' @ v) = [(''Content-Type'', TrimWs v)]"
  "header_of (''Content-Transfer-Encoding'' @ '': '' @ v) = [(''Content-Transfer-Encoding'', TrimWs v)]"
  "header_of (''Content-ID'' @ '': '' @ v) = [(''Content-ID'', TrimWs v)]"
  "header_of (''Content-Disposition'' @ '': '' @ v) = [(''Content-Disposition'', TrimWs v)]"
  by (rule header_of_field content_names list.distinct)+

definition quoted_value :: "string \<Rightarrow> string \<Rightarrow> string \<Rightarrow> string" where
  "quoted_value u n b = u @ ''; '' @ n @ ''='' @ DQUOTE # b @ [DQUOTE]"

lemma TrimWs_quoted_value: "u \<noteq> [] \<Longrightarrow> \<not> isspace (hd u) \<Longrightarrow> TrimWs (quoted_value u n b) = quoted_value u n b"
  by (rule TrimWs_plain) (simp add: quoted_value_def isspace_def)

lemma attachment_headers:
  assumes "attachment_type (bp_type p) t u" "bp_filename p \<noteq> []"
  defines "F \<equiv> ParamFilename (bp_filename p)" and "D \<equiv> (if IsAttachment p then ''attachment'' else ''inline'')"
  shows "HeaderValue (concat (map header_of (emit_lines p))) ''Content-Type'' = quoted_value (bp_type p) ''name'' F"
    "HeaderValue (concat (map header_of (emit_lines p))) ''Content-Transfer-Encoding'' = ''base64''"
    "HeaderValue (concat (map header_of (emit_lines p))) ''Content-Disposition'' = quoted_value D ''filename'' F"
proof -
  note ty = attachment_type_chars [OF assms(1)]
  have safe: "HeaderSafe (bp_type p) = bp_type p" using ty(3) by (auto simp: HeaderSafe_def plain_value_def filter_id_conv)
  have enc: "ChooseEncoding p = ''base64''" "part_type p = bp_type p" using ty(4,7,8) by (simp_all add: ChooseEncoding_def part_type_def)
  have lines: "emit_lines p =
      [''Content-Type'' @ '': '' @ quoted_value (bp_type p) ''name'' F, ''Content-Transfer-Encoding'' @ '': '' @ ''base64'']
      @ (if bp_cid p \<noteq> [] then [''Content-ID'' @ '': '' @ cid_value (bp_cid p)] else [])
      @ [''Content-Disposition'' @ '': '' @ quoted_value D ''filename'' F]"
    using assms(2) ty(7) by (simp add: emit_lines_def enc safe quoted_value_def F_def D_def)
  have "\<not> isspace (hd (bp_type p))" using ty(4,6) by (cases "bp_type p") auto
  then have "TrimWs (quoted_value (bp_type p) ''name'' F) = quoted_value (bp_type p) ''name'' F"
    using ty(4) by (intro TrimWs_quoted_value)
  moreover have "TrimWs (quoted_value D ''filename'' F) = quoted_value D ''filename'' F"
    by (rule TrimWs_quoted_value) (simp_all add: D_def isspace_def)
  moreover have "TrimWs ''base64'' = ''base64''" by code_simp
  ultimately have trims: "TrimWs (quoted_value (bp_type p) ''name'' F) = quoted_value (bp_type p) ''name'' F"
    "TrimWs (quoted_value D ''filename'' F) = quoted_value D ''filename'' F" "TrimWs ''base64'' = ''base64''" by simp_all
  have hs: "concat (map header_of (emit_lines p)) =
      [(''Content-Type'', quoted_value (bp_type p) ''name'' F), (''Content-Transfer-Encoding'', ''base64'')]
      @ (if bp_cid p \<noteq> [] then [(''Content-ID'', TrimWs (cid_value (bp_cid p)))] else [])
      @ [(''Content-Disposition'', quoted_value D ''filename'' F)]"
    unfolding lines using trims by (simp add: header_of_names del: append_Cons append_Nil)
  show "HeaderValue (concat (map header_of (emit_lines p))) ''Content-Type'' = quoted_value (bp_type p) ''name'' F"
    "HeaderValue (concat (map header_of (emit_lines p))) ''Content-Transfer-Encoding'' = ''base64''"
    "HeaderValue (concat (map header_of (emit_lines p))) ''Content-Disposition'' = quoted_value D ''filename'' F"
    unfolding hs by (simp_all add: HeaderValue_Cons lower_names)
qed


lemma quoted_value_parse:
  assumes "quotable b" "list_all (\<lambda>c. \<not> isspace c \<and> c \<noteq> DQUOTE \<and> c \<noteq> CHR ''('' \<and> c \<noteq> CHR '';'') u" "u \<noteq> []"
    and "n \<in> set [''name'', ''filename'']"
  shows "ct_params (ParseContentType (quoted_value u n b)) = [(n, b)]"
    "CHR ''/'' \<notin> set u \<Longrightarrow> ct_type (ParseContentType (quoted_value u n b)) = Lower u"
    "u = s @ ''/'' @ t \<Longrightarrow> CHR ''/'' \<notin> set s \<Longrightarrow> ct_type (ParseContentType (quoted_value u n b)) = Lower s"
proof -
  have n: "list_all (\<lambda>c. \<not> isspace c \<and> c \<noteq> DQUOTE \<and> c \<noteq> CHR ''('' \<and> c \<noteq> CHR '';'' \<and> c \<noteq> CHR ''='') n" "n \<noteq> []" "Lower n = n"
    using assms(4) by (auto simp: isspace_def Lower_def tolower_def)
  show "ct_params (ParseContentType (quoted_value u n b)) = [(n, b)]"
    "CHR ''/'' \<notin> set u \<Longrightarrow> ct_type (ParseContentType (quoted_value u n b)) = Lower u"
    "u = s @ ''/'' @ t \<Longrightarrow> CHR ''/'' \<notin> set s \<Longrightarrow> ct_type (ParseContentType (quoted_value u n b)) = Lower s"
    unfolding quoted_value_def using quoted_header [OF assms(1-3) n] by blast+
qed




end
