(* ===== verification/QM_Dates.thy ===== *)
theory QM_Dates
  imports QM_Prelude "HOL-Library.Signed_Division"
begin

text \<open>
  The dates of message headers: \<^verbatim>\<open>RfcDate\<close> of \<^verbatim>\<open>src/core/src/util.cpp\<close> writes them, \<^verbatim>\<open>ParseDate\<close> of
  \<^verbatim>\<open>src/core/src/rfc5322.cpp\<close> reads them. \<^verbatim>\<open>gmtime_r\<close> is the calendar counted day by day from 1 January 1970. The
  day count of the parser is shown to be the inverse of that calendar, and a written date to be read back. The numbers are exact: \<^verbatim>\<open>ParseDate\<close> overflows
  (undefined behaviour) on clocks beyond the 32-bit seconds, and \<^verbatim>\<open>gmtime_r\<close> fails on years beyond 32 bits.
\<close>

section \<open>Writing\<close>

record date =
  d_year :: int
  d_month :: int
  d_day :: int

definition leap_year :: "int \<Rightarrow> bool" where
  "leap_year y \<longleftrightarrow> 4 dvd y \<and> (\<not> 100 dvd y \<or> 400 dvd y)"

definition month_days :: "int \<Rightarrow> int \<Rightarrow> int" where
  "month_days y m = (if m = 2 then (if leap_year y then 29 else 28) else if m = 4 \<or> m = 6 \<or> m = 9 \<or> m = 11 then 30 else 31)"

definition next_day :: "date \<Rightarrow> date" where
  "next_day d =
     (if d_day d < month_days (d_year d) (d_month d) then d\<lparr>d_day := d_day d + 1\<rparr>
      else if d_month d < 12 then d\<lparr>d_month := d_month d + 1, d_day := 1\<rparr>
      else \<lparr>d_year = d_year d + 1, d_month = 1, d_day = 1\<rparr>)"

fun civil :: "nat \<Rightarrow> date" where
  "civil 0 = \<lparr>d_year = 1970, d_month = 1, d_day = 1\<rparr>"
| "civil (Suc n) = next_day (civil n)"

definition kDay :: "string list" where
  "kDay = [''Sun'', ''Mon'', ''Tue'', ''Wed'', ''Thu'', ''Fri'', ''Sat'']"

definition kMon :: "string list" where
  "kMon = [''Jan'', ''Feb'', ''Mar'', ''Apr'', ''May'', ''Jun'', ''Jul'', ''Aug'', ''Sep'', ''Oct'', ''Nov'', ''Dec'']"

text \<open>\<^verbatim>\<open>%02d\<close> on numbers that are not negative.\<close>

definition two_digits :: "int \<Rightarrow> string" where
  "two_digits i = (if i < 10 then ''0'' @ to_string i else to_string i)"

definition RfcDate :: "int \<Rightarrow> int \<Rightarrow> string" where
  "RfcDate now epoch =
     (let t = (if epoch > 0 then epoch else now); days = t div 86400; secs = t mod 86400; d = civil (nat days) in
      kDay ! nat ((days + 4) mod 7) @ '', '' @ to_string (d_day d) @ '' '' @ kMon ! nat ((d_month d - 1) mod 12) @ '' ''
      @ to_string (d_year d) @ '' '' @ two_digits (secs div 3600) @ '':'' @ two_digits (secs div 60 mod 60) @ '':''
      @ two_digits (secs mod 60) @ '' +0000'')"

section \<open>Reading\<close>

text \<open>The days since 1970; the day of the month is unsigned, of 32 bits.\<close>

definition DaysFromCivil :: "int \<Rightarrow> int \<Rightarrow> int \<Rightarrow> int" where
  "DaysFromCivil y0 m d =
     (let y = (if m \<le> 2 then y0 - 1 else y0);
          era = (if y \<ge> 0 then y else y - 399) sdiv 400;
          yoe = y - era * 400;
          doy = ((153 * (m + (if m > 2 then - 3 else 9)) + 2) div 5 + d - 1) mod 2 ^ 32;
          doe = (yoe * 365 + yoe div 4 - yoe div 100 + doy) mod 2 ^ 32
      in era * 146097 + doe - 719468)"

definition kMonths :: "string list" where
  "kMonths = [''jan'', ''feb'', ''mar'', ''apr'', ''may'', ''jun'', ''jul'', ''aug'', ''sep'', ''oct'', ''nov'', ''dec'']"

definition MonthIndex :: "string \<Rightarrow> int" where
  "MonthIndex tok =
     (case find (\<lambda>i. Lower (take 3 tok) = kMonths ! i) [0..<12] of None \<Rightarrow> 0 | Some i \<Rightarrow> int i + 1)"

text \<open>\<^verbatim>\<open>std::stoi\<close>: nothing when it throws.\<close>

definition stoi :: "string \<Rightarrow> int option" where
  "stoi s = (case strtoll s of (v, rest) \<Rightarrow> if rest = c_str s \<or> v < - (2 ^ 31) \<or> v \<ge> 2 ^ 31 then None else Some v)"

definition zone_names :: "(string \<times> int) list" where
  "zone_names = [(''EST'', - 5), (''EDT'', - 4), (''CST'', - 6), (''CDT'', - 5), (''MST'', - 7), (''MDT'', - 6), (''PST'', - 8), (''PDT'', - 7)]"

definition ZoneOffsetSeconds :: "string \<Rightarrow> int option" where
  "ZoneOffsetSeconds z =
     (if z = [] then None
      else if hd z = CHR ''+'' \<or> hd z = CHR ''-'' then
        (let ds = filter isdigit z;
             off = int (digits_val (take 2 ds)) * 3600 + int (digits_val (take 2 (drop 2 ds))) * 60
         in if length ds < 4 then None else Some (if hd z = CHR ''-'' then - off else off))
      else (case map_of zone_names (Upper z) of None \<Rightarrow> Some 0 | Some h \<Rightarrow> Some (h * 3600)))"

fun date_tokens :: "string \<Rightarrow> string \<Rightarrow> string list" where
  "date_tokens cur [] = (if cur = [] then [] else [cur])"
| "date_tokens cur (c # cs) =
     (if isspace c \<or> c = CHR '','' then (if cur = [] then date_tokens [] cs else cur # date_tokens [] cs)
      else date_tokens (cur @ [c]) cs)"

text \<open>The numbers of a clock; a fourth and later ones are ignored, other characters skipped.\<close>

definition clock_values :: "string \<Rightarrow> int list" where
  "clock_values t =
     (let vals = map (\<lambda>part. let ds = filter isdigit part in if ds = [] then 0 else atoi ds) (split_on CHR '':'' t)
      in take 3 (vals @ [0, 0, 0]))"

definition ParseDate :: "string \<Rightarrow> int option" where
  "ParseDate v =
     (let toks = date_tokens [] v in
      case find (\<lambda>i. MonthIndex (toks ! i) \<noteq> 0) [0..<length toks] of
        None \<Rightarrow> None
      | Some mi \<Rightarrow>
          if mi = 0 \<or> mi + 1 \<ge> length toks then None
          else (case (stoi (toks ! (mi - 1)), stoi (toks ! (mi + 1))) of
                  (Some day, Some y) \<Rightarrow>
                    (let year = (if y < 100 then y + (if y < 50 then 2000 else 1900) else y);
                         ti = mi + 2
                     in if ti \<ge> length toks \<or> CHR '':'' \<notin> set (toks ! ti) then None
                        else let t = clock_values (toks ! ti);
                                 offset = (if ti + 1 < length toks
                                           then (case ZoneOffsetSeconds (toks ! (ti + 1)) of None \<Rightarrow> 0 | Some off \<Rightarrow> off) else 0);
                                 days = DaysFromCivil year (MonthIndex (toks ! mi)) day
                             in Some (days * 86400 + t ! 0 * 3600 + t ! 1 * 60 + t ! 2 - offset))
                | _ \<Rightarrow> None))"


section \<open>The day count follows the calendar\<close>

definition valid_date :: "date \<Rightarrow> bool" where
  "valid_date d \<longleftrightarrow> 1 \<le> d_year d \<and> 1 \<le> d_month d \<and> d_month d \<le> 12 \<and> 1 \<le> d_day d
     \<and> d_day d \<le> month_days (d_year d) (d_month d)"

lemma month_days_bounds: "28 \<le> month_days y m" "month_days y m \<le> 31"
  by (simp_all add: month_days_def)

lemma next_day_valid: "valid_date d \<Longrightarrow> valid_date (next_day d)"
  using month_days_bounds [of "d_year d" "d_month d"] month_days_bounds [of "d_year d" "d_month d + 1"]
    month_days_bounds [of "d_year d + 1" 1]
  by (auto simp: valid_date_def next_day_def)

lemma civil_valid: "valid_date (civil n)"
  by (induction n) (simp_all add: next_day_valid, simp add: valid_date_def month_days_def)

text \<open>The days before 1 March of the year \<open>y\<close>, and those before the month in a year that begins in March.\<close>

definition year_days :: "int \<Rightarrow> int" where
  "year_days y = 365 * y + y div 4 - y div 100 + y div 400"

definition month_start :: "int \<Rightarrow> int" where
  "month_start m = (153 * (if m > 2 then m - 3 else m + 9) + 2) div 5"

lemma month_cases: "1 \<le> m \<Longrightarrow> m \<le> 12 \<Longrightarrow> m \<in> {1, 2, 3, 4, 5, 6, 7, 8, 9, 10, 11, 12::int}"
  by simp presburger

lemma DaysFromCivil_valid:
  assumes "1 \<le> y" "1 \<le> m" "m \<le> 12" "1 \<le> d" "d \<le> 31"
  shows "DaysFromCivil y m d = year_days (if m \<le> 2 then y - 1 else y) + month_start m + d - 1 - 719468"
proof -
  define x where "x = (if m \<le> 2 then y - 1 else y)"
  have x: "0 \<le> x" using assms by (simp add: x_def)
  have era: "(if x \<ge> 0 then x else x - 399) sdiv 400 = x div 400" using x by (cases "x = 0") (simp_all add: signed_divide_int_def)
  have yoe: "x - x div 400 * 400 = x mod 400" by (simp add: minus_div_mult_eq_mod)
  have ms: "0 \<le> month_start m" "month_start m \<le> 337"
    using month_cases [OF assms(2,3)] by (auto simp: month_start_def)
  have r: "0 \<le> x mod 400" "x mod 400 < 400" by simp_all
  have power2: "(2::int) ^ 32 = 4294967296" by simp
  have A: "(month_start m + d - 1) mod 2 ^ 32 = month_start m + d - 1" using ms assms by (intro mod_pos_pos_trivial) simp_all
  have B: "(x mod 400 * 365 + x mod 400 div 4 - x mod 400 div 100 + (month_start m + d - 1)) mod 2 ^ 32
      = x mod 400 * 365 + x mod 400 div 4 - x mod 400 div 100 + (month_start m + d - 1)"
  proof (rule mod_pos_pos_trivial)
    have "x mod 400 div 4 \<le> 100" "0 \<le> x mod 400 div 4" "x mod 400 div 100 \<le> 4" "0 \<le> x mod 400 div 100" "x mod 400 div 100 \<le> x mod 400 div 4"
      using r by linarith+
    then show "0 \<le> x mod 400 * 365 + x mod 400 div 4 - x mod 400 div 100 + (month_start m + d - 1)"
      "x mod 400 * 365 + x mod 400 div 4 - x mod 400 div 100 + (month_start m + d - 1) < 2 ^ 32"
      using r ms assms(4,5) power2 by linarith+
  qed
  have C: "x div 400 * 146097 + (x mod 400 * 365 + x mod 400 div 4 - x mod 400 div 100) = year_days x"
  proof -
    define e r where "e = x div 400" and "r = x mod 400"
    have x: "x = 400 * e + r" by (simp add: e_def r_def)
    have "x div 4 = 100 * e + r div 4" "x div 100 = 4 * e + r div 100" "x div 400 = e" unfolding x by (simp_all add: r_def)
    then have "year_days x = 365 * (400 * e + r) + (100 * e + r div 4) - (4 * e + r div 100) + e"
      unfolding year_days_def by (simp add: x)
    then show ?thesis unfolding e_def [symmetric] r_def [symmetric] by simp
  qed
  have e: "(153 * (m + (if m > 2 then - 3 else 9)) + 2) div 5 = month_start m" by (simp add: month_start_def)
  have "DaysFromCivil y m d = year_days x + (month_start m + d - 1) - 719468"
    unfolding DaysFromCivil_def Let_def x_def [symmetric] era yoe e A B C [symmetric] by (simp only: add.assoc)
  then show ?thesis by (simp add: x_def)
qed

lemma div_step: "0 < k \<Longrightarrow> y div k - (y - 1) div k = (if k dvd y then 1 else (0::int))"
proof (cases "k dvd y")
  case True
  assume k: "0 < k"
  obtain q where q: "y = k * q" using True by blast
  have "(k * q - 1) div k = q - 1" using k by (intro int_div_pos_eq [where r = "k - 1"]) (simp_all add: algebra_simps)
  then show ?thesis using k q True by simp
next
  case False
  assume k: "0 < k"
  define q r where "q = y div k" and "r = y mod k"
  have y: "y = k * q + r" by (simp add: q_def r_def)
  have "r \<noteq> 0" using False by (simp add: r_def dvd_eq_mod_eq_0)
  then have r: "0 < r" "r < k" using k pos_mod_sign [OF k, of y] pos_mod_bound [OF k, of y] unfolding r_def by linarith+
  have "(y - 1) div k = q" using k r by (intro int_div_pos_eq [where r = "r - 1"]) (simp_all add: y)
  then show ?thesis using False by (simp add: q_def)
qed

lemma leap_sum:
  "(C \<longrightarrow> B) \<Longrightarrow> (B \<longrightarrow> A) \<Longrightarrow>
   365 + (if A then 1 else 0) - (if B then 1 else 0) + (if C then 1 else 0) = (if A \<and> (\<not> B \<or> C) then 366 else (365::int))"
  by (cases A; cases B; cases C) simp_all

lemma year_days_step: "year_days y = year_days (y - 1) + (if leap_year y then 366 else 365)"
proof -
  have sub: "400 dvd y \<longrightarrow> 100 dvd y" "100 dvd y \<longrightarrow> 4 dvd y"
  proof -
    have "(100::int) dvd 400" "(4::int) dvd 100" by simp_all
    then show "400 dvd y \<longrightarrow> 100 dvd y" "100 dvd y \<longrightarrow> 4 dvd y" using dvd_trans by blast+
  qed
  have steps: "y div 4 - (y - 1) div 4 = (if 4 dvd y then 1 else 0)" "y div 100 - (y - 1) div 100 = (if 100 dvd y then 1 else 0)"
    "y div 400 - (y - 1) div 400 = (if 400 dvd y then 1 else 0)"
    by (rule div_step, simp)+
  have gen: "(365 * y + a - b + c) - (365 * (y - 1) + a' - b' + c') = 365 + (a - a') - (b - b') + (c - c')" for a b c a' b' c' :: int
    by (simp add: algebra_simps)
  have "year_days y - year_days (y - 1)
      = 365 + (y div 4 - (y - 1) div 4) - (y div 100 - (y - 1) div 100) + (y div 400 - (y - 1) div 400)"
    unfolding year_days_def by (rule gen)
  also have "\<dots> = (if leap_year y then 366 else 365)"
    unfolding steps leap_year_def by (rule leap_sum [OF sub])
  finally show ?thesis by simp
qed

lemma DaysFromCivil_next:
  assumes "valid_date d"
  shows "DaysFromCivil (d_year (next_day d)) (d_month (next_day d)) (d_day (next_day d))
    = DaysFromCivil (d_year d) (d_month d) (d_day d) + 1"
proof -
  have bounds: "1 \<le> d_year d" "1 \<le> d_month d" "d_month d \<le> 12" "1 \<le> d_day d" "d_day d \<le> 31"
    "1 \<le> d_year (next_day d)" "1 \<le> d_month (next_day d)" "d_month (next_day d) \<le> 12" "1 \<le> d_day (next_day d)" "d_day (next_day d) \<le> 31"
    using assms next_day_valid [OF assms] month_days_bounds(2) [of "d_year d" "d_month d"]
      month_days_bounds(2) [of "d_year (next_day d)" "d_month (next_day d)"] by (auto simp: valid_date_def)
  have D: "d_day d \<le> month_days (d_year d) (d_month d)" using assms by (simp add: valid_date_def)
  show ?thesis
    unfolding DaysFromCivil_valid [OF bounds(1-5)] DaysFromCivil_valid [OF bounds(6-10)]
    using month_cases [OF bounds(2,3)] D year_days_step [of "d_year d"]
    by (auto simp: next_day_def month_start_def month_days_def)
qed

lemma DaysFromCivil_civil: "DaysFromCivil (d_year (civil n)) (d_month (civil n)) (d_day (civil n)) = int n"
proof (induction n)
  case 0
  show ?case by (simp add: DaysFromCivil_valid year_days_def month_start_def)
next
  case (Suc n)
  then show ?case using DaysFromCivil_next [OF civil_valid [of n]] by simp
qed


section \<open>A written date is read back\<close>

definition word_ok :: "string \<Rightarrow> bool" where
  "word_ok w = (w \<noteq> [] \<and> list_all (\<lambda>c. \<not> isspace c \<and> c \<noteq> CHR '','') w)"

lemma date_tokens_word: "list_all (\<lambda>c. \<not> isspace c \<and> c \<noteq> CHR '','') w \<Longrightarrow> date_tokens cur (w @ s) = date_tokens (cur @ w) s"
  by (induction w arbitrary: cur) simp_all

lemma date_tokens_next:
  "word_ok w \<Longrightarrow> date_tokens [] (w @ CHR '' '' # s) = w # date_tokens [] s"
  "word_ok w \<Longrightarrow> date_tokens [] (w @ CHR '','' # s) = w # date_tokens [] s"
  "word_ok w \<Longrightarrow> date_tokens [] w = [w]" "date_tokens [] (CHR '' '' # s) = date_tokens [] s"
  using date_tokens_word [of w "[]" "[]"] by (auto simp: word_ok_def date_tokens_word isspace_def)

lemma digit_char: "isdigit c \<Longrightarrow> \<not> isspace c \<and> c \<noteq> CHR '','' \<and> c \<noteq> CHR '':'' \<and> c \<noteq> CHR 0x00 \<and> tolower c = c"
  by (auto simp: isdigit_def isspace_def tolower_def)

lemma to_string_digits:
  assumes "0 \<le> i"
  shows "list_all isdigit (to_string i)" "to_string i \<noteq> []"
  using assms digits_of_isdigit by (auto simp: to_string_def list_all_iff)

lemma word_ok_digits: "list_all isdigit w \<Longrightarrow> w \<noteq> [] \<Longrightarrow> word_ok w"
  using digit_char by (auto simp: word_ok_def list_all_iff)

lemma stoi_to_string:
  assumes "0 \<le> i" "i < 2 ^ 31"
  shows "stoi (to_string i) = Some i"
proof -
  have "i < 2 ^ 63" by (rule order_less_trans [OF assms(2)]) simp
  then have v: "strtoll (to_string i) = (i, [])" using strtoll_to_string [of i "[]"] assms(1) by simp
  have "c_str (to_string i) = to_string i"
    using to_string_digits(1) [OF assms(1)] digit_char by (auto simp: c_str_def list_all_iff takeWhile_eq_all_conv)
  then show ?thesis using v to_string_digits(2) [OF assms(1)] assms by (simp add: stoi_def)
qed

lemma month_names: "list_all (\<lambda>n. n \<noteq> [] \<and> \<not> isdigit (hd n)) kMonths" "length kMonths = 12"
  by code_simp+

lemma MonthIndex_digits:
  assumes "list_all isdigit w" "w \<noteq> []"
  shows "MonthIndex w = 0"
proof -
  obtain c cs where w: "w = c # cs" "isdigit c" using assms by (cases w) auto
  have "Lower (take 3 w) \<noteq> kMonths ! i" if "i < 12" for i
  proof -
    have "kMonths ! i \<in> set kMonths" using that month_names(2) by simp
    then have "\<not> isdigit (hd (kMonths ! i))" using month_names(1) unfolding list_all_iff by blast
    moreover have "hd (Lower (take 3 w)) = c" using w digit_char by (simp add: Lower_def numeral_3_eq_3)
    ultimately show ?thesis using w(2) by metis
  qed
  then have "find (\<lambda>i. Lower (take 3 w) = kMonths ! i) [0..<12] = None" by (auto simp: find_None_iff)
  then show ?thesis by (simp add: MonthIndex_def)
qed

lemma day_names: "list_all (\<lambda>w. word_ok w \<and> MonthIndex w = 0) kDay" "length kDay = 7"
  by code_simp+

lemma MonthIndex_names: "list_all (\<lambda>i. word_ok (kMon ! i) \<and> MonthIndex (kMon ! i) = int i + 1) [0..<12]"
  by code_simp

lemma clock_part: "list_all (\<lambda>i. list_all isdigit (two_digits (int i)) \<and> two_digits (int i) \<noteq> [] \<and> atoi (two_digits (int i)) = int i) [0..<60]"
  by code_simp

lemma clock_part_int:
  assumes "0 \<le> i" "i < 60"
  shows "list_all isdigit (two_digits i)" "two_digits i \<noteq> []" "atoi (two_digits i) = i" "filter isdigit (two_digits i) = two_digits i"
proof -
  have "nat i \<in> set [0..<60]" using assms by auto
  then have "list_all isdigit (two_digits (int (nat i))) \<and> two_digits (int (nat i)) \<noteq> [] \<and> atoi (two_digits (int (nat i))) = int (nat i)"
    using clock_part unfolding list_all_iff by blast
  then show *: "list_all isdigit (two_digits i)" "two_digits i \<noteq> []" "atoi (two_digits i) = i" using assms(1) by simp_all
  then show "filter isdigit (two_digits i) = two_digits i" by (simp add: filter_id_conv list_all_iff)
qed

lemma clock_back:
  assumes "0 \<le> h" "h < 60" "0 \<le> m" "m < 60" "0 \<le> s" "s < 60"
  shows "clock_values (two_digits h @ '':'' @ two_digits m @ '':'' @ two_digits s) = [h, m, s]"
proof -
  have free: "CHR '':'' \<notin> set (two_digits i)" if "0 \<le> i" "i < 60" for i
    using clock_part_int(1) [OF that] digit_char by (auto simp: list_all_iff)
  have "split_on CHR '':'' (two_digits h @ '':'' @ two_digits m @ '':'' @ two_digits s) = [two_digits h, two_digits m, two_digits s]"
    using free assms by (simp add: split_on_append) (metis append_Nil2 list.sel(1,3) split_on.simps(1) split_on_append)
  then show ?thesis using clock_part_int assms by (simp add: clock_values_def numeral_3_eq_3)
qed

lemma civil_year: "1970 \<le> d_year (civil n)" "d_year (civil n) \<le> 1970 + int n"
  by (induction n) (auto simp: next_day_def)

lemma ParseDate_tokens:
  assumes "date_tokens [] v = [w, ds, mon, ys, clk, z]" "MonthIndex w = 0" "MonthIndex ds = 0" "MonthIndex mon = m" "m \<noteq> 0"
    and "stoi ds = Some day" "stoi ys = Some y" "100 \<le> y" "CHR '':'' \<in> set clk" "clock_values clk = [h, mi, s]"
    "ZoneOffsetSeconds z = Some off"
  shows "ParseDate v = Some (DaysFromCivil y m day * 86400 + h * 3600 + mi * 60 + s - off)"
proof -
  have len: "length [w, ds, mon, ys, clk, z] = 6" by simp
  have up: "[0..<6] = [0, 1, 2, 3, 4, 5::nat]" by code_simp
  have month: "find (\<lambda>i. MonthIndex ([w, ds, mon, ys, clk, z] ! i) \<noteq> 0) [0..<6] = Some 2"
    unfolding up using assms(2-5) by (simp add: numeral_2_eq_2)
  have nths: "[w, ds, mon, ys, clk, z] ! (2 - 1) = ds" "[w, ds, mon, ys, clk, z] ! (2 + 1) = ys" "[w, ds, mon, ys, clk, z] ! 2 = mon"
    "[w, ds, mon, ys, clk, z] ! (2 + 2) = clk" "[w, ds, mon, ys, clk, z] ! (2 + 2 + 1) = z"
    by (simp_all add: eval_nat_numeral)
  show ?thesis
    unfolding ParseDate_def assms(1) Let_def len month option.case nths assms(6,7,10,11) prod.case assms(4)
    using assms(8,9) by (simp add: numeral_2_eq_2)
qed

text \<open>C15. The date a header is given is the date its reader gets: for every second from 1970 on, over leap years and centuries, the day
  count of the parser is the inverse of the calendar.\<close>

theorem ParseDate_RfcDate:
  assumes "0 < t" "t < 86400 * 2 ^ 30"
  shows "ParseDate (RfcDate now t) = Some t"
proof -
  define days secs where "days = t div 86400" and "secs = t mod 86400"
  define d where "d = civil (nat days)"
  have split: "t = days * 86400 + secs" "0 \<le> secs" "secs < 86400" "0 \<le> days" "days < 2 ^ 30"
    using assms by (auto simp: days_def secs_def)
  have valid: "1 \<le> d_month d" "d_month d \<le> 12" "1 \<le> d_day d" "d_day d \<le> 31"
    using civil_valid [of "nat days"] month_days_bounds(2) [of "d_year d" "d_month d"] by (auto simp: d_def valid_date_def)
  have year: "1970 \<le> d_year d" "d_year d < 2 ^ 31" using civil_year [of "nat days"] split(4,5) by (simp_all add: d_def)
  define wd mon clock where "wd = kDay ! nat ((days + 4) mod 7)" and "mon = kMon ! nat (d_month d - 1)"
    and "clock = two_digits (secs div 3600) @ '':'' @ two_digits (secs div 60 mod 60) @ '':'' @ two_digits (secs mod 60)"
  have "nat ((days + 4) mod 7) < length kDay" using day_names(2) by (simp add: nat_less_iff)
  then have "wd \<in> set kDay" by (simp add: wd_def)
  then have wd: "word_ok wd" "MonthIndex wd = 0" using day_names(1) unfolding list_all_iff by blast+
  have "nat (d_month d - 1) \<in> set [0..<12]" using valid by auto
  then have mon: "word_ok mon" "MonthIndex mon = d_month d"
    using MonthIndex_names valid(1) unfolding list_all_iff mon_def by fastforce+
  have num: "word_ok (to_string i)" if "0 \<le> i" for i using that to_string_digits word_ok_digits by blast
  have h: "0 \<le> secs div 3600" "secs div 3600 < 60" "0 \<le> secs div 60 mod 60" "secs div 60 mod 60 < 60" "0 \<le> secs mod 60" "secs mod 60 < 60"
    using split(2,3) by auto
  have clock: "word_ok clock" "CHR '':'' \<in> set clock"
  proof -
    have w: "word_ok (two_digits i)" if "0 \<le> i" "i < 60" for i using clock_part_int(1,2) [OF that] by (rule word_ok_digits)
    show "word_ok clock"
      using w [OF h(1,2)] w [OF h(3,4)] w [OF h(5,6)] by (simp add: clock_def word_ok_def isspace_def)
    show "CHR '':'' \<in> set clock" by (simp add: clock_def)
  qed
  have zone: "word_ok ''+0000''" "ZoneOffsetSeconds ''+0000'' = Some 0" by code_simp+
  have m12: "(d_month d - 1) mod 12 = d_month d - 1" using valid by simp
  have written: "RfcDate now t = wd @ CHR '','' # CHR '' '' # to_string (d_day d) @ CHR '' '' # mon @ CHR '' '' # to_string (d_year d)
      @ CHR '' '' # clock @ CHR '' '' # ''+0000''"
    using assms(1) by (simp add: RfcDate_def Let_def days_def [symmetric] secs_def [symmetric] d_def [symmetric] wd_def mon_def clock_def m12)
  have toks: "date_tokens [] (RfcDate now t) = [wd, to_string (d_day d), mon, to_string (d_year d), clock, ''+0000'']"
    unfolding written using wd mon clock zone num valid year by (simp only: date_tokens_next)
  have "MonthIndex (to_string (d_day d)) = 0" using to_string_digits valid by (intro MonthIndex_digits) auto
  then have "ParseDate (RfcDate now t) =
      Some (DaysFromCivil (d_year d) (d_month d) (d_day d) * 86400 + secs div 3600 * 3600 + secs div 60 mod 60 * 60 + secs mod 60 - 0)"
    using year valid zone(2) clock(2) wd(2) mon(2) clock_back [OF h, folded clock_def]
    by (intro ParseDate_tokens [OF toks]) (simp_all add: stoi_to_string)
  moreover have "DaysFromCivil (d_year d) (d_month d) (d_day d) = days"
    using DaysFromCivil_civil [of "nat days"] split(4) by (simp add: d_def)
  moreover have "secs div 3600 * 3600 + secs div 60 mod 60 * 60 + secs mod 60 = secs"
  proof -
    have "secs div 3600 = secs div 60 div 60" using zdiv_zmult2_eq [of 60 secs 60] by simp
    moreover have "s = q * 60 + r \<Longrightarrow> q = h * 60 + m \<Longrightarrow> h * 3600 + m * 60 + r = s" for s q r h m :: int by simp
    ultimately show ?thesis by (metis div_mult_mod_eq)
  qed
  ultimately show ?thesis using split(1) by (simp add: add.assoc)
qed

theorem ParseDate_RfcDate_witness: "ParseDate (RfcDate 0 951782400) = Some 951782400"
  by (rule ParseDate_RfcDate) simp_all

end
