(* ===== verification/Spec2Isabelle.thy ===== *)
theory Spec2Isabelle
  imports QM_MimeCodec QM_Wildmat QM_XModem QM_Psl QM_Spf QM_Dmarc QM_MailPolicy QM_Expiry QM_SieveRules QM_Pop3 QM_Cards QM_MimeBuild QM_Dates
begin

text \<open>
  QuackCit is a groupware server whose data lives in DuckDB tables: rooms on floors hold messages, and
  telnet, SMTP, POP3, IMAP, NNTP, web and Citadel front-ends work on the same tables. This development
  models the core of it, \<^verbatim>\<open>src/core/src\<close>, and the front-ends that have state of their own, as executable
  functions, and proves what makes them correct.

  \<^bold>\<open>Conventions.\<close> A \<^verbatim>\<open>std::string\<close> is a list of bytes (\<^typ>\<open>string\<close>), a C++ struct a record, an enumeration a
  datatype, an out parameter or a thrown error a component of the result. \<^verbatim>\<open>char\<close> is signed where the code
  compares plain characters. Integers are \<^typ>\<open>int\<close> or \<^typ>\<open>nat\<close> where the code cannot leave their range, words
  where it can (base64, checksums, flags of rooms and users, IPv4 masks). A definition has the name of its
  function; where it has none, its \<^verbatim>\<open>map\<close> entry names the function it is a part of. Tables are lists of rows
  in insertion order; the SQL the sources send is the operations of \<open>QM_Tables\<close>. A statement may fail: the
  field \<open>faults\<close> of the store is the list of the verdicts of the statements to come (\<^const>\<open>True\<close>: this one
  fails), and statements past its end succeed, so a theorem over all stores covers every pattern of failures.

  \<^bold>\<open>Theories and sources.\<close>
  \<^item> \<open>QM_Prelude\<close>: characters, ASCII case, searching and splitting of strings, decimal and hexadecimal numbers.
  \<^item> \<open>QM_Tables\<close>: tables with keys; the contract of a keyed table is a locale.
  \<^item> \<open>QM_Base64\<close> (\<^verbatim>\<open>util.cpp\<close>), \<open>QM_MimeCodec\<close> (\<^verbatim>\<open>mime_codec.cpp\<close>): base64, quoted-printable, encoded words;
    round trips on all byte strings, line lengths, agreement with RFC 4648.
  \<^item> \<open>QM_Mime\<close> (\<^verbatim>\<open>mime_entity.cpp\<close>), \<open>QM_Rfc5322\<close> (\<^verbatim>\<open>mime.cpp\<close>, the addresses of \<^verbatim>\<open>rfc5322.cpp\<close>), \<open>QM_CitMsg\<close>
    (\<^verbatim>\<open>citadel_msg.cpp\<close>): header values, header blocks, the tree of parts, address lists, and the RFC 822 form of a
    stored message; an object wrapped into a message is read back from it. \<open>QM_MimeBuild\<close> (\<^verbatim>\<open>mime_build.cpp\<close>): messages made of
    headers and parts; no header can be injected, attachments are read back. \<open>QM_Dates\<close> (\<^verbatim>\<open>RfcDate\<close> of \<^verbatim>\<open>util.cpp\<close>,
    \<^verbatim>\<open>ParseDate\<close> of \<^verbatim>\<open>rfc5322.cpp\<close>): the dates of headers, written and read back.
  \<^item> \<open>QM_Wildmat\<close> (\<^verbatim>\<open>wildmat.cpp\<close>): the matcher refines a declarative meaning of patterns.
  \<^item> \<open>QM_Telnet\<close> (\<^verbatim>\<open>telnet.cpp\<close>), \<open>QM_XModem\<close> (\<^verbatim>\<open>telnet/src/xmodem.cpp\<close>): option negotiation, line input, the pager, raw
    bytes, and file transfer in both directions over them.
  \<^item> \<open>QM_Psl\<close>, \<open>QM_Spf\<close>, \<open>QM_Dmarc\<close>, \<open>QM_MailPolicy\<close> (\<^verbatim>\<open>psl.cpp\<close>, \<^verbatim>\<open>spf.cpp\<close>, \<^verbatim>\<open>dmarc.cpp\<close>, \<^verbatim>\<open>mailpolicy.cpp\<close>): what the
    site thinks of a sender. The resolver, \<^verbatim>\<open>inet_pton\<close> and the verdicts of DKIM are arguments.
  \<^item> \<open>QM_Store\<close>, \<open>QM_Access\<close>, \<open>QM_Messages\<close>, \<open>QM_Expiry\<close> (\<^verbatim>\<open>citadel_store.cpp\<close>, \<^verbatim>\<open>quota.cpp\<close>): the record \<open>store\<close> holds the
    tables of users, floors, rooms, room states, access entries, messages, room pointers, tombstones, flags,
    configuration and the sequences behind the numbers. Operations in the order of the code: accounts, rooms and
    their creation, rights, insertion of messages in one transaction, deletion, moving, the changes of a room since
    a token, quotas, expiry. The invariant \<open>store_ok\<close> (unique keys, numbers below their sequences, no pointer
    without its message, no tombstone from the future) is kept by every operation under every pattern of failures.
  \<^item> \<open>QM_Myers\<close>, \<open>QM_Diff\<close> (\<^verbatim>\<open>diff.cpp\<close>), \<open>QM_Wiki\<close> (\<^verbatim>\<open>wiki.cpp\<close>): the shortest edit script, unified diffs, their parser and
    application, and the history of wiki pages as a message of reverse patches.
  \<^item> \<open>QM_SieveLex\<close>, \<open>QM_SieveParse\<close>, \<open>QM_SieveMatch\<close>, \<open>QM_SieveEval\<close>, \<open>QM_SieveRules\<close> (\<^verbatim>\<open>sieve.cpp\<close>): the mail filter
    language from its characters to the actions of a message, and the view of scripts as rules.
  \<^item> \<open>QM_Contentline\<close> (\<^verbatim>\<open>contentline.cpp\<close>), \<open>QM_Cards\<close> (\<^verbatim>\<open>vcard.cpp\<close>, \<^verbatim>\<open>vnote.cpp\<close>): folded lines, escapes and parameters, contact
    cards and notes; what is written is read back.
  \<^item> \<open>QM_Auth\<close> (\<^verbatim>\<open>auth.cpp\<close>), \<open>QM_Pop3\<close> (\<^verbatim>\<open>pop3/src\<close>): passwords with their upgrade on sign-in, and the POP3 session as a
    fold over the lines of the client, on the store.

  \<^bold>\<open>Interfaces.\<close> \<open>keyed_table\<close> (an update keeps the key of its row) is interpreted on the tables of the policy and
  of the store; \<open>store_inv\<close> (what a statement of the store has to keep, so that whole operations keep it) on \<open>store_ok\<close> and its
  refinements; \<open>script_invariant\<close> (what every simple action of a script keeps) on four invariants of the runner of a
  script; \<open>text_codec\<close> on both base64 alphabets; \<open>subneg_steps\<close> up to \<open>page_steps\<close>, each extending the one before, on
  what the reads of a telnet session keep; \<open>bounded_sub\<close> on the nested evaluations of SPF.

  \<^bold>\<open>Loops and bounds.\<close> Loops are structural recursion on their input or have a proved measure: base64 flushes count
  down their bits, reads of a session its unread bytes, the diagonals of the edit graph the distance to its end,
  the backfill of sizes the rows not yet measured. Fuel appears where the source itself has a bound: SPF evaluates
  at depth at most \<open>kMaxDepth + 1\<close>; \<open>DrainInput\<close> reads 4096 bytes; a pattern of a script takes 2,000,000 steps,
  its variables are at most 128 of 4096 bytes; a page has 2000 revisions; line numbers of a patch are read up to
  \<open>2 ^ 40\<close>. The parser of scripts needs none: its functions are total because each consumes tokens.

  \<^bold>\<open>Not modelled.\<close>
  \<^item> Sockets, TLS, threads, the listeners and their controls: the sessions see the lines a client sends.
  \<^item> OpenSSL (hashes, key derivation, DKIM and ACME signatures, SSH ciphers) and the DNS resolver: arguments.
  \<^item> DuckDB itself: types of columns, its time arithmetic beyond whole seconds, concurrent transactions.
  \<^item> The generated tables: the public suffix rules are an argument; the time zones and web assets are not used.
  \<^item> Calendars and scheduling (\<^verbatim>\<open>ical.cpp\<close>, \<^verbatim>\<open>itip.cpp\<close>, \<^verbatim>\<open>caldav_filter.cpp\<close>, \<^verbatim>\<open>tz.cpp\<close>): the store keeps such an object as a text with an identifier.
  \<^item> The front-ends that are menus, pages or protocol verbs over the operations above: web, WebDAV, JMAP, IMAP, NNTP,
    XMPP, FTP, ManageSieve, the Citadel protocol, the telnet shell.
  \<^item> Mailing lists, remote fetching, and the readers and writers of JSON, XML, HTML, Markdown and feeds.
\<close>

end
